(* ===== verification/Prelude.thy ===== *)
theory Prelude
  imports Main "HOL-Library.Word"
begin

text \<open>
  Shared vocabulary of the development: the error type of \<open>src/src/error.rs\<close>, the result
  type and its early return, the integer operations of the Rust standard library that the
  driver uses (checked, saturating and wrapping arithmetic on fixed widths), and the
  theorem collections the component theories feed.

  A Rust \<open>u8\<close>, \<open>u16\<close>, \<open>u32\<close> or \<open>u64\<close> is a word of that width; \<open>usize\<close> values that are
  lengths or indices of buffers in memory are natural numbers. An operator \<open>+\<close>, \<open>-\<close> or \<open>*\<close>
  on words wraps, as it does in the release profile the crate ships.
\<close>

unbundle bit_operations_syntax

type_synonym u8 = "8 word"
type_synonym u16 = "16 word"
type_synonym u32 = "32 word"
type_synonym u64 = "64 word"
type_synonym bytes = "u8 list"

named_theorems res_simps \<open>inversion of results: when a computation returns a value\<close>
named_theorems byte_simps \<open>reading back bytes that were written\<close>
named_theorems const_defs \<open>numeric constants of the on-disk format\<close>

section \<open>Errors and results\<close>

text \<open>
  \<open>error.rs\<close>, \<open>enum Error\<close>. A message is kept as the fixed part of its text: the values the
  source interpolates into it are for a reader of a log and nothing branches on them.
  \<open>Panic\<close> is not a variant of the source. It is the outcome of the model where the Rust code
  would stop with a panic (an index out of range, a division by zero, an \<open>expect\<close> that fails),
  so that the absence of panics is a theorem and not an assumption.
\<close>

datatype error =
    Io string
  | NotBtrfs bytes
  | BadSuperblock string
  | ChecksumMismatch string u64
  | UnsupportedChecksum u16
  | BlockIdentityMismatch string u64 u64
  | UnsupportedFeature string
  | BadChunkItem string
  | UnmappedLogical u64
  | UnsupportedProfile string
  | DirtyLog
  | NotFound
  | NotADirectory
  | NotAFile
  | ReadOnly
  | Stale u64 u64
  | InvalidGeometry string
  | Panic string

type_synonym 'a result = "error + 'a"

abbreviation Ok :: "'a \<Rightarrow> 'a result" where
  "Ok \<equiv> Inr"

abbreviation Err :: "error \<Rightarrow> 'a result" where
  "Err \<equiv> Inl"

text \<open>The \<open>?\<close> operator: an error is returned at once, a value is passed on.\<close>

definition try_in :: "'a result \<Rightarrow> ('a \<Rightarrow> 'b result) \<Rightarrow> 'b result" where
  "try_in r f = (case r of Inl e \<Rightarrow> Inl e | Inr x \<Rightarrow> f x)"

lemma try_in_Ok [simp]: "try_in (Ok x) f = f x"
  by (simp add: try_in_def)

lemma try_in_Err [simp]: "try_in (Err e) f = Err e"
  by (simp add: try_in_def)

lemma try_in_eq_Ok [res_simps]: "try_in r f = Ok y \<longleftrightarrow> (\<exists>x. r = Ok x \<and> f x = Ok y)"
  by (cases r) (auto simp: try_in_def)

lemma try_in_eq_Err: "try_in r f = Err e \<longleftrightarrow> r = Err e \<or> (\<exists>x. r = Ok x \<and> f x = Err e)"
  by (cases r) (auto simp: try_in_def)

lemma try_in_cong [fundef_cong]:
  "r = r' \<Longrightarrow> (\<And>x. r' = Ok x \<Longrightarrow> f x = f' x) \<Longrightarrow> try_in r f = try_in r' f'"
  by (cases r') (auto simp: try_in_def)

lemma if_Err_eq_Ok [res_simps]:
  "(if c then Err e else r) = Ok y \<longleftrightarrow> \<not> c \<and> r = Ok y"
  by simp

definition is_ok :: "'a result \<Rightarrow> bool" where
  "is_ok r = (case r of Inl _ \<Rightarrow> False | Inr _ \<Rightarrow> True)"

lemma is_ok_simps [simp]: "is_ok (Ok x)" "\<not> is_ok (Err e)"
  by (simp_all add: is_ok_def)

lemma is_ok_iff: "is_ok r \<longleftrightarrow> (\<exists>x. r = Ok x)"
  by (cases r) auto

text \<open>\<open>ok_or\<close> and \<open>map_err\<close>.\<close>

definition ok_or :: "error \<Rightarrow> 'a option \<Rightarrow> 'a result" where
  "ok_or e x = (case x of None \<Rightarrow> Err e | Some v \<Rightarrow> Ok v)"

lemma ok_or_simps [simp]: "ok_or e None = Err e" "ok_or e (Some v) = Ok v"
  by (simp_all add: ok_or_def)

lemma ok_or_eq_Ok [res_simps]: "ok_or e x = Ok y \<longleftrightarrow> x = Some y"
  by (cases x) (auto simp: ok_or_def)

lemma ok_or_eq_Err: "ok_or e x = Err e' \<longleftrightarrow> x = None \<and> e' = e"
  by (cases x) (auto simp: ok_or_def)

definition map_err :: "(error \<Rightarrow> error) \<Rightarrow> 'a result \<Rightarrow> 'a result" where
  "map_err f r = (case r of Inl e \<Rightarrow> Inl (f e) | Inr x \<Rightarrow> Inr x)"

lemma map_err_simps [simp]: "map_err f (Ok x) = Ok x" "map_err f (Err e) = Err (f e)"
  by (simp_all add: map_err_def)

lemma map_err_eq_Ok [res_simps]: "map_err f r = Ok y \<longleftrightarrow> r = Ok y"
  by (cases r) auto

text \<open>\<open>iter().map(f).collect::<Result<Vec<_>>>()\<close>: the first error ends the collection.\<close>

fun collect_results :: "('a \<Rightarrow> 'b result) \<Rightarrow> 'a list \<Rightarrow> 'b list result" where
  "collect_results f [] = Ok []"
| "collect_results f (x # xs) =
     try_in (f x) (\<lambda>y. try_in (collect_results f xs) (\<lambda>ys. Ok (y # ys)))"

lemma collect_results_eq_Ok:
  "collect_results f xs = Ok ys \<longleftrightarrow> list_all2 (\<lambda>x y. f x = Ok y) xs ys"
proof (induction xs arbitrary: ys)
  case Nil
  show ?case by auto
next
  case (Cons x xs)
  show ?case
    by (cases ys) (auto simp: try_in_eq_Ok Cons.IH)
qed

lemma collect_results_map:
  "(\<And>x. x \<in> set xs \<Longrightarrow> f x = Ok (g x)) \<Longrightarrow> collect_results f xs = Ok (map g xs)"
  by (induction xs) auto

lemma collect_results_Err:
  "collect_results f xs = Err e \<Longrightarrow> \<exists>x\<in>set xs. f x = Err e"
  by (induction xs) (auto simp: try_in_eq_Err)

section \<open>Integers of fixed width\<close>

definition checked_add :: "'a::len word \<Rightarrow> 'a word \<Rightarrow> 'a word option" where
  "checked_add a b = (if unat a + unat b < 2 ^ LENGTH('a) then Some (a + b) else None)"

definition checked_sub :: "'a::len word \<Rightarrow> 'a word \<Rightarrow> 'a word option" where
  "checked_sub a b = (if b \<le> a then Some (a - b) else None)"

definition checked_mul :: "'a::len word \<Rightarrow> 'a word \<Rightarrow> 'a word option" where
  "checked_mul a b = (if unat a * unat b < 2 ^ LENGTH('a) then Some (a * b) else None)"

definition saturating_add :: "'a::len word \<Rightarrow> 'a word \<Rightarrow> 'a word" where
  "saturating_add a b = (if unat a + unat b < 2 ^ LENGTH('a) then a + b else - 1)"

definition saturating_sub :: "'a::len word \<Rightarrow> 'a word \<Rightarrow> 'a word" where
  "saturating_sub a b = (if b \<le> a then a - b else 0)"

lemma unat_add_small:
  fixes a b :: "'a::len word"
  assumes "unat a + unat b < 2 ^ LENGTH('a)"
  shows "unat (a + b) = unat a + unat b"
  using assms by (simp add: unat_word_ariths)

lemma unat_mult_small:
  fixes a b :: "'a::len word"
  assumes "unat a * unat b < 2 ^ LENGTH('a)"
  shows "unat (a * b) = unat a * unat b"
  using assms by (simp add: unat_word_ariths)

lemma unat_sub_le:
  fixes a b :: "'a::len word"
  assumes "b \<le> a"
  shows "unat (a - b) = unat a - unat b"
  using assms by (rule unat_sub)

lemma checked_add_Some:
  "checked_add a b = Some c \<longleftrightarrow> c = a + b \<and> unat a + unat b < 2 ^ LENGTH('a)"
  for a b c :: "'a::len word"
  by (auto simp: checked_add_def)

lemma checked_add_None:
  "checked_add a b = None \<longleftrightarrow> 2 ^ LENGTH('a) \<le> unat a + unat b"
  for a b :: "'a::len word"
  by (auto simp: checked_add_def not_less)

lemma checked_mul_Some:
  "checked_mul a b = Some c \<longleftrightarrow> c = a * b \<and> unat a * unat b < 2 ^ LENGTH('a)"
  for a b c :: "'a::len word"
  by (auto simp: checked_mul_def)

lemma checked_sub_Some:
  "checked_sub a b = Some c \<longleftrightarrow> c = a - b \<and> b \<le> a"
  for a b c :: "'a::len word"
  by (auto simp: checked_sub_def)

lemma unat_saturating_add:
  "unat (saturating_add a b) = min (unat a + unat b) (2 ^ LENGTH('a) - 1)"
  for a b :: "'a::len word"
proof -
  have m1: "unat (- 1 :: 'a word) = 2 ^ LENGTH('a) - 1"
    by (simp add: unsigned_minus_1_eq_mask mask_eq_exp_minus_1)
  show ?thesis
    by (auto simp: saturating_add_def unat_add_small m1 not_less)
qed

lemma unat_saturating_sub:
  "unat (saturating_sub a b) = unat a - unat b"
  for a b :: "'a::len word"
  by (auto simp: saturating_sub_def unat_sub_le word_le_nat_alt not_le)

lemma unat_div_word: "unat (a div b) = unat a div unat b" for a b :: "'a::len word"
  by (rule unat_div)

lemma unat_mod_word: "unat (a mod b) = unat a mod unat b" for a b :: "'a::len word"
  by (rule unat_mod)

text \<open>\<open>is_multiple_of\<close>, \<open>is_power_of_two\<close>, \<open>count_ones\<close>, \<open>next_multiple_of\<close>.\<close>

definition is_multiple_of :: "'a::len word \<Rightarrow> 'a word \<Rightarrow> bool" where
  "is_multiple_of a b = (if b = 0 then a = 0 else a mod b = 0)"

lemma is_multiple_of_iff: "is_multiple_of a b \<longleftrightarrow> unat b dvd unat a"
proof (cases "b = 0")
  case True
  then show ?thesis by (simp add: is_multiple_of_def unat_eq_0)
next
  case False
  have "a mod b = 0 \<longleftrightarrow> unat (a mod b) = 0"
    by (simp only: unat_eq_0)
  then show ?thesis
    using False by (simp only: is_multiple_of_def unat_mod_word dvd_eq_mod_eq_0 if_False)
qed

definition is_power_of_two :: "'a::len word \<Rightarrow> bool" where
  "is_power_of_two a = (\<exists>k\<in>set [0..<LENGTH('a)]. a = push_bit k 1)"

lemma is_power_of_two_unat:
  "is_power_of_two a \<Longrightarrow> \<exists>k < LENGTH('a). unat a = 2 ^ k" for a :: "'a::len word"
proof -
  assume "is_power_of_two a"
  then obtain k where k: "k < LENGTH('a)" "a = 2 ^ k"
    by (auto simp: is_power_of_two_def push_bit_eq_mult)
  then have "unat a = 2 ^ k"
    by (simp add: of_nat_inverse)
  with k(1) show ?thesis by blast
qed

definition count_ones :: "'a::len word \<Rightarrow> nat" where
  "count_ones w = length (filter (bit w) [0..<LENGTH('a)])"

text \<open>
  Rounding up to a multiple: the remainder's complement is added with the wrap-around of the
  release profile. A zero divisor panics in the source; every caller passes a node or
  sector size that the superblock check has found to be a power of two.
\<close>

definition next_multiple_of :: "'a::len word \<Rightarrow> 'a word \<Rightarrow> 'a word" where
  "next_multiple_of a b = (if a mod b = 0 then a else a + (b - a mod b))"

lemma unat_next_multiple_of:
  fixes a b :: "'a::len word"
  assumes "0 < unat b" and "unat a + unat b \<le> 2 ^ LENGTH('a)"
  shows "unat a \<le> unat (next_multiple_of a b)"
    and "unat b dvd unat (next_multiple_of a b)"
    and "unat (next_multiple_of a b) < unat a + unat b"
proof -
  let ?r = "unat a mod unat b"
  have r: "?r < unat b" using assms(1) by simp
  have le: "a mod b \<le> b" using r by (simp add: word_le_nat_alt unat_mod_word)
  have d: "unat (b - a mod b) = unat b - ?r"
    using le by (simp add: unat_sub_le unat_mod_word)
  have z: "a mod b = 0 \<longleftrightarrow> ?r = 0"
    by (simp add: unat_eq_0 flip: unat_mod_word)
  have s: "unat (a + (b - a mod b)) = unat a + (unat b - ?r)" if "?r \<noteq> 0"
    using that assms(2) r by (subst unat_add_small) (auto simp: d)
  have dv: "unat b dvd unat a + (unat b - ?r)"
  proof -
    have "unat a + (unat b - ?r) = unat b * (unat a div unat b) + unat b"
      using r mult_div_mod_eq[of "unat b" "unat a"] by linarith
    then show ?thesis by simp
  qed
  have u: "unat (next_multiple_of a b) = (if ?r = 0 then unat a else unat a + (unat b - ?r))"
    using s by (simp add: next_multiple_of_def z)
  show "unat a \<le> unat (next_multiple_of a b)"
    unfolding u by simp
  show "unat b dvd unat (next_multiple_of a b)"
    unfolding u using dv by (simp add: dvd_eq_mod_eq_0)
  show "unat (next_multiple_of a b) < unat a + unat b"
    unfolding u using assms(1) by simp
qed

text \<open>\<open>div_ceil\<close>; a zero divisor panics in the source and every caller passes a positive one.\<close>

definition div_ceil :: "'a::len word \<Rightarrow> 'a word \<Rightarrow> 'a word" where
  "div_ceil a b = (if a mod b = 0 then a div b else a div b + 1)"

lemma unat_div_ceil:
  fixes a b :: "'a::len word"
  assumes "0 < unat b"
  shows "unat (div_ceil a b) = (unat a + (unat b - 1)) div unat b"
proof -
  let ?q = "unat a div unat b" and ?r = "unat a mod unat b"
  have a: "unat a = ?q * unat b + ?r" by simp
  have r: "?r < unat b" using assms by simp
  have z: "a mod b = 0 \<longleftrightarrow> ?r = 0" by (simp add: unat_eq_0 flip: unat_mod_word)
  have "(unat a + (unat b - 1)) div unat b = ((?r + (unat b - 1)) + ?q * unat b) div unat b"
    by (subst a) (simp add: algebra_simps)
  also have "\<dots> = ?q + (?r + (unat b - 1)) div unat b"
    using assms by (subst div_mult_self1) auto
  also have "(?r + (unat b - 1)) div unat b = (if ?r = 0 then 0 else 1)"
  proof (cases "?r = 0")
    case False
    then have "?r + (unat b - 1) = (?r - 1) + unat b" using assms by simp
    moreover have "((?r - 1) + unat b) div unat b = 1"
    proof -
      have "(?r - 1) div unat b = 0" using r by (intro div_less) linarith
      then show ?thesis using assms by (subst div_add_self2) simp_all
    qed
    ultimately show ?thesis using False by simp
  qed (use assms in simp)
  finally have n: "(unat a + (unat b - 1)) div unat b = ?q + (if ?r = 0 then 0 else 1)" .
  have "unat (a div b + 1) = ?q + 1" if "?r \<noteq> 0"
  proof -
    have "?q + 1 \<le> unat a"
    proof -
      have "?q \<le> ?q * unat b" using assms by simp
      moreover have "0 < ?r" using that by simp
      ultimately show ?thesis using a by linarith
    qed
    then have "?q + 1 < 2 ^ LENGTH('a)" using unsigned_less [of a, where 'a = nat] by linarith
    then show ?thesis by (subst unat_add_small) (auto simp: unat_div_word)
  qed
  then show ?thesis using n by (cases "?r = 0") (simp_all add: div_ceil_def z unat_div_word)
qed

end
