(* ===== verification/Bytes.thy ===== *)
theory Bytes
  imports Prelude
begin

text \<open>
  Byte buffers. A \<open>&[u8]\<close> is a list of bytes; \<open>&buf[a..b]\<close> is \<open>slice a (b - a) buf\<close>,
  \<open>buf[a..b].copy_from_slice(src)\<close> is \<open>put_at a src buf\<close>, and the little-endian readers
  \<open>le16\<close>, \<open>le32\<close>, \<open>le64\<close>, \<open>uuid_at\<close> of \<open>src/src/superblock.rs\<close> and the writer \<open>put64\<close>
  of \<open>src/src/super_write.rs\<close> are defined over them. These are total: what they give past the end of a
  buffer is no value of the source, where the index panics, and they are used only behind a check
  of the buffer's length. \<open>get_le64\<close> and its siblings below are the readers with the panic.
\<close>

definition slice :: "nat \<Rightarrow> nat \<Rightarrow> 'a list \<Rightarrow> 'a list" where
  "slice off n xs = take n (drop off xs)"

definition put_at :: "nat \<Rightarrow> 'a list \<Rightarrow> 'a list \<Rightarrow> 'a list" where
  "put_at off ys xs = take off xs @ ys @ drop (off + length ys) xs"

lemma length_slice [simp]: "length (slice off n xs) = min n (length xs - off)"
  by (simp add: slice_def)

lemma nth_slice: "i < n \<Longrightarrow> off + i < length xs \<Longrightarrow> slice off n xs ! i = xs ! (off + i)"
  by (simp add: slice_def)

lemma slice_0_full: "length xs \<le> n \<Longrightarrow> slice 0 n xs = xs"
  by (simp add: slice_def)

lemma slice_slice: "a + n \<le> m \<Longrightarrow> slice a n (slice off m xs) = slice (off + a) n xs"
  by (rule nth_equalityI) (auto simp: nth_slice add.assoc)

lemma slice_drop: "slice a n (drop off xs) = slice (off + a) n xs"
  by (simp add: slice_def add.commute)

lemma slice_append_left: "off + n \<le> length xs \<Longrightarrow> slice off n (xs @ ys) = slice off n xs"
  by (simp add: slice_def)

lemma slice_append_right:
  "length xs \<le> off \<Longrightarrow> slice off n (xs @ ys) = slice (off - length xs) n ys"
  by (simp add: slice_def)

lemma slice_0_append: "length xs = n \<Longrightarrow> slice 0 n (xs @ ys) = xs"
  by (simp add: slice_def)

lemma take_slice: "take n (slice off m xs) = slice off (min n m) xs"
  by (simp add: slice_def)

lemma length_put_at [simp]:
  "off + length ys \<le> length xs \<Longrightarrow> length (put_at off ys xs) = length xs"
  by (simp add: put_at_def)

lemma nth_put_at:
  assumes "off + length ys \<le> length xs" and "i < length xs"
  shows "put_at off ys xs ! i = (if off \<le> i \<and> i < off + length ys then ys ! (i - off) else xs ! i)"
  using assms by (auto simp: put_at_def nth_append)

lemma slice_put_same [byte_simps]:
  "off \<le> length xs \<Longrightarrow> length ys = n \<Longrightarrow> slice off n (put_at off ys xs) = ys"
  by (simp add: slice_def put_at_def)

lemma slice_put_inside:
  "off \<le> length xs \<Longrightarrow> off \<le> a \<Longrightarrow> a + n \<le> off + length ys \<Longrightarrow>
   slice a n (put_at off ys xs) = slice (a - off) n ys"
  by (simp add: slice_def put_at_def min_def)

lemma slice_put_disjoint [byte_simps]:
  assumes "a + n \<le> off \<or> off + length ys \<le> a" and "off + length ys \<le> length xs"
  shows "slice a n (put_at off ys xs) = slice a n xs"
proof (rule nth_equalityI)
  show l: "length (slice a n (put_at off ys xs)) = length (slice a n xs)"
    using assms by simp
  fix i
  assume "i < length (slice a n (put_at off ys xs))"
  then show "slice a n (put_at off ys xs) ! i = slice a n xs ! i"
    using assms by (auto simp: nth_slice nth_put_at)
qed

lemma nth_put_same [byte_simps]:
  "off < length xs \<Longrightarrow> put_at off [b] xs ! off = b"
  by (simp add: put_at_def nth_append)

lemma nth_put_disjoint [byte_simps]:
  "i < off \<or> off + length ys \<le> i \<Longrightarrow> off + length ys \<le> length xs \<Longrightarrow> i < length xs \<Longrightarrow>
   put_at off ys xs ! i = xs ! i"
  by (auto simp: nth_put_at)

lemma put_at_nth: "off < length xs \<Longrightarrow> put_at off [b] xs = xs[off := b]"
  by (simp add: put_at_def upd_conv_take_nth_drop)

section \<open>Little-endian integers\<close>

fun le_nat :: "bytes \<Rightarrow> nat" where
  "le_nat [] = 0"
| "le_nat (b # bs) = unat b + 256 * le_nat bs"

fun to_le :: "nat \<Rightarrow> nat \<Rightarrow> bytes" where
  "to_le 0 v = []"
| "to_le (Suc n) v = of_nat v # to_le n (v div 256)"

lemma length_to_le [simp]: "length (to_le n v) = n"
  by (induction n arbitrary: v) auto

lemma unat_lt_256: "unat (b :: u8) < 256"
  using unsigned_less [of b] by simp

lemma unat_u64: "unat (v :: u64) < 18446744073709551616"
  and unat_u32: "unat (w :: u32) < 4294967296"
  and unat_u16: "unat (h :: u16) < 65536"
  using unsigned_less [of v, where 'a = nat] unsigned_less [of w, where 'a = nat]
    unsigned_less [of h, where 'a = nat] by simp_all

lemma le_nat_bound: "le_nat bs < 256 ^ length bs"
proof (induction bs)
  case Nil
  show ?case by simp
next
  case (Cons b bs)
  then show ?case using unat_lt_256 [of b] by simp
qed

lemma unat_of_nat_u8: "unat (of_nat v :: u8) = v mod 256"
  by (simp add: unat_of_nat)

lemma le_nat_to_le: "le_nat (to_le n v) = v mod 256 ^ n"
proof (induction n arbitrary: v)
  case 0
  show ?case by simp
next
  case (Suc n)
  then show ?case
    by (simp add: unat_of_nat_u8 mod_mult2_eq)
qed

lemma to_le_le_nat: "length bs = n \<Longrightarrow> to_le n (le_nat bs) = bs"
proof (induction bs arbitrary: n)
  case Nil
  then show ?case by simp
next
  case (Cons b bs)
  have "of_nat (unat b + 256 * le_nat bs) = b"
    using unat_lt_256 [of b] by (simp only: word_unat_eq_iff unat_of_nat_u8) simp
  moreover have "(unat b + 256 * le_nat bs) div 256 = le_nat bs"
    using unat_lt_256 [of b] by simp
  ultimately show ?case
    using Cons by (cases n) auto
qed

definition le16 :: "bytes \<Rightarrow> nat \<Rightarrow> u16" where
  "le16 b off = of_nat (le_nat (slice off 2 b))"

definition le32 :: "bytes \<Rightarrow> nat \<Rightarrow> u32" where
  "le32 b off = of_nat (le_nat (slice off 4 b))"

definition le64 :: "bytes \<Rightarrow> nat \<Rightarrow> u64" where
  "le64 b off = of_nat (le_nat (slice off 8 b))"

definition uuid_at :: "bytes \<Rightarrow> nat \<Rightarrow> bytes" where
  "uuid_at b off = slice off 16 b"

text \<open>The same reads with the panic of an index past the end, and \<open>&buf[a..a + n]\<close> and \<open>&buf[a..]\<close>.\<close>

definition out_of_range :: error where
  "out_of_range = Panic ''range end index out of range for slice''"

definition get_slice :: "nat \<Rightarrow> nat \<Rightarrow> 'a list \<Rightarrow> 'a list result" where
  "get_slice off n xs = (if off + n \<le> length xs then Ok (slice off n xs) else Err out_of_range)"

definition get_from :: "nat \<Rightarrow> 'a list \<Rightarrow> 'a list result" where
  "get_from off xs = (if off \<le> length xs then Ok (drop off xs) else Err out_of_range)"

definition get_byte :: "bytes \<Rightarrow> nat \<Rightarrow> u8 result" where
  "get_byte b off = (if off < length b then Ok (b ! off) else Err out_of_range)"

definition get_le16 :: "bytes \<Rightarrow> nat \<Rightarrow> u16 result" where
  "get_le16 b off = try_in (get_slice off 2 b) (\<lambda>s. Ok (of_nat (le_nat s)))"

definition get_le32 :: "bytes \<Rightarrow> nat \<Rightarrow> u32 result" where
  "get_le32 b off = try_in (get_slice off 4 b) (\<lambda>s. Ok (of_nat (le_nat s)))"

definition get_le64 :: "bytes \<Rightarrow> nat \<Rightarrow> u64 result" where
  "get_le64 b off = try_in (get_slice off 8 b) (\<lambda>s. Ok (of_nat (le_nat s)))"

definition get_uuid :: "bytes \<Rightarrow> nat \<Rightarrow> bytes result" where
  "get_uuid b off = get_slice off 16 b"

lemma get_in_range:
  "off + n \<le> length xs \<Longrightarrow> get_slice off n xs = Ok (slice off n xs)"
  "off \<le> length xs \<Longrightarrow> get_from off xs = Ok (drop off xs)"
  "off < length b \<Longrightarrow> get_byte b off = Ok (b ! off)"
  "off + 2 \<le> length b \<Longrightarrow> get_le16 b off = Ok (le16 b off)"
  "off + 4 \<le> length b \<Longrightarrow> get_le32 b off = Ok (le32 b off)"
  "off + 8 \<le> length b \<Longrightarrow> get_le64 b off = Ok (le64 b off)"
  "off + 16 \<le> length b \<Longrightarrow> get_uuid b off = Ok (uuid_at b off)"
  by (simp_all add: get_slice_def get_from_def get_byte_def get_le16_def get_le32_def get_le64_def get_uuid_def
      le16_def le32_def le64_def uuid_at_def)

text \<open>\<open>to_le_bytes\<close> at each width.\<close>

definition u16_bytes :: "u16 \<Rightarrow> bytes" where
  "u16_bytes v = to_le 2 (unat v)"

definition u32_bytes :: "u32 \<Rightarrow> bytes" where
  "u32_bytes v = to_le 4 (unat v)"

definition u64_bytes :: "u64 \<Rightarrow> bytes" where
  "u64_bytes v = to_le 8 (unat v)"

lemma length_uN_bytes [simp]:
  "length (u16_bytes h) = 2" "length (u32_bytes w) = 4" "length (u64_bytes v) = 8"
  by (simp_all add: u16_bytes_def u32_bytes_def u64_bytes_def)

text \<open>\<open>put64\<close> of \<open>super_write.rs\<close>; the narrower writers are the same copy.\<close>

definition put64 :: "bytes \<Rightarrow> nat \<Rightarrow> u64 \<Rightarrow> bytes" where
  "put64 raw at v = put_at at (u64_bytes v) raw"

lemma length_put64 [simp]: "at + 8 \<le> length raw \<Longrightarrow> length (put64 raw at v) = length raw"
  by (simp add: put64_def)

lemma le_nat_u64 [byte_simps]: "of_nat (le_nat (u64_bytes v)) = v"
  using unat_u64 [of v] by (simp add: u64_bytes_def le_nat_to_le)

lemma le_nat_u32 [byte_simps]: "of_nat (le_nat (u32_bytes v)) = v"
  using unat_u32 [of v] by (simp add: u32_bytes_def le_nat_to_le)

lemma le_nat_u16 [byte_simps]: "of_nat (le_nat (u16_bytes v)) = v"
  using unat_u16 [of v] by (simp add: u16_bytes_def le_nat_to_le)

lemma le64_put_same [byte_simps]:
  "off \<le> length b \<Longrightarrow> le64 (put_at off (u64_bytes v) b) off = v"
  by (simp add: le64_def byte_simps)

lemma le32_put_same [byte_simps]:
  "off \<le> length b \<Longrightarrow> le32 (put_at off (u32_bytes v) b) off = v"
  by (simp add: le32_def byte_simps)

lemma le16_put_same [byte_simps]:
  "off \<le> length b \<Longrightarrow> le16 (put_at off (u16_bytes v) b) off = v"
  by (simp add: le16_def byte_simps)

lemma le_put_disjoint [byte_simps]:
  "a + 8 \<le> off \<or> off + length ys \<le> a \<Longrightarrow> off + length ys \<le> length b \<Longrightarrow>
   le64 (put_at off ys b) a = le64 b a"
  "a + 4 \<le> off \<or> off + length ys \<le> a \<Longrightarrow> off + length ys \<le> length b \<Longrightarrow>
   le32 (put_at off ys b) a = le32 b a"
  "a + 2 \<le> off \<or> off + length ys \<le> a \<Longrightarrow> off + length ys \<le> length b \<Longrightarrow>
   le16 (put_at off ys b) a = le16 b a"
  by (simp_all add: le64_def le32_def le16_def slice_put_disjoint)

lemma uuid_put_disjoint [byte_simps]:
  "a + 16 \<le> off \<or> off + length ys \<le> a \<Longrightarrow> off + length ys \<le> length b \<Longrightarrow>
   uuid_at (put_at off ys b) a = uuid_at b a"
  by (simp add: uuid_at_def slice_put_disjoint)

lemma uuid_put_same [byte_simps]:
  "off \<le> length b \<Longrightarrow> length u = 16 \<Longrightarrow> uuid_at (put_at off u b) off = u"
  by (simp add: uuid_at_def slice_put_same)

lemma put64_reads [byte_simps]:
  "off \<le> length b \<Longrightarrow> le64 (put64 b off v) off = v"
  "a + 8 \<le> off \<or> off + 8 \<le> a \<Longrightarrow> off + 8 \<le> length b \<Longrightarrow> le64 (put64 b off v) a = le64 b a"
  "a + n \<le> off \<or> off + 8 \<le> a \<Longrightarrow> off + 8 \<le> length b \<Longrightarrow>
   slice a n (put64 b off v) = slice a n b"
  "i < off \<or> off + 8 \<le> i \<Longrightarrow> off + 8 \<le> length b \<Longrightarrow> i < length b \<Longrightarrow> put64 b off v ! i = b ! i"
  by (simp_all add: put64_def byte_simps)

text \<open>A read inside a window of the buffer.\<close>

lemma le_slice:
  "a + 8 \<le> m \<Longrightarrow> le64 (slice off m b) a = le64 b (off + a)"
  "a + 4 \<le> m \<Longrightarrow> le32 (slice off m b) a = le32 b (off + a)"
  "a + 2 \<le> m \<Longrightarrow> le16 (slice off m b) a = le16 b (off + a)"
  by (simp_all add: le64_def le32_def le16_def slice_slice)

lemma le_drop:
  "le64 (drop off b) a = le64 b (off + a)"
  "le32 (drop off b) a = le32 b (off + a)"
  "le16 (drop off b) a = le16 b (off + a)"
  by (simp_all add: le64_def le32_def le16_def slice_drop)

text \<open>Bytes of a value at the front of a buffer.\<close>

lemma le_append_same:
  "length xs = off \<Longrightarrow> le64 (xs @ u64_bytes v @ ys) off = v"
  "length xs = off \<Longrightarrow> le32 (xs @ u32_bytes w @ ys) off = w"
  "length xs = off \<Longrightarrow> le16 (xs @ u16_bytes h @ ys) off = h"
  by (auto simp: le64_def le32_def le16_def slice_def byte_simps)

text \<open>Reading determines the bytes: a value and its bytes correspond one to one.\<close>

lemma u64_bytes_le64: "off + 8 \<le> length b \<Longrightarrow> u64_bytes (le64 b off) = slice off 8 b"
proof -
  assume l: "off + 8 \<le> length b"
  have "le_nat (slice off 8 b) < 2 ^ 64"
    using le_nat_bound [of "slice off 8 b"] l by simp
  then have "unat (le64 b off) = le_nat (slice off 8 b)"
    by (simp add: le64_def unat_of_nat)
  then show ?thesis
    using l by (simp add: u64_bytes_def to_le_le_nat)
qed

section \<open>Chunks\<close>

text \<open>\<open>chunks(n)\<close>: pieces of length \<open>n\<close>, the last one shorter. A zero length panics in the source.\<close>

function chunks_of :: "nat \<Rightarrow> 'a list \<Rightarrow> 'a list list" where
  "chunks_of n xs = (if n = 0 \<or> xs = [] then [] else take n xs # chunks_of n (drop n xs))"
  by pat_completeness auto
termination
  by (relation "measure (\<lambda>(n, xs). length xs)") auto

declare chunks_of.simps [simp del]

lemma chunks_of_Nil [simp]: "chunks_of n [] = []"
  by (simp add: chunks_of.simps)

lemma chunks_of_step: "0 < n \<Longrightarrow> xs \<noteq> [] \<Longrightarrow> chunks_of n xs = take n xs # chunks_of n (drop n xs)"
  by (subst chunks_of.simps) simp

lemma concat_chunks_of: "0 < n \<Longrightarrow> concat (chunks_of n xs) = xs"
proof (induction n xs rule: chunks_of.induct)
  case (1 n xs)
  then show ?case by (subst chunks_of.simps) simp
qed

lemma chunks_of_members: "s \<in> set (chunks_of n xs) \<Longrightarrow> s \<noteq> [] \<and> length s \<le> n"
proof (induction n xs rule: chunks_of.induct)
  case (1 n xs)
  then show ?case by (subst (asm) (2) chunks_of.simps) (auto split: if_splits)
qed

lemma length_chunks_of:
  assumes "0 < n"
  shows "length (chunks_of n xs) = (length xs + (n - 1)) div n"
  using assms
proof (induction n xs rule: chunks_of.induct)
  case (1 n xs)
  show ?case
  proof (cases "xs = []")
    case False
    have "length xs + (n - 1) = length xs - 1 + n" using False 1(2) by (cases xs) auto
    then have l: "(length xs + (n - 1)) div n = (length xs - 1) div n + 1"
      using 1(2) by (simp only: div_add_self2)
    show ?thesis
    proof (cases "n \<le> length xs")
      case True
      then have "length xs - n + (n - 1) = length xs - 1" using 1(2) by simp
      then show ?thesis using 1 False l by (simp add: chunks_of_step)
    next
      case False
      then show ?thesis
        using 1(2) \<open>xs \<noteq> []\<close> l by (simp add: chunks_of_step)
    qed
  qed (use 1(2) in simp)
qed

lemma nth_chunks_of: "i * n < length xs \<Longrightarrow> 0 < n \<Longrightarrow> i < length (chunks_of n xs) \<and> chunks_of n xs ! i = slice (i * n) n xs"
proof (induction i arbitrary: xs)
  case 0
  then show ?case by (cases "xs = []") (simp_all add: chunks_of_step slice_def)
next
  case (Suc i)
  then have "i * n < length (drop n xs)" by simp
  then have "i < length (chunks_of n (drop n xs)) \<and> chunks_of n (drop n xs) ! i = slice (i * n) n (drop n xs)"
    using Suc.IH Suc.prems(2) by blast
  moreover have "xs \<noteq> []" using Suc.prems by auto
  ultimately show ?case
    using Suc.prems(2) by (simp add: chunks_of_step slice_drop)
qed

end
