(* ===== verification/Keys.thy ===== *)
theory Keys
  imports Bytes
begin

text \<open>
  Disk keys (\<open>struct DiskKey\<close> of \<open>src/src/chunk.rs\<close>) and their order
  (\<open>compare_keys\<close> of \<open>src/src/btree.rs\<close>, \<open>order\<close> of \<open>src/src/leaf_edit.rs\<close>,
  \<open>key_before\<close> of \<open>src/src/tree_write.rs\<close>). The three spellings of the order are shown to be
  one linear order, which the key type carries as an instance of the library's class.
\<close>

abbreviation DISK_KEY_SIZE :: nat where
  "DISK_KEY_SIZE \<equiv> 17"

datatype disk_key = DiskKey (objectid: u64) (key_type: u8) (key_offset: u64)

definition disk_key_parse :: "bytes \<Rightarrow> disk_key result" where
  "disk_key_parse buf =
     (if length buf < DISK_KEY_SIZE then Err (BadChunkItem ''key needs 17 bytes'')
      else
        try_in (get_le64 buf 0) (\<lambda>oid.
        try_in (get_byte buf 8) (\<lambda>kt.
        try_in (get_le64 buf 9) (\<lambda>off. Ok (DiskKey oid kt off)))))"

text \<open>None of its reads is past the end.\<close>

lemma disk_key_parse_eq:
  "disk_key_parse buf =
     (if length buf < DISK_KEY_SIZE then Err (BadChunkItem ''key needs 17 bytes'')
      else Ok (DiskKey (le64 buf 0) (buf ! 8) (le64 buf 9)))"
  by (simp add: disk_key_parse_def get_in_range)

datatype ordering = Less | Equal | Greater

definition cmp :: "'a::linorder \<Rightarrow> 'a \<Rightarrow> ordering" where
  "cmp a b = (if a < b then Less else if a = b then Equal else Greater)"

definition ordering_then :: "ordering \<Rightarrow> ordering \<Rightarrow> ordering" where
  "ordering_then a b = (case a of Equal \<Rightarrow> b | _ \<Rightarrow> a)"

definition compare_keys :: "disk_key \<Rightarrow> disk_key \<Rightarrow> ordering" where
  "compare_keys a b =
     ordering_then (ordering_then (cmp (objectid a) (objectid b)) (cmp (key_type a) (key_type b)))
       (cmp (key_offset a) (key_offset b))"

text \<open>\<open>key_before\<close> of \<open>tree_write.rs\<close>: the derived order of the tuple.\<close>

definition key_before :: "disk_key \<Rightarrow> disk_key \<Rightarrow> bool" where
  "key_before a b =
     (objectid a < objectid b \<or>
      objectid a = objectid b \<and>
        (key_type a < key_type b \<or> key_type a = key_type b \<and> key_offset a < key_offset b))"

instantiation disk_key :: linorder
begin

definition less_disk_key :: "disk_key \<Rightarrow> disk_key \<Rightarrow> bool" where
  "less_disk_key = key_before"

definition less_eq_disk_key :: "disk_key \<Rightarrow> disk_key \<Rightarrow> bool" where
  "less_eq_disk_key a b = (key_before a b \<or> a = b)"

instance
proof
  fix x y z :: disk_key
  show "(x < y) = (x \<le> y \<and> \<not> y \<le> x)"
    by (cases x; cases y) (auto simp: less_disk_key_def less_eq_disk_key_def key_before_def)
  show "x \<le> x"
    by (simp add: less_eq_disk_key_def)
  show "x \<le> y \<Longrightarrow> y \<le> z \<Longrightarrow> x \<le> z"
    by (cases x; cases y; cases z) (auto simp: less_eq_disk_key_def key_before_def)
  show "x \<le> y \<Longrightarrow> y \<le> x \<Longrightarrow> x = y"
    by (cases x; cases y) (auto simp: less_eq_disk_key_def key_before_def)
  show "x \<le> y \<or> y \<le> x"
    by (cases x; cases y) (auto simp: less_eq_disk_key_def key_before_def)
qed

end

lemma key_before_iff: "key_before a b \<longleftrightarrow> a < b"
  by (simp add: less_disk_key_def)

lemma compare_keys_cmp: "compare_keys a b = cmp a b"
  by (cases a; cases b)
    (auto simp: compare_keys_def ordering_then_def cmp_def less_disk_key_def key_before_def)

lemma compare_keys_simps:
  "compare_keys a b = Less \<longleftrightarrow> a < b"
  "compare_keys a b = Equal \<longleftrightarrow> a = b"
  "compare_keys a b = Greater \<longleftrightarrow> b < a"
  by (auto simp: compare_keys_cmp cmp_def)

text \<open>\<open>write_key\<close> of \<open>tree_write.rs\<close>, as the 17 bytes it writes, and its reading back.\<close>

definition key_bytes :: "disk_key \<Rightarrow> bytes" where
  "key_bytes k = u64_bytes (objectid k) @ [key_type k] @ u64_bytes (key_offset k)"

lemma length_key_bytes [simp]: "length (key_bytes k) = 17"
  by (simp add: key_bytes_def)

lemma disk_key_parse_bytes: "disk_key_parse (key_bytes k @ rest) = Ok k"
proof -
  let ?b = "u64_bytes (objectid k) @ [key_type k] @ u64_bytes (key_offset k) @ rest"
  have "le64 ?b 0 = objectid k"
    using le_append_same(1) [of "[]" 0 "objectid k" "[key_type k] @ u64_bytes (key_offset k) @ rest"]
    by simp
  moreover have "le64 ?b 9 = key_offset k"
    using le_append_same(1) [of "u64_bytes (objectid k) @ [key_type k]" 9 "key_offset k" rest]
    by simp
  moreover have "?b ! 8 = key_type k"
    by (simp add: nth_append)
  ultimately show ?thesis
    by (simp add: disk_key_parse_eq key_bytes_def)
qed

lemma disk_key_parse_slice:
  assumes "slice off 17 b = key_bytes k" and "off + 17 \<le> length b"
  shows "disk_key_parse (drop off b) = Ok k"
proof -
  have "drop off b = key_bytes k @ drop (off + 17) b"
    using assms by (metis add.commute append_take_drop_id drop_drop slice_def)
  then show ?thesis
    by (simp add: disk_key_parse_bytes)
qed

lemma disk_key_parse_eq_Err:
  "disk_key_parse buf = Err e \<longleftrightarrow> length buf < 17 \<and> e = BadChunkItem ''key needs 17 bytes''"
  by (auto simp: disk_key_parse_eq)

lemma disk_key_parse_long: "17 \<le> length buf \<Longrightarrow> \<exists>k. disk_key_parse buf = Ok k"
  by (simp add: disk_key_parse_eq)

end
