(* ===== verification/Superblock.thy ===== *)
theory Superblock
  imports Bytes
begin

text \<open>
  \<open>src/src/superblock.rs\<close>: the checksum algorithms by name, the embedded device item, the
  superblock's parsing and validation, its feature gates, and the choice among the copies on a
  device (\<open>read_superblock\<close>).

  The four hash functions are third-party crates; they are the fields of a parameter
  \<open>hash_lib\<close>. The only thing the driver relies on is the length of the two 32-byte digests, which
  their Rust types fix (\<open>wf_hash_lib\<close>). A block device is a parameter too: a size and a read
  function. The label is kept as its bytes up to the first NUL; its conversion to text, which
  replaces invalid UTF-8, is not modelled.
\<close>

section \<open>Constants of the on-disk format\<close>

definition BTRFS_MAGIC :: bytes where
  "BTRFS_MAGIC = [0x5f, 0x42, 0x48, 0x52, 0x66, 0x53, 0x5f, 0x4d]"

abbreviation (input) SUPER_INFO_SIZE :: nat where
  "SUPER_INFO_SIZE \<equiv> 4096"

abbreviation (input) SUPER_INFO_OFFSET :: u64 where
  "SUPER_INFO_OFFSET \<equiv> 0x10000"

abbreviation (input) CSUM_SIZE :: nat where
  "CSUM_SIZE \<equiv> 32"

abbreviation (input) UUID_SIZE :: nat where
  "UUID_SIZE \<equiv> 16"

abbreviation (input) LABEL_SIZE :: nat where
  "LABEL_SIZE \<equiv> 256"

abbreviation (input) SYS_CHUNK_ARRAY_SIZE :: nat where
  "SYS_CHUNK_ARRAY_SIZE \<equiv> 2048"

abbreviation (input) DEV_ITEM_SIZE :: nat where
  "DEV_ITEM_SIZE \<equiv> 0x62"

abbreviation (input) MAX_LEVEL :: u8 where
  "MAX_LEVEL \<equiv> 8"

abbreviation (input) MAX_METADATA_BLOCKSIZE :: u32 where
  "MAX_METADATA_BLOCKSIZE \<equiv> 65536"

abbreviation (input) MIN_SECTORSIZE :: u32 where
  "MIN_SECTORSIZE \<equiv> 4096"

abbreviation (input) O_FSID :: nat where
  "O_FSID \<equiv> 0x20"

abbreviation (input) O_BYTENR :: nat where
  "O_BYTENR \<equiv> 0x30"

abbreviation (input) O_FLAGS :: nat where
  "O_FLAGS \<equiv> 0x38"

abbreviation (input) O_MAGIC :: nat where
  "O_MAGIC \<equiv> 0x40"

abbreviation (input) O_GENERATION :: nat where
  "O_GENERATION \<equiv> 0x48"

abbreviation (input) O_ROOT :: nat where
  "O_ROOT \<equiv> 0x50"

abbreviation (input) O_CHUNK_ROOT :: nat where
  "O_CHUNK_ROOT \<equiv> 0x58"

abbreviation (input) O_LOG_ROOT :: nat where
  "O_LOG_ROOT \<equiv> 0x60"

abbreviation (input) O_LOG_ROOT_TRANSID :: nat where
  "O_LOG_ROOT_TRANSID \<equiv> 0x68"

abbreviation (input) O_TOTAL_BYTES :: nat where
  "O_TOTAL_BYTES \<equiv> 0x70"

abbreviation (input) O_BYTES_USED :: nat where
  "O_BYTES_USED \<equiv> 0x78"

abbreviation (input) O_ROOT_DIR_OBJECTID :: nat where
  "O_ROOT_DIR_OBJECTID \<equiv> 0x80"

abbreviation (input) O_NUM_DEVICES :: nat where
  "O_NUM_DEVICES \<equiv> 0x88"

abbreviation (input) O_SECTORSIZE :: nat where
  "O_SECTORSIZE \<equiv> 0x90"

abbreviation (input) O_NODESIZE :: nat where
  "O_NODESIZE \<equiv> 0x94"

abbreviation (input) O_LEAFSIZE :: nat where
  "O_LEAFSIZE \<equiv> 0x98"

abbreviation (input) O_STRIPESIZE :: nat where
  "O_STRIPESIZE \<equiv> 0x9c"

abbreviation (input) O_SYS_CHUNK_ARRAY_SIZE :: nat where
  "O_SYS_CHUNK_ARRAY_SIZE \<equiv> 0xa0"

abbreviation (input) O_CHUNK_ROOT_GENERATION :: nat where
  "O_CHUNK_ROOT_GENERATION \<equiv> 0xa4"

abbreviation (input) O_COMPAT_FLAGS :: nat where
  "O_COMPAT_FLAGS \<equiv> 0xac"

abbreviation (input) O_COMPAT_RO_FLAGS :: nat where
  "O_COMPAT_RO_FLAGS \<equiv> 0xb4"

abbreviation (input) O_INCOMPAT_FLAGS :: nat where
  "O_INCOMPAT_FLAGS \<equiv> 0xbc"

abbreviation (input) O_CSUM_TYPE :: nat where
  "O_CSUM_TYPE \<equiv> 0xc4"

abbreviation (input) O_ROOT_LEVEL :: nat where
  "O_ROOT_LEVEL \<equiv> 0xc6"

abbreviation (input) O_CHUNK_ROOT_LEVEL :: nat where
  "O_CHUNK_ROOT_LEVEL \<equiv> 0xc7"

abbreviation (input) O_LOG_ROOT_LEVEL :: nat where
  "O_LOG_ROOT_LEVEL \<equiv> 0xc8"

abbreviation (input) O_DEV_ITEM :: nat where
  "O_DEV_ITEM \<equiv> 0xc9"

abbreviation (input) O_LABEL :: nat where
  "O_LABEL \<equiv> 0x12b"

abbreviation (input) O_CACHE_GENERATION :: nat where
  "O_CACHE_GENERATION \<equiv> 0x22b"

abbreviation (input) O_UUID_TREE_GENERATION :: nat where
  "O_UUID_TREE_GENERATION \<equiv> 0x233"

abbreviation (input) O_METADATA_UUID :: nat where
  "O_METADATA_UUID \<equiv> 0x23b"

abbreviation (input) O_NR_GLOBAL_ROOTS :: nat where
  "O_NR_GLOBAL_ROOTS \<equiv> 0x24b"

abbreviation (input) O_SYS_CHUNK_ARRAY :: nat where
  "O_SYS_CHUNK_ARRAY \<equiv> 0x32b"

abbreviation (input) DEV_O_DEVID :: nat where
  "DEV_O_DEVID \<equiv> 0x0"

abbreviation (input) DEV_O_TOTAL_BYTES :: nat where
  "DEV_O_TOTAL_BYTES \<equiv> 0x8"

abbreviation (input) DEV_O_BYTES_USED :: nat where
  "DEV_O_BYTES_USED \<equiv> 0x10"

abbreviation (input) DEV_O_IO_ALIGN :: nat where
  "DEV_O_IO_ALIGN \<equiv> 0x18"

abbreviation (input) DEV_O_IO_WIDTH :: nat where
  "DEV_O_IO_WIDTH \<equiv> 0x1c"

abbreviation (input) DEV_O_SECTOR_SIZE :: nat where
  "DEV_O_SECTOR_SIZE \<equiv> 0x20"

abbreviation (input) DEV_O_TYPE :: nat where
  "DEV_O_TYPE \<equiv> 0x24"

abbreviation (input) DEV_O_GENERATION :: nat where
  "DEV_O_GENERATION \<equiv> 0x2c"

abbreviation (input) DEV_O_START_OFFSET :: nat where
  "DEV_O_START_OFFSET \<equiv> 0x34"

abbreviation (input) DEV_O_DEV_GROUP :: nat where
  "DEV_O_DEV_GROUP \<equiv> 0x3c"

abbreviation (input) DEV_O_SEEK_SPEED :: nat where
  "DEV_O_SEEK_SPEED \<equiv> 0x40"

abbreviation (input) DEV_O_BANDWIDTH :: nat where
  "DEV_O_BANDWIDTH \<equiv> 0x41"

abbreviation (input) DEV_O_UUID :: nat where
  "DEV_O_UUID \<equiv> 0x42"

abbreviation (input) DEV_O_FSID :: nat where
  "DEV_O_FSID \<equiv> 0x52"

abbreviation (input) FLAG_ERROR :: u64 where
  "FLAG_ERROR \<equiv> 0x4"

abbreviation (input) FLAG_SEEDING :: u64 where
  "FLAG_SEEDING \<equiv> 0x100000000"

abbreviation (input) FLAG_METADUMP :: u64 where
  "FLAG_METADUMP \<equiv> 0x200000000"

abbreviation (input) FLAG_METADUMP_V2 :: u64 where
  "FLAG_METADUMP_V2 \<equiv> 0x400000000"

abbreviation (input) FLAG_CHANGING_FSID :: u64 where
  "FLAG_CHANGING_FSID \<equiv> 0x800000000"

abbreviation (input) FLAG_CHANGING_FSID_V2 :: u64 where
  "FLAG_CHANGING_FSID_V2 \<equiv> 0x1000000000"

abbreviation (input) INCOMPAT_MIXED_BACKREF :: u64 where
  "INCOMPAT_MIXED_BACKREF \<equiv> 0x1"

abbreviation (input) INCOMPAT_DEFAULT_SUBVOL :: u64 where
  "INCOMPAT_DEFAULT_SUBVOL \<equiv> 0x2"

abbreviation (input) INCOMPAT_MIXED_GROUPS :: u64 where
  "INCOMPAT_MIXED_GROUPS \<equiv> 0x4"

abbreviation (input) INCOMPAT_COMPRESS_LZO :: u64 where
  "INCOMPAT_COMPRESS_LZO \<equiv> 0x8"

abbreviation (input) INCOMPAT_COMPRESS_ZSTD :: u64 where
  "INCOMPAT_COMPRESS_ZSTD \<equiv> 0x10"

abbreviation (input) INCOMPAT_BIG_METADATA :: u64 where
  "INCOMPAT_BIG_METADATA \<equiv> 0x20"

abbreviation (input) INCOMPAT_EXTENDED_IREF :: u64 where
  "INCOMPAT_EXTENDED_IREF \<equiv> 0x40"

abbreviation (input) INCOMPAT_RAID56 :: u64 where
  "INCOMPAT_RAID56 \<equiv> 0x80"

abbreviation (input) INCOMPAT_SKINNY_METADATA :: u64 where
  "INCOMPAT_SKINNY_METADATA \<equiv> 0x100"

abbreviation (input) INCOMPAT_NO_HOLES :: u64 where
  "INCOMPAT_NO_HOLES \<equiv> 0x200"

abbreviation (input) INCOMPAT_METADATA_UUID :: u64 where
  "INCOMPAT_METADATA_UUID \<equiv> 0x400"

abbreviation (input) INCOMPAT_RAID1C34 :: u64 where
  "INCOMPAT_RAID1C34 \<equiv> 0x800"

abbreviation (input) INCOMPAT_ZONED :: u64 where
  "INCOMPAT_ZONED \<equiv> 0x1000"

abbreviation (input) INCOMPAT_EXTENT_TREE_V2 :: u64 where
  "INCOMPAT_EXTENT_TREE_V2 \<equiv> 0x2000"

abbreviation (input) INCOMPAT_RAID_STRIPE_TREE :: u64 where
  "INCOMPAT_RAID_STRIPE_TREE \<equiv> 0x4000"

abbreviation (input) INCOMPAT_SIMPLE_QUOTA :: u64 where
  "INCOMPAT_SIMPLE_QUOTA \<equiv> 0x10000"

abbreviation (input) INCOMPAT_REMAP_TREE :: u64 where
  "INCOMPAT_REMAP_TREE \<equiv> 0x20000"

abbreviation (input) COMPAT_RO_FREE_SPACE_TREE :: u64 where
  "COMPAT_RO_FREE_SPACE_TREE \<equiv> 0x1"

abbreviation (input) COMPAT_RO_FREE_SPACE_TREE_VALID :: u64 where
  "COMPAT_RO_FREE_SPACE_TREE_VALID \<equiv> 0x2"

abbreviation (input) COMPAT_RO_VERITY :: u64 where
  "COMPAT_RO_VERITY \<equiv> 0x4"

abbreviation (input) COMPAT_RO_BLOCK_GROUP_TREE :: u64 where
  "COMPAT_RO_BLOCK_GROUP_TREE \<equiv> 0x8"


abbreviation (input) O_CSUM :: nat where
  "O_CSUM \<equiv> 0"

definition SUPER_OFFSETS :: "u64 list" where
  "SUPER_OFFSETS = [SUPER_INFO_OFFSET, 0x4000000, 0x4000000000]"

definition INCOMPAT_SUPPORTED :: u64 where
  "INCOMPAT_SUPPORTED =
     INCOMPAT_MIXED_BACKREF OR INCOMPAT_DEFAULT_SUBVOL OR INCOMPAT_MIXED_GROUPS
     OR INCOMPAT_COMPRESS_LZO OR INCOMPAT_COMPRESS_ZSTD OR INCOMPAT_BIG_METADATA
     OR INCOMPAT_EXTENDED_IREF OR INCOMPAT_SKINNY_METADATA OR INCOMPAT_NO_HOLES
     OR INCOMPAT_METADATA_UUID OR INCOMPAT_RAID1C34 OR INCOMPAT_RAID56 OR INCOMPAT_ZONED
     OR INCOMPAT_SIMPLE_QUOTA"

definition COMPAT_RO_SUPPORTED :: u64 where
  "COMPAT_RO_SUPPORTED =
     COMPAT_RO_FREE_SPACE_TREE OR COMPAT_RO_FREE_SPACE_TREE_VALID OR COMPAT_RO_BLOCK_GROUP_TREE
     OR COMPAT_RO_VERITY"

section \<open>Feature gates\<close>

text \<open>
  The loop over the named features: each one that is set is named and its bit cleared from what
  is left.
\<close>

fun name_features :: "(u64 \<times> string) list \<Rightarrow> u64 \<Rightarrow> string list \<times> u64" where
  "name_features [] unreadable = ([], unreadable)"
| "name_features ((bt, name) # rest) unreadable =
     (if unreadable AND bt \<noteq> 0 then
        (case name_features rest (unreadable AND NOT bt) of (named, left) \<Rightarrow> (name # named, left))
      else name_features rest unreadable)"

definition join_names :: "string list \<Rightarrow> string" where
  "join_names xs = concat (case xs of [] \<Rightarrow> [] | x # r \<Rightarrow> x # concat (map (\<lambda>y. ['', '', y]) r))"

definition refuse_unreadable_incompat :: "u64 \<Rightarrow> unit result" where
  "refuse_unreadable_incompat flags =
     (let unreadable = flags AND NOT INCOMPAT_SUPPORTED in
      if unreadable = 0 then Ok ()
      else
        (case name_features
           [(INCOMPAT_EXTENT_TREE_V2, ''extent-tree-v2 (the second-generation extent tree)''),
            (INCOMPAT_RAID_STRIPE_TREE,
               ''raid-stripe-tree (the tree that records data stripe placement)''),
            (INCOMPAT_REMAP_TREE, ''remap-tree (the tree that remaps block addresses)'')]
           unreadable of
           (named, left) \<Rightarrow>
             let named = (if left \<noteq> 0 then named @ [''incompatible feature bits''] else named)
             in Err (UnsupportedFeature
                  (''this volume uses incompatible features this driver cannot read: ''
                   @ join_names named))))"

definition refuse_unmaintained_compat_ro :: "u64 \<Rightarrow> unit result" where
  "refuse_unmaintained_compat_ro flags =
     (if flags AND NOT COMPAT_RO_SUPPORTED = 0 then Ok ()
      else Err (UnsupportedFeature
        ''this volume uses read-only-compatible features this driver does not maintain''))"

section \<open>Checksums\<close>

record hash_lib =
  crc32c :: "bytes \<Rightarrow> u32"
  crc32c_append :: "u32 \<Rightarrow> bytes \<Rightarrow> u32"
  xxhash64 :: "u64 \<Rightarrow> bytes \<Rightarrow> u64"
  sha256 :: "bytes \<Rightarrow> bytes"
  blake2b_256 :: "bytes \<Rightarrow> bytes"

definition wf_hash_lib :: "hash_lib \<Rightarrow> bool" where
  "wf_hash_lib H \<longleftrightarrow> (\<forall>d. length (sha256 H d) = 32) \<and> (\<forall>d. length (blake2b_256 H d) = 32)"

datatype checksum_type = Crc32c | XxHash64 | Sha256 | Blake2b256

definition checksum_from_raw :: "u16 \<Rightarrow> checksum_type result" where
  "checksum_from_raw raw =
     (if raw = 0 then Ok Crc32c
      else if raw = 1 then Ok XxHash64
      else if raw = 2 then Ok Sha256
      else if raw = 3 then Ok Blake2b256
      else Err (UnsupportedChecksum raw))"

fun checksum_to_raw :: "checksum_type \<Rightarrow> u16" where
  "checksum_to_raw Crc32c = 0"
| "checksum_to_raw XxHash64 = 1"
| "checksum_to_raw Sha256 = 2"
| "checksum_to_raw Blake2b256 = 3"

fun digest_len :: "checksum_type \<Rightarrow> nat" where
  "digest_len Crc32c = 4"
| "digest_len XxHash64 = 8"
| "digest_len Sha256 = 32"
| "digest_len Blake2b256 = 32"

definition digest :: "hash_lib \<Rightarrow> checksum_type \<Rightarrow> bytes \<Rightarrow> bytes" where
  "digest H t data =
     (let out = replicate CSUM_SIZE 0 in
      case t of
        Crc32c \<Rightarrow> put_at 0 (u32_bytes (crc32c H data)) out
      | XxHash64 \<Rightarrow> put_at 0 (u64_bytes (xxhash64 H 0 data)) out
      | Sha256 \<Rightarrow> put_at 0 (sha256 H data) out
      | Blake2b256 \<Rightarrow> put_at 0 (blake2b_256 H data) out)"

definition checksum_verify :: "hash_lib \<Rightarrow> checksum_type \<Rightarrow> bytes \<Rightarrow> bytes \<Rightarrow> bool" where
  "checksum_verify H t data stored =
     (let n = digest_len t in
      if length stored < n then False
      else take n (digest H t data) = take n stored)"

section \<open>The device item\<close>

record dev_item =
  di_devid :: u64
  di_total_bytes :: u64
  di_bytes_used :: u64
  di_io_align :: u32
  di_io_width :: u32
  di_sector_size :: u32
  di_dev_type :: u64
  di_generation :: u64
  di_start_offset :: u64
  di_dev_group :: u32
  di_seek_speed :: u8
  di_bandwidth :: u8
  di_uuid :: bytes
  di_fsid :: bytes

definition malformed :: "string \<Rightarrow> error" where
  "malformed m = BadSuperblock (''superblock: '' @ m)"

definition dev_item_parse :: "bytes \<Rightarrow> dev_item result" where
  "dev_item_parse buf =
     (if length buf < DEV_ITEM_SIZE then Err (BadSuperblock ''dev_item needs 98 bytes'')
      else Ok \<lparr>di_devid = le64 buf DEV_O_DEVID,
               di_total_bytes = le64 buf DEV_O_TOTAL_BYTES,
               di_bytes_used = le64 buf DEV_O_BYTES_USED,
               di_io_align = le32 buf DEV_O_IO_ALIGN,
               di_io_width = le32 buf DEV_O_IO_WIDTH,
               di_sector_size = le32 buf DEV_O_SECTOR_SIZE,
               di_dev_type = le64 buf DEV_O_TYPE,
               di_generation = le64 buf DEV_O_GENERATION,
               di_start_offset = le64 buf DEV_O_START_OFFSET,
               di_dev_group = le32 buf DEV_O_DEV_GROUP,
               di_seek_speed = buf ! DEV_O_SEEK_SPEED,
               di_bandwidth = buf ! DEV_O_BANDWIDTH,
               di_uuid = uuid_at buf DEV_O_UUID,
               di_fsid = uuid_at buf DEV_O_FSID\<rparr>)"

section \<open>The superblock\<close>

record superblock =
  sb_csum :: bytes
  sb_fsid :: bytes
  sb_bytenr :: u64
  sb_flags :: u64
  sb_generation :: u64
  sb_root :: u64
  sb_chunk_root :: u64
  sb_log_root :: u64
  sb_log_root_transid :: u64
  sb_total_bytes :: u64
  sb_bytes_used :: u64
  sb_root_dir_objectid :: u64
  sb_num_devices :: u64
  sb_sectorsize :: u32
  sb_nodesize :: u32
  sb_leafsize :: u32
  sb_stripesize :: u32
  sb_sys_chunk_array_size :: u32
  sb_chunk_root_generation :: u64
  sb_compat_flags :: u64
  sb_compat_ro_flags :: u64
  sb_incompat_flags :: u64
  sb_csum_type :: checksum_type
  sb_root_level :: u8
  sb_chunk_root_level :: u8
  sb_log_root_level :: u8
  sb_dev_item :: dev_item
  sb_label :: bytes
  sb_cache_generation :: u64
  sb_uuid_tree_generation :: u64
  sb_metadata_uuid :: bytes
  sb_nr_global_roots :: u64
  sb_sys_chunk_array :: bytes

definition node_uuid :: "superblock \<Rightarrow> bytes" where
  "node_uuid sb =
     (if sb_incompat_flags sb AND INCOMPAT_METADATA_UUID \<noteq> 0 then sb_metadata_uuid sb else sb_fsid sb)"

definition has_dirty_log :: "superblock \<Rightarrow> bool" where
  "has_dirty_log sb \<longleftrightarrow> sb_log_root sb \<noteq> 0"

definition is_seeding :: "superblock \<Rightarrow> bool" where
  "is_seeding sb \<longleftrightarrow> sb_flags sb AND FLAG_SEEDING \<noteq> 0"

definition has_error_flag :: "superblock \<Rightarrow> bool" where
  "has_error_flag sb \<longleftrightarrow> sb_flags sb AND FLAG_ERROR \<noteq> 0"

definition is_metadump :: "superblock \<Rightarrow> bool" where
  "is_metadump sb \<longleftrightarrow> sb_flags sb AND (FLAG_METADUMP OR FLAG_METADUMP_V2) \<noteq> 0"

definition has_no_holes :: "superblock \<Rightarrow> bool" where
  "has_no_holes sb \<longleftrightarrow> sb_incompat_flags sb AND INCOMPAT_NO_HOLES \<noteq> 0"

definition has_skinny_metadata :: "superblock \<Rightarrow> bool" where
  "has_skinny_metadata sb \<longleftrightarrow> sb_incompat_flags sb AND INCOMPAT_SKINNY_METADATA \<noteq> 0"

definition has_mixed_groups :: "superblock \<Rightarrow> bool" where
  "has_mixed_groups sb \<longleftrightarrow> sb_incompat_flags sb AND INCOMPAT_MIXED_GROUPS \<noteq> 0"

definition has_free_space_tree :: "superblock \<Rightarrow> bool" where
  "has_free_space_tree sb \<longleftrightarrow>
     sb_compat_ro_flags sb AND (COMPAT_RO_FREE_SPACE_TREE OR COMPAT_RO_FREE_SPACE_TREE_VALID)
       = COMPAT_RO_FREE_SPACE_TREE OR COMPAT_RO_FREE_SPACE_TREE_VALID"

definition has_block_group_tree :: "superblock \<Rightarrow> bool" where
  "has_block_group_tree sb \<longleftrightarrow> sb_compat_ro_flags sb AND COMPAT_RO_BLOCK_GROUP_TREE \<noteq> 0"

definition validate_geometry :: "superblock \<Rightarrow> unit result" where
  "validate_geometry sb =
     (if sb_bytenr sb \<notin> set SUPER_OFFSETS then
        Err (malformed ''bytenr is not one of the superblock mirror offsets'')
      else if \<not> is_power_of_two (sb_sectorsize sb) \<or>
          \<not> (MIN_SECTORSIZE \<le> sb_sectorsize sb \<and> sb_sectorsize sb \<le> MAX_METADATA_BLOCKSIZE) then
        Err (malformed ''sectorsize is not a power of two in range'')
      else if \<not> is_power_of_two (sb_nodesize sb) \<or> sb_nodesize sb < sb_sectorsize sb \<or>
          sb_nodesize sb > MAX_METADATA_BLOCKSIZE then
        Err (malformed ''nodesize is not a power of two in range'')
      else if sb_stripesize sb \<noteq> sb_sectorsize sb then
        Err (malformed ''stripesize disagrees with sectorsize'')
      else if sb_num_devices sb = 0 then Err (malformed ''num_devices is zero'')
      else if sb_total_bytes sb = 0 then Err (malformed ''total_bytes is zero'')
      else if \<not> is_multiple_of (sb_total_bytes sb) (ucast (sb_sectorsize sb)) then
        Err (malformed ''total_bytes is not a multiple of sectorsize'')
      else if sb_bytes_used sb > sb_total_bytes sb then
        Err (malformed ''bytes_used exceeds total_bytes'')
      else Ok ())"

fun check_levels :: "(string \<times> u8) list \<Rightarrow> unit result" where
  "check_levels [] = Ok ()"
| "check_levels ((name, level) # rest) =
     (if level \<ge> MAX_LEVEL then
        Err (malformed (name @ '' is at or above the maximum tree height''))
      else check_levels rest)"

fun check_aligned :: "u64 \<Rightarrow> (string \<times> u64) list \<Rightarrow> unit result" where
  "check_aligned s [] = Ok ()"
| "check_aligned s ((name, addr) # rest) =
     (if \<not> is_multiple_of addr s then Err (malformed (name @ '' is not sectorsize-aligned''))
      else check_aligned s rest)"

definition validate_tree_roots :: "superblock \<Rightarrow> unit result" where
  "validate_tree_roots sb =
     try_in (check_levels [(''root_level'', sb_root_level sb), (''chunk_root_level'', sb_chunk_root_level sb),
               (''log_root_level'', sb_log_root_level sb)]) (\<lambda>_.
     try_in (check_aligned (ucast (sb_sectorsize sb))
               [(''root'', sb_root sb), (''chunk_root'', sb_chunk_root sb), (''log_root'', sb_log_root sb)]) (\<lambda>_.
     if sb_chunk_root sb = 0 then Err (malformed ''chunk_root is zero'')
     else if sb_root sb = 0 then Err (malformed ''root tree address is zero'')
     else Ok ()))"

abbreviation (input) MIN_SYS_CHUNK_ARRAY :: u32 where
  "MIN_SYS_CHUNK_ARRAY \<equiv> 17 + 48 + 32"

definition validate_sys_chunk_array :: "superblock \<Rightarrow> unit result" where
  "validate_sys_chunk_array sb =
     (if sb_sys_chunk_array_size sb < MIN_SYS_CHUNK_ARRAY then
        Err (malformed ''sys_chunk_array_size cannot hold a single chunk mapping'')
      else Ok ())"

definition validate_device_identity :: "superblock \<Rightarrow> unit result" where
  "validate_device_identity sb =
     (let identity_in_flux =
        sb_flags sb AND (FLAG_CHANGING_FSID OR FLAG_CHANGING_FSID_V2 OR FLAG_SEEDING) \<noteq> 0
      in if \<not> identity_in_flux \<and> di_fsid (sb_dev_item sb) \<noteq> node_uuid sb then
           Err (malformed ''dev_item.fsid does not match the volume UUID'')
         else Ok ())"

definition superblock_validate :: "superblock \<Rightarrow> unit result" where
  "superblock_validate sb =
     try_in (validate_geometry sb) (\<lambda>_.
     try_in (validate_tree_roots sb) (\<lambda>_.
     try_in (validate_sys_chunk_array sb) (\<lambda>_.
     try_in (validate_device_identity sb) (\<lambda>_. Ok ()))))"

definition superblock_parse :: "hash_lib \<Rightarrow> bytes \<Rightarrow> superblock result" where
  "superblock_parse H buf =
     (if length buf < SUPER_INFO_SIZE then Err (malformed ''need 4096 bytes'')
      else if slice O_MAGIC 8 buf \<noteq> BTRFS_MAGIC then Err (NotBtrfs (slice O_MAGIC 8 buf))
      else
        try_in (checksum_from_raw (le16 buf O_CSUM_TYPE)) (\<lambda>csum_type.
        if \<not> checksum_verify H csum_type (slice CSUM_SIZE (SUPER_INFO_SIZE - CSUM_SIZE) buf)
              (slice O_CSUM CSUM_SIZE buf) then
          Err (ChecksumMismatch ''superblock'' (le64 buf O_BYTENR))
        else
          let incompat_flags = le64 buf O_INCOMPAT_FLAGS in
          try_in (refuse_unreadable_incompat incompat_flags) (\<lambda>_.
          let sys_len = unat (le32 buf O_SYS_CHUNK_ARRAY_SIZE) in
          if sys_len > SYS_CHUNK_ARRAY_SIZE then
            Err (malformed ''sys_chunk_array_size exceeds the 2048-byte array'')
          else
            let sys_chunk_array = slice O_SYS_CHUNK_ARRAY sys_len buf;
                label = takeWhile (\<lambda>b. b \<noteq> 0) (slice O_LABEL LABEL_SIZE buf);
                fsid = uuid_at buf O_FSID
            in try_in (dev_item_parse (slice O_DEV_ITEM DEV_ITEM_SIZE buf)) (\<lambda>dev.
               let sb = \<lparr>sb_csum = slice O_CSUM CSUM_SIZE buf,
                   sb_fsid = fsid,
                   sb_bytenr = le64 buf O_BYTENR,
                   sb_flags = le64 buf O_FLAGS,
                   sb_generation = le64 buf O_GENERATION,
                   sb_root = le64 buf O_ROOT,
                   sb_chunk_root = le64 buf O_CHUNK_ROOT,
                   sb_log_root = le64 buf O_LOG_ROOT,
                   sb_log_root_transid = le64 buf O_LOG_ROOT_TRANSID,
                   sb_total_bytes = le64 buf O_TOTAL_BYTES,
                   sb_bytes_used = le64 buf O_BYTES_USED,
                   sb_root_dir_objectid = le64 buf O_ROOT_DIR_OBJECTID,
                   sb_num_devices = le64 buf O_NUM_DEVICES,
                   sb_sectorsize = le32 buf O_SECTORSIZE,
                   sb_nodesize = le32 buf O_NODESIZE,
                   sb_leafsize = le32 buf O_LEAFSIZE,
                   sb_stripesize = le32 buf O_STRIPESIZE,
                   sb_sys_chunk_array_size = of_nat sys_len,
                   sb_chunk_root_generation = le64 buf O_CHUNK_ROOT_GENERATION,
                   sb_compat_flags = le64 buf O_COMPAT_FLAGS,
                   sb_compat_ro_flags = le64 buf O_COMPAT_RO_FLAGS,
                   sb_incompat_flags = incompat_flags,
                   sb_csum_type = csum_type,
                   sb_root_level = buf ! O_ROOT_LEVEL,
                   sb_chunk_root_level = buf ! O_CHUNK_ROOT_LEVEL,
                   sb_log_root_level = buf ! O_LOG_ROOT_LEVEL,
                   sb_dev_item = dev,
                   sb_label = label,
                   sb_cache_generation = le64 buf O_CACHE_GENERATION,
                   sb_uuid_tree_generation = le64 buf O_UUID_TREE_GENERATION,
                   sb_metadata_uuid = (if le64 buf O_INCOMPAT_FLAGS AND INCOMPAT_METADATA_UUID \<noteq> 0 then uuid_at buf O_METADATA_UUID else fsid),
                   sb_nr_global_roots = le64 buf O_NR_GLOBAL_ROOTS,
                   sb_sys_chunk_array = sys_chunk_array\<rparr>
               in try_in (superblock_validate sb) (\<lambda>_. Ok sb)))))"

definition superblock_parse_at :: "hash_lib \<Rightarrow> bytes \<Rightarrow> u64 \<Rightarrow> superblock result" where
  "superblock_parse_at H buf offset =
     try_in (superblock_parse H buf) (\<lambda>sb.
     if sb_bytenr sb \<noteq> offset then Err (BlockIdentityMismatch ''superblock'' offset (sb_bytenr sb))
     else Ok sb)"

section \<open>Choosing a copy\<close>

text \<open>\<open>fs_core::BlockRead\<close>: the size in bytes, and a read of \<open>n\<close> bytes at an offset.\<close>

record block_read =
  size_bytes :: u64
  read_at :: "u64 \<Rightarrow> nat \<Rightarrow> bytes result"

definition is_zoned_log :: "hash_lib \<Rightarrow> bytes \<Rightarrow> bool" where
  "is_zoned_log H log \<longleftrightarrow>
     slice O_MAGIC (length BTRFS_MAGIC) log = BTRFS_MAGIC \<and>
     le64 log O_INCOMPAT_FLAGS AND INCOMPAT_ZONED \<noteq> 0 \<and>
     (case checksum_from_raw (le16 log O_CSUM_TYPE) of
        Inl _ \<Rightarrow> False
      | Inr kind \<Rightarrow> checksum_verify H kind (drop CSUM_SIZE log) (take CSUM_SIZE log))"

text \<open>
  The loop over the copies: \<open>best\<close> is the newest valid copy so far, \<open>primary_error\<close> what copy 0
  failed with. A failed read leaves the zeroed buffer, whose recorded offset is never that of
  a copy; and it reports an I/O error, so the early refusal is about bytes that were read.
\<close>

fun scan_copies ::
  "hash_lib \<Rightarrow> block_read \<Rightarrow> (nat \<times> u64) list \<Rightarrow> (superblock \<times> nat) option \<Rightarrow> error option \<Rightarrow>
   ((superblock \<times> nat) option \<times> error option) result" where
  "scan_copies H dev [] best primary_error = Ok (best, primary_error)"
| "scan_copies H dev ((copy, offset) # rest) best primary_error =
     (if saturating_add offset (of_nat SUPER_INFO_SIZE) > size_bytes dev then
        scan_copies H dev rest best primary_error
      else
        let read = read_at dev offset SUPER_INFO_SIZE;
            buf = (case read of Inl _ \<Rightarrow> replicate SUPER_INFO_SIZE 0 | Inr b \<Rightarrow> b)
        in case try_in read (\<lambda>buf. superblock_parse_at H buf offset) of
             Inr sb \<Rightarrow>
               (if (case best of None \<Rightarrow> True | Some (b, _) \<Rightarrow> sb_generation sb > sb_generation b) then
                  scan_copies H dev rest (Some (sb, copy)) primary_error
                else scan_copies H dev rest best primary_error)
           | Inl e \<Rightarrow>
               (if (case e of UnsupportedFeature _ \<Rightarrow> le64 buf O_BYTENR = offset | _ \<Rightarrow> False) then Err e
                else if copy = 0 then scan_copies H dev rest best (Some e)
                else scan_copies H dev rest best primary_error))"

definition read_superblock :: "hash_lib \<Rightarrow> block_read \<Rightarrow> (superblock \<times> nat) result" where
  "read_superblock H dev =
     (let size = size_bytes dev in
      try_in
        (if size \<ge> of_nat SUPER_INFO_SIZE then
           try_in (read_at dev 0 SUPER_INFO_SIZE) (\<lambda>log.
           if is_zoned_log H log then
             Err (UnsupportedFeature ''this zoned device uses a superblock log'')
           else Ok ())
         else Ok ())
        (\<lambda>_. try_in (scan_copies H dev (enumerate 0 SUPER_OFFSETS) None None) (\<lambda>(best, primary_error).
          case best of
            Some b \<Rightarrow> Ok b
          | None \<Rightarrow>
              Err (case primary_error of
                     Some e \<Rightarrow> e
                   | None \<Rightarrow> BadSuperblock ''the device is too small to hold a superblock''))))"

section \<open>What a parsed superblock guarantees\<close>

lemma length_digest: "wf_hash_lib H \<Longrightarrow> length (digest H t d) = 32"
  by (cases t) (simp_all add: digest_def wf_hash_lib_def put_at_def)

lemma digest_len_le: "digest_len t \<le> 32" and digest_len_pos: "0 < digest_len t"
  by (cases t; simp)+

lemma checksum_verify_digest:
  "wf_hash_lib H \<Longrightarrow> checksum_verify H t d (digest H t d)"
  using digest_len_le [of t] by (simp add: checksum_verify_def length_digest)

lemma checksum_raw_roundtrip: "checksum_from_raw (checksum_to_raw t) = Ok t"
  by (cases t) (simp_all add: checksum_from_raw_def)

lemma checksum_raw_inverse: "checksum_from_raw r = Ok t \<Longrightarrow> checksum_to_raw t = r"
  by (auto simp: checksum_from_raw_def split: if_splits)

lemma refuse_unreadable_iff:
  "refuse_unreadable_incompat flags = Ok () \<longleftrightarrow> flags AND NOT INCOMPAT_SUPPORTED = 0"
  by (auto simp: refuse_unreadable_incompat_def Let_def split: prod.splits)

lemma check_levels_iff: "check_levels xs = Ok () \<longleftrightarrow> (\<forall>(n, l)\<in>set xs. l < MAX_LEVEL)"
  by (induction xs rule: check_levels.induct) auto

lemma check_aligned_iff: "check_aligned s xs = Ok () \<longleftrightarrow> (\<forall>(n, a)\<in>set xs. is_multiple_of a s)"
  by (induction s xs rule: check_aligned.induct) auto

definition sound_superblock :: "superblock \<Rightarrow> bool" where
  "sound_superblock sb \<longleftrightarrow>
     sb_bytenr sb \<in> set SUPER_OFFSETS \<and>
     (\<exists>k\<in>{12..16}. \<exists>j\<in>{k..16}. unat (sb_sectorsize sb) = 2 ^ k \<and> unat (sb_nodesize sb) = 2 ^ j) \<and>
     sb_stripesize sb = sb_sectorsize sb \<and>
     sb_num_devices sb \<noteq> 0 \<and> sb_total_bytes sb \<noteq> 0 \<and>
     unat (sb_sectorsize sb) dvd unat (sb_total_bytes sb) \<and>
     sb_bytes_used sb \<le> sb_total_bytes sb \<and>
     sb_root_level sb < MAX_LEVEL \<and> sb_chunk_root_level sb < MAX_LEVEL \<and>
     sb_log_root_level sb < MAX_LEVEL \<and>
     sb_root sb \<noteq> 0 \<and> sb_chunk_root sb \<noteq> 0 \<and>
     (\<forall>a\<in>{sb_root sb, sb_chunk_root sb, sb_log_root sb}. unat (sb_sectorsize sb) dvd unat a) \<and>
     97 \<le> length (sb_sys_chunk_array sb) \<and> length (sb_sys_chunk_array sb) \<le> 2048 \<and>
     unat (sb_sys_chunk_array_size sb) = length (sb_sys_chunk_array sb) \<and>
     sb_incompat_flags sb AND NOT INCOMPAT_SUPPORTED = 0"

lemma unat_ucast_32_64: "unat (ucast (w :: u32) :: u64) = unat w"
proof -
  have "unat w < 18446744073709551616"
    using unat_u32 [of w] by simp
  then show ?thesis
    by (simp add: unsigned_ucast_eq take_bit_nat_eq_self)
qed

lemma power_two_range:
  fixes a :: u32
  assumes "is_power_of_two a" and "4096 \<le> a" and "a \<le> 65536"
  obtains k where "12 \<le> k" and "k \<le> 16" and "unat a = 2 ^ k"
proof -
  obtain k where k: "unat a = 2 ^ k"
    using is_power_of_two_unat [OF assms(1)] by blast
  have "(2 :: nat) ^ 12 \<le> 2 ^ k" and "(2 :: nat) ^ k \<le> 2 ^ 16"
    using assms(2,3) by (simp_all add: word_le_nat_alt k)
  then have "12 \<le> k" and "k \<le> 16"
    by (simp_all only: power_increasing_iff one_less_numeral_iff semiring_norm)
  with k that show ?thesis by blast
qed

lemma validate_geometry_sound:
  assumes "validate_geometry sb = Ok ()"
  shows "sb_bytenr sb \<in> set SUPER_OFFSETS"
    and "\<exists>k\<in>{12..16}. \<exists>j\<in>{k..16}. unat (sb_sectorsize sb) = 2 ^ k \<and> unat (sb_nodesize sb) = 2 ^ j"
    and "sb_stripesize sb = sb_sectorsize sb" "sb_num_devices sb \<noteq> 0" "sb_total_bytes sb \<noteq> 0"
    and "unat (sb_sectorsize sb) dvd unat (sb_total_bytes sb)"
    and "sb_bytes_used sb \<le> sb_total_bytes sb"
proof -
  note v = assms[unfolded validate_geometry_def]
  show "sb_bytenr sb \<in> set SUPER_OFFSETS"
    and "sb_stripesize sb = sb_sectorsize sb" "sb_num_devices sb \<noteq> 0" "sb_total_bytes sb \<noteq> 0"
    and "sb_bytes_used sb \<le> sb_total_bytes sb"
    using v by (auto split: if_splits)
  show "unat (sb_sectorsize sb) dvd unat (sb_total_bytes sb)"
    using v by (auto simp: is_multiple_of_iff unat_ucast_32_64 split: if_splits)
  have s: "is_power_of_two (sb_sectorsize sb)" "4096 \<le> sb_sectorsize sb" "sb_sectorsize sb \<le> 65536"
    and n: "is_power_of_two (sb_nodesize sb)" "sb_sectorsize sb \<le> sb_nodesize sb"
      "sb_nodesize sb \<le> 65536"
    using v by (auto split: if_splits)
  obtain k where k: "12 \<le> k" "k \<le> 16" "unat (sb_sectorsize sb) = 2 ^ k"
    using power_two_range [OF s] .
  obtain j where j: "12 \<le> j" "j \<le> 16" "unat (sb_nodesize sb) = 2 ^ j"
    using power_two_range [OF n(1) order_trans [OF s(2) n(2)] n(3)] .
  have "(2 :: nat) ^ k \<le> 2 ^ j"
    using n(2) by (simp add: word_le_nat_alt k j)
  then have "k \<le> j"
    by (simp only: power_increasing_iff one_less_numeral_iff semiring_norm)
  with k j show "\<exists>k\<in>{12..16}. \<exists>j\<in>{k..16}.
      unat (sb_sectorsize sb) = 2 ^ k \<and> unat (sb_nodesize sb) = 2 ^ j"
    by (intro bexI [of _ k] bexI [of _ j]) auto
qed

lemma validate_tree_roots_sound:
  assumes "validate_tree_roots sb = Ok ()"
  shows "sb_root_level sb < MAX_LEVEL" "sb_chunk_root_level sb < MAX_LEVEL"
    "sb_log_root_level sb < MAX_LEVEL" "sb_root sb \<noteq> 0" "sb_chunk_root sb \<noteq> 0"
    "\<forall>a\<in>{sb_root sb, sb_chunk_root sb, sb_log_root sb}. unat (sb_sectorsize sb) dvd unat a"
  using assms
  by (auto simp: validate_tree_roots_def try_in_eq_Ok check_levels_iff check_aligned_iff
      is_multiple_of_iff unat_ucast_32_64 split: if_splits)

lemma superblock_parse_fields:
  assumes "superblock_parse H buf = Ok sb"
  shows "superblock_validate sb = Ok ()" "4096 \<le> length buf"
    "checksum_verify H (sb_csum_type sb) (slice 32 4064 buf) (sb_csum sb)"
    "sb_csum sb = slice 0 32 buf" "sb_bytenr sb = le64 buf O_BYTENR"
    "sb_generation sb = le64 buf O_GENERATION"
    "refuse_unreadable_incompat (sb_incompat_flags sb) = Ok ()"
    "length (sb_sys_chunk_array sb) \<le> 2048"
    "unat (sb_sys_chunk_array_size sb) = length (sb_sys_chunk_array sb)"
  using assms
  by (auto simp: superblock_parse_def Let_def res_simps split: if_splits)

lemma superblock_parse_sound:
  assumes "superblock_parse H buf = Ok sb"
  shows "sound_superblock sb"
proof -
  note f = superblock_parse_fields [OF assms]
  have v: "validate_geometry sb = Ok ()" "validate_tree_roots sb = Ok ()"
    "validate_sys_chunk_array sb = Ok ()"
    using f(1) by (auto simp: superblock_validate_def try_in_eq_Ok)
  have "97 \<le> length (sb_sys_chunk_array sb)"
    using v(3) by (simp add: validate_sys_chunk_array_def word_less_nat_alt f(9) split: if_splits)
  then show ?thesis
    unfolding sound_superblock_def
    using validate_geometry_sound [OF v(1)] validate_tree_roots_sound [OF v(2)] f(7-9)
    by (simp add: refuse_unreadable_iff)
qed

section \<open>The copy a mount uses\<close>

text \<open>A copy is valid when the device holds it and it parses as the copy of its own offset.\<close>

definition valid_copy :: "hash_lib \<Rightarrow> block_read \<Rightarrow> u64 \<Rightarrow> superblock \<Rightarrow> bool" where
  "valid_copy H dev off sb \<longleftrightarrow>
     saturating_add off (of_nat SUPER_INFO_SIZE) \<le> size_bytes dev \<and>
     (\<exists>buf. read_at dev off SUPER_INFO_SIZE = Ok buf \<and> superblock_parse_at H buf off = Ok sb)"

definition newer_or_same :: "(superblock \<times> nat) option \<Rightarrow> (superblock \<times> nat) option \<Rightarrow> bool" where
  "newer_or_same old new \<longleftrightarrow>
     (\<forall>sb c. old = Some (sb, c) \<longrightarrow> new = Some (sb, c) \<or>
        (\<exists>sb' c'. new = Some (sb', c') \<and> sb_generation sb < sb_generation sb'))"

lemma newer_or_same_refl: "newer_or_same b b"
  by (simp add: newer_or_same_def)

lemma newer_or_same_None: "newer_or_same None b"
  by (simp add: newer_or_same_def)

lemma newer_or_same_trans: "newer_or_same a b \<Longrightarrow> newer_or_same b c \<Longrightarrow> newer_or_same a c"
  unfolding newer_or_same_def by fastforce

text \<open>
  One step of the scan: an absent copy and an invalid one leave the best, a valid one replaces
  it when it is newer.
\<close>

lemma scan_copies_step:
  assumes "scan_copies H dev ((copy, offset) # rest) best perr = Ok (b, p)"
  obtains perr' where "scan_copies H dev rest best perr' = Ok (b, p)"
      and "\<And>sb. valid_copy H dev offset sb \<Longrightarrow>
        \<exists>sb0 c0. best = Some (sb0, c0) \<and> sb_generation sb \<le> sb_generation sb0"
  | sb where "valid_copy H dev offset sb"
      and "\<And>sb0 c0. best = Some (sb0, c0) \<Longrightarrow> sb_generation sb0 < sb_generation sb"
      and "scan_copies H dev rest (Some (sb, copy)) perr = Ok (b, p)"
proof (cases "saturating_add offset (of_nat SUPER_INFO_SIZE) > size_bytes dev")
  case True
  then show ?thesis
    using assms by (intro that(1) [of perr]) (auto simp: valid_copy_def not_le)
next
  case False
  let ?r = "try_in (read_at dev offset SUPER_INFO_SIZE) (\<lambda>buf. superblock_parse_at H buf offset)"
  show ?thesis
  proof (cases ?r)
    case (Inl e)
    have "\<not> valid_copy H dev offset sb" for sb
      using Inl by (auto simp: valid_copy_def)
    then show ?thesis
      using assms False Inl that(1)
      by (auto simp: Let_def not_less split: if_splits error.splits)
  next
    case (Inr sb)
    have v: "valid_copy H dev offset sb"
      using Inr False by (auto simp: valid_copy_def try_in_eq_Ok not_less)
    have u: "sb' = sb" if "valid_copy H dev offset sb'" for sb'
      using that v by (auto simp: valid_copy_def)
    show ?thesis
    proof (cases "case best of None \<Rightarrow> True | Some (b, _) \<Rightarrow> sb_generation sb > sb_generation b")
      case True
      then show ?thesis
        using assms False Inr v that(2) [of sb] by (auto simp: Let_def split: option.splits)
    next
      case nf: False
      then obtain sb0 c0 where "best = Some (sb0, c0)" "sb_generation sb \<le> sb_generation sb0"
        by (auto split: option.splits simp: not_less)
      then show ?thesis
        using assms False Inr nf u that(1) [of perr] by (auto simp: Let_def split: option.splits)
    qed
  qed
qed

lemma scan_copies_best:
  assumes "scan_copies H dev cs best perr = Ok (b, p)"
  shows "newer_or_same best b \<and>
    (\<forall>sb c. b = Some (sb, c) \<longrightarrow> best = Some (sb, c) \<or> (\<exists>off. (c, off) \<in> set cs \<and> valid_copy H dev off sb)) \<and>
    (\<forall>c off sb. (c, off) \<in> set cs \<longrightarrow> valid_copy H dev off sb \<longrightarrow>
       (\<exists>sb' c'. b = Some (sb', c') \<and> sb_generation sb \<le> sb_generation sb'))"
  using assms
proof (induction cs arbitrary: best perr)
  case Nil
  then show ?case by (simp add: newer_or_same_refl)
next
  case (Cons x cs)
  obtain copy offset where x: "x = (copy, offset)" by (cases x)
  from Cons.prems[unfolded x] show ?case
  proof (cases rule: scan_copies_step)
    case (1 perr')
    note ih = Cons.IH [OF 1(1)]
    have "\<exists>sb' c'. b = Some (sb', c') \<and> sb_generation sb \<le> sb_generation sb'"
      if v: "valid_copy H dev offset sb" for sb
    proof -
      obtain sb0 c0 where "best = Some (sb0, c0)" "sb_generation sb \<le> sb_generation sb0"
        using 1(2) [OF v] by blast
      moreover have "newer_or_same best b" using ih by blast
      ultimately show ?thesis by (auto simp: newer_or_same_def)
    qed
    then show ?thesis using ih x by auto
  next
    case (2 sb)
    note ih = Cons.IH [OF 2(3)]
    have new: "newer_or_same best (Some (sb, copy))"
      using 2(2) by (auto simp: newer_or_same_def)
    have "\<exists>sb' c'. b = Some (sb', c') \<and> sb_generation sb \<le> sb_generation sb'"
      using conjunct1 [OF ih] by (auto simp: newer_or_same_def)
    then have "\<exists>sb' c'. b = Some (sb', c') \<and> sb_generation s \<le> sb_generation sb'"
      if "valid_copy H dev offset s" for s
      using that 2(1) by (auto simp: valid_copy_def)
    then show ?thesis
      using ih 2(1) newer_or_same_trans [OF new] x by auto
  qed
qed

text \<open>Ties go to the lower copy: what precedes the copy chosen is strictly older.\<close>

lemma scan_copies_ties:
  assumes "scan_copies H dev cs best perr = Ok (Some (sb, c), p)" and "sorted_wrt (<) (map fst cs)"
    and "(c1, off1) \<in> set cs" and "valid_copy H dev off1 sb1" and "c1 < c"
  shows "sb_generation sb1 < sb_generation sb \<or> best = Some (sb, c)"
  using assms
proof (induction cs arbitrary: best perr)
  case Nil
  then show ?case by simp
next
  case (Cons x cs)
  obtain copy offset where x: "x = (copy, offset)" by (cases x)
  from Cons.prems(1)[unfolded x] show ?case
  proof (cases rule: scan_copies_step)
    case (1 perr')
    show ?thesis
    proof (cases "(c1, off1) \<in> set cs")
      case True
      then show ?thesis
        using Cons.IH [OF 1(1)] Cons.prems by auto
    next
      case False
      then obtain sb0 c0 where b: "best = Some (sb0, c0)" "sb_generation sb1 \<le> sb_generation sb0"
        using 1(2) [of sb1] Cons.prems(3,4) x by auto
      then show ?thesis
        using scan_copies_best [OF 1(1)] unfolding newer_or_same_def by fastforce
    qed
  next
    case (2 sb2)
    have nb: "newer_or_same (Some (sb2, copy)) (Some (sb, c))"
      using scan_copies_best [OF 2(3)] by simp
    have copy: "Some (sb2, copy) \<noteq> Some (sb, c)"
      using Cons.prems(2,3,5) x by auto
    show ?thesis
    proof (cases "(c1, off1) \<in> set cs")
      case True
      then show ?thesis
        using Cons.IH [OF 2(3)] Cons.prems copy by auto
    next
      case False
      then have "sb1 = sb2"
        using Cons.prems(3,4) x 2(1) by (auto simp: valid_copy_def)
      then show ?thesis
        using nb copy by (auto simp: newer_or_same_def)
    qed
  qed
qed

text \<open>
  An intact copy declaring a feature the driver cannot read is never passed over.
\<close>

definition unreadable_copy :: "hash_lib \<Rightarrow> block_read \<Rightarrow> u64 \<Rightarrow> bool" where
  "unreadable_copy H dev off \<longleftrightarrow>
     saturating_add off (of_nat SUPER_INFO_SIZE) \<le> size_bytes dev \<and>
     (\<exists>buf m. read_at dev off SUPER_INFO_SIZE = Ok buf \<and>
        superblock_parse_at H buf off = Err (UnsupportedFeature m) \<and> le64 buf O_BYTENR = off)"

lemma scan_copies_unreadable:
  assumes "(c, off) \<in> set cs" and "unreadable_copy H dev off"
  shows "\<exists>e. scan_copies H dev cs best perr = Err e"
  using assms(1)
proof (induction cs arbitrary: best perr)
  case (Cons x cs)
  obtain copy offset where x: "x = (copy, offset)" by (cases x)
  show ?case
  proof (cases "x = (c, off)")
    case True
    then show ?thesis
      using assms(2) by (auto simp: unreadable_copy_def Let_def not_less)
  next
    case False
    then have "\<exists>e. scan_copies H dev cs best perr = Err e" for best perr
      using Cons by auto
    then show ?thesis
      unfolding x by (auto simp: Let_def split: sum.splits if_splits error.splits) 
  qed
qed simp

definition copies :: "(nat \<times> u64) list" where
  "copies = enumerate 0 SUPER_OFFSETS"

lemma copies_eq: "copies = [(0, 0x10000), (1, 0x4000000), (2, 0x4000000000)]"
  by (simp add: copies_def SUPER_OFFSETS_def)

lemma read_superblock_scan:
  assumes "read_superblock H dev = Ok (sb, c)"
  shows "\<exists>p. scan_copies H dev copies None None = Ok (Some (sb, c), p)"
  using assms
  by (auto simp: read_superblock_def copies_def try_in_eq_Ok Let_def split: prod.splits option.splits if_splits)

section \<open>Properties of the superblock\<close>

text \<open>
  The smallest superblock the validation accepts, for the witnesses: one device, 4096-byte
  sectors, 16 KiB nodes, a one-stripe system array, at a given offset and generation. Its
  checksum is right for the instance of \<open>hash_lib\<close> whose checksums are all zero.
\<close>

definition zero_hash :: hash_lib where
  "zero_hash = \<lparr>crc32c = (\<lambda>_. 0), crc32c_append = (\<lambda>_ _. 0), xxhash64 = (\<lambda>_ _. 0),
     sha256 = (\<lambda>_. replicate 32 0), blake2b_256 = (\<lambda>_. replicate 32 0)\<rparr>"

definition mini_super :: "u64 \<Rightarrow> u64 \<Rightarrow> bytes" where
  "mini_super at gen =
     put_at O_SYS_CHUNK_ARRAY_SIZE (u32_bytes 97)
     (put_at O_STRIPESIZE (u32_bytes 4096)
     (put_at O_NODESIZE (u32_bytes 16384)
     (put_at O_SECTORSIZE (u32_bytes 4096)
     (put_at O_NUM_DEVICES (u64_bytes 1)
     (put_at O_TOTAL_BYTES (u64_bytes 134217728)
     (put_at O_CHUNK_ROOT (u64_bytes 4194304)
     (put_at O_ROOT (u64_bytes 8388608)
     (put_at O_GENERATION (u64_bytes gen)
     (put_at O_BYTENR (u64_bytes at)
     (put_at O_MAGIC BTRFS_MAGIC (replicate 4096 0)))))))))))"

lemma le_nat_zeros: "le_nat (replicate n 0) = 0"
  by (induction n) auto

lemma le_zeros [byte_simps]:
  "le64 (replicate n 0) off = 0" "le32 (replicate n 0) off = 0" "le16 (replicate n 0) off = 0"
  by (simp_all add: le64_def le32_def le16_def slice_def le_nat_zeros)

lemma slice_zeros [byte_simps]: "slice off k (replicate n 0) = replicate (min k (n - off)) 0"
  by (simp add: slice_def)

lemma length_BTRFS_MAGIC [simp]: "length BTRFS_MAGIC = 8"
  by (simp add: BTRFS_MAGIC_def)

lemma is_power_of_two_4096: "is_power_of_two (4096 :: u32)" "is_power_of_two (16384 :: u32)"
  by code_simp+

lemma length_mini_super [simp]: "length (mini_super at gen) = 4096"
  by (simp add: mini_super_def)

lemma mini_super_reads:
  "slice O_MAGIC 8 (mini_super at gen) = BTRFS_MAGIC"
  "le64 (mini_super at gen) O_BYTENR = at"
  "le64 (mini_super at gen) O_GENERATION = gen"
  "le16 (mini_super at gen) O_CSUM_TYPE = 0"
  "le64 (mini_super at gen) O_INCOMPAT_FLAGS = 0"
  "slice 0 32 (mini_super at gen) = replicate 32 0"
  by (simp_all add: mini_super_def byte_simps)

lemma superblock_validate_mini:
  assumes "sb_bytenr sb \<in> set SUPER_OFFSETS" "sb_sectorsize sb = 4096" "sb_nodesize sb = 16384"
    "sb_stripesize sb = 4096" "sb_num_devices sb = 1" "sb_total_bytes sb = 134217728"
    "sb_bytes_used sb = 0" "sb_root_level sb = 0" "sb_chunk_root_level sb = 0"
    "sb_log_root_level sb = 0" "sb_root sb = 8388608" "sb_chunk_root sb = 4194304"
    "sb_log_root sb = 0" "sb_sys_chunk_array_size sb = 97" "di_fsid (sb_dev_item sb) = node_uuid sb"
  shows "superblock_validate sb = Ok ()"
  using assms
  by (simp add: superblock_validate_def validate_geometry_def validate_tree_roots_def
      validate_sys_chunk_array_def validate_device_identity_def is_power_of_two_4096
      is_multiple_of_def)

lemma zero_hash_verify: "checksum_verify zero_hash Crc32c d (replicate 32 0)"
proof -
  have "u32_bytes 0 = replicate 4 0"
    by code_simp
  then show ?thesis
    by (simp add: checksum_verify_def digest_def zero_hash_def put_at_def)
qed

lemma mini_super_parse:
  assumes "off \<in> set SUPER_OFFSETS"
  shows "\<exists>sb. superblock_parse zero_hash (mini_super off gen) = Ok sb \<and>
    sb_generation sb = gen \<and> sb_bytenr sb = off"
proof -
  let ?b = "mini_super off gen"
  have r: "le32 ?b O_SYS_CHUNK_ARRAY_SIZE = 97" "le32 ?b O_STRIPESIZE = 4096"
    "le32 ?b O_NODESIZE = 16384" "le32 ?b O_SECTORSIZE = 4096" "le64 ?b O_NUM_DEVICES = 1"
    "le64 ?b O_TOTAL_BYTES = 134217728" "le64 ?b O_CHUNK_ROOT = 4194304" "le64 ?b O_ROOT = 8388608"
    "le64 ?b O_LOG_ROOT = 0" "le64 ?b O_BYTES_USED = 0" "le64 ?b O_FLAGS = 0"
    "uuid_at ?b O_FSID = replicate 16 0"
    by (simp_all add: mini_super_def byte_simps uuid_at_def)
  have n: "?b ! O_ROOT_LEVEL = 0" "?b ! O_CHUNK_ROOT_LEVEL = 0" "?b ! O_LOG_ROOT_LEVEL = 0"
    by (simp_all add: mini_super_def byte_simps)
  have d: "slice O_DEV_ITEM 98 ?b = replicate 98 0"
    by (simp add: mini_super_def byte_simps)
  obtain dd where dd: "dev_item_parse (replicate 98 0) = Ok dd" "di_fsid dd = replicate 16 0"
    by (auto simp: dev_item_parse_def uuid_at_def byte_simps)
  have k: "checksum_from_raw 0 = Ok Crc32c" and f: "refuse_unreadable_incompat 0 = Ok ()"
    by (simp_all add: checksum_from_raw_def refuse_unreadable_incompat_def)
  obtain sb where sb: "superblock_parse zero_hash ?b = try_in (superblock_validate sb) (\<lambda>_. Ok sb)"
    "sb_bytenr sb = off" "sb_generation sb = gen" "sb_sectorsize sb = 4096" "sb_nodesize sb = 16384"
    "sb_stripesize sb = 4096" "sb_num_devices sb = 1" "sb_total_bytes sb = 134217728"
    "sb_bytes_used sb = 0" "sb_root_level sb = 0" "sb_chunk_root_level sb = 0"
    "sb_log_root_level sb = 0" "sb_root sb = 8388608" "sb_chunk_root sb = 4194304"
    "sb_log_root sb = 0" "sb_sys_chunk_array_size sb = 97" "sb_fsid sb = replicate 16 0"
    "sb_incompat_flags sb = 0" "sb_dev_item sb = dd"
    by (simp add: superblock_parse_def mini_super_reads r n d dd(1) k f zero_hash_verify Let_def)
  have "superblock_validate sb = Ok ()"
    using assms by (intro superblock_validate_mini) (simp_all add: sb node_uuid_def dd(2))
  with sb(1-3) show ?thesis by simp
qed

text \<open>
  C6. A superblock that parses is sound. Whenever \<open>Superblock::parse\<close> accepts a buffer, the
  checksum over bytes 32 to 4095 matches the stored one, sector and node size are powers of two
  between 4096 and 65536 with the node at least a sector, the tree roots are aligned and
  non-zero at levels below 8, the system chunk array has its recorded length, and no feature
  outside the supported set is declared.
\<close>

theorem superblock_parse_guarantees:
  assumes "superblock_parse H buf = Ok sb"
  shows "sound_superblock sb \<and>
    checksum_verify H (sb_csum_type sb) (slice 32 4064 buf) (slice 0 32 buf)"
  using superblock_parse_sound [OF assms] superblock_parse_fields [OF assms] by simp

theorem superblock_parse_guarantees_witness:
  "\<exists>sb. superblock_parse zero_hash (mini_super 0x10000 7) = Ok sb \<and> sound_superblock sb \<and>
    sb_generation sb = 7"
  using mini_super_parse [of "0x10000" 7] superblock_parse_guarantees
  by (fastforce simp: SUPER_OFFSETS_def)

text \<open>
  C7. The mount uses the newest valid copy. The superblock \<open>read_superblock\<close> returns is a
  valid copy of the device, no valid copy has a higher generation, and among copies of the same
  generation it is the one with the lowest index.
\<close>

theorem read_superblock_newest:
  assumes "read_superblock H dev = Ok (sb, c)"
  shows "\<exists>off. (c, off) \<in> set copies \<and> valid_copy H dev off sb \<and>
    (\<forall>(c1, off1)\<in>set copies. \<forall>sb1. valid_copy H dev off1 sb1 \<longrightarrow>
       sb_generation sb1 \<le> sb_generation sb \<and> (c1 < c \<longrightarrow> sb_generation sb1 < sb_generation sb))"
proof -
  obtain p where p: "scan_copies H dev copies None None = Ok (Some (sb, c), p)"
    using read_superblock_scan [OF assms] by blast
  have s: "sorted_wrt (<) (map fst copies)"
    by (simp add: copies_eq)
  note best = scan_copies_best [OF p]
  obtain off where off: "(c, off) \<in> set copies" "valid_copy H dev off sb"
    using best by blast
  have "sb_generation sb1 \<le> sb_generation sb \<and> (c1 < c \<longrightarrow> sb_generation sb1 < sb_generation sb)"
    if "(c1, off1) \<in> set copies" and "valid_copy H dev off1 sb1" for c1 off1 sb1
    using best scan_copies_ties [OF p s that] that by auto
  with off show ?thesis by blast
qed

definition two_copies :: "u64 \<Rightarrow> u64 \<Rightarrow> block_read" where
  "two_copies g0 g1 =
     \<lparr>size_bytes = 0x5000000,
      read_at = (\<lambda>off n. if off = 0x10000 then Ok (mini_super off g0)
                        else if off = 0x4000000 then Ok (mini_super off g1)
                        else Ok (replicate n 0))\<rparr>"

lemma two_copies_reads:
  assumes g: "g0 < g1"
  shows "\<exists>sb. read_superblock zero_hash (two_copies g0 g1) = Ok (sb, 1) \<and> sb_generation sb = g1"
proof -
  obtain s0 where s0: "superblock_parse zero_hash (mini_super 0x10000 g0) = Ok s0"
      "sb_generation s0 = g0" "sb_bytenr s0 = 0x10000"
    using mini_super_parse [of "0x10000" g0] by (auto simp: SUPER_OFFSETS_def)
  obtain s1 where s1: "superblock_parse zero_hash (mini_super 0x4000000 g1) = Ok s1"
      "sb_generation s1 = g1" "sb_bytenr s1 = 0x4000000"
    using mini_super_parse [of "0x4000000" g1] by (auto simp: SUPER_OFFSETS_def)
  have z: "is_zoned_log zero_hash (replicate 4096 0) = False"
    by (simp add: is_zoned_log_def byte_simps)
  have a: "saturating_add 0x10000 4096 = (0x11000 :: u64)"
    "saturating_add 0x4000000 4096 = (0x4001000 :: u64)"
    "saturating_add 0x4000000000 4096 = (0x4000001000 :: u64)"
    by (simp_all add: saturating_add_def)
  have p0: "superblock_parse_at zero_hash (mini_super 0x10000 g0) 0x10000 = Ok s0"
    and p1: "superblock_parse_at zero_hash (mini_super 0x4000000 g1) 0x4000000 = Ok s1"
    using s0 s1 by (simp_all add: superblock_parse_at_def)
  have "scan_copies zero_hash (two_copies g0 g1) copies None None = Ok (Some (s1, 1), None)"
    by (simp add: copies_eq two_copies_def a p0 p1 s0(2) s1(2) g Let_def)
  then show ?thesis
    using s1(2) by (simp add: read_superblock_def two_copies_def z flip: copies_def)
qed

lemma two_copies_read:
  "\<exists>sb. read_superblock zero_hash (two_copies 5 9) = Ok (sb, 1) \<and> sb_generation sb = 9"
  by (rule two_copies_reads) simp

theorem read_superblock_newest_witness:
  "\<exists>sb off. (1, off) \<in> set copies \<and> valid_copy zero_hash (two_copies 5 9) off sb \<and> sb_generation sb = 9"
proof -
  obtain sb where "read_superblock zero_hash (two_copies 5 9) = Ok (sb, 1)" "sb_generation sb = 9"
    using two_copies_read by blast
  with read_superblock_newest show ?thesis by blast
qed

text \<open>
  C8. A declared feature is never read around. When an intact copy (its checksum matches and it
  records its own offset) declares an incompatible feature the driver cannot read, the mount
  fails: no other copy is used in its place.
\<close>

theorem read_superblock_refuses_feature:
  assumes "(c, off) \<in> set copies" and "unreadable_copy H dev off"
  shows "\<exists>e. read_superblock H dev = Err e"
proof -
  have "\<exists>e. scan_copies H dev copies None None = Err e"
    using assms by (rule scan_copies_unreadable)
  then show ?thesis
    by (auto simp: read_superblock_def copies_def Let_def try_in_def split: sum.splits)
qed

text \<open>A newer copy with the extent-tree-v2 bit set, behind an older readable primary.\<close>

definition feature_copy :: "u64 \<Rightarrow> bytes" where
  "feature_copy off = put_at O_INCOMPAT_FLAGS (u64_bytes INCOMPAT_EXTENT_TREE_V2) (mini_super off 9)"

definition feature_dev :: block_read where
  "feature_dev =
     \<lparr>size_bytes = 0x5000000,
      read_at = (\<lambda>off n. if off = 0x10000 then Ok (mini_super off 5)
                        else if off = 0x4000000 then Ok (feature_copy off)
                        else Ok (replicate n 0))\<rparr>"

lemma feature_copy_parse:
  "\<exists>m. superblock_parse zero_hash (feature_copy off) = Err (UnsupportedFeature m)"
proof -
  let ?b = "feature_copy off"
  have r: "slice O_MAGIC 8 ?b = BTRFS_MAGIC" "le16 ?b O_CSUM_TYPE = 0" "length ?b = 4096"
    "le64 ?b O_INCOMPAT_FLAGS = INCOMPAT_EXTENT_TREE_V2" "slice 0 32 ?b = replicate 32 0"
    by (simp_all add: feature_copy_def mini_super_reads byte_simps)
  have k: "checksum_from_raw 0 = Ok Crc32c"
    by (simp add: checksum_from_raw_def)
  obtain m where "refuse_unreadable_incompat INCOMPAT_EXTENT_TREE_V2 = Err (UnsupportedFeature m)"
    by (auto simp: refuse_unreadable_incompat_def INCOMPAT_SUPPORTED_def Let_def split: prod.splits)
  then show ?thesis
    by (simp add: superblock_parse_def r k zero_hash_verify Let_def)
qed

theorem read_superblock_refuses_feature_witness:
  "\<exists>e. read_superblock zero_hash feature_dev = Err e"
proof (rule read_superblock_refuses_feature)
  show "(1, 0x4000000) \<in> set copies"
    by (simp add: copies_eq)
  obtain m where "superblock_parse zero_hash (feature_copy 0x4000000) = Err (UnsupportedFeature m)"
    using feature_copy_parse by blast
  moreover have "le64 (feature_copy 0x4000000) O_BYTENR = 0x4000000"
    by (simp add: feature_copy_def mini_super_reads byte_simps)
  ultimately show "unreadable_copy zero_hash feature_dev 0x4000000"
    by (simp add: unreadable_copy_def feature_dev_def saturating_add_def superblock_parse_at_def)
qed

end
