(* ===== verification/Raid56.thy ===== *)
theory Raid56
  imports Bytes
begin

text \<open>
  \<open>src/src/raid56.rs\<close>: where the elements of a RAID5/6 full stripe are, the arithmetic of
  GF(256) over the polynomial 0x11d as the source computes it (by its exponent and logarithm
  tables), the parity of a full stripe and the rebuilding of a lost element. The lemmas show
  that the tables are those of a field, that parity placement is a permutation of the stripes,
  and that every read attempt the driver makes returns the lost element.
\<close>

section \<open>The tables\<close>

record gf_tables_rec =
  gf_exp :: bytes
  gf_log :: bytes

definition POLY :: u16 where
  "POLY = 0x11d"

text \<open>One turn of the \<open>while\<close> loop of \<open>tables\<close>, with \<open>x\<close> and the two arrays as its state.\<close>

fun tables_step :: "nat \<Rightarrow> u16 \<times> bytes \<times> bytes \<Rightarrow> u16 \<times> bytes \<times> bytes" where
  "tables_step i (x, ex, lg) =
     (let ex = ex[i := ucast x];
          lg = lg[unat x := of_nat i];
          x = push_bit 1 x;
          x = (if x AND 0x100 \<noteq> 0 then x XOR POLY else x)
      in (x, ex, lg))"

definition tables :: gf_tables_rec where
  "tables =
     (case fold tables_step [0..<255] (1, replicate 255 0, replicate 256 0) of
        (x, ex, lg) \<Rightarrow> \<lparr>gf_exp = ex, gf_log = lg\<rparr>)"

definition GF :: gf_tables_rec where
  "GF = tables"

definition pow_g :: "nat \<Rightarrow> u8" where
  "pow_g e = gf_exp GF ! (e mod 255)"

definition mul :: "u8 \<Rightarrow> u8 \<Rightarrow> u8" where
  "mul a b =
     (if a = 0 \<or> b = 0 then 0
      else gf_exp GF ! ((unat (gf_log GF ! unat a) + unat (gf_log GF ! unat b)) mod 255))"

definition inv_gf :: "u8 \<Rightarrow> u8" where
  "inv_gf a = gf_exp GF ! ((255 - unat (gf_log GF ! unat a)) mod 255)"

section \<open>Placement\<close>

record stripe_placement =
  data_stripes :: "nat list"
  p_stripe :: nat
  q_stripe :: "nat option"

abbreviation MAX_STRIPES :: nat where
  "MAX_STRIPES \<equiv> 256"

definition placement :: "nat \<Rightarrow> nat \<Rightarrow> u64 \<Rightarrow> stripe_placement result" where
  "placement n parity full =
     (if n > MAX_STRIPES \<or> n \<le> parity then Err (BadChunkItem ''a parity chunk'')
      else
        let k = n - parity;
            rot = unat (full mod of_nat n)
        in Ok \<lparr>data_stripes = map (\<lambda>i. (i + rot) mod n) [0..<k],
               p_stripe = (k + rot) mod n,
               q_stripe = (if parity = 2 then Some ((k + 1 + rot) mod n) else None)\<rparr>)"

section \<open>Read attempts\<close>

datatype rebuild_method = RebuildP | RebuildQ | RebuildPQ nat

definition for_attempt :: "nat \<Rightarrow> nat \<Rightarrow> nat \<Rightarrow> bool \<Rightarrow> rebuild_method option" where
  "for_attempt attempt want data raid6 =
     (if attempt = 1 then Some RebuildP
      else if attempt = 2 \<and> raid6 then Some RebuildQ
      else if raid6 \<and> attempt \<ge> 3 then
        (let nth_other = attempt - 3;
             others = filter (\<lambda>i. i \<noteq> want) [0..<data]
         in if nth_other < length others then Some (RebuildPQ (others ! nth_other)) else None)
      else None)"

definition attempts :: "nat \<Rightarrow> bool \<Rightarrow> nat" where
  "attempts data raid6 = (if raid6 then 3 + (data - 1) else 2)"

section \<open>Parity and rebuilding\<close>

fun xor_into :: "bytes \<Rightarrow> bytes \<Rightarrow> bytes" where
  "xor_into (a # acc) (b # d) = (a XOR b) # xor_into acc d"
| "xor_into acc d = acc"

fun mul_xor_into :: "bytes \<Rightarrow> bytes \<Rightarrow> u8 \<Rightarrow> bytes" where
  "mul_xor_into (a # acc) (b # d) factor = (a XOR mul b factor) # mul_xor_into acc d factor"
| "mul_xor_into acc d factor = acc"

text \<open>
  The loop the three methods share: each data element but the skipped ones is absorbed, and
  one that is not there ends the rebuild.
\<close>

definition missing :: "string \<Rightarrow> error" where
  "missing what = BadChunkItem (''a parity rebuild without '' @ what)"

fun absorb ::
  "(nat \<Rightarrow> bool) \<Rightarrow> (nat \<Rightarrow> bytes \<Rightarrow> 'a \<Rightarrow> 'a) \<Rightarrow> nat \<Rightarrow> bytes option list \<Rightarrow> 'a \<Rightarrow> 'a result" where
  "absorb skip f i [] acc = Ok acc"
| "absorb skip f i (d # data) acc =
     (if skip i then absorb skip f (Suc i) data acc
      else try_in (ok_or (missing ''a data element'') d)
             (\<lambda>d. absorb skip f (Suc i) data (f i d acc)))"

definition rebuild ::
  "rebuild_method \<Rightarrow> nat \<Rightarrow> bytes option list \<Rightarrow> bytes option \<Rightarrow> bytes option \<Rightarrow> bytes result" where
  "rebuild method want data p q =
     (case method of
        RebuildP \<Rightarrow>
          try_in (ok_or (missing ''P'') p)
            (\<lambda>out. absorb (\<lambda>i. i = want) (\<lambda>i d out. xor_into out d) 0 data out)
      | RebuildQ \<Rightarrow>
          try_in (ok_or (missing ''Q'') q) (\<lambda>acc.
          try_in (absorb (\<lambda>i. i = want) (\<lambda>i d acc. mul_xor_into acc d (pow_g i)) 0 data acc)
            (\<lambda>acc. let scale = inv_gf (pow_g want) in Ok (map (\<lambda>b. mul b scale) acc)))
      | RebuildPQ other \<Rightarrow>
          if other = want then Err (missing ''a second element to rebuild'')
          else
            try_in (ok_or (missing ''P'') p) (\<lambda>pxy.
            try_in (ok_or (missing ''Q'') q) (\<lambda>qxy.
            try_in (absorb (\<lambda>i. i = want \<or> i = other)
                      (\<lambda>i d (pxy, qxy). (xor_into pxy d, mul_xor_into qxy d (pow_g i)))
                      0 data (pxy, qxy))
              (\<lambda>(pxy, qxy).
                 let gx = pow_g want; gy = pow_g other; scale = inv_gf (gx XOR gy)
                 in Ok (map2 (\<lambda>pb qb. mul (mul gy pb XOR qb) scale) pxy qxy)))))"

fun parity_q :: "nat \<Rightarrow> bytes list \<Rightarrow> bytes \<Rightarrow> bytes" where
  "parity_q i [] q = q"
| "parity_q i (d # data) q = parity_q (Suc i) data (mul_xor_into q d (pow_g i))"

definition parity :: "bytes list \<Rightarrow> bool \<Rightarrow> bytes \<times> bytes option" where
  "parity data raid6 =
     (let len = (case data of [] \<Rightarrow> 0 | d # _ \<Rightarrow> length d);
          p = fold (\<lambda>d p. xor_into p d) data (replicate len 0);
          q = (if raid6 then Some (parity_q 0 data (replicate len 0)) else None)
      in (p, q))"

section \<open>The tables are those of a field\<close>

text \<open>
  Multiplication by the generator, on bytes. It is linear over XOR, and its powers are what
  the loop of \<open>tables\<close> lists; that is all the later proofs use of the tables.
\<close>

definition times_g :: "u8 \<Rightarrow> u8" where
  "times_g a = push_bit 1 a XOR (if bit a 7 then 0x1d else 0)"

lemma times_g_0 [simp]: "times_g 0 = 0"
  by (simp add: times_g_def)

lemma times_g_xor: "times_g (a XOR b) = times_g a XOR times_g b"
  by (simp add: times_g_def push_bit_xor bit_xor_iff xor.assoc xor.left_commute)

lemma times_g_pow_0 [simp]: "(times_g ^^ n) 0 = 0"
  by (induction n) auto

lemma times_g_pow_xor: "(times_g ^^ n) (a XOR b) = (times_g ^^ n) a XOR (times_g ^^ n) b"
  by (induction n) (auto simp: times_g_xor)

text \<open>The orbit of 1 has length 255: it comes back to 1 after 255 steps and not before.\<close>

fun back_after :: "nat \<Rightarrow> u8 \<Rightarrow> bool" where
  "back_after 0 x = (x = 1)"
| "back_after (Suc n) x = (x \<noteq> 1 \<and> back_after n (times_g x))"

lemma back_after_254: "back_after 254 (times_g 1)"
  by code_simp

lemma back_after_iff:
  "back_after n x \<longleftrightarrow> (\<forall>i<n. (times_g ^^ i) x \<noteq> 1) \<and> (times_g ^^ n) x = 1"
proof (induction n arbitrary: x)
  case 0
  show ?case by simp
next
  case (Suc n)
  have "(\<forall>i<Suc n. (times_g ^^ i) x \<noteq> 1) \<longleftrightarrow> x \<noteq> 1 \<and> (\<forall>i<n. (times_g ^^ Suc i) x \<noteq> 1)"
    by (auto simp: less_Suc_eq_0_disj)
  then show ?case
    by (simp only: back_after.simps Suc.IH funpow_Suc_right comp_apply) blast
qed

definition gpow :: "nat \<Rightarrow> u8" where
  "gpow n = (times_g ^^ n) 1"

lemma gpow_0 [simp]: "gpow 0 = 1"
  by (simp add: gpow_def)

lemma gpow_Suc: "gpow (Suc n) = times_g (gpow n)"
  by (simp add: gpow_def)

lemma gpow_add: "gpow (m + n) = (times_g ^^ m) (gpow n)"
  by (simp add: gpow_def funpow_add)

lemma gpow_255: "gpow 255 = 1" and gpow_neq_1: "0 < d \<Longrightarrow> d < 255 \<Longrightarrow> gpow d \<noteq> 1"
proof -
  have s: "(times_g ^^ i) (times_g 1) = gpow (Suc i)" for i
    by (simp add: gpow_def funpow_swap1)
  have b: "\<forall>i<254. gpow (Suc i) \<noteq> 1" and r: "gpow (Suc 254) = 1"
    using back_after_254 unfolding back_after_iff s by blast+
  show "gpow 255 = 1" using r by simp
  show "gpow d \<noteq> 1" if "0 < d" and "d < 255"
    using b that by (cases d) auto
qed

lemma gpow_mod: "gpow (n mod 255) = gpow n"
proof -
  have "gpow (k * 255 + m) = gpow m" for k m
  proof (induction k)
    case 0
    show ?case by simp
  next
    case (Suc k)
    have "gpow (Suc k * 255 + m) = (times_g ^^ (k * 255 + m)) (gpow 255)"
      by (simp add: gpow_add [symmetric] algebra_simps)
    also have "\<dots> = gpow (k * 255 + m)"
      by (simp only: gpow_255 gpow_0 [symmetric] gpow_add [symmetric]) simp
    finally show ?case using Suc by simp
  qed
  from this [of "n div 255" "n mod 255"] show ?thesis
    by simp
qed

lemma gpow_inj: "i < 255 \<Longrightarrow> j < 255 \<Longrightarrow> gpow i = gpow j \<Longrightarrow> i = j"
proof (induction i j rule: linorder_wlog)
  case (le i j)
  have "gpow ((255 - i) + j) = gpow ((255 - i) + i)"
    using le.prems(3) by (simp only: gpow_add)
  then have "gpow (255 + (j - i)) = 1"
    using le by (simp add: gpow_255 algebra_simps)
  then have "gpow (j - i) = 1"
    using gpow_mod [of "255 + (j - i)"] gpow_mod [of "j - i"] by simp
  moreover have "j - i < 255"
    using le.prems(2) by simp
  ultimately have "\<not> 0 < j - i"
    using gpow_neq_1 by blast
  then show ?case using le.hyps by simp
next
  case (sym i j)
  then show ?case by simp
qed

lemma gpow_neq_0: "gpow n \<noteq> 0"
proof
  assume "gpow n = 0"
  then have "gpow (k + n) = 0" for k
    by (simp add: gpow_add)
  then have "gpow ((255 - n mod 255) + n mod 255) = 0"
    using gpow_mod [of n] \<open>gpow n = 0\<close> by (simp only: gpow_add)
  then show False
    using gpow_255 by simp
qed

lemma gpow_surj:
  assumes "a \<noteq> 0"
  obtains i where "i < 255" and "gpow i = a"
proof -
  have inj: "inj_on gpow {..<255}"
    using gpow_inj by (auto intro!: inj_onI)
  have u: "card (UNIV :: u8 set) = 256"
    by (simp add: card_word)
  have c: "card (UNIV - {0 :: u8}) = 255"
    unfolding card_Diff_singleton [OF UNIV_I] u by simp
  have "gpow ` {..<255} = UNIV - {0}"
  proof (rule card_subset_eq)
    show "gpow ` {..<255} \<subseteq> UNIV - {0}"
      using gpow_neq_0 by auto
    show "card (gpow ` {..<255}) = card (UNIV - {0 :: u8})"
      unfolding card_image [OF inj] c by simp
  qed (rule finite)
  then have "a \<in> gpow ` {..<255}"
    using assms by simp
  then obtain i where "a = gpow i" and "i < 255"
    by (auto simp only: image_iff lessThan_iff)
  then show ?thesis
    by (intro that [of i]) simp_all
qed

text \<open>One turn of the loop multiplies by the generator.\<close>

lemma double_u16:
  "(let x = push_bit 1 (ucast a :: u16) in if x AND 0x100 \<noteq> 0 then x XOR POLY else x)
    = ucast (times_g a)"
proof -
  have all: "\<forall>n\<in>set [0..<256]. (let x = push_bit 1 (ucast (of_nat n :: u8) :: u16)
      in if x AND 0x100 \<noteq> 0 then x XOR POLY else x) = ucast (times_g (of_nat n))"
    by code_simp
  have "unat a < 256"
    by (rule unat_lt_256)
  with all have "(let x = push_bit 1 (ucast (of_nat (unat a) :: u8) :: u16)
      in if x AND 0x100 \<noteq> 0 then x XOR POLY else x) = ucast (times_g (of_nat (unat a)))"
    by (auto simp only: set_upt atLeastLessThan_iff)
  then show ?thesis by simp
qed

lemma unat_ucast_u16: "unat (ucast b :: u16) = unat (b :: u8)"
  using unat_lt_256 [of b] by (simp add: unsigned_ucast_eq take_bit_nat_eq_self)

lemma unat_ucast_u8: "unat (ucast x :: u8) = unat (x :: u16) mod 256"
  by (simp add: unsigned_ucast_eq take_bit_eq_mod)

definition tables_inv :: "nat \<Rightarrow> u16 \<times> bytes \<times> bytes \<Rightarrow> bool" where
  "tables_inv n s =
     (case s of (x, ex, lg) \<Rightarrow> x = ucast (gpow n) \<and> length ex = 255 \<and> length lg = 256 \<and>
        (\<forall>i<n. ex ! i = gpow i \<and> lg ! unat (gpow i) = of_nat i))"

lemma tables_step_inv:
  assumes "tables_inv n s" and "n < 255"
  shows "tables_inv (Suc n) (tables_step n s)"
proof -
  obtain x ex lg where s: "s = (x, ex, lg)"
    by (cases s)
  have inv: "x = ucast (gpow n)" "length ex = 255" "length lg = 256"
    "\<And>i. i < n \<Longrightarrow> ex ! i = gpow i" "\<And>i. i < n \<Longrightarrow> lg ! unat (gpow i) = of_nat i"
    using assms(1) by (auto simp: tables_inv_def s)
  have u: "unat x = unat (gpow n)"
    by (simp add: inv(1) unat_ucast_u16)
  have ne: "unat (gpow n) \<noteq> unat (gpow i)" if "i < n" for i
    using gpow_inj [of i n] that assms(2) by (auto dest: word_unat_eq_iff [THEN iffD2])
  have b: "unat (gpow i) < 256" for i
    by (rule unat_lt_256)
  have "ucast x = gpow n"
    using unat_lt_256 [of "gpow n"] by (simp only: word_unat_eq_iff unat_ucast_u8 u) simp
  then show ?thesis
    using inv ne b assms(2) double_u16 [of "gpow n"]
    by (auto simp: tables_inv_def s Let_def unat_ucast_u16 less_Suc_eq nth_list_update gpow_Suc
      dest: not_sym)
qed

lemma tables_inv_fold:
  "n \<le> 255 \<Longrightarrow> tables_inv n (fold tables_step [0..<n] (1, replicate 255 0, replicate 256 0))"
proof (induction n)
  case 0
  show ?case by (simp add: tables_inv_def)
next
  case (Suc n)
  then show ?case
    by (simp add: tables_step_inv)
qed

lemma GF_entries:
  "i < 255 \<Longrightarrow> gf_exp GF ! i = gpow i"
  "i < 255 \<Longrightarrow> gf_log GF ! unat (gpow i) = of_nat i"
  using tables_inv_fold [of 255]
  by (auto simp: GF_def tables_def tables_inv_def split: prod.splits)

lemma pow_g_gpow: "pow_g n = gpow n"
  by (simp add: pow_g_def GF_entries gpow_mod)

lemma unat_of_nat_255: "i < 255 \<Longrightarrow> unat (of_nat i :: u8) = i"
  by (simp add: unat_of_nat)

lemma mul_gpow: "mul a (gpow k) = (times_g ^^ k) a"
proof (cases "a = 0")
  case True
  then show ?thesis by (simp add: mul_def)
next
  case False
  then obtain i where i: "i < 255" "gpow i = a"
    by (rule gpow_surj)
  have k: "k mod 255 < 255" by simp
  have "mul (gpow i) (gpow (k mod 255)) = gpow ((i + k mod 255) mod 255)"
    using i(1) by (simp add: mul_def gpow_neq_0 GF_entries unat_of_nat_255)
  also have "\<dots> = gpow (k + i)"
    by (metis gpow_mod mod_add_right_eq add.commute)
  finally show ?thesis
    by (simp add: gpow_mod gpow_add i(2))
qed

lemma mul_commute: "mul a b = mul b a"
  by (simp add: mul_def add.commute)

lemma mul_0 [simp]: "mul 0 b = 0" "mul a 0 = 0"
  by (simp_all add: mul_def)

lemma mul_1 [simp]: "mul a 1 = a"
  using mul_gpow [of a 0] by simp

lemma mul_xor_left: "mul (a XOR b) c = mul a c XOR mul b c"
proof (cases "c = 0")
  case False
  then obtain k where "gpow k = c" by (auto elim: gpow_surj)
  then show ?thesis
    using mul_gpow times_g_pow_xor by metis
qed simp

lemma mul_xor_right: "mul c (a XOR b) = mul c a XOR mul c b"
  by (simp add: mul_commute [of c] mul_xor_left)

lemma mul_assoc: "mul (mul a b) c = mul a (mul b c)"
proof (cases "b = 0 \<or> c = 0")
  case False
  then obtain j k where "gpow j = b" "gpow k = c"
    by (metis gpow_surj)
  then show ?thesis
    by (metis funpow_add comp_apply gpow_add mul_gpow)
qed auto

lemma mul_inv_gf: "a \<noteq> 0 \<Longrightarrow> mul a (inv_gf a) = 1"
proof -
  assume "a \<noteq> 0"
  then obtain i where i: "i < 255" "gpow i = a"
    by (rule gpow_surj)
  have "inv_gf (gpow i) = gpow (255 - i)"
    using i(1) by (simp add: inv_gf_def GF_entries unat_of_nat_255 gpow_mod)
  then have "mul a (inv_gf a) = gpow ((255 - i) + i)"
    using i(2) mul_gpow [of a "255 - i"] by (simp add: gpow_add)
  then show ?thesis
    using i(1) by (simp add: gpow_255)
qed

lemma mul_inv_cancel: "a \<noteq> 0 \<Longrightarrow> mul (mul x a) (inv_gf a) = x"
  by (simp add: mul_assoc mul_inv_gf)

lemma pow_g_neq_0: "pow_g i \<noteq> 0"
  by (simp add: pow_g_gpow gpow_neq_0)

lemma xor_eq_0_iff_u8: "a XOR b = 0 \<longleftrightarrow> a = b" for a b :: u8
proof
  assume "a XOR b = 0"
  then have "(a XOR b) XOR b = b" by simp
  then show "a = b" by (simp add: xor.assoc)
qed simp

lemma pow_g_xor_neq_0: "i < 255 \<Longrightarrow> j < 255 \<Longrightarrow> i \<noteq> j \<Longrightarrow> pow_g i XOR pow_g j \<noteq> 0"
  using gpow_inj [of i j] by (auto simp: pow_g_gpow xor_eq_0_iff_u8)

section \<open>Parity placement\<close>

text \<open>
  The elements of a full stripe are on different stripes: \<open>data_stripes\<close>, P and Q together
  are all \<open>n\<close> of them, each once.
\<close>

definition place_all :: "stripe_placement \<Rightarrow> nat list" where
  "place_all pl = data_stripes pl @ [p_stripe pl] @ (case q_stripe pl of None \<Rightarrow> [] | Some q \<Rightarrow> [q])"

lemma rotate_perm: "0 < n \<Longrightarrow> distinct (map (\<lambda>i. (i + r) mod n) [0..<n]) \<and>
    set (map (\<lambda>i. (i + r) mod n) [0..<n]) = {..<n}"
proof -
  assume n: "0 < n"
  have inj: "inj_on (\<lambda>i. (i + r) mod n) {0..<n}"
  proof (rule inj_onI)
    fix i j
    assume i: "i \<in> {0..<n}" and j: "j \<in> {0..<n}" and e: "(i + r) mod n = (j + r) mod n"
    from e have "(int i + int r) mod int n = (int j + int r) mod int n"
      by (simp flip: of_nat_add of_nat_mod)
    then have "int n dvd int i - int j"
      by (simp add: mod_eq_dvd_iff)
    with i j show "i = j"
      using zdvd_imp_le [of "int n" "int i - int j"] zdvd_imp_le [of "int n" "int j - int i"]
      by (cases i j rule: linorder_cases) (auto simp: dvd_diff_commute)
  qed
  have d: "distinct (map (\<lambda>i. (i + r) mod n) [0..<n])"
    using inj by (simp add: distinct_map)
  have "set (map (\<lambda>i. (i + r) mod n) [0..<n]) \<subseteq> {..<n}"
    using n by auto
  moreover have "card (set (map (\<lambda>i. (i + r) mod n) [0..<n])) = card {..<n}"
    using distinct_card [OF d] by simp
  ultimately show ?thesis
    using d card_subset_eq by blast
qed

lemma placement_Ok:
  assumes "placement n np full = Ok pl" and "np = 1 \<or> np = 2"
  shows "np < n" "n \<le> 256" "length (data_stripes pl) = n - np"
    and "distinct (place_all pl)" and "set (place_all pl) = {..<n}"
proof -
  let ?r = "unat (full mod of_nat n)"
  let ?f = "\<lambda>i. (i + ?r) mod n"
  show n: "np < n" "n \<le> 256"
    using assms(1) by (auto simp: placement_def split: if_splits)
  have pl: "pl = \<lparr>data_stripes = map ?f [0..<n - np], p_stripe = (n - np + ?r) mod n,
      q_stripe = (if np = 2 then Some ((n - np + 1 + ?r) mod n) else None)\<rparr>"
    using assms(1) by (auto simp: placement_def Let_def split: if_splits)
  then show "length (data_stripes pl) = n - np"
    by simp
  have "place_all pl = map ?f ([0..<n - np] @ [n - np..<n])"
    using assms(2) n by (auto simp: place_all_def pl upt_conv_Cons)
  moreover have "[0..<n - np] @ [n - np..<n] = [0..<n]"
    by (metis diff_le_self le0 upt_add_eq_append le_add_diff_inverse)
  ultimately have "place_all pl = map ?f [0..<n]"
    by simp
  then show "distinct (place_all pl)" and "set (place_all pl) = {..<n}"
    using rotate_perm [of n ?r] n by simp_all
qed

text \<open>
  C5. Parity rotates without collisions: for any stripe count the driver accepts and any full
  stripe, the data elements, P and (for RAID6) Q are placed on pairwise different stripes that
  together are all stripes of the chunk.
\<close>

theorem placement_permutation:
  assumes "np = 1 \<or> np = 2" and "placement n np full = Ok pl"
  shows "length (data_stripes pl) = n - np \<and> distinct (place_all pl) \<and>
    set (place_all pl) = {..<n} \<and> (q_stripe pl = None \<longleftrightarrow> np = 1)"
proof -
  have "q_stripe pl = None \<longleftrightarrow> np = 1"
    using assms by (auto simp: placement_def Let_def split: if_splits)
  with placement_Ok [OF assms(2,1)] show ?thesis by simp
qed

theorem placement_permutation_witness:
  "distinct (place_all \<lparr>data_stripes = [2, 3, 4], p_stripe = 0, q_stripe = Some 1\<rparr>)"
proof -
  have "placement 5 2 7 = Ok \<lparr>data_stripes = [2, 3, 4], p_stripe = 0, q_stripe = Some 1\<rparr>"
    by code_simp
  from placement_permutation [OF _ this] show ?thesis by simp
qed

section \<open>A lost element is rebuilt\<close>

lemma xor_into_mul: "xor_into acc d = mul_xor_into acc d 1"
  by (induction acc d rule: xor_into.induct) auto

lemma length_mul_xor_into [simp]: "length (mul_xor_into acc d c) = length acc"
  by (induction acc d c rule: mul_xor_into.induct) auto

lemma nth_mul_xor_into:
  "j < length acc \<Longrightarrow> j < length d \<Longrightarrow> mul_xor_into acc d c ! j = acc ! j XOR mul (d ! j) c"
proof (induction acc d c arbitrary: j rule: mul_xor_into.induct)
  case (1 a acc b d c)
  then show ?case by (cases j) auto
qed auto

text \<open>
  Byte \<open>j\<close> of what an absorbing loop adds up: the weighted XOR over the elements that are not
  skipped. \<open>column_at\<close> is the list of the elements' bytes at \<open>j\<close>.
\<close>

fun wsum :: "(nat \<Rightarrow> bool) \<Rightarrow> (nat \<Rightarrow> u8) \<Rightarrow> nat \<Rightarrow> u8 list \<Rightarrow> u8" where
  "wsum skip c i [] = 0"
| "wsum skip c i (x # xs) = (if skip i then 0 else mul x (c i)) XOR wsum skip c (Suc i) xs"

definition erase :: "(nat \<Rightarrow> bool) \<Rightarrow> nat \<Rightarrow> bytes list \<Rightarrow> bytes option list" where
  "erase gone i ds = map (\<lambda>(k, d). if gone k then None else Some d) (enumerate i ds)"

lemma erase_simps [simp]:
  "erase gone i [] = []"
  "erase gone i (d # ds) = (if gone i then None else Some d) # erase gone (Suc i) ds"
  by (simp_all add: erase_def)

definition column_at :: "nat \<Rightarrow> bytes list \<Rightarrow> u8 list" where
  "column_at j ds = map (\<lambda>d. d ! j) ds"

lemma column_at_Cons [simp]: "column_at j (d # ds) = d ! j # column_at j ds" and column_at_Nil [simp]: "column_at j [] = []"
  by (simp_all add: column_at_def)

lemma absorb_erase:
  assumes "\<forall>d\<in>set ds. length d = L" and "length acc = L"
  shows "\<exists>r. absorb gone (\<lambda>i d acc. mul_xor_into acc d (c i)) i (erase gone i ds) acc = Ok r \<and>
    length r = L \<and> (\<forall>j<L. r ! j = acc ! j XOR wsum gone c i (column_at j ds))"
  using assms
proof (induction ds arbitrary: i acc)
  case Nil
  then show ?case by simp
next
  case (Cons d ds)
  show ?case
  proof (cases "gone i")
    case True
    then show ?thesis
      using Cons.IH [of acc "Suc i"] Cons.prems by simp
  next
    case False
    have "length (mul_xor_into acc d (c i)) = L"
      using Cons.prems by simp
    from Cons.IH [OF _ this, of "Suc i"] False Cons.prems show ?thesis
      by (fastforce simp: nth_mul_xor_into xor.assoc)
  qed
qed

lemma absorb_pair:
  assumes "absorb gone (\<lambda>i d acc. xor_into acc d) i ds a = Ok a'"
    and "absorb gone (\<lambda>i d acc. mul_xor_into acc d (pow_g i)) i ds b = Ok b'"
  shows "absorb gone (\<lambda>i d (a, b). (xor_into a d, mul_xor_into b d (pow_g i))) i ds (a, b) = Ok (a', b')"
  using assms
proof (induction ds arbitrary: i a b)
  case (Cons d ds)
  then show ?case
    by (cases d) (auto split: if_splits)
qed simp

lemma wsum_take_one:
  assumes "w < i + length xs" and "i \<le> w" and "\<not> gone w"
  shows "wsum gone c i xs = mul (xs ! (w - i)) (c w) XOR wsum (\<lambda>k. k = w \<or> gone k) c i xs"
  using assms
proof (induction xs arbitrary: i)
  case Nil
  then show ?case by simp
next
  case (Cons x xs)
  show ?case
  proof (cases "i = w")
    case True
    have "wsum gone c (Suc w) xs = wsum (\<lambda>k. k = w \<or> gone k) c (Suc w) xs" if "w < Suc w"
    proof -
      have "w < k \<Longrightarrow> wsum gone c k xs = wsum (\<lambda>k. k = w \<or> gone k) c k xs" for k
        by (induction xs arbitrary: k) auto
      then show ?thesis using that by blast
    qed
    then show ?thesis using True Cons.prems by simp
  next
    case False
    then have "w - i = Suc (w - Suc i)"
      using Cons.prems by simp
    then show ?thesis
      using Cons.IH [of "Suc i"] Cons.prems False by (simp add: xor.left_commute xor.assoc)
  qed
qed



lemma parity_q_col:
  assumes "\<forall>d\<in>set ds. length d = L" and "length q = L"
  shows "length (parity_q i ds q) = L \<and>
    (\<forall>j<L. parity_q i ds q ! j = q ! j XOR wsum (\<lambda>_. False) pow_g i (column_at j ds))"
  using assms
proof (induction ds arbitrary: i q)
  case (Cons d ds)
  have "length (mul_xor_into q d (pow_g i)) = L"
    using Cons.prems by simp
  from Cons.IH [OF _ this, of "Suc i"] Cons.prems show ?case
    by (simp add: nth_mul_xor_into xor.assoc)
qed simp

lemma fold_xor_col:
  assumes "\<forall>d\<in>set ds. length d = L" and "length p = L"
  shows "length (fold (\<lambda>d p. xor_into p d) ds p) = L \<and>
    (\<forall>j<L. fold (\<lambda>d p. xor_into p d) ds p ! j = p ! j XOR wsum (\<lambda>_. False) (\<lambda>_. 1) i (column_at j ds))"
  using assms
proof (induction ds arbitrary: i p)
  case (Cons d ds)
  have "length (xor_into p d) = L"
    using Cons.prems by (simp add: xor_into_mul)
  from Cons.IH [OF _ this, of "Suc i"] Cons.prems show ?case
    by (simp add: xor_into_mul nth_mul_xor_into xor.assoc)
qed simp

lemma parity_col:
  assumes "parity ds raid6 = (p, q)" and "\<forall>d\<in>set ds. length d = L" and "ds \<noteq> []"
  shows "length p = L" and "j < L \<Longrightarrow> p ! j = wsum (\<lambda>_. False) (\<lambda>_. 1) 0 (column_at j ds)"
    and "raid6 \<Longrightarrow> \<exists>q'. q = Some q' \<and> length q' = L \<and>
      (\<forall>j<L. q' ! j = wsum (\<lambda>_. False) pow_g 0 (column_at j ds))"
proof -
  have len: "(case ds of [] \<Rightarrow> 0 | d # _ \<Rightarrow> length d) = L"
    using assms(2,3) by (cases ds) auto
  have p: "p = fold (\<lambda>d p. xor_into p d) ds (replicate L 0)"
    and q: "q = (if raid6 then Some (parity_q 0 ds (replicate L 0)) else None)"
    using assms(1) by (simp_all add: parity_def len)
  show "length p = L" and "j < L \<Longrightarrow> p ! j = wsum (\<lambda>_. False) (\<lambda>_. 1) 0 (column_at j ds)"
    using fold_xor_col [OF assms(2), of "replicate L 0" 0] by (simp_all add: p)
  show "raid6 \<Longrightarrow> \<exists>q'. q = Some q' \<and> length q' = L \<and>
      (\<forall>j<L. q' ! j = wsum (\<lambda>_. False) pow_g 0 (column_at j ds))"
    using parity_q_col [OF assms(2), of "replicate L 0" 0] by (simp add: q)
qed

lemma xor_cancel_u8: "(a XOR b) XOR b = (a :: u8)"
  by (simp add: xor.assoc)

lemma rebuild_P_col:
  assumes ds: "\<forall>d\<in>set ds. length d = L" and w: "want < length ds"
    and par: "parity ds raid6 = (p, q)"
  shows "rebuild RebuildP want (erase (\<lambda>i. i = want) 0 ds) (Some p) q' = Ok (ds ! want)"
proof -
  let ?gone = "\<lambda>i. i = want"
  have ne: "ds \<noteq> []" using w by auto
  obtain r where r: "absorb ?gone (\<lambda>i d acc. mul_xor_into acc d 1) 0 (erase ?gone 0 ds) p = Ok r"
    "length r = L" "\<And>j. j < L \<Longrightarrow> r ! j = p ! j XOR wsum ?gone (\<lambda>_. 1) 0 (column_at j ds)"
    using absorb_erase [OF ds parity_col(1) [OF par ds ne], of ?gone "\<lambda>_. 1" 0] by blast
  have "r = ds ! want"
  proof (rule nth_equalityI)
    show "length r = length (ds ! want)" using r(2) ds w by simp
    fix j
    assume "j < length r"
    then have j: "j < L" using r(2) by simp
    have "r ! j = (ds ! want) ! j"
      using wsum_take_one [of want 0 "column_at j ds" "\<lambda>_. False" "\<lambda>_. 1"] w
      by (simp add: r(3) [OF j] parity_col(2) [OF par ds ne j] xor_cancel_u8 column_at_def)
    then show "r ! j = ds ! want ! j" .
  qed
  then show ?thesis
    using r(1) by (simp add: rebuild_def xor_into_mul)
qed

lemma rebuild_Q_col:
  assumes ds: "\<forall>d\<in>set ds. length d = L" and w: "want < length ds"
    and par: "parity ds True = (p, q)"
  shows "rebuild RebuildQ want (erase (\<lambda>i. i = want) 0 ds) p' q = Ok (ds ! want)"
proof -
  let ?gone = "\<lambda>i. i = want"
  have ne: "ds \<noteq> []" using w by auto
  obtain q1 where q1: "q = Some q1" "length q1 = L"
    "\<And>j. j < L \<Longrightarrow> q1 ! j = wsum (\<lambda>_. False) pow_g 0 (column_at j ds)"
    using parity_col(3) [OF par ds ne] by auto
  obtain r where r: "absorb ?gone (\<lambda>i d acc. mul_xor_into acc d (pow_g i)) 0 (erase ?gone 0 ds) q1 = Ok r"
    "length r = L" "\<And>j. j < L \<Longrightarrow> r ! j = q1 ! j XOR wsum ?gone pow_g 0 (column_at j ds)"
    using absorb_erase [OF ds q1(2), of ?gone pow_g 0] by blast
  have "map (\<lambda>b. mul b (inv_gf (pow_g want))) r = ds ! want"
  proof (rule nth_equalityI)
    show "length (map (\<lambda>b. mul b (inv_gf (pow_g want))) r) = length (ds ! want)"
      using r(2) ds w by simp
    fix j
    assume "j < length (map (\<lambda>b. mul b (inv_gf (pow_g want))) r)"
    then have j: "j < L" using r(2) by simp
    have "r ! j = mul ((ds ! want) ! j) (pow_g want)"
      using wsum_take_one [of want 0 "column_at j ds" "\<lambda>_. False" pow_g] w
      by (simp add: r(3) [OF j] q1(3) [OF j] xor_cancel_u8 column_at_def)
    then show "map (\<lambda>b. mul b (inv_gf (pow_g want))) r ! j = ds ! want ! j"
      using j r(2) by (simp add: mul_inv_cancel pow_g_neq_0)
  qed
  then show ?thesis
    using r(1) q1(1) by (simp add: rebuild_def)
qed

text \<open>The two unknowns of a double rebuild, from the two sums.\<close>

lemma solve_two:
  assumes "gx XOR gy \<noteq> 0"
  shows "mul (mul gy (x XOR y) XOR (mul x gx XOR mul y gy)) (inv_gf (gx XOR gy)) = x"
proof -
  have "mul gy (x XOR y) XOR (mul x gx XOR mul y gy) = mul x (gx XOR gy)"
  proof -
    have "mul gy (x XOR y) XOR (mul x gx XOR mul y gy)
        = (mul gy x XOR mul gy y) XOR (mul x gx XOR mul gy y)"
      by (simp only: mul_xor_right mul_commute [of y gy])
    also have "\<dots> = mul x gx XOR mul gy x"
      by (simp add: xor.left_commute xor.commute xor.assoc)
    finally show ?thesis
      by (simp only: mul_xor_right mul_commute [of gy x])
  qed
  then show ?thesis
    using assms by (simp add: mul_inv_cancel)
qed

lemma rebuild_PQ_col:
  assumes ds: "\<forall>d\<in>set ds. length d = L" and w: "want < length ds" "other < length ds"
    and neq: "want \<noteq> other" and n: "length ds \<le> 255" and par: "parity ds True = (p, q)"
  shows "rebuild (RebuildPQ other) want (erase (\<lambda>i. i = want \<or> i = other) 0 ds) (Some p) q
    = Ok (ds ! want)"
proof -
  let ?gone = "\<lambda>i. i = want \<or> i = other"
  have ne: "ds \<noteq> []" using w by auto
  have split: "wsum (\<lambda>_. False) c 0 (column_at j ds) = (mul (ds ! other ! j) (c other) XOR
      mul (ds ! want ! j) (c want)) XOR wsum ?gone c 0 (column_at j ds)" for c j
    using wsum_take_one [of other 0 "column_at j ds" "\<lambda>_. False" c]
      wsum_take_one [of want 0 "column_at j ds" "\<lambda>i. i = other" c] w neq
    by (simp add: column_at_def xor.assoc)
  obtain q1 where q1: "q = Some q1" "length q1 = L"
    "\<And>j. j < L \<Longrightarrow> q1 ! j = wsum (\<lambda>_. False) pow_g 0 (column_at j ds)"
    using parity_col(3) [OF par ds ne] by auto
  obtain rp where rp: "absorb ?gone (\<lambda>i d acc. mul_xor_into acc d 1) 0 (erase ?gone 0 ds) p = Ok rp"
    "length rp = L" "\<And>j. j < L \<Longrightarrow> rp ! j = p ! j XOR wsum ?gone (\<lambda>_. 1) 0 (column_at j ds)"
    using absorb_erase [OF ds parity_col(1) [OF par ds ne], of ?gone "\<lambda>_. 1" 0] by blast
  obtain rq where rq: "absorb ?gone (\<lambda>i d acc. mul_xor_into acc d (pow_g i)) 0 (erase ?gone 0 ds) q1 = Ok rq"
    "length rq = L" "\<And>j. j < L \<Longrightarrow> rq ! j = q1 ! j XOR wsum ?gone pow_g 0 (column_at j ds)"
    using absorb_erase [OF ds q1(2), of ?gone pow_g 0] by blast
  have pair: "absorb ?gone (\<lambda>i d (a, b). (xor_into a d, mul_xor_into b d (pow_g i))) 0
      (erase ?gone 0 ds) (p, q1) = Ok (rp, rq)"
    by (rule absorb_pair) (use rp(1) rq(1) in \<open>simp_all add: xor_into_mul\<close>)
  let ?f = "\<lambda>pb qb. mul (mul (pow_g other) pb XOR qb) (inv_gf (pow_g want XOR pow_g other))"
  have "map2 ?f rp rq = ds ! want"
  proof (rule nth_equalityI)
    show "length (map2 ?f rp rq) = length (ds ! want)"
      using rp(2) rq(2) ds w by simp
    fix j
    assume "j < length (map2 ?f rp rq)"
    then have j: "j < L" using rp(2) by simp
    have "rp ! j = ds ! want ! j XOR ds ! other ! j"
      unfolding rp(3) [OF j] parity_col(2) [OF par ds ne j] split xor_cancel_u8
      by (simp add: xor.commute)
    moreover have "rq ! j = mul (ds ! want ! j) (pow_g want) XOR mul (ds ! other ! j) (pow_g other)"
      unfolding rq(3) [OF j] q1(3) [OF j] split xor_cancel_u8 by (rule xor.commute)
    ultimately show "map2 ?f rp rq ! j = ds ! want ! j"
      using j rp(2) rq(2) w neq n by (simp add: solve_two pow_g_xor_neq_0)
  qed
  then show ?thesis
    using pair q1(1) neq by (simp add: rebuild_def Let_def)
qed

text \<open>What is missing when a method is used: the wanted element and, for \<open>PQ\<close>, the other one.\<close>

definition lost :: "rebuild_method \<Rightarrow> nat \<Rightarrow> nat \<Rightarrow> bool" where
  "lost m want i = (i = want \<or> (case m of RebuildPQ o1 \<Rightarrow> i = o1 | _ \<Rightarrow> False))"

lemma lost_simps:
  "lost RebuildP want = (\<lambda>i. i = want)"
  "lost RebuildQ want = (\<lambda>i. i = want)"
  "lost (RebuildPQ o1) want = (\<lambda>i. i = want \<or> i = o1)"
  by (auto simp: lost_def)

lemma others_length: "want < k \<Longrightarrow> length (filter (\<lambda>i. i \<noteq> want) [0..<k]) = k - 1"
proof -
  assume w: "want < k"
  have "{i. i < k \<and> [0..<k] ! i \<noteq> want} = {..<k} - {want}"
    by auto
  then show ?thesis
    using w by (simp add: length_filter_conv_card)
qed

lemma for_attempt_PQ:
  assumes "for_attempt a want k raid6 = Some (RebuildPQ o1)"
  shows "raid6" and "o1 < k" and "o1 \<noteq> want"
proof -
  let ?os = "filter (\<lambda>i. i \<noteq> want) [0..<k]"
  have "raid6" and "o1 \<in> set ?os"
    using assms nth_mem [of "a - 3" ?os]
    by (auto simp: for_attempt_def Let_def split: if_splits)
  then show "raid6" and "o1 < k" and "o1 \<noteq> want" by auto
qed

lemma for_attempt_some:
  assumes "1 \<le> a" and "a < attempts k raid6" and "want < k"
  shows "\<exists>m. for_attempt a want k raid6 = Some m"
  using assms others_length [OF assms(3)]
  by (auto simp: for_attempt_def attempts_def Let_def split: if_splits)

text \<open>Each method, for what it may be without.\<close>

lemma rebuild_lost:
  assumes "parity ds raid6 = (p, q)" and "\<forall>d\<in>set ds. length d = L"
    and "length ds \<le> 255" and "want < length ds"
    and "1 \<le> a" and "a < attempts (length ds) raid6"
  shows "\<exists>m. for_attempt a want (length ds) raid6 = Some m \<and>
    rebuild m want (erase (lost m want) 0 ds) (Some p) q = Ok (ds ! want)"
proof -
  obtain m where m: "for_attempt a want (length ds) raid6 = Some m"
    using for_attempt_some assms(4-6) by blast
  have "rebuild m want (erase (lost m want) 0 ds) (Some p) q = Ok (ds ! want)"
  proof (cases m)
    case RebuildP
    then show ?thesis
      using rebuild_P_col [OF assms(2,4,1)] by (simp add: lost_simps)
  next
    case RebuildQ
    then have "raid6"
      using m by (auto simp: for_attempt_def Let_def split: if_splits)
    then show ?thesis
      using rebuild_Q_col [OF assms(2,4)] assms(1) RebuildQ by (simp add: lost_simps)
  next
    case (RebuildPQ o1)
    then show ?thesis
      using rebuild_PQ_col [OF assms(2,4), of o1] for_attempt_PQ [of a want "length ds" raid6 o1]
        m assms(1,3) by (simp add: lost_simps)
  qed
  with m show ?thesis by blast
qed

text \<open>
  C4. Every read attempt of a parity chunk recovers the lost data. Whatever data elements a
  full stripe of RAID5 or RAID6 holds, with the parity the driver computes for them, each of
  the read attempts after the direct read (\<open>1 .. attempts - 1\<close>) has a method, and that method
  returns exactly the element asked for although the element (and, in the double-failure
  attempts, one further data element) is missing.
\<close>

theorem rebuild_recovers:
  assumes "parity ds raid6 = (p, q)" and "\<forall>d\<in>set ds. length d = L"
    and "length ds \<le> 255" and "want < length ds"
    and "1 \<le> a" and "a < attempts (length ds) raid6"
  shows "\<exists>m. for_attempt a want (length ds) raid6 = Some m \<and>
    rebuild m want (erase (lost m want) 0 ds) (Some p) q = Ok (ds ! want)"
  by (rule rebuild_lost [OF assms])

theorem rebuild_recovers_witness:
  "\<exists>m. for_attempt 4 1 3 True = Some m \<and>
    rebuild m 1 (erase (lost m 1) 0 [[1, 2], [3, 4], [5, 255]])
      (Some (fst (parity [[1, 2], [3, 4], [5, 255]] True)))
      (snd (parity [[1, 2], [3, 4], [5, 255]] True)) = Ok [3, 4]"
proof -
  define ds where "ds = ([[1, 2], [3, 4], [5, 255]] :: bytes list)"
  have "length ds = 3" and "ds ! 1 = [3, 4]"
    by (simp_all add: ds_def)
  moreover have "\<exists>m. for_attempt 4 1 (length ds) True = Some m \<and>
      rebuild m 1 (erase (lost m 1) 0 ds) (Some (fst (parity ds True))) (snd (parity ds True))
        = Ok (ds ! 1)"
    by (rule rebuild_recovers [where L = 2]) (simp_all add: ds_def attempts_def)
  ultimately show ?thesis
    by (simp only: ds_def)
qed

end
