(* ===== verification/Chunk.thy ===== *)
theory Chunk
  imports Keys Superblock Raid56 "HOL-Library.Multiset"
begin

text \<open>
  \<open>src/src/chunk.rs\<close>, up to the address map: profiles, stripes, chunk items and the translation
  of one chunk's logical addresses. A lookup \<open>xs.get(i)\<close> is \<open>get xs i\<close>; a division the source
  does without a check is a \<open>Panic\<close> of the model when the divisor is zero, and the lemmas show
  that a parsed chunk never reaches one.
\<close>

section \<open>Constants of the on-disk format\<close>

abbreviation (input) CHUNK_HEADER_SIZE :: nat where
  "CHUNK_HEADER_SIZE \<equiv> 48"

abbreviation (input) STRIPE_SIZE :: nat where
  "STRIPE_SIZE \<equiv> 32"

abbreviation (input) DEFAULT_STRIPE_LEN :: u64 where
  "DEFAULT_STRIPE_LEN \<equiv> 65536"

abbreviation (input) KT_EXTENT_ITEM :: u8 where
  "KT_EXTENT_ITEM \<equiv> 168"

abbreviation (input) KT_METADATA_ITEM :: u8 where
  "KT_METADATA_ITEM \<equiv> 169"

abbreviation (input) KT_DEV_ITEM :: u8 where
  "KT_DEV_ITEM \<equiv> 216"

abbreviation (input) KT_CHUNK_ITEM :: u8 where
  "KT_CHUNK_ITEM \<equiv> 228"

abbreviation (input) KT_BLOCK_GROUP_ITEM :: u8 where
  "KT_BLOCK_GROUP_ITEM \<equiv> 192"

abbreviation (input) KT_FREE_SPACE_INFO :: u8 where
  "KT_FREE_SPACE_INFO \<equiv> 198"

abbreviation (input) KT_FREE_SPACE_EXTENT :: u8 where
  "KT_FREE_SPACE_EXTENT \<equiv> 199"

abbreviation (input) KT_FREE_SPACE_BITMAP :: u8 where
  "KT_FREE_SPACE_BITMAP \<equiv> 200"

abbreviation (input) OID_DEV_ITEMS :: u64 where
  "OID_DEV_ITEMS \<equiv> 1"

abbreviation (input) OID_ROOT_TREE :: u64 where
  "OID_ROOT_TREE \<equiv> 1"

abbreviation (input) OID_EXTENT_TREE :: u64 where
  "OID_EXTENT_TREE \<equiv> 2"

abbreviation (input) OID_CHUNK_TREE :: u64 where
  "OID_CHUNK_TREE \<equiv> 3"

abbreviation (input) OID_DEV_TREE :: u64 where
  "OID_DEV_TREE \<equiv> 4"

abbreviation (input) OID_FS_TREE :: u64 where
  "OID_FS_TREE \<equiv> 5"

abbreviation (input) OID_FREE_SPACE_TREE :: u64 where
  "OID_FREE_SPACE_TREE \<equiv> 10"

abbreviation (input) OID_BLOCK_GROUP_TREE :: u64 where
  "OID_BLOCK_GROUP_TREE \<equiv> 11"

abbreviation (input) OID_FIRST_CHUNK_TREE :: u64 where
  "OID_FIRST_CHUNK_TREE \<equiv> 256"

abbreviation (input) BG_DATA :: u64 where
  "BG_DATA \<equiv> 0x1"

abbreviation (input) BG_SYSTEM :: u64 where
  "BG_SYSTEM \<equiv> 0x2"

abbreviation (input) BG_METADATA :: u64 where
  "BG_METADATA \<equiv> 0x4"

abbreviation (input) BG_RAID0 :: u64 where
  "BG_RAID0 \<equiv> 0x8"

abbreviation (input) BG_RAID1 :: u64 where
  "BG_RAID1 \<equiv> 0x10"

abbreviation (input) BG_DUP :: u64 where
  "BG_DUP \<equiv> 0x20"

abbreviation (input) BG_RAID10 :: u64 where
  "BG_RAID10 \<equiv> 0x40"

abbreviation (input) BG_RAID5 :: u64 where
  "BG_RAID5 \<equiv> 0x80"

abbreviation (input) BG_RAID6 :: u64 where
  "BG_RAID6 \<equiv> 0x100"

abbreviation (input) BG_RAID1C3 :: u64 where
  "BG_RAID1C3 \<equiv> 0x200"

abbreviation (input) BG_RAID1C4 :: u64 where
  "BG_RAID1C4 \<equiv> 0x400"


definition BG_PROFILE_MASK :: u64 where
  "BG_PROFILE_MASK =
     BG_RAID0 OR BG_RAID1 OR BG_RAID1C3 OR BG_RAID1C4 OR BG_RAID5 OR BG_RAID6 OR BG_DUP OR BG_RAID10"

definition BG_TYPE_MASK :: u64 where
  "BG_TYPE_MASK = BG_DATA OR BG_SYSTEM OR BG_METADATA"

section \<open>Profiles\<close>

datatype chunk_profile =
  Single | Dup | Raid0 | Raid1 | Raid1c3 | Raid1c4 | Raid10 | Raid5 | Raid6

definition profile_from_type :: "u64 \<Rightarrow> chunk_profile result" where
  "profile_from_type chunk_type =
     (if chunk_type AND BG_TYPE_MASK = 0 then
        Err (BadChunkItem ''type names neither DATA, METADATA nor SYSTEM'')
      else
        let profile = chunk_type AND BG_PROFILE_MASK in
        if count_ones profile > 1 then
          Err (BadChunkItem ''type sets several profile bits at once'')
        else if profile = 0 then Ok Single
        else if profile = BG_DUP then Ok Dup
        else if profile = BG_RAID0 then Ok Raid0
        else if profile = BG_RAID1 then Ok Raid1
        else if profile = BG_RAID1C3 then Ok Raid1c3
        else if profile = BG_RAID1C4 then Ok Raid1c4
        else if profile = BG_RAID10 then Ok Raid10
        else if profile = BG_RAID5 then Ok Raid5
        else if profile = BG_RAID6 then Ok Raid6
        else Err (BadChunkItem ''type has unrecognised profile bit''))"

fun profile_name :: "chunk_profile \<Rightarrow> string" where
  "profile_name Single = ''single''"
| "profile_name Dup = ''dup''"
| "profile_name Raid0 = ''raid0''"
| "profile_name Raid1 = ''raid1''"
| "profile_name Raid1c3 = ''raid1c3''"
| "profile_name Raid1c4 = ''raid1c4''"
| "profile_name Raid10 = ''raid10''"
| "profile_name Raid5 = ''raid5''"
| "profile_name Raid6 = ''raid6''"

definition is_mirrored :: "chunk_profile \<Rightarrow> bool" where
  "is_mirrored p \<longleftrightarrow> p \<in> {Dup, Raid1, Raid1c3, Raid1c4}"

definition is_striped :: "chunk_profile \<Rightarrow> bool" where
  "is_striped p \<longleftrightarrow> p \<in> {Raid0, Raid10}"

section \<open>Stripes and chunk items\<close>

record stripe =
  st_devid :: u64
  st_offset :: u64
  st_dev_uuid :: bytes

definition stripe_parse :: "bytes \<Rightarrow> stripe result" where
  "stripe_parse buf =
     (if length buf < STRIPE_SIZE then Err (BadChunkItem ''stripe needs 32 bytes'')
      else
        try_in (get_le64 buf 0) (\<lambda>devid.
        try_in (get_le64 buf 8) (\<lambda>offset.
        try_in (get_uuid buf 16) (\<lambda>uuid.
        Ok \<lparr>st_devid = devid, st_offset = offset, st_dev_uuid = uuid\<rparr>))))"

record chunk =
  ch_logical :: u64
  ch_length :: u64
  ch_owner :: u64
  ch_stripe_len :: u64
  ch_type :: u64
  ch_io_align :: u32
  ch_io_width :: u32
  ch_sector_size :: u32
  ch_num_stripes :: u16
  ch_sub_stripes :: u16
  ch_stripes :: "stripe list"

record mapping =
  mp_devid :: u64
  mp_physical :: u64
  mp_len :: u64

definition encoded_len :: "chunk \<Rightarrow> nat" where
  "encoded_len c = CHUNK_HEADER_SIZE + unat (ch_num_stripes c) * STRIPE_SIZE"

definition logical_end :: "chunk \<Rightarrow> u64" where
  "logical_end c = saturating_add (ch_logical c) (ch_length c)"

definition chunk_profile_of :: "chunk \<Rightarrow> chunk_profile result" where
  "chunk_profile_of c = profile_from_type (ch_type c)"

definition is_system :: "chunk \<Rightarrow> bool" where
  "is_system c \<longleftrightarrow> ch_type c AND BG_SYSTEM \<noteq> 0"

definition is_metadata :: "chunk \<Rightarrow> bool" where
  "is_metadata c \<longleftrightarrow> ch_type c AND BG_METADATA \<noteq> 0"

definition is_data :: "chunk \<Rightarrow> bool" where
  "is_data c \<longleftrightarrow> ch_type c AND BG_DATA \<noteq> 0"

definition num_mirrors :: "chunk \<Rightarrow> nat" where
  "num_mirrors c =
     (case chunk_profile_of c of
        Inr Dup \<Rightarrow> 2
      | Inr Raid1 \<Rightarrow> 2
      | Inr Raid1c3 \<Rightarrow> 3
      | Inr Raid1c4 \<Rightarrow> 4
      | Inr Raid10 \<Rightarrow> unat (ch_sub_stripes c)
      | _ \<Rightarrow> 1)"

definition parity_count :: "chunk \<Rightarrow> nat option" where
  "parity_count c =
     (case chunk_profile_of c of
        Inr Raid5 \<Rightarrow> Some 1
      | Inr Raid6 \<Rightarrow> Some 2
      | _ \<Rightarrow> None)"

definition read_attempts :: "chunk \<Rightarrow> nat" where
  "read_attempts c =
     (case parity_count c of
        Some np \<Rightarrow> attempts (unat (ch_num_stripes c) - np) (np = 2)
      | None \<Rightarrow> num_mirrors c)"

text \<open>The stripe counts a profile allows: \<open>expect_exact\<close> and \<open>expect_at_least\<close> of \<open>validate\<close>.\<close>

definition expect_exact :: "chunk_profile \<Rightarrow> u16 option" where
  "expect_exact p =
     (case p of Single \<Rightarrow> Some 1 | Dup \<Rightarrow> Some 2 | Raid1 \<Rightarrow> Some 2 | Raid1c3 \<Rightarrow> Some 3
      | Raid1c4 \<Rightarrow> Some 4 | _ \<Rightarrow> None)"

definition expect_at_least :: "chunk_profile \<Rightarrow> u16 option" where
  "expect_at_least p = (case p of Raid0 \<Rightarrow> Some 2 | Raid5 \<Rightarrow> Some 2 | Raid6 \<Rightarrow> Some 3 | _ \<Rightarrow> None)"

definition chunk_validate :: "chunk \<Rightarrow> unit result" where
  "chunk_validate c =
     (if ch_length c = 0 then Err (BadChunkItem ''chunk covers zero logical bytes'')
      else if ch_stripe_len c = 0 \<or> \<not> is_power_of_two (ch_stripe_len c) then
        Err (BadChunkItem ''stripe_len is not a non-zero power of two'')
      else if checked_add (ch_logical c) (ch_length c) = None then
        Err (BadChunkItem ''logical range overflows the address space'')
      else
        try_in (chunk_profile_of c) (\<lambda>profile.
        let n = ch_num_stripes c in
        if (case expect_exact profile of Some want \<Rightarrow> n \<noteq> want | None \<Rightarrow> False) then
          Err (BadChunkItem (profile_name profile @ '' chunk has the wrong number of stripes''))
        else if (case expect_at_least profile of Some least \<Rightarrow> n < least | None \<Rightarrow> False) then
          Err (BadChunkItem (profile_name profile @ '' chunk has too few stripes''))
        else if profile = Raid10 then
          (if ch_sub_stripes c \<noteq> 2 then
             Err (BadChunkItem ''raid10 chunk has sub_stripes other than 2'')
           else if n < 2 \<or> \<not> is_multiple_of n (ch_sub_stripes c) then
             Err (BadChunkItem ''raid10 stripes are not a positive multiple of sub_stripes'')
           else Ok ())
        else Ok ()))"

text \<open>\<open>chunks_exact\<close> of a slice whose length is a multiple of the stripe's is \<open>chunks_of\<close>.\<close>

definition chunk_parse :: "u64 \<Rightarrow> bytes \<Rightarrow> chunk result" where
  "chunk_parse logical buf =
     (if length buf < CHUNK_HEADER_SIZE then Err (BadChunkItem ''chunk header needs 48 bytes'')
      else
        try_in (get_le16 buf 0x2c) (\<lambda>num_stripes.
        if num_stripes = 0 then Err (BadChunkItem ''chunk declares zero stripes'')
        else
          let need = CHUNK_HEADER_SIZE + unat num_stripes * STRIPE_SIZE in
          if length buf < need then Err (BadChunkItem ''chunk is shorter than its stripes need'')
          else
            try_in (get_slice CHUNK_HEADER_SIZE (need - CHUNK_HEADER_SIZE) buf) (\<lambda>raws.
            try_in (collect_results stripe_parse (chunks_of STRIPE_SIZE raws)) (\<lambda>stripes.
            try_in (get_le64 buf 0x00) (\<lambda>len.
            try_in (get_le64 buf 0x08) (\<lambda>owner.
            try_in (get_le64 buf 0x10) (\<lambda>stripe_len.
            try_in (get_le64 buf 0x18) (\<lambda>chunk_type.
            try_in (get_le32 buf 0x20) (\<lambda>io_align.
            try_in (get_le32 buf 0x24) (\<lambda>io_width.
            try_in (get_le32 buf 0x28) (\<lambda>sector_size.
            try_in (get_le16 buf 0x2e) (\<lambda>sub_stripes.
            let c = \<lparr>ch_logical = logical,
                     ch_length = len,
                     ch_owner = owner,
                     ch_stripe_len = stripe_len,
                     ch_type = chunk_type,
                     ch_io_align = io_align,
                     ch_io_width = io_width,
                     ch_sector_size = sector_size,
                     ch_num_stripes = num_stripes,
                     ch_sub_stripes = sub_stripes,
                     ch_stripes = stripes\<rparr>
            in try_in (chunk_validate c) (\<lambda>_. Ok c)))))))))))))"

fun check_stripe_offsets :: "u64 \<Rightarrow> stripe list \<Rightarrow> unit result" where
  "check_stripe_offsets s [] = Ok ()"
| "check_stripe_offsets s (st # rest) =
     (if \<not> is_multiple_of (st_offset st) s then
        Err (BadChunkItem ''stripe physical offset is not sectorsize-aligned'')
      else check_stripe_offsets s rest)"

definition chunk_validate_geometry :: "chunk \<Rightarrow> u32 \<Rightarrow> unit result" where
  "chunk_validate_geometry c sectorsize =
     (let s = ucast sectorsize in
      if s = 0 then Err (BadChunkItem ''sectorsize is zero'')
      else if \<not> is_multiple_of (ch_logical c) s then
        Err (BadChunkItem ''chunk logical start is not sectorsize-aligned'')
      else if \<not> is_multiple_of (ch_length c) s then
        Err (BadChunkItem ''chunk length is not a multiple of sectorsize'')
      else check_stripe_offsets s (ch_stripes c))"

section \<open>Translation\<close>

definition get :: "'a list \<Rightarrow> nat \<Rightarrow> 'a option" where
  "get xs i = (if i < length xs then Some (xs ! i) else None)"

abbreviation (input) div_by_zero :: error where
  "div_by_zero \<equiv> Panic ''attempt to divide by zero''"

definition stripe_overflow :: error where
  "stripe_overflow = BadChunkItem ''stripe address arithmetic overflowed 64 bits''"

text \<open>The \<open>match profile\<close> of \<open>map_mirror\<close>: which stripe, and how many full rows come before.\<close>

definition stripe_index :: "chunk \<Rightarrow> chunk_profile \<Rightarrow> u64 \<Rightarrow> u64 \<Rightarrow> (u64 \<times> u64) result" where
  "stripe_index c profile stripe_nr m =
     (let n = ucast (ch_num_stripes c) :: u64;
          parity_case = (\<lambda>np. let k = n - of_nat np in
            if k = 0 then Err div_by_zero
            else let full = stripe_nr div k in
              try_in (placement (unat (ch_num_stripes c)) np full) (\<lambda>place.
              try_in (ok_or (Panic ''index out of bounds'')
                        (get (data_stripes place) (unat (stripe_nr mod k)))) (\<lambda>i.
              Ok (of_nat i, full))))
      in case profile of
           Single \<Rightarrow> Ok (0, stripe_nr)
         | Dup \<Rightarrow> Ok (m, stripe_nr)
         | Raid1 \<Rightarrow> Ok (m, stripe_nr)
         | Raid1c3 \<Rightarrow> Ok (m, stripe_nr)
         | Raid1c4 \<Rightarrow> Ok (m, stripe_nr)
         | Raid0 \<Rightarrow>
             if n = 0 then Err div_by_zero else Ok (stripe_nr mod n, stripe_nr div n)
         | Raid10 \<Rightarrow>
             let sub = ucast (ch_sub_stripes c) in
             if sub = 0 then Err div_by_zero
             else let groups = n div sub in
               if groups = 0 then Err div_by_zero
               else Ok ((stripe_nr mod groups) * sub + m, stripe_nr div groups)
         | Raid5 \<Rightarrow> parity_case 1
         | Raid6 \<Rightarrow> parity_case 2)"

definition place_physical :: "u64 \<Rightarrow> u64 \<Rightarrow> u64 \<Rightarrow> u64 \<Rightarrow> u64 option" where
  "place_physical row stripe_len stripe_offset base =
     Option.bind (checked_mul row stripe_len) (\<lambda>r.
     Option.bind (checked_add r stripe_offset) (\<lambda>within. checked_add base within))"

definition chunk_map_mirror :: "chunk \<Rightarrow> u64 \<Rightarrow> nat \<Rightarrow> mapping result" where
  "chunk_map_mirror c logical mirror =
     (if logical < ch_logical c \<or> logical \<ge> logical_end c then Err (UnmappedLogical logical)
      else
        try_in (chunk_profile_of c) (\<lambda>profile.
        if profile \<in> {Raid5, Raid6} \<and> mirror > 0 then
          Err (UnsupportedProfile ''a parity chunk has one copy'')
        else if mirror \<ge> num_mirrors c then
          Err (BadChunkItem ''mirror requested that does not exist'')
        else
          let offset = logical - ch_logical c in
          if ch_stripe_len c = 0 then Err div_by_zero
          else
            let stripe_nr = offset div ch_stripe_len c;
                stripe_offset = offset mod ch_stripe_len c
            in try_in (stripe_index c profile stripe_nr (of_nat mirror)) (\<lambda>(index, row).
               try_in (ok_or (BadChunkItem ''stripe index out of range'')
                         (get (ch_stripes c) (unat index))) (\<lambda>st.
               try_in (ok_or stripe_overflow
                         (place_physical row (ch_stripe_len c) stripe_offset (st_offset st))) (\<lambda>physical.
               let to_chunk_end = logical_end c - logical;
                   len = (if is_striped profile \<or> profile \<in> {Raid5, Raid6} then
                            min (ch_stripe_len c - stripe_offset) to_chunk_end
                          else to_chunk_end)
               in Ok \<lparr>mp_devid = st_devid st, mp_physical = physical, mp_len = len\<rparr>)))))"

definition chunk_map :: "chunk \<Rightarrow> u64 \<Rightarrow> mapping result" where
  "chunk_map c logical = chunk_map_mirror c logical 0"

record parity_read =
  pr_want :: nat
  pr_data :: "(u64 \<times> u64) list"
  pr_p :: "u64 \<times> u64"
  pr_q :: "(u64 \<times> u64) option"
  pr_len :: u64

definition stripe_at :: "chunk \<Rightarrow> u64 \<Rightarrow> nat \<Rightarrow> (u64 \<times> u64) result" where
  "stripe_at c row index =
     try_in (ok_or (Panic ''index out of bounds'') (get (ch_stripes c) index)) (\<lambda>st.
     try_in (ok_or stripe_overflow (checked_add (st_offset st) row)) (\<lambda>physical.
     Ok (st_devid st, physical)))"

definition chunk_parity_read :: "chunk \<Rightarrow> u64 \<Rightarrow> parity_read result" where
  "chunk_parity_read c logical =
     (if logical < ch_logical c \<or> logical \<ge> logical_end c then Err (UnmappedLogical logical)
      else
        try_in (ok_or (UnsupportedProfile ''a parity rebuild of a chunk without parity'')
                  (parity_count c)) (\<lambda>np.
        let n = unat (ch_num_stripes c);
            k = of_nat n - of_nat np :: u64;
            offset = logical - ch_logical c
        in if ch_stripe_len c = 0 \<or> k = 0 then Err div_by_zero
           else
             let element = offset div ch_stripe_len c;
                 within = offset mod ch_stripe_len c;
                 full = element div k
             in try_in (placement n np full) (\<lambda>place.
                try_in (ok_or stripe_overflow
                          (Option.bind (checked_mul full (ch_stripe_len c)) (\<lambda>r. checked_add r within))) (\<lambda>row.
                try_in (collect_results (stripe_at c row) (data_stripes place)) (\<lambda>data.
                try_in (stripe_at c row (p_stripe place)) (\<lambda>p.
                try_in (case q_stripe place of
                          None \<Rightarrow> Ok None
                        | Some q \<Rightarrow> try_in (stripe_at c row q) (\<lambda>q. Ok (Some q))) (\<lambda>q.
                Ok \<lparr>pr_want = unat (element mod k), pr_data = data, pr_p = p, pr_q = q,
                    pr_len = min (ch_stripe_len c - within) (logical_end c - logical)\<rparr>)))))))"

section \<open>What a parsed chunk guarantees\<close>

definition wf_chunk :: "chunk \<Rightarrow> bool" where
  "wf_chunk c \<longleftrightarrow> chunk_validate c = Ok () \<and> length (ch_stripes c) = unat (ch_num_stripes c) \<and>
     ch_num_stripes c \<noteq> 0"

lemma chunk_parse_wf:
  assumes "chunk_parse logical buf = Ok c"
  shows "wf_chunk c" "ch_logical c = logical" "encoded_len c \<le> length buf"
proof -
  have n: "(k * 32 + 31) div 32 = k" for k :: nat by linarith
  show "wf_chunk c"
    using assms
    by (auto simp: chunk_parse_def wf_chunk_def Let_def res_simps collect_results_eq_Ok get_slice_def length_chunks_of n
        dest: list_all2_lengthD split: if_splits)
  show "ch_logical c = logical" "encoded_len c \<le> length buf"
    using assms
    by (auto simp: chunk_parse_def encoded_len_def Let_def res_simps split: if_splits)
qed

text \<open>The fields as natural numbers.\<close>

definition nstripes :: "chunk \<Rightarrow> nat" where
  "nstripes c = unat (ch_num_stripes c)"

definition slen :: "chunk \<Rightarrow> nat" where
  "slen c = unat (ch_stripe_len c)"

definition clen :: "chunk \<Rightarrow> nat" where
  "clen c = unat (ch_length c)"

definition parity_of :: "chunk_profile \<Rightarrow> nat" where
  "parity_of p = (case p of Raid5 \<Rightarrow> 1 | Raid6 \<Rightarrow> 2 | _ \<Rightarrow> 0)"

lemma unat_ucast_16_64: "unat (ucast (w :: u16) :: u64) = unat w"
proof -
  have "unat w < 18446744073709551616"
    using unat_u16 [of w] by simp
  then show ?thesis
    by (simp add: unsigned_ucast_eq take_bit_nat_eq_self)
qed

lemma wf_chunk_facts:
  assumes "wf_chunk c"
  shows "0 < clen c" "0 < slen c" "unat (ch_logical c) + clen c < 2 ^ 64"
    "unat (logical_end c) = unat (ch_logical c) + clen c"
    "length (ch_stripes c) = nstripes c" "0 < nstripes c" "nstripes c < 65536"
proof -
  have v: "chunk_validate c = Ok ()" "length (ch_stripes c) = nstripes c" "ch_num_stripes c \<noteq> 0"
    using assms by (simp_all add: wf_chunk_def nstripes_def)
  show "0 < clen c" "0 < slen c"
    using v(1) by (auto simp: chunk_validate_def clen_def slen_def unat_gt_0 split: if_splits)
  show o: "unat (ch_logical c) + clen c < 2 ^ 64"
    using v(1) by (auto simp: chunk_validate_def clen_def checked_add_None not_le split: if_splits)
  show "unat (logical_end c) = unat (ch_logical c) + clen c"
    using o by (simp add: logical_end_def unat_saturating_add clen_def)
  show "length (ch_stripes c) = nstripes c" by (rule v(2))
  show "0 < nstripes c" using v(3) by (simp add: nstripes_def unat_gt_0)
  show "nstripes c < 65536" by (simp add: nstripes_def unat_u16)
qed

definition stripes_match :: "chunk_profile \<Rightarrow> chunk \<Rightarrow> bool" where
  "stripes_match p c =
     (case p of
        Single \<Rightarrow> nstripes c = 1
      | Dup \<Rightarrow> nstripes c = 2
      | Raid1 \<Rightarrow> nstripes c = 2
      | Raid1c3 \<Rightarrow> nstripes c = 3
      | Raid1c4 \<Rightarrow> nstripes c = 4
      | Raid0 \<Rightarrow> 2 \<le> nstripes c
      | Raid5 \<Rightarrow> 2 \<le> nstripes c
      | Raid6 \<Rightarrow> 3 \<le> nstripes c
      | Raid10 \<Rightarrow> ch_sub_stripes c = 2 \<and> even (nstripes c) \<and> 2 \<le> nstripes c)"

lemma wf_chunk_profile: "wf_chunk c \<Longrightarrow> \<exists>p. chunk_profile_of c = Ok p"
  by (auto simp: wf_chunk_def chunk_validate_def try_in_eq_Ok split: if_splits)

lemma wf_chunk_stripes:
  assumes "wf_chunk c" and "chunk_profile_of c = Ok p"
  shows "stripes_match p c"
proof -
  have v: "chunk_validate c = Ok ()"
    using assms by (simp add: wf_chunk_def)
  have le: "w \<le> ch_num_stripes c \<Longrightarrow> unat w \<le> nstripes c" for w
    by (simp add: nstripes_def word_le_nat_alt)
  have ev: "is_multiple_of (ch_num_stripes c) 2 \<Longrightarrow> even (nstripes c)"
    by (simp add: is_multiple_of_iff nstripes_def)
  note d = chunk_validate_def assms(2) expect_exact_def expect_at_least_def Let_def not_less
  show ?thesis
  proof (cases p)
    case Raid10
    then show ?thesis
      using v le [of 2] ev by (auto simp: d stripes_match_def split: if_splits)
  next
    case Raid0
    then show ?thesis
      using v le [of 2] by (auto simp: d stripes_match_def split: if_splits)
  next
    case Raid5
    then show ?thesis
      using v le [of 2] by (auto simp: d stripes_match_def split: if_splits)
  next
    case Raid6
    then show ?thesis
      using v le [of 3] by (auto simp: d stripes_match_def split: if_splits)
  qed (use v in \<open>auto simp: d stripes_match_def nstripes_def split: if_splits\<close>)
qed

section \<open>Where an address goes, in natural numbers\<close>

text \<open>
  The stripe and the row of the stripe that stripe number \<open>sn\<close> of the chunk is in, for copy
  \<open>m\<close>, and the number of copies.
\<close>

definition place_of :: "chunk_profile \<Rightarrow> nat \<Rightarrow> nat \<Rightarrow> nat \<Rightarrow> nat \<times> nat" where
  "place_of p n sn m =
     (case p of
        Single \<Rightarrow> (0, sn)
      | Raid0 \<Rightarrow> (sn mod n, sn div n)
      | Raid10 \<Rightarrow> (sn mod (n div 2) * 2 + m, sn div (n div 2))
      | Raid5 \<Rightarrow> ((sn mod (n - 1) + sn div (n - 1)) mod n, sn div (n - 1))
      | Raid6 \<Rightarrow> ((sn mod (n - 2) + sn div (n - 2)) mod n, sn div (n - 2))
      | _ \<Rightarrow> (m, sn))"

definition mirrors_of :: "chunk_profile \<Rightarrow> nat" where
  "mirrors_of p =
     (case p of Dup \<Rightarrow> 2 | Raid1 \<Rightarrow> 2 | Raid1c3 \<Rightarrow> 3 | Raid1c4 \<Rightarrow> 4 | Raid10 \<Rightarrow> 2 | _ \<Rightarrow> 1)"

lemma num_mirrors_of:
  "wf_chunk c \<Longrightarrow> chunk_profile_of c = Ok p \<Longrightarrow> num_mirrors c = mirrors_of p"
  using wf_chunk_stripes [of c p]
  by (cases p) (auto simp: num_mirrors_def mirrors_of_def stripes_match_def)

lemma pair_index_bound: "even n \<Longrightarrow> 2 \<le> n \<Longrightarrow> m < 2 \<Longrightarrow> sn mod (n div 2) * 2 + m < (n :: nat)"
proof -
  assume n: "even n" "2 \<le> n" and m: "m < 2"
  then obtain h where h: "n = 2 * h" "0 < h" by auto
  define x where "x = sn mod h"
  have "x < h" using h(2) by (simp add: x_def)
  with m have "x * 2 + m < 2 * h" by simp
  then show ?thesis by (simp add: h(1) x_def)
qed

lemma place_of_bound:
  assumes "stripes_match p c" and "m < mirrors_of p"
  shows "fst (place_of p (nstripes c) sn m) < nstripes c"
    and "snd (place_of p (nstripes c) sn m) \<le> sn"
  using assms
  by (cases p; simp add: place_of_def stripes_match_def mirrors_of_def pair_index_bound)+

lemma div_mod_inj: "a mod k = b mod k \<Longrightarrow> a div k = b div k \<Longrightarrow> a = (b :: nat)"
  by (metis div_mult_mod_eq)

lemma add_mod_cancel:
  assumes "(a + c) mod n = (b + c) mod n" and "a < n" and "b < (n :: nat)"
  shows "a = b"
proof -
  have "(int a + int c) mod int n = (int b + int c) mod int n"
    using assms(1) by (metis of_nat_add zmod_int)
  then have "(int a + int c - int c) mod int n = (int b + int c - int c) mod int n"
    by (rule mod_diff_cong) simp
  then have "a mod n = b mod n"
    by (metis add_diff_cancel_right' nat_int zmod_int)
  then show ?thesis
    using assms(2,3) by simp
qed

lemma rotated_inj:
  assumes "(s1 mod k + s1 div k) mod n = (s2 mod k + s2 div k) mod n" and "s1 div k = s2 div k"
    and "0 < k" and "k \<le> (n :: nat)"
  shows "s1 = s2"
proof -
  have lt: "s1 mod k < n" "s2 mod k < n"
    using assms(3,4) mod_less_divisor [OF assms(3), of s1] mod_less_divisor [OF assms(3), of s2]
    by linarith+
  have "(s1 mod k + s2 div k) mod n = (s2 mod k + s2 div k) mod n"
    using assms(1,2) by simp
  then have "s1 mod k = s2 mod k"
    using lt by (rule add_mod_cancel)
  with assms(2) show ?thesis
    by (rule div_mod_inj [rotated])
qed

lemma pair_inj: "a * 2 + i = b * 2 + j \<Longrightarrow> i < 2 \<Longrightarrow> j < 2 \<Longrightarrow> a = b \<and> i = (j :: nat)"
  by presburger

lemma place_of_inj:
  assumes "stripes_match p c" and "m1 < mirrors_of p" and "m2 < mirrors_of p"
    and "place_of p (nstripes c) s1 m1 = place_of p (nstripes c) s2 m2"
  shows "s1 = s2 \<and> m1 = m2"
proof (cases p)
  case Raid10
  then have "s1 mod (nstripes c div 2) * 2 + m1 = s2 mod (nstripes c div 2) * 2 + m2"
    and d: "s1 div (nstripes c div 2) = s2 div (nstripes c div 2)"
    and m: "m1 < 2" "m2 < 2"
    using assms by (simp_all add: place_of_def mirrors_of_def)
  then show ?thesis
    using pair_inj div_mod_inj by blast
next
  case Raid0
  then show ?thesis
    using assms by (auto simp: place_of_def mirrors_of_def intro: div_mod_inj)
next
  case Raid5
  then show ?thesis
    using assms rotated_inj [of s1 "nstripes c - 1" "nstripes c" s2]
    by (auto simp: place_of_def mirrors_of_def stripes_match_def)
next
  case Raid6
  then show ?thesis
    using assms rotated_inj [of s1 "nstripes c - 2" "nstripes c" s2]
    by (auto simp: place_of_def mirrors_of_def stripes_match_def)
qed (use assms in \<open>auto simp: place_of_def mirrors_of_def\<close>)

section \<open>The translation, in natural numbers\<close>

definition parity_fits :: "chunk_profile \<Rightarrow> chunk \<Rightarrow> bool" where
  "parity_fits p c \<longleftrightarrow> (p \<in> {Raid5, Raid6} \<longrightarrow> nstripes c \<le> MAX_STRIPES)"

lemma unat_of_nat_u64: "n < 18446744073709551616 \<Longrightarrow> unat (of_nat n :: u64) = n"
  by (simp add: unat_of_nat)

lemma unat_stripes_word: "unat (ucast (ch_num_stripes c) :: u64) = nstripes c"
  by (simp add: unat_ucast_16_64 nstripes_def)

lemma unat_stripes_sub:
  "np \<le> nstripes c \<Longrightarrow> unat ((ucast (ch_num_stripes c) :: u64) - of_nat np) = nstripes c - np"
proof -
  assume le: "np \<le> nstripes c"
  have n: "nstripes c < 65536" by (simp add: nstripes_def unat_u16)
  with le have "unat (of_nat np :: u64) = np"
    by (simp add: unat_of_nat_u64)
  then show ?thesis
    using le by (subst unat_sub_le) (simp_all add: word_le_nat_alt unat_stripes_word)
qed

lemma placement_data:
  assumes "n \<le> MAX_STRIPES" and "np < n"
  shows "\<exists>pl. placement n np full = Ok pl \<and> length (data_stripes pl) = n - np \<and>
     (\<forall>i < n - np. data_stripes pl ! i = (i + unat full) mod n)"
proof -
  have "unat (of_nat n :: u64) = n"
    using assms by (simp add: unat_of_nat_u64)
  then have "unat (full mod of_nat n) = unat full mod n"
    by (simp add: unat_mod_word)
  then show ?thesis
    using assms by (simp add: placement_def Let_def mod_simps)
qed

lemma stripe_index_parity:
  assumes "nstripes c \<le> MAX_STRIPES" and "np < nstripes c" and "np = 1 \<or> np = 2"
    and "p = (if np = 1 then Raid5 else Raid6)"
  shows "\<exists>i r. stripe_index c p sn m = Ok (i, r) \<and> unat i = (unat sn mod (nstripes c - np) + unat sn div (nstripes c - np)) mod nstripes c
     \<and> unat r = unat sn div (nstripes c - np)"
proof -
  let ?n = "nstripes c" let ?k = "(ucast (ch_num_stripes c) :: u64) - of_nat np"
  have k: "unat ?k = ?n - np"
    using assms(2) by (simp add: unat_stripes_sub)
  then have k0: "?k \<noteq> 0"
    using assms(2) by (metis unat_0 diff_is_0_eq not_less)
  obtain pl where pl: "placement ?n np (sn div ?k) = Ok pl" "length (data_stripes pl) = ?n - np"
    "\<And>i. i < ?n - np \<Longrightarrow> data_stripes pl ! i = (i + unat sn div (?n - np)) mod ?n"
    using placement_data [OF assms(1,2), of "sn div ?k"] by (auto simp: unat_div_word k)
  have m: "unat (sn mod ?k) = unat sn mod (?n - np)" "unat sn mod (?n - np) < ?n - np"
    using assms(2) by (simp_all add: unat_mod_word k)
  let ?i = "(unat sn mod (?n - np) + unat sn div (?n - np)) mod ?n"
  have "?i < ?n" using assms(2) by simp
  then have "?i < 65536"
    using assms(1) by simp
  then have "unat (of_nat ?i :: u64) = ?i"
    by (simp add: unat_of_nat_u64)
  moreover have "stripe_index c p sn m = Ok (of_nat ?i, sn div ?k)"
    using assms(3,4) k0 pl m
    by (auto simp: stripe_index_def Let_def get_def nstripes_def)
  ultimately show ?thesis
    by (simp add: unat_div_word k)
qed

lemma stripe_index_place:
  assumes wf: "wf_chunk c" and p: "chunk_profile_of c = Ok p" and m: "m < mirrors_of p"
    and fits: "parity_fits p c"
  shows "\<exists>i r. stripe_index c p sn (of_nat m) = Ok (i, r) \<and>
    (unat i, unat r) = place_of p (nstripes c) (unat sn) m"
proof -
  note sm = wf_chunk_stripes [OF wf p]
  have m4: "m < 4" using m by (auto simp: mirrors_of_def split: chunk_profile.splits)
  then have um: "unat (of_nat m :: u64) = m" by (simp add: unat_of_nat_u64)
  have n: "nstripes c < 65536" "0 < nstripes c"
    using wf_chunk_facts [OF wf] by simp_all
  have n0: "(ucast (ch_num_stripes c) :: u64) \<noteq> 0"
    using n(2) by (metis unat_0 less_irrefl unat_stripes_word)
  show ?thesis
  proof (cases p)
    case Raid10
    let ?g = "(ucast (ch_num_stripes c) :: u64) div 2"
    have s: "ch_sub_stripes c = 2" "even (nstripes c)" "2 \<le> nstripes c" "m < 2"
      using sm m Raid10 by (simp_all add: stripes_match_def mirrors_of_def)
    have g: "unat ?g = nstripes c div 2"
      by (simp add: unat_div_word unat_stripes_word)
    then have g0: "?g \<noteq> 0"
      using s(3) by (metis unat_0 div_greater_zero_iff less_irrefl zero_less_numeral)
    have b: "unat sn mod (nstripes c div 2) * 2 + m < nstripes c"
      using s by (intro pair_index_bound) auto
    have u: "unat ((sn mod ?g) * 2 + of_nat m) = unat sn mod (nstripes c div 2) * 2 + m"
    proof -
      have e: "unat ((sn mod ?g) * 2) = unat sn mod (nstripes c div 2) * 2"
        using b n by (subst unat_mult_small) (simp_all add: unat_mod_word g)
      show ?thesis
        using b n by (subst unat_add_small) (simp_all add: e um)
    qed
    have "stripe_index c p sn (of_nat m) = Ok ((sn mod ?g) * 2 + of_nat m, sn div ?g)"
      using g0 Raid10 s(1) by (simp add: stripe_index_def Let_def)
    then show ?thesis
      using Raid10 by (simp add: place_of_def u unat_div_word unat_stripes_word)
  next
    case Raid5
    then show ?thesis
      using stripe_index_parity [of c 1 p sn "of_nat m"] sm fits
      by (auto simp: stripes_match_def parity_fits_def place_of_def)
  next
    case Raid6
    then show ?thesis
      using stripe_index_parity [of c 2 p sn "of_nat m"] sm fits
      by (auto simp: stripes_match_def parity_fits_def place_of_def)
  next
    case Raid0
    then show ?thesis
      using n0 by (simp add: stripe_index_def Let_def place_of_def unat_div_word unat_mod_word unat_stripes_word)
  qed (simp_all add: stripe_index_def Let_def place_of_def um)
qed

lemma checked_add_nat:
  "checked_add a b = Some c \<longleftrightarrow> unat c = unat a + unat b" for a b c :: "'a::len word"
proof
  assume u: "unat c = unat a + unat b"
  then have lt: "unat a + unat b < 2 ^ LENGTH('a)"
    by (metis unsigned_less)
  then have "c = a + b"
    using u by (simp only: word_unat_eq_iff unat_add_small)
  with lt show "checked_add a b = Some c"
    by (simp add: checked_add_Some)
qed (simp add: checked_add_Some unat_add_small)

lemma checked_mul_nat:
  "checked_mul a b = Some c \<longleftrightarrow> unat c = unat a * unat b" for a b c :: "'a::len word"
proof
  assume u: "unat c = unat a * unat b"
  then have lt: "unat a * unat b < 2 ^ LENGTH('a)"
    by (metis unsigned_less)
  then have "c = a * b"
    using u by (simp only: word_unat_eq_iff unat_mult_small)
  with lt show "checked_mul a b = Some c"
    by (simp add: checked_mul_Some)
qed (simp add: checked_mul_Some unat_mult_small)

lemma place_physical_nat:
  "place_physical row s off base = Some y \<Longrightarrow>
   unat y = unat base + unat row * unat s + unat off"
  by (auto simp: place_physical_def bind_eq_Some_conv checked_mul_nat checked_add_nat)

lemma checked_add_fits:
  "unat a + unat b < 2 ^ LENGTH('a) \<Longrightarrow> \<exists>c. checked_add a b = Some c" for a b :: "'a::len word"
  by (simp add: checked_add_def)

lemma place_physical_fits:
  assumes "unat base + unat row * unat s + unat off < 2 ^ 64"
  shows "\<exists>y. place_physical row s off base = Some y"
proof -
  obtain r where r: "checked_mul row s = Some r"
    using assms by (simp add: checked_mul_def)
  obtain w where w: "checked_add r off = Some w"
    using assms r checked_add_fits [of r off] by (auto simp: checked_mul_nat)
  obtain y where "checked_add base w = Some y"
    using assms r w checked_add_fits [of base w] by (auto simp: checked_mul_nat checked_add_nat)
  with r w show ?thesis by (simp add: place_physical_def)
qed

text \<open>
  What \<open>map_mirror\<close> returns on a well-formed chunk: the device and byte of copy \<open>m\<close> of the
  logical byte, and how many bytes follow there without a gap.
\<close>

definition run_of :: "chunk \<Rightarrow> chunk_profile \<Rightarrow> nat \<Rightarrow> nat" where
  "run_of c p off =
     (if is_striped p \<or> p \<in> {Raid5, Raid6} then min (slen c - off mod slen c) (clen c - off)
      else clen c - off)"

definition stripe_of :: "chunk \<Rightarrow> chunk_profile \<Rightarrow> nat \<Rightarrow> nat \<Rightarrow> nat" where
  "stripe_of c p off m = fst (place_of p (nstripes c) (off div slen c) m)"

definition within_stripe :: "chunk \<Rightarrow> chunk_profile \<Rightarrow> nat \<Rightarrow> nat \<Rightarrow> nat" where
  "within_stripe c p off m = snd (place_of p (nstripes c) (off div slen c) m) * slen c + off mod slen c"

definition covers :: "chunk \<Rightarrow> u64 \<Rightarrow> bool" where
  "covers c l \<longleftrightarrow> unat (ch_logical c) \<le> unat l \<and> unat l < unat (ch_logical c) + clen c"

definition offset_in :: "chunk \<Rightarrow> u64 \<Rightarrow> nat" where
  "offset_in c l = unat l - unat (ch_logical c)"

lemma covers_iff:
  "wf_chunk c \<Longrightarrow> covers c l \<longleftrightarrow> \<not> (l < ch_logical c \<or> l \<ge> logical_end c)"
  by (simp add: covers_def word_less_nat_alt word_le_nat_alt wf_chunk_facts(4) not_less not_le)

lemma offset_unat: "covers c l \<Longrightarrow> unat (l - ch_logical c) = offset_in c l"
  by (simp add: covers_def offset_in_def unat_sub_le word_le_nat_alt)

definition run_word :: "chunk \<Rightarrow> chunk_profile \<Rightarrow> u64 \<Rightarrow> u64" where
  "run_word c p l =
     (if is_striped p \<or> p \<in> {Raid5, Raid6}
      then min (ch_stripe_len c - (l - ch_logical c) mod ch_stripe_len c) (logical_end c - l)
      else logical_end c - l)"

lemma run_len:
  assumes "wf_chunk c" and "covers c l"
  shows "unat (run_word c p l) = run_of c p (offset_in c l)"
proof -
  have s: "0 < slen c" using wf_chunk_facts [OF assms(1)] by simp
  have a: "unat (logical_end c - l) = clen c - offset_in c l"
    using assms wf_chunk_facts(4) [OF assms(1)]
    by (subst unat_sub_le) (auto simp: covers_def offset_in_def word_le_nat_alt)
  have r: "unat ((l - ch_logical c) mod ch_stripe_len c) = offset_in c l mod slen c"
    by (simp add: unat_mod_word offset_unat [OF assms(2)] slen_def)
  have b: "unat (ch_stripe_len c - (l - ch_logical c) mod ch_stripe_len c) = slen c - offset_in c l mod slen c"
    using s mod_less_divisor [OF s, of "offset_in c l"]
    by (subst unat_sub_le) (simp_all add: word_le_nat_alt r flip: slen_def)
  show ?thesis
    by (auto simp: run_word_def run_of_def min_def word_le_nat_alt a b)
qed

lemma chunk_map_mirror_form:
  assumes wf: "wf_chunk c" and cov: "covers c l" and p: "chunk_profile_of c = Ok p"
    and m: "m < mirrors_of p" and fits: "parity_fits p c"
  shows "\<exists>i row. chunk_map_mirror c l m =
      try_in (ok_or stripe_overflow (place_physical row (ch_stripe_len c)
          ((l - ch_logical c) mod ch_stripe_len c) (st_offset (ch_stripes c ! i)))) (\<lambda>physical.
        Ok \<lparr>mp_devid = st_devid (ch_stripes c ! i), mp_physical = physical,
            mp_len = run_word c p l\<rparr>) \<and>
    i = stripe_of c p (offset_in c l) m \<and> i < nstripes c \<and>
    unat row = snd (place_of p (nstripes c) (offset_in c l div slen c) m)"
proof -
  let ?sn = "(l - ch_logical c) div ch_stripe_len c"
  have sn: "unat ?sn = offset_in c l div slen c"
    by (simp add: unat_div_word offset_unat [OF cov] slen_def)
  obtain i r where ir: "stripe_index c p ?sn (of_nat m) = Ok (i, r)"
    "(unat i, unat r) = place_of p (nstripes c) (offset_in c l div slen c) m"
    using stripe_index_place [OF wf p m fits, of ?sn] sn by auto
  have i: "unat i = stripe_of c p (offset_in c l) m" "unat i < nstripes c"
    using place_of_bound(1) [OF wf_chunk_stripes [OF wf p] m, of "offset_in c l div slen c"] ir(2)
    by (metis fst_conv stripe_of_def)+
  have g: "get (ch_stripes c) (unat i) = Some (ch_stripes c ! unat i)"
    using i(2) wf_chunk_facts(5) [OF wf] by (simp add: get_def)
  have z: "ch_stripe_len c \<noteq> 0"
    using wf_chunk_facts(2) [OF wf] by (auto simp: slen_def)
  have mm: "p \<in> {Raid5, Raid6} \<Longrightarrow> m = 0"
    using m by (auto simp: mirrors_of_def)
  have "\<not> (l < ch_logical c \<or> l \<ge> logical_end c)"
    using cov covers_iff [OF wf] by blast
  then have "chunk_map_mirror c l m =
      try_in (ok_or stripe_overflow (place_physical r (ch_stripe_len c)
          ((l - ch_logical c) mod ch_stripe_len c) (st_offset (ch_stripes c ! unat i)))) (\<lambda>physical.
        Ok \<lparr>mp_devid = st_devid (ch_stripes c ! unat i), mp_physical = physical,
            mp_len = run_word c p l\<rparr>)"
    using m mm z by (auto simp: chunk_map_mirror_def p num_mirrors_of [OF wf p] Let_def ir(1) g run_word_def)
  then show ?thesis
    using i ir(2) by (metis snd_conv)
qed

lemma chunk_map_mirror_Ok:
  assumes "wf_chunk c" and "covers c l" and "chunk_profile_of c = Ok p"
    and "m < mirrors_of p" and "parity_fits p c"
    and "chunk_map_mirror c l m = Ok r"
  shows "mp_devid r = st_devid (ch_stripes c ! stripe_of c p (offset_in c l) m)"
    and "unat (mp_physical r) = unat (st_offset (ch_stripes c ! stripe_of c p (offset_in c l) m)) +
           within_stripe c p (offset_in c l) m"
    and "unat (mp_len r) = run_of c p (offset_in c l)"
proof -
  let ?i = "stripe_of c p (offset_in c l) m"
  obtain row where
    row: "unat row = snd (place_of p (nstripes c) (offset_in c l div slen c) m)"
    and e: "chunk_map_mirror c l m =
      try_in (ok_or stripe_overflow (place_physical row (ch_stripe_len c)
          ((l - ch_logical c) mod ch_stripe_len c) (st_offset (ch_stripes c ! ?i)))) (\<lambda>physical.
        Ok \<lparr>mp_devid = st_devid (ch_stripes c ! ?i), mp_physical = physical, mp_len = run_word c p l\<rparr>)"
    using chunk_map_mirror_form [OF assms(1-5)] by auto
  obtain y where y: "place_physical row (ch_stripe_len c) ((l - ch_logical c) mod ch_stripe_len c)
        (st_offset (ch_stripes c ! ?i)) = Some y"
    and r: "r = \<lparr>mp_devid = st_devid (ch_stripes c ! ?i), mp_physical = y, mp_len = run_word c p l\<rparr>"
    using assms(6) unfolding e by (auto simp: try_in_eq_Ok ok_or_eq_Ok)
  show "mp_devid r = st_devid (ch_stripes c ! ?i)" by (simp add: r)
  show "unat (mp_len r) = run_of c p (offset_in c l)"
    using run_len [OF assms(1,2)] by (simp add: r)
  show "unat (mp_physical r) = unat (st_offset (ch_stripes c ! ?i)) + within_stripe c p (offset_in c l) m"
    using place_physical_nat [OF y] row
    by (simp add: r within_stripe_def unat_mod_word offset_unat [OF assms(2)] slen_def)
qed

text \<open>It returns exactly when the stripe's bytes fit in the device's 64-bit addresses.\<close>

lemma chunk_map_mirror_fits:
  assumes "wf_chunk c" and "covers c l" and "chunk_profile_of c = Ok p"
    and "m < mirrors_of p" and "parity_fits p c"
    and "unat (st_offset (ch_stripes c ! stripe_of c p (offset_in c l) m)) +
           within_stripe c p (offset_in c l) m < 2 ^ 64"
  shows "\<exists>r. chunk_map_mirror c l m = Ok r"
proof -
  let ?i = "stripe_of c p (offset_in c l) m"
  obtain row where
    row: "unat row = snd (place_of p (nstripes c) (offset_in c l div slen c) m)"
    and e: "chunk_map_mirror c l m =
      try_in (ok_or stripe_overflow (place_physical row (ch_stripe_len c)
          ((l - ch_logical c) mod ch_stripe_len c) (st_offset (ch_stripes c ! ?i)))) (\<lambda>physical.
        Ok \<lparr>mp_devid = st_devid (ch_stripes c ! ?i), mp_physical = physical, mp_len = run_word c p l\<rparr>)"
    using chunk_map_mirror_form [OF assms(1-5)] by auto
  have "unat (st_offset (ch_stripes c ! ?i)) + unat row * unat (ch_stripe_len c) +
      unat ((l - ch_logical c) mod ch_stripe_len c) < 2 ^ 64"
    using assms(6) row
    by (simp add: within_stripe_def unat_mod_word offset_unat [OF assms(2)] slen_def)
  then show ?thesis
    using place_physical_fits by (fastforce simp: e)
qed

section \<open>Properties of the translation\<close>

text \<open>How many stripes of a row hold data, each counted once.\<close>

definition data_width :: "chunk_profile \<Rightarrow> nat \<Rightarrow> nat" where
  "data_width p n =
     (case p of Raid0 \<Rightarrow> n | Raid10 \<Rightarrow> n div 2 | Raid5 \<Rightarrow> n - 1 | Raid6 \<Rightarrow> n - 2 | _ \<Rightarrow> 1)"

lemma data_width_pos: "stripes_match p c \<Longrightarrow> 0 < data_width p (nstripes c)"
  by (cases p) (auto simp: stripes_match_def data_width_def)

lemma snd_place_of: "snd (place_of p n sn m) = sn div data_width p n"
  by (cases p) (simp_all add: place_of_def data_width_def)

lemma within_stripe_eq:
  "within_stripe c p off m = off div slen c div data_width p (nstripes c) * slen c + off mod slen c"
  by (simp add: within_stripe_def snd_place_of)

text \<open>What a successful translation says of its arguments.\<close>

lemma stripe_index_fits:
  "wf_chunk c \<Longrightarrow> chunk_profile_of c = Ok p \<Longrightarrow> stripe_index c p sn m = Ok x \<Longrightarrow> parity_fits p c"
  by (cases "p \<in> {Raid5, Raid6}")
    (auto simp: stripe_index_def Let_def parity_fits_def placement_def nstripes_def try_in_eq_Ok
      split: if_splits)

lemma chunk_map_mirror_dom:
  assumes wf: "wf_chunk c" and ok: "chunk_map_mirror c l m = Ok r"
  obtains p where "chunk_profile_of c = Ok p" "covers c l" "m < mirrors_of p" "parity_fits p c"
proof -
  obtain p where p: "chunk_profile_of c = Ok p"
    using wf_chunk_profile [OF wf] by blast
  have "covers c l"
    using ok covers_iff [OF wf] by (auto simp: chunk_map_mirror_def split: if_splits)
  moreover have "m < mirrors_of p"
    using ok by (auto simp: chunk_map_mirror_def p num_mirrors_of [OF wf p] split: if_splits)
  moreover have "\<exists>sn x. stripe_index c p sn (of_nat m) = Ok x"
    using ok by (auto simp: chunk_map_mirror_def p Let_def try_in_eq_Ok split: if_splits)
  then have "parity_fits p c"
    using stripe_index_fits [OF wf p] by blast
  ultimately show ?thesis
    using p that by blast
qed

text \<open>The errors, and that none of them is a panic.\<close>

definition benign :: "'a result \<Rightarrow> bool" where
  "benign r = (case r of Inl (Panic s) \<Rightarrow> False | _ \<Rightarrow> True)"

lemma benign_simps [simp]:
  "benign (Ok x)" "\<not> benign (Err (Panic s))" "benign (Err (BadChunkItem s))"
  "benign (Err (UnmappedLogical l))" "benign (Err (UnsupportedProfile s))"
  by (simp_all add: benign_def)

lemma benign_iff: "benign r \<longleftrightarrow> (\<forall>s. r \<noteq> Err (Panic s))"
  by (auto simp: benign_def split: sum.splits error.splits)

lemma benign_try_in:
  "benign r \<Longrightarrow> (\<And>x. r = Ok x \<Longrightarrow> benign (f x)) \<Longrightarrow> benign (try_in r f)"
  by (cases r) (auto simp: benign_def)

lemma not_fits_error:
  "wf_chunk c \<Longrightarrow> chunk_profile_of c = Ok p \<Longrightarrow> \<not> parity_fits p c \<Longrightarrow>
   \<exists>s. stripe_index c p sn m = Err (BadChunkItem s)"
  using wf_chunk_stripes [of c p] unat_stripes_sub [of 1 c] unat_stripes_sub [of 2 c]
  by (auto simp: stripe_index_def Let_def parity_fits_def placement_def nstripes_def stripes_match_def)

lemma chunk_map_outcome:
  assumes wf: "wf_chunk c" and p: "chunk_profile_of c = Ok p"
  shows "benign (chunk_map_mirror c l m) \<and>
    (is_ok (chunk_map_mirror c l m) \<longleftrightarrow>
       covers c l \<and> m < mirrors_of p \<and> parity_fits p c \<and>
       unat (st_offset (ch_stripes c ! stripe_of c p (offset_in c l) m)) +
         within_stripe c p (offset_in c l) m < 2 ^ 64)"
proof (cases "covers c l \<and> m < mirrors_of p \<and> parity_fits p c")
  case True
  then obtain cov: "covers c l" and m: "m < mirrors_of p" and f: "parity_fits p c" by simp
  have "benign (chunk_map_mirror c l m)"
    using chunk_map_mirror_form [OF wf cov p m f] 
    by (auto simp: ok_or_def stripe_overflow_def split: option.splits)
  moreover have "unat (st_offset (ch_stripes c ! stripe_of c p (offset_in c l) m)) +
      within_stripe c p (offset_in c l) m < 2 ^ 64" if ok: "is_ok (chunk_map_mirror c l m)"
  proof -
    obtain r where "chunk_map_mirror c l m = Ok r"
      using ok by (auto simp: is_ok_iff)
    then show ?thesis
      using chunk_map_mirror_Ok(2) [OF wf cov p m f] unat_u64 [of "mp_physical r"] by fastforce
  qed
  moreover note chunk_map_mirror_fits [OF wf cov p m f]
  ultimately show ?thesis
    using True by (auto simp: is_ok_iff)
next
  case False
  have "\<not> is_ok (chunk_map_mirror c l m)"
    using False chunk_map_mirror_dom [OF wf] p by (metis Inr_inject is_ok_iff)
  moreover have "benign (chunk_map_mirror c l m)"
  proof (cases "covers c l \<and> m < mirrors_of p")
    case True
    then have f: "\<not> parity_fits p c" and "\<not> (l < ch_logical c \<or> l \<ge> logical_end c)"
      using False covers_iff [OF wf] by blast+
    moreover have "ch_stripe_len c \<noteq> 0"
      using wf_chunk_facts(2) [OF wf] by (auto simp: slen_def)
    moreover have "m = 0" "p \<in> {Raid5, Raid6}"
      using f True by (auto simp: parity_fits_def mirrors_of_def)
    moreover obtain s where "stripe_index c p ((l - ch_logical c) div ch_stripe_len c) 0 = Err (BadChunkItem s)"
      using not_fits_error [OF wf p f] by blast
    ultimately show ?thesis
      using True by (auto simp: chunk_map_mirror_def p num_mirrors_of [OF wf p] Let_def)
  next
    case False
    then show ?thesis
      using covers_iff [OF wf, of l] by (auto simp: chunk_map_mirror_def p num_mirrors_of [OF wf p] benign_def)
  qed
  ultimately show ?thesis
    using False by blast
qed

text \<open>
  C9. Translation, completely. For a well-formed chunk and any address and copy number the result is a
  value exactly when the address is in the chunk, the profile has that copy, a RAID5 or RAID6 chunk has
  at most the 256 stripes its rotation is computed for, and the byte's place on the stripe's device is
  below 2 to the 64. The value then names the device of the stripe the profile's layout gives, the
  byte's place on it, and the length of the run that continues there. In every other case the result
  is an error of the driver and never a panic: no division by zero, no index out of range.
\<close>

theorem chunk_map_total:
  assumes wf: "wf_chunk c" and p: "chunk_profile_of c = Ok p"
  shows "benign (chunk_map_mirror c l m) \<and>
    (is_ok (chunk_map_mirror c l m) \<longleftrightarrow>
       covers c l \<and> m < mirrors_of p \<and> parity_fits p c \<and>
       unat (st_offset (ch_stripes c ! stripe_of c p (offset_in c l) m)) +
         within_stripe c p (offset_in c l) m < 2 ^ 64) \<and>
    (\<forall>r. chunk_map_mirror c l m = Ok r \<longrightarrow>
       mp_devid r = st_devid (ch_stripes c ! stripe_of c p (offset_in c l) m) \<and>
       unat (mp_physical r) = unat (st_offset (ch_stripes c ! stripe_of c p (offset_in c l) m)) +
         within_stripe c p (offset_in c l) m \<and>
       unat (mp_len r) = run_of c p (offset_in c l))"
proof -
  note out = chunk_map_outcome [OF assms, of l m]
  have "mp_devid r = st_devid (ch_stripes c ! stripe_of c p (offset_in c l) m) \<and>
      unat (mp_physical r) = unat (st_offset (ch_stripes c ! stripe_of c p (offset_in c l) m)) +
        within_stripe c p (offset_in c l) m \<and> unat (mp_len r) = run_of c p (offset_in c l)"
    if ok: "chunk_map_mirror c l m = Ok r" for r
  proof -
    have "covers c l" "m < mirrors_of p" "parity_fits p c" using out ok by simp_all
    note chunk_map_mirror_Ok [OF wf this(1) p this(2,3) ok]
    then show ?thesis by blast
  qed
  with out show ?thesis by blast
qed

text \<open>Consecutive bytes.\<close>

lemma add_div_mod_within:
  "off mod s + d < (s :: nat) \<Longrightarrow> (off + d) div s = off div s \<and> (off + d) mod s = off mod s + d"
proof -
  assume lt: "off mod s + d < s"
  define q x where "q = off div s" and "x = off mod s + d"
  have "off + d = q * s + x"
    using div_mult_mod_eq [of off s] by (simp add: q_def x_def)
  moreover have "x < s" using lt by (simp add: x_def)
  ultimately have "(off + d) div s = q" "(off + d) mod s = x"
    by simp_all
  then show ?thesis by (simp add: q_def x_def)
qed

lemma unstriped_place:
  "\<not> is_striped p \<Longrightarrow> p \<notin> {Raid5, Raid6} \<Longrightarrow> place_of p n sn m = (fst (place_of p n 0 m), sn)"
  by (cases p) (simp_all add: place_of_def is_striped_def)

lemma within_run:
  assumes "d < run_of c p off" and "off < clen c"
  shows "stripe_of c p (off + d) m = stripe_of c p off m"
    and "within_stripe c p (off + d) m = within_stripe c p off m + d"
    and "run_of c p (off + d) = run_of c p off - d"
proof -
  show "stripe_of c p (off + d) m = stripe_of c p off m"
  proof (cases "is_striped p \<or> p \<in> {Raid5, Raid6}")
    case True
    then have "off mod slen c + d < slen c"
      using assms by (auto simp: run_of_def)
    then show ?thesis
      by (simp add: stripe_of_def add_div_mod_within)
  next
    case False
    then show ?thesis
      by (metis (no_types) fst_conv stripe_of_def unstriped_place)
  qed
  show "within_stripe c p (off + d) m = within_stripe c p off m + d"
  proof (cases "is_striped p \<or> p \<in> {Raid5, Raid6}")
    case True
    then have "off mod slen c + d < slen c"
      using assms by (auto simp: run_of_def)
    then show ?thesis
      by (simp add: within_stripe_def add_div_mod_within)
  next
    case False
    then have "snd (place_of p (nstripes c) sn m) = sn" for sn
      using unstriped_place [of p "nstripes c" sn m] by simp
    then show ?thesis
      by (simp add: within_stripe_def)
  qed
  show "run_of c p (off + d) = run_of c p off - d"
  proof (cases "is_striped p \<or> p \<in> {Raid5, Raid6}")
    case True
    then have "off mod slen c + d < slen c"
      using assms by (auto simp: run_of_def)
    then show ?thesis
      using True by (auto simp: run_of_def add_div_mod_within)
  qed (use assms in \<open>auto simp: run_of_def\<close>)
qed

lemma run_of_bound: "off < clen c \<Longrightarrow> run_of c p off \<le> clen c - off"
  by (simp add: run_of_def)

text \<open>The bytes after a translated one.\<close>

lemma map_run_contiguous:
  assumes wf: "wf_chunk c" and ok: "chunk_map_mirror c l m = Ok r"
    and d: "d < unat (mp_len r)" and fit: "unat (mp_physical r) + d < 2 ^ 64"
  shows "chunk_map_mirror c (l + of_nat d) m =
    Ok \<lparr>mp_devid = mp_devid r, mp_physical = mp_physical r + of_nat d, mp_len = mp_len r - of_nat d\<rparr>"
proof -
  obtain p where dom: "chunk_profile_of c = Ok p" "covers c l" "m < mirrors_of p" "parity_fits p c"
    using chunk_map_mirror_dom [OF wf ok] .
  note r = chunk_map_mirror_Ok [OF wf dom(2,1,3,4) ok]
  let ?off = "offset_in c l" and ?l = "l + of_nat d"
  have off: "?off < clen c"
    using dom(2) by (auto simp: covers_def offset_in_def)
  have dr: "d < run_of c p ?off"
    using d by (simp add: r(3))
  have end64: "unat (ch_logical c) + clen c < 2 ^ 64"
    using wf_chunk_facts(3) [OF wf] .
  have "unat l + d < unat (ch_logical c) + clen c"
    using dr run_of_bound [OF off, of p] dom(2) by (auto simp: covers_def offset_in_def)
  then have ul: "unat ?l = unat l + d" and ud: "unat (of_nat d :: u64) = d"
    using end64 by (simp_all add: unat_of_nat_u64 unat_add_small)
  have cov: "covers c ?l" and off': "offset_in c ?l = ?off + d"
    using \<open>unat l + d < _\<close> dom(2) by (auto simp: covers_def offset_in_def ul)
  note w = within_run(1) [OF dr off, of m] within_run(2) [OF dr off, of m] within_run(3) [OF dr off]
  have up: "unat (mp_physical r + of_nat d) = unat (mp_physical r) + d"
    using fit by (subst unat_add_small) (simp_all add: ud)
  have "\<exists>r'. chunk_map_mirror c ?l m = Ok r'"
    using fit by (intro chunk_map_mirror_fits [OF wf cov dom(1,3,4)]) (simp add: off' w r(2))
  then obtain r' where ok': "chunk_map_mirror c ?l m = Ok r'" by blast
  note r' = chunk_map_mirror_Ok [OF wf cov dom(1,3,4) ok']
  have "mp_devid r' = mp_devid r" by (simp add: r(1) r'(1) off' w)
  moreover have "mp_physical r' = mp_physical r + of_nat d"
    by (simp only: word_unat_eq_iff up) (simp add: r(2) r'(2) off' w)
  moreover have "mp_len r' = mp_len r - of_nat d"
    using d by (simp only: word_unat_eq_iff) (subst unat_sub_le; simp add: word_le_nat_alt ud r(3) r'(3) off' w)
  ultimately show ?thesis
    using ok' by (cases r') simp
qed

text \<open>
  The length of a mapping is a promise: every byte of the run that starts at a translated address
  is on the same device, at the physical byte that many places on.
\<close>

theorem chunk_map_contiguous:
  assumes wf: "wf_chunk c" and ok: "chunk_map_mirror c l m = Ok r"
    and d: "d < unat (mp_len r)" and fit: "unat (mp_physical r) + d < 2 ^ 64"
  shows "chunk_map_mirror c (l + of_nat d) m =
    Ok \<lparr>mp_devid = mp_devid r, mp_physical = mp_physical r + of_nat d, mp_len = mp_len r - of_nat d\<rparr>"
  by (rule map_run_contiguous [OF assms])

text \<open>
  The physical bytes a chunk owns on the device of each of its stripes, and stripes that do
  not overlap on a device they share.
\<close>

definition span :: "chunk \<Rightarrow> chunk_profile \<Rightarrow> nat" where
  "span c p = ((clen c - 1) div slen c div data_width p (nstripes c) + 1) * slen c"

definition stripes_apart :: "chunk \<Rightarrow> chunk_profile \<Rightarrow> bool" where
  "stripes_apart c p \<longleftrightarrow>
     (\<forall>i < nstripes c. \<forall>j < nstripes c. i \<noteq> j \<longrightarrow>
        st_devid (ch_stripes c ! i) = st_devid (ch_stripes c ! j) \<longrightarrow>
        unat (st_offset (ch_stripes c ! i)) + span c p \<le> unat (st_offset (ch_stripes c ! j)) \<or>
        unat (st_offset (ch_stripes c ! j)) + span c p \<le> unat (st_offset (ch_stripes c ! i)))"

lemma within_span:
  assumes "wf_chunk c" and "off < clen c"
  shows "within_stripe c p off m < span c p"
proof -
  let ?w = "data_width p (nstripes c)"
  have "off div slen c \<le> (clen c - 1) div slen c"
    using assms(2) by (intro div_le_mono) simp
  then have "off div slen c div ?w \<le> (clen c - 1) div slen c div ?w"
    by (rule div_le_mono)
  then have "off div slen c div ?w * slen c \<le> (clen c - 1) div slen c div ?w * slen c"
    by (rule mult_le_mono1)
  moreover have "off mod slen c < slen c"
    using wf_chunk_facts(2) [OF assms(1)] by simp
  ultimately show ?thesis
    unfolding within_stripe_eq span_def add_mult_distrib by linarith
qed

lemma row_mod_inj:
  "a * s + x = b * s + y \<Longrightarrow> x < s \<Longrightarrow> y < s \<Longrightarrow> a = b \<and> x = (y :: nat)"
  by (metis add.commute add_right_cancel div_mult_self3 div_less less_nat_zero_code mod_mult_self3
      mod_less add_left_imp_eq add.left_neutral mult.commute not_gr_zero)

lemma chunk_map_inj:
  assumes wf: "wf_chunk c" and p: "chunk_profile_of c = Ok p" and apart: "stripes_apart c p"
    and ok1: "chunk_map_mirror c l1 m1 = Ok r1" and ok2: "chunk_map_mirror c l2 m2 = Ok r2"
    and same: "mp_devid r1 = mp_devid r2" "mp_physical r1 = mp_physical r2"
  shows "l1 = l2 \<and> m1 = m2"
proof -
  have d1: "covers c l1" "m1 < mirrors_of p" "parity_fits p c"
    using chunk_map_mirror_dom [OF wf ok1] p by (metis Inr_inject)+
  have d2: "covers c l2" "m2 < mirrors_of p"
    using chunk_map_mirror_dom [OF wf ok2] p by (metis Inr_inject)+
  note r1 = chunk_map_mirror_Ok [OF wf d1(1) p d1(2,3) ok1]
  note r2 = chunk_map_mirror_Ok [OF wf d2(1) p d2(2) d1(3) ok2]
  let ?o1 = "offset_in c l1" and ?o2 = "offset_in c l2"
  let ?i1 = "stripe_of c p ?o1 m1" and ?i2 = "stripe_of c p ?o2 m2"
  have o: "?o1 < clen c" "?o2 < clen c"
    using d1(1) d2(1) by (auto simp: covers_def offset_in_def)
  note sm = wf_chunk_stripes [OF wf p]
  have i: "?i1 < nstripes c" "?i2 < nstripes c"
    unfolding stripe_of_def by (intro place_of_bound(1) [OF sm] d1 d2)+
  have ph: "unat (st_offset (ch_stripes c ! ?i1)) + within_stripe c p ?o1 m1 =
      unat (st_offset (ch_stripes c ! ?i2)) + within_stripe c p ?o2 m2"
    using same(2) by (simp flip: r1(2) r2(2))
  have ii: "?i1 = ?i2"
  proof (rule ccontr)
    assume "?i1 \<noteq> ?i2"
    then have "unat (st_offset (ch_stripes c ! ?i1)) + span c p \<le> unat (st_offset (ch_stripes c ! ?i2)) \<or>
        unat (st_offset (ch_stripes c ! ?i2)) + span c p \<le> unat (st_offset (ch_stripes c ! ?i1))"
      using apart i same(1) by (simp add: stripes_apart_def r1(1) r2(1))
    then show False
      using ph within_span [OF wf o(1), of p m1] within_span [OF wf o(2), of p m2] by linarith
  qed
  have "within_stripe c p ?o1 m1 = within_stripe c p ?o2 m2"
    using ph ii by simp
  then have rows: "snd (place_of p (nstripes c) (?o1 div slen c) m1) = snd (place_of p (nstripes c) (?o2 div slen c) m2)"
    and rem: "?o1 mod slen c = ?o2 mod slen c"
    unfolding within_stripe_def using row_mod_inj wf_chunk_facts(2) [OF wf] mod_less_divisor by blast+
  have "place_of p (nstripes c) (?o1 div slen c) m1 = place_of p (nstripes c) (?o2 div slen c) m2"
    using ii rows by (simp add: stripe_of_def prod_eq_iff)
  then have "?o1 div slen c = ?o2 div slen c" "m1 = m2"
    using place_of_inj [OF sm d1(2) d2(2)] by blast+
  moreover from this(1) rem have "?o1 = ?o2"
    by (metis div_mult_mod_eq)
  then have "l1 = l2"
    using d1(1) d2(1) by (auto simp: covers_def offset_in_def word_unat_eq_iff)
  ultimately show ?thesis by blast
qed

section \<open>Reads for a parity rebuild\<close>

definition optlist :: "'a option \<Rightarrow> 'a list" where
  "optlist x = (case x of None \<Rightarrow> [] | Some y \<Rightarrow> [y])"

lemma optlist_simps [simp]: "optlist None = []" "optlist (Some y) = [y]"
  by (simp_all add: optlist_def)

lemma stripe_at_Ok:
  "stripe_at c row i = Ok x \<longleftrightarrow> i < length (ch_stripes c) \<and> fst x = st_devid (ch_stripes c ! i) \<and>
     checked_add (st_offset (ch_stripes c ! i)) row = Some (snd x)"
  by (cases x) (auto simp: stripe_at_def get_def try_in_eq_Ok ok_or_eq_Ok)

lemma stripes_at_Ok:
  "collect_results (stripe_at c row) is = Ok ds \<Longrightarrow>
     length ds = length is \<and> map fst ds = map (\<lambda>i. st_devid (ch_stripes c ! i)) is \<and>
     (\<forall>j < length is. is ! j < length (ch_stripes c) \<and>
        checked_add (st_offset (ch_stripes c ! (is ! j))) row = Some (snd (ds ! j)))"
  by (induction "is" arbitrary: ds)
    (auto simp: try_in_eq_Ok stripe_at_Ok nth_Cons split: nat.splits)

lemma place_all_map:
  assumes "placement n np full = Ok pl" and "np = 1 \<or> np = 2"
  shows "mset (place_all pl) = mset [0..<n]"
  using placement_Ok(4,5) [OF assms] set_eq_iff_mset_eq_distinct [of "place_all pl" "[0..<n]"]
  by (simp add: atLeast0LessThan)

definition parity_np :: "chunk_profile \<Rightarrow> nat" where
  "parity_np p = (if p = Raid6 then 2 else 1)"

lemma parity_count_profile:
  "chunk_profile_of c = Ok p \<Longrightarrow> parity_count c = Some np \<Longrightarrow> p \<in> {Raid5, Raid6} \<and> np = parity_np p"
  by (cases p) (auto simp: parity_count_def parity_np_def)

text \<open>The steps of a successful \<open>parity_read\<close>, opened once.\<close>

lemma chunk_parity_read_Ok:
  assumes wf: "wf_chunk c" and ok: "chunk_parity_read c l = Ok pr"
  obtains p np pl row k where
    "chunk_profile_of c = Ok p" "p \<in> {Raid5, Raid6}" "np = parity_np p" "covers c l"
    "k = of_nat (nstripes c) - of_nat np" "k \<noteq> 0"
    "placement (nstripes c) np ((l - ch_logical c) div ch_stripe_len c div k) = Ok pl"
    "Option.bind (checked_mul ((l - ch_logical c) div ch_stripe_len c div k) (ch_stripe_len c))
       (\<lambda>r. checked_add r ((l - ch_logical c) mod ch_stripe_len c)) = Some row"
    "collect_results (stripe_at c row) (data_stripes pl) = Ok (pr_data pr)"
    "stripe_at c row (p_stripe pl) = Ok (pr_p pr)"
    "collect_results (stripe_at c row) (optlist (q_stripe pl)) = Ok (optlist (pr_q pr))"
    "pr_want pr = unat ((l - ch_logical c) div ch_stripe_len c mod k)"
    "pr_len pr = min (ch_stripe_len c - (l - ch_logical c) mod ch_stripe_len c) (logical_end c - l)"
proof -
  obtain p where p: "chunk_profile_of c = Ok p"
    using wf_chunk_profile [OF wf] by blast
  have cov: "covers c l"
    using ok covers_iff [OF wf] by (auto simp: chunk_parity_read_def split: if_splits)
  then have nr: "\<not> (l < ch_logical c \<or> l \<ge> logical_end c)"
    using covers_iff [OF wf] by blast
  obtain np where np: "parity_count c = Some np"
    using ok nr by (auto simp: chunk_parity_read_def try_in_eq_Ok ok_or_eq_Ok)
  note pp = parity_count_profile [OF p np]
  have k0: "(of_nat (nstripes c) :: u64) - of_nat np \<noteq> 0"
    using ok nr np by (auto simp: chunk_parity_read_def Let_def nstripes_def split: if_splits)
  define k where "k = (of_nat (nstripes c) :: u64) - of_nat np"
  note k0 = k0 [folded k_def]
  obtain pl row data pp' q where st:
    "placement (nstripes c) np ((l - ch_logical c) div ch_stripe_len c div k) = Ok pl"
    "Option.bind (checked_mul ((l - ch_logical c) div ch_stripe_len c div k) (ch_stripe_len c))
       (\<lambda>r. checked_add r ((l - ch_logical c) mod ch_stripe_len c)) = Some row"
    "collect_results (stripe_at c row) (data_stripes pl) = Ok data"
    "stripe_at c row (p_stripe pl) = Ok pp'"
    "(case q_stripe pl of None \<Rightarrow> Ok None | Some q \<Rightarrow> try_in (stripe_at c row q) (\<lambda>q. Ok (Some q))) = Ok q"
    and pr: "pr = \<lparr>pr_want = unat ((l - ch_logical c) div ch_stripe_len c mod k), pr_data = data, pr_p = pp',
       pr_q = q, pr_len = min (ch_stripe_len c - (l - ch_logical c) mod ch_stripe_len c) (logical_end c - l)\<rparr>"
    using ok nr np k0
    by (auto simp: chunk_parity_read_def Let_def try_in_eq_Ok ok_or_eq_Ok k_def
        simp flip: nstripes_def split: if_splits)
  have "collect_results (stripe_at c row) (optlist (q_stripe pl)) = Ok (optlist q)"
    using st(5) by (auto simp: try_in_eq_Ok split: option.splits)
  with that [OF p _ _ cov k_def k0 st(1,2)] st(3,4) pp show ?thesis
    by (simp add: pr)
qed

lemma map_fst_optlist: "map f (optlist x) = optlist (map_option f x)"
  by (cases x) simp_all

text \<open>What a parity read is aimed at.\<close>

lemma parity_read_target:
  assumes wf: "wf_chunk c" and ok: "chunk_parity_read c l = Ok pr"
  shows "pr_want pr < length (pr_data pr) \<and>
    chunk_map_mirror c l 0 =
      Ok \<lparr>mp_devid = fst (pr_data pr ! pr_want pr), mp_physical = snd (pr_data pr ! pr_want pr),
          mp_len = pr_len pr\<rparr> \<and>
    mset (map fst (pr_data pr @ [pr_p pr] @ optlist (pr_q pr))) = mset (map st_devid (ch_stripes c))"
proof -
  let ?off = "l - ch_logical c"
  obtain p np pl row k where x:
    "chunk_profile_of c = Ok p" "p \<in> {Raid5, Raid6}" "np = parity_np p" "covers c l"
    and k: "k = of_nat (nstripes c) - of_nat np" "k \<noteq> 0"
    and pl: "placement (nstripes c) np (?off div ch_stripe_len c div k) = Ok pl"
    and row: "Option.bind (checked_mul (?off div ch_stripe_len c div k) (ch_stripe_len c))
       (\<lambda>r. checked_add r (?off mod ch_stripe_len c)) = Some row"
    and data: "collect_results (stripe_at c row) (data_stripes pl) = Ok (pr_data pr)"
    and pp: "stripe_at c row (p_stripe pl) = Ok (pr_p pr)"
    and q: "collect_results (stripe_at c row) (optlist (q_stripe pl)) = Ok (optlist (pr_q pr))"
    and pr: "pr_want pr = unat (?off div ch_stripe_len c mod k)"
       "pr_len pr = min (ch_stripe_len c - ?off mod ch_stripe_len c) (logical_end c - l)"
    using chunk_parity_read_Ok [OF wf ok] .
  have np: "np = 1 \<or> np = 2" using x by (simp add: parity_np_def)
  note pk = placement_Ok [OF pl np]
  note ds = stripes_at_Ok [OF data]
  have n: "nstripes c < 65536" using wf_chunk_facts [OF wf] by simp
  have kw: "k = ucast (ch_num_stripes c) - of_nat np"
  proof -
    have "unat (of_nat (nstripes c) :: u64) = unat (ucast (ch_num_stripes c) :: u64)"
      using n by (simp only: unat_stripes_word) (rule unat_of_nat_u64, simp)
    then have "of_nat (nstripes c) = (ucast (ch_num_stripes c) :: u64)"
      by (rule word_unat_eq_iff [THEN iffD2])
    then show ?thesis by (simp only: k(1))
  qed
  have uk: "unat k = nstripes c - np"
    using pk(1) by (simp add: kw unat_stripes_sub)
  have want: "pr_want pr < nstripes c - np"
    using pk(1) by (simp add: pr(1) unat_mod_word uk)
  let ?i = "data_stripes pl ! pr_want pr"
  have i: "?i < nstripes c"
    using ds want pk(3) wf_chunk_facts(5) [OF wf] by metis
  have ui: "unat (of_nat ?i :: u64) = ?i"
    using i n by (simp add: unat_of_nat_u64)
  have mm: "chunk_map_mirror c l 0 =
      Ok \<lparr>mp_devid = fst (pr_data pr ! pr_want pr), mp_physical = snd (pr_data pr ! pr_want pr),
          mp_len = pr_len pr\<rparr>"
  proof -
    have idx: "stripe_index c p (?off div ch_stripe_len c) 0 = Ok (of_nat ?i, ?off div ch_stripe_len c div k)"
      using x(2,3) k(2) pl want pk(3)
      by (auto simp: stripe_index_def Let_def parity_np_def kw get_def pr(1) nstripes_def)
    have g: "get (ch_stripes c) ?i = Some (ch_stripes c ! ?i)"
      using i wf_chunk_facts(5) [OF wf] by (simp add: get_def)
    have ph: "place_physical (?off div ch_stripe_len c div k) (ch_stripe_len c) (?off mod ch_stripe_len c)
        (st_offset (ch_stripes c ! ?i)) = Some (snd (pr_data pr ! pr_want pr))"
      using row ds want pk(3) by (auto simp: place_physical_def bind_eq_Some_conv)
    have dev: "fst (pr_data pr ! pr_want pr) = st_devid (ch_stripes c ! ?i)"
      using ds want pk(3) by (metis nth_map)
    have "ch_stripe_len c \<noteq> 0" using wf_chunk_facts(2) [OF wf] by (auto simp: slen_def)
    moreover have "\<not> (l < ch_logical c \<or> l \<ge> logical_end c)"
      using x(4) covers_iff [OF wf] by blast
    moreover have "0 < num_mirrors c"
      using x(2) num_mirrors_of [OF wf x(1)] by (auto simp: mirrors_of_def)
    ultimately show ?thesis
      using x(2) by (auto simp: chunk_map_mirror_def x(1) Let_def idx ui g ph dev pr(2))
  qed
  have "mset (map fst (pr_data pr @ [pr_p pr] @ optlist (pr_q pr))) =
      mset (map (\<lambda>i. st_devid (ch_stripes c ! i)) (place_all pl))"
    using ds pp stripes_at_Ok [OF q] by (auto simp: place_all_def stripe_at_Ok optlist_def split: option.splits)
  also have "\<dots> = mset (map (\<lambda>i. st_devid (ch_stripes c ! i)) [0..<nstripes c])"
    unfolding mset_map place_all_map [OF pl np] ..
  also have "\<dots> = mset (map st_devid (ch_stripes c))"
  proof -
    have "map (\<lambda>i. st_devid (ch_stripes c ! i)) [0..<nstripes c] = map st_devid (ch_stripes c)"
      unfolding wf_chunk_facts(5) [OF wf, symmetric] by (rule nth_equalityI) auto
    then show ?thesis by simp
  qed
  finally show ?thesis
    using mm want ds pk(3) by simp
qed

text \<open>
  C11. A parity rebuild reads the right stripes: the element it is to recover is where an ordinary
  read of the same address goes and as long, and the data elements, P and Q are read from all
  stripes of the chunk, each stripe once.
\<close>

theorem parity_read_agrees:
  assumes wf: "wf_chunk c" and ok: "chunk_parity_read c l = Ok pr"
  shows "pr_want pr < length (pr_data pr) \<and>
    chunk_map_mirror c l 0 =
      Ok \<lparr>mp_devid = fst (pr_data pr ! pr_want pr), mp_physical = snd (pr_data pr ! pr_want pr),
          mp_len = pr_len pr\<rparr> \<and>
    mset (map fst (pr_data pr @ [pr_p pr] @ optlist (pr_q pr))) = mset (map st_devid (ch_stripes c))"
  by (rule parity_read_target [OF assms])

section \<open>Concrete chunks\<close>

definition demo_chunk :: "u64 \<Rightarrow> nat \<Rightarrow> u16 \<Rightarrow> chunk" where
  "demo_chunk profile n sub =
     \<lparr>ch_logical = 1048576, ch_length = 262144, ch_owner = 2, ch_stripe_len = 65536,
      ch_type = BG_DATA OR profile, ch_io_align = 65536, ch_io_width = 65536,
      ch_sector_size = 4096, ch_num_stripes = of_nat n, ch_sub_stripes = sub,
      ch_stripes = map (\<lambda>i. \<lparr>st_devid = of_nat i + 1, st_offset = 1048576, st_dev_uuid = []\<rparr>) [0..<n]\<rparr>"

lemma eval_bits:
  "is_power_of_two (65536 :: u64)" "count_ones (128 :: u64) = 1" "count_ones (64 :: u64) = 1"
  by (simp_all add: is_power_of_two_def count_ones_def upt_conv_Cons push_bit_eq_mult bit_simps)

lemma demo_profile:
  "chunk_profile_of (demo_chunk BG_RAID5 3 0) = Ok Raid5"
  "chunk_profile_of (demo_chunk BG_RAID10 4 2) = Ok Raid10"
  by (simp_all add: chunk_profile_of_def profile_from_type_def demo_chunk_def BG_TYPE_MASK_def
      BG_PROFILE_MASK_def Let_def eval_bits)

lemmas demo_simps = demo_chunk_def Let_def upt_conv_Cons get_def

lemma demo_wf: "wf_chunk (demo_chunk BG_RAID5 3 0)" "wf_chunk (demo_chunk BG_RAID10 4 2)"
  by (simp_all add: wf_chunk_def chunk_validate_def demo_profile)
    (simp_all add: demo_simps eval_bits checked_add_def expect_exact_def expect_at_least_def
      is_multiple_of_def)

lemmas demo_raid5 = demo_wf(1) demo_profile(1)
lemmas demo_raid10 = demo_wf(2) demo_profile(2)

lemma demo_apart: "stripes_apart (demo_chunk BG_RAID10 4 2) Raid10"
proof -
  have "nstripes (demo_chunk BG_RAID10 4 2) = 4"
    by (simp add: nstripes_def demo_chunk_def)
  moreover have "i < 4 \<Longrightarrow> j < 4 \<Longrightarrow> i \<noteq> j \<Longrightarrow> (of_nat i :: u64) \<noteq> of_nat j" for i j
    using unat_of_nat_u64 [of i] unat_of_nat_u64 [of j] by auto
  ultimately show ?thesis
    by (auto simp: stripes_apart_def demo_chunk_def)
qed

lemma demo_raid10_map:
  "chunk_map_mirror (demo_chunk BG_RAID10 4 2) 1118576 1 = Ok \<lparr>mp_devid = 4, mp_physical = 1053040, mp_len = 61072\<rparr>"
  by (simp add: chunk_map_mirror_def demo_profile num_mirrors_of [OF demo_raid10] mirrors_of_def)
    (simp add: demo_simps logical_end_def saturating_add_def stripe_index_def place_physical_def
      checked_mul_def checked_add_def is_striped_def)

theorem chunk_map_total_witness:
  "is_ok (chunk_map_mirror (demo_chunk BG_RAID10 4 2) 1118576 1) \<and>
   st_devid (ch_stripes (demo_chunk BG_RAID10 4 2) ! stripe_of (demo_chunk BG_RAID10 4 2) Raid10 70000 1) = 4 \<and>
   \<not> is_ok (chunk_map_mirror (demo_chunk BG_RAID5 3 0) 5 0) \<and> benign (chunk_map_mirror (demo_chunk BG_RAID5 3 0) 5 0)"
proof -
  have off: "offset_in (demo_chunk BG_RAID10 4 2) 1118576 = 70000" by (simp add: offset_in_def demo_chunk_def)
  have out: "\<not> covers (demo_chunk BG_RAID5 3 0) 5" by (simp add: covers_def demo_chunk_def)
  show ?thesis
    using chunk_map_total [OF demo_raid10, of 1118576 1] chunk_map_total [OF demo_raid5, of 5 0] demo_raid10_map off out
    by simp
qed

theorem chunk_map_contiguous_witness:
  "chunk_map_mirror (demo_chunk BG_RAID10 4 2) (1118576 + of_nat 9) 1 =
     Ok \<lparr>mp_devid = 4, mp_physical = 1053040 + of_nat 9, mp_len = 61072 - of_nat 9\<rparr>"
  using chunk_map_contiguous [OF demo_raid10(1) demo_raid10_map, of 9] by simp

lemma demo_maps:
  "chunk_map_mirror (demo_chunk BG_RAID10 4 2) 1048576 0 =
     Ok \<lparr>mp_devid = 1, mp_physical = 1048576, mp_len = 65536\<rparr>"
  "chunk_map_mirror (demo_chunk BG_RAID10 4 2) 1179648 0 =
     Ok \<lparr>mp_devid = 1, mp_physical = 1114112, mp_len = 65536\<rparr>"
  by (simp_all add: chunk_map_mirror_def demo_profile num_mirrors_of [OF demo_raid10] mirrors_of_def)
    (simp_all add: demo_simps logical_end_def saturating_add_def stripe_index_def place_physical_def
      checked_mul_def checked_add_def is_striped_def)

theorem parity_read_agrees_witness:
  "chunk_map_mirror (demo_chunk BG_RAID5 3 0) 1249676 0 =
     Ok \<lparr>mp_devid = 3, mp_physical = 1118604, mp_len = 61044\<rparr>"
proof -
  have ok: "chunk_parity_read (demo_chunk BG_RAID5 3 0) 1249676 =
     Ok \<lparr>pr_want = 1, pr_data = [(2, 1118604), (3, 1118604)], pr_p = (1, 1118604), pr_q = None, pr_len = 61044\<rparr>"
    by (simp add: chunk_parity_read_def demo_profile parity_count_def)
      (simp add: demo_simps logical_end_def saturating_add_def stripe_at_def placement_def
        checked_mul_def checked_add_def)
  show ?thesis
    using parity_read_agrees [OF demo_raid5(1) ok] by simp
qed

end
