(* ===== verification/ChunkMap.thy ===== *)
theory ChunkMap
  imports Chunk
begin

text \<open>
  \<open>ChunkMap\<close> of \<open>src/src/chunk.rs\<close>: the ordered list of chunks that turns a logical address
  into a device and a byte on it, how it is filled from the superblock's array, and lookups. The
  binary search \<open>partition_point\<close> is the length of the longest prefix that satisfies the
  predicate, which is what it returns on a list ordered the way the invariant says.
\<close>

type_synonym chunk_table = "chunk list"

definition partition_point :: "('a \<Rightarrow> bool) \<Rightarrow> 'a list \<Rightarrow> nat" where
  "partition_point P xs = length (takeWhile P xs)"

definition chunk_from_item :: "disk_key \<Rightarrow> bytes \<Rightarrow> u32 \<Rightarrow> chunk option result" where
  "chunk_from_item key data sectorsize =
     (if key_type key \<noteq> KT_CHUNK_ITEM then Ok None
      else if objectid key \<noteq> OID_FIRST_CHUNK_TREE then
        Err (BadChunkItem ''chunk item has the wrong objectid'')
      else
        try_in (chunk_parse (key_offset key) data) (\<lambda>c.
        try_in (chunk_validate_geometry c sectorsize) (\<lambda>_. Ok (Some c))))"

definition before :: "'a list \<Rightarrow> nat \<Rightarrow> 'a option" where
  "before xs at = (if at = 0 then None else get xs (at - 1))"

definition insert_chunk :: "chunk \<Rightarrow> chunk_table \<Rightarrow> chunk_table result" where
  "insert_chunk c cs =
     (let at = partition_point (\<lambda>x. ch_logical x < ch_logical c) cs in
      if (case before cs at of Some prev \<Rightarrow> logical_end prev > ch_logical c | None \<Rightarrow> False) then
        Err (BadChunkItem ''chunk overlaps the chunk before it'')
      else if (case get cs at of Some next \<Rightarrow> logical_end c > ch_logical next | None \<Rightarrow> False) then
        Err (BadChunkItem ''chunk overlaps the chunk after it'')
      else Ok (take at cs @ c # drop at cs))"

function sys_chunk_loop :: "bytes \<Rightarrow> u32 \<Rightarrow> nat \<Rightarrow> chunk_table \<Rightarrow> chunk_table result" where
  "sys_chunk_loop array sectorsize pos m =
     (if pos < length array then
        try_in (get_from pos array) (\<lambda>entry.
        try_in (map_err (\<lambda>_. BadChunkItem ''sys_chunk_array truncated'') (disk_key_parse entry)) (\<lambda>key.
        if key_type key \<noteq> KT_CHUNK_ITEM then
          Err (BadChunkItem ''sys_chunk_array entry is not a chunk item'')
        else if objectid key \<noteq> OID_FIRST_CHUNK_TREE then
          Err (BadChunkItem ''sys_chunk_array entry has the wrong objectid'')
        else
          try_in (get_from (pos + DISK_KEY_SIZE) array) (\<lambda>item.
          try_in (chunk_from_item key item sectorsize) (\<lambda>found.
          try_in (ok_or (Panic ''the key type was checked above'') found) (\<lambda>c.
          try_in (insert_chunk c m) (\<lambda>m'.
          sys_chunk_loop array sectorsize (pos + DISK_KEY_SIZE + encoded_len c) m'))))))
      else Ok m)"
  by pat_completeness auto

termination
  by (relation "measure (\<lambda>(array, _, pos, _). length array - pos)") auto

declare sys_chunk_loop.simps [simp del]

definition from_sys_chunk_array :: "bytes \<Rightarrow> u32 \<Rightarrow> chunk_table result" where
  "from_sys_chunk_array array sectorsize = sys_chunk_loop array sectorsize 0 []"

definition bootstrap :: "superblock \<Rightarrow> chunk_table result" where
  "bootstrap sb = from_sys_chunk_array (sb_sys_chunk_array sb) (sb_sectorsize sb)"

definition chunk_for :: "chunk_table \<Rightarrow> u64 \<Rightarrow> chunk option" where
  "chunk_for cs l =
     Option.bind (before cs (partition_point (\<lambda>c. ch_logical c \<le> l) cs)) (\<lambda>candidate.
     if l < logical_end candidate then Some candidate else None)"

definition map_covers :: "chunk_table \<Rightarrow> u64 \<Rightarrow> bool" where
  "map_covers cs l = (chunk_for cs l \<noteq> None)"

definition mirrors_at :: "chunk_table \<Rightarrow> u64 \<Rightarrow> nat result" where
  "mirrors_at cs l = try_in (ok_or (UnmappedLogical l) (chunk_for cs l)) (\<lambda>c. Ok (num_mirrors c))"

definition read_attempts_at :: "chunk_table \<Rightarrow> u64 \<Rightarrow> nat result" where
  "read_attempts_at cs l = try_in (ok_or (UnmappedLogical l) (chunk_for cs l)) (\<lambda>c. Ok (read_attempts c))"

definition map_mirror :: "chunk_table \<Rightarrow> u64 \<Rightarrow> nat \<Rightarrow> mapping result" where
  "map_mirror cs l mirror =
     try_in (ok_or (UnmappedLogical l) (chunk_for cs l)) (\<lambda>c. chunk_map_mirror c l mirror)"

definition map_logical :: "chunk_table \<Rightarrow> u64 \<Rightarrow> mapping result" where
  "map_logical cs l = map_mirror cs l 0"

section \<open>The interface of an address map\<close>

text \<open>
  What the rest of the driver relies on: a map is filled one range at a time, an insertion that
  would overlap is refused and leaves nothing behind, and a lookup finds the range that holds the
  address. The lemmas of the locale hold for any such map; the order of the insertions does not
  matter to what it then answers.
\<close>

locale address_map =
  fixes ins :: "'c \<Rightarrow> 'm \<Rightarrow> 'm result"
    and look :: "'m \<Rightarrow> u64 \<Rightarrow> 'c option"
    and items :: "'m \<Rightarrow> 'c set"
    and inv_map :: "'m \<Rightarrow> bool"
    and good :: "'c \<Rightarrow> bool"
    and holds :: "'c \<Rightarrow> u64 \<Rightarrow> bool"
  assumes ins_ok: "inv_map m \<Longrightarrow> good c \<Longrightarrow> ins c m = Ok m' \<Longrightarrow> inv_map m' \<and> items m' = insert c (items m)"
    and ins_iff: "inv_map m \<Longrightarrow> good c \<Longrightarrow>
      is_ok (ins c m) \<longleftrightarrow> (\<forall>x \<in> items m. \<forall>l. \<not> (holds c l \<and> holds x l))"
    and look_iff: "inv_map m \<Longrightarrow> look m l = Some c \<longleftrightarrow> c \<in> items m \<and> holds c l"
begin

fun ins_all :: "'c list \<Rightarrow> 'm \<Rightarrow> 'm result" where
  "ins_all [] m = Ok m"
| "ins_all (c # cs) m = try_in (ins c m) (\<lambda>m'. ins_all cs m')"

lemma ins_all_inv:
  "inv_map m \<Longrightarrow> (\<And>c. c \<in> set cs \<Longrightarrow> good c) \<Longrightarrow> ins_all cs m = Ok m' \<Longrightarrow>
   inv_map m' \<and> items m' = items m \<union> set cs"
proof (induction cs arbitrary: m)
  case (Cons c cs)
  then obtain m1 where m1: "ins c m = Ok m1" "ins_all cs m1 = Ok m'"
    by (auto simp: try_in_eq_Ok)
  then have "inv_map m1 \<and> items m1 = insert c (items m)"
    using ins_ok [OF Cons.prems(1) _ m1(1)] Cons.prems(2) by simp
  with Cons.IH [OF _ _ m1(2)] Cons.prems(2) show ?case by auto
qed simp

text \<open>A list of ranges goes in exactly when no two of them, and none of them and one held, share an address.\<close>

lemma ins_all_iff:
  "inv_map m \<Longrightarrow> (\<And>c. c \<in> set cs \<Longrightarrow> good c) \<Longrightarrow>
   is_ok (ins_all cs m) \<longleftrightarrow> sorted_wrt (\<lambda>a b. \<forall>l. \<not> (holds a l \<and> holds b l)) cs \<and>
     (\<forall>c \<in> set cs. \<forall>x \<in> items m. \<forall>l. \<not> (holds c l \<and> holds x l))"
proof (induction cs arbitrary: m)
  case (Cons c cs)
  have good: "good c" using Cons.prems(2) by simp
  note iff = ins_iff [OF Cons.prems(1) good]
  show ?case
  proof (cases "ins c m")
    case (Inl e)
    then show ?thesis using iff by auto
  next
    case (Inr m1)
    then have m1: "inv_map m1" "items m1 = insert c (items m)"
      using ins_ok [OF Cons.prems(1) good] by auto
    have "is_ok (ins_all (c # cs) m) \<longleftrightarrow> is_ok (ins_all cs m1)" using Inr by simp
    then show ?thesis
      using Cons.IH [OF m1(1)] Cons.prems(2) m1(2) iff Inr by auto
  qed
qed simp

lemma look_cong:
  "inv_map m \<Longrightarrow> inv_map m' \<Longrightarrow> items m = items m' \<Longrightarrow> look m l = look m' l"
  by (metis look_iff not_None_eq)

lemma ins_all_perm:
  assumes "inv_map m" and "\<And>c. c \<in> set cs \<Longrightarrow> good c" and "set cs = set cs'"
    and "ins_all cs m = Ok m1" and "ins_all cs' m = Ok m2"
  shows "look m1 l = look m2 l"
  using ins_all_inv [of m cs m1] ins_all_inv [of m cs' m2] assms by (intro look_cong) auto

lemma look_after_ins:
  assumes "inv_map m" and "good c" and "ins c m = Ok m'"
  shows "look m' l = (if holds c l then Some c else look m l)"
proof (cases "holds c l")
  case True
  then show ?thesis
    using ins_ok [OF assms] look_iff by simp
next
  case False
  have "look m' l = Some x \<longleftrightarrow> look m l = Some x" for x
    using ins_ok [OF assms] look_iff assms(1) False by auto
  then show ?thesis
    using False by (metis not_None_eq)
qed

lemma ins_refused_iff:
  assumes "inv_map m" and "good c"
  shows "\<not> is_ok (ins c m) \<longleftrightarrow> (\<exists>l. holds c l \<and> look m l \<noteq> None)"
  using ins_iff [OF assms] look_iff [OF assms(1)] by (metis not_None_eq)

end

section \<open>The chunk map is one\<close>

definition ends_before :: "chunk \<Rightarrow> chunk \<Rightarrow> bool" where
  "ends_before a b \<longleftrightarrow> unat (ch_logical a) + clen a \<le> unat (ch_logical b)"

definition cm_inv :: "chunk_table \<Rightarrow> bool" where
  "cm_inv cs \<longleftrightarrow> sorted_wrt ends_before cs \<and> (\<forall>c \<in> set cs. wf_chunk c)"

lemma ends_before_less: "wf_chunk a \<Longrightarrow> ends_before a b \<Longrightarrow> ch_logical a < ch_logical b"
  using wf_chunk_facts(1) [of a] by (simp add: ends_before_def word_less_nat_alt)

lemma ends_before_iff: "wf_chunk a \<Longrightarrow> ends_before a b \<longleftrightarrow> logical_end a \<le> ch_logical b"
  by (simp add: ends_before_def word_le_nat_alt wf_chunk_facts(4))

lemma cm_inv_nth:
  "cm_inv cs \<Longrightarrow> i < j \<Longrightarrow> j < length cs \<Longrightarrow> ends_before (cs ! i) (cs ! j)"
  by (simp add: cm_inv_def sorted_wrt_nth_less)

lemma partition_point_split:
  "xs = take (partition_point P xs) xs @ drop (partition_point P xs) xs \<and>
   take (partition_point P xs) xs = takeWhile P xs \<and> drop (partition_point P xs) xs = dropWhile P xs"
  by (metis append_eq_conv_conj append_take_drop_id partition_point_def takeWhile_dropWhile_id)

lemma cm_inv_mono:
  assumes "cm_inv cs" and "cs = xs @ y # ys" and "x \<in> set ys"
  shows "ends_before y x" "ch_logical y < ch_logical x"
  using assms ends_before_less by (auto simp: cm_inv_def sorted_wrt_append)

lemma partition_take:
  "x \<in> set (take (partition_point P xs) xs) \<Longrightarrow> P x"
  using partition_point_split [of xs P] set_takeWhileD by metis

lemma partition_drop:
  assumes "cm_inv cs" and mono: "\<And>a b. ch_logical a < ch_logical b \<Longrightarrow> P b \<Longrightarrow> P a"
    and x: "x \<in> set (drop (partition_point P cs) cs)"
  shows "\<not> P x"
proof -
  have d: "drop (partition_point P cs) cs = dropWhile P cs"
    using partition_point_split by metis
  then obtain y ys where y: "dropWhile P cs = y # ys"
    using x by (cases "dropWhile P cs") auto
  then have "\<not> P y"
    by (metis dropWhile_eq_Cons_conv)
  moreover have "cs = takeWhile P cs @ y # ys"
    using y by (metis takeWhile_dropWhile_id)
  then have "x = y \<or> ch_logical y < ch_logical x"
    using x y d cm_inv_mono(2) [OF assms(1)] by auto
  ultimately show ?thesis
    using mono by blast
qed

lemma covers_unique:
  assumes "cm_inv cs" and "a \<in> set cs" and "b \<in> set cs" and "covers a l" and "covers b l"
  shows "a = b"
proof -
  obtain i j where ij: "i < length cs" "j < length cs" "a = cs ! i" "b = cs ! j"
    using assms(2,3) by (metis in_set_conv_nth)
  have "\<not> i < j" "\<not> j < i"
    using cm_inv_nth [OF assms(1), of i j] cm_inv_nth [OF assms(1), of j i] ij assms(4,5)
    by (auto simp: ends_before_def covers_def)
  with ij show ?thesis by (metis linorder_neqE_nat)
qed

lemma before_Some: "before xs at = Some x \<Longrightarrow> at \<le> length xs \<Longrightarrow> 0 < at \<and> x = xs ! (at - 1)"
  by (auto simp: before_def get_def split: if_splits)

lemma partition_point_le: "partition_point P xs \<le> length xs"
  by (simp add: partition_point_def length_takeWhile_le)

lemma before_take:
  "at \<le> length xs \<Longrightarrow> before xs at = (if take at xs = [] then None else Some (last (take at xs)))"
  by (cases at) (auto simp: before_def get_def take_Suc_conv_app_nth)

lemma get_drop: "get xs at = (case drop at xs of [] \<Rightarrow> None | y # _ \<Rightarrow> Some y)"
  by (auto simp: get_def Cons_nth_drop_Suc [symmetric] simp del: Cons_nth_drop_Suc)

lemma last_ends_before:
  assumes "sorted_wrt ends_before xs" and "x \<in> set xs"
  shows "x = last xs \<or> ends_before x (last xs)"
proof -
  have "xs = butlast xs @ [last xs]"
    using assms(2) by (metis append_butlast_last_id empty_iff list.set(1))
  then have "sorted_wrt ends_before (butlast xs @ [last xs])" and "x \<in> set (butlast xs) \<or> x = last xs"
    using assms by (metis, metis in_set_butlastD rotate1.simps(2) set_ConsD set_rotate1)
  then show ?thesis by (auto simp: sorted_wrt_append)
qed

lemma chunk_for_iff:
  assumes inv: "cm_inv cs"
  shows "chunk_for cs l = Some c \<longleftrightarrow> c \<in> set cs \<and> covers c l"
proof -
  let ?P = "\<lambda>c. ch_logical c \<le> l"
  let ?at = "partition_point ?P cs"
  let ?xs = "take ?at cs"
  have split: "set cs = set ?xs \<union> set (drop ?at cs)"
    by (metis append_take_drop_id set_append)
  have rest: "\<not> covers x l" if x: "x \<in> set (drop ?at cs)" for x
  proof -
    have "\<not> ?P x"
      by (rule partition_drop [OF inv _ x]) simp
    then show ?thesis
      by (simp add: covers_def word_le_nat_alt)
  qed
  have P: "x \<in> set ?xs \<Longrightarrow> ch_logical x \<le> l" for x
    using partition_take by fastforce
  have srt: "sorted_wrt ends_before ?xs" and wf: "x \<in> set ?xs \<Longrightarrow> wf_chunk x" for x
    using inv by (auto simp: cm_inv_def sorted_wrt_take dest: in_set_takeD)
  have only_last: "x = last ?xs" if "x \<in> set ?xs" "covers x l" for x
  proof -
    have "last ?xs \<in> set ?xs"
      using that(1) by (metis empty_iff last_in_set list.set(1))
    then have "unat (ch_logical (last ?xs)) \<le> unat l"
      using P word_le_nat_alt by blast
    then show ?thesis
      using last_ends_before [OF srt that(1)] that(2) by (auto simp: ends_before_def covers_def)
  qed
  have b: "before cs ?at = (if ?xs = [] then None else Some (last ?xs))"
    by (rule before_take) (rule partition_point_le)
  show ?thesis
  proof (cases "?xs = []")
    case True
    then show ?thesis
      using split rest by (auto simp: chunk_for_def b)
  next
    case False
    then have l: "last ?xs \<in> set ?xs" by simp
    have "l < logical_end (last ?xs) \<longleftrightarrow> covers (last ?xs) l"
      using P [OF l] covers_iff [OF wf [OF l], of l] by (auto simp: not_le)
    then have "chunk_for cs l = (if covers (last ?xs) l then Some (last ?xs) else None)"
      using False by (simp add: chunk_for_def b)
    moreover have "c \<in> set cs \<and> covers c l \<longleftrightarrow> c = last ?xs \<and> covers c l"
      using split rest only_last l by blast
    ultimately show ?thesis by auto
  qed
qed

lemma insert_chunk_Ok:
  assumes inv: "cm_inv cs" and wf: "wf_chunk c" and ok: "insert_chunk c cs = Ok cs'"
  shows "\<exists>xs ys. cs = xs @ ys \<and> cs' = xs @ c # ys \<and> (\<forall>x \<in> set xs. ends_before x c) \<and>
    (\<forall>y \<in> set ys. ends_before c y)"
proof -
  let ?P = "\<lambda>x. ch_logical x < ch_logical c"
  let ?at = "partition_point ?P cs"
  let ?xs = "take ?at cs" and ?ys = "drop ?at cs"
  have P: "x \<in> set ?xs \<Longrightarrow> ch_logical x < ch_logical c" for x
    using partition_take by fastforce
  have srt: "sorted_wrt ends_before ?xs" "sorted_wrt ends_before ?ys"
    and wfs: "x \<in> set cs \<Longrightarrow> wf_chunk x" for x
    using inv by (auto simp: cm_inv_def sorted_wrt_take sorted_wrt_drop)
  have b: "before cs ?at = (if ?xs = [] then None else Some (last ?xs))"
    by (rule before_take) (rule partition_point_le)
  have x: "ends_before x c" if "x \<in> set ?xs" for x
  proof -
    have l: "last ?xs \<in> set ?xs" using that by (metis empty_iff last_in_set list.set(1))
    have "wf_chunk (last ?xs)"
      using l wfs in_set_takeD by metis
    moreover have "logical_end (last ?xs) \<le> ch_logical c"
      using ok that by (auto simp: insert_chunk_def Let_def b not_less split: if_splits)
    ultimately have "ends_before (last ?xs) c"
      by (simp add: ends_before_iff)
    then show ?thesis
      using last_ends_before [OF srt(1) that] P [OF l]
      by (auto simp: ends_before_def word_less_nat_alt)
  qed
  have y: "ends_before c y" if y: "y \<in> set ?ys" for y
  proof -
    obtain z zs where z: "?ys = z # zs" using y by (cases ?ys) auto
    then have "ends_before c z"
      using ok wf by (auto simp: insert_chunk_def Let_def get_drop ends_before_iff not_less split: if_splits)
    moreover have "y = z \<or> ends_before z y"
      using srt(2) y z by auto
    ultimately show ?thesis
      by (auto simp: ends_before_def)
  qed
  have "cs' = ?xs @ c # ?ys"
    using ok by (auto simp: insert_chunk_def Let_def split: if_splits)
  then show ?thesis
    using x y by (metis append_take_drop_id)
qed

lemma insert_chunk_inv:
  assumes "cm_inv cs" and "wf_chunk c" and "insert_chunk c cs = Ok cs'"
  shows "cm_inv cs' \<and> set cs' = insert c (set cs)"
  using insert_chunk_Ok [OF assms] assms(1,2)
  by (auto simp: cm_inv_def sorted_wrt_append)

lemma insert_chunk_Ok_iff:
  assumes inv: "cm_inv cs" and wf: "wf_chunk c"
  shows "is_ok (insert_chunk c cs) \<longleftrightarrow> (\<forall>x \<in> set cs. \<forall>l. \<not> (covers c l \<and> covers x l))"
proof
  assume "is_ok (insert_chunk c cs)"
  then show "\<forall>x \<in> set cs. \<forall>l. \<not> (covers c l \<and> covers x l)"
    using insert_chunk_Ok [OF inv wf] by (fastforce simp: is_ok_iff ends_before_def covers_def)
next
  assume dis: "\<forall>x \<in> set cs. \<forall>l. \<not> (covers c l \<and> covers x l)"
  let ?P = "\<lambda>x. ch_logical x < ch_logical c"
  let ?at = "partition_point ?P cs"
  have start: "covers x (ch_logical x)" if "wf_chunk x" for x
    using wf_chunk_facts(1) [OF that] by (simp add: covers_def)
  have wfs: "x \<in> set cs \<Longrightarrow> wf_chunk x" for x
    using inv by (simp add: cm_inv_def)
  have "\<not> logical_end x > ch_logical c" if "before cs ?at = Some x" for x
  proof -
    have x: "x \<in> set (take ?at cs)"
      using that before_take [OF partition_point_le, of cs ?P]
      by (metis last_in_set option.inject option.simps(3))
    then have "ch_logical x < ch_logical c" "x \<in> set cs"
      using partition_take by (fastforce, metis in_set_takeD)
    then show ?thesis
      using dis start [OF wf] covers_iff [OF wfs, of x "ch_logical c"] by (auto simp: not_le)
  qed
  moreover have "\<not> logical_end c > ch_logical x" if "get cs ?at = Some x" for x
  proof -
    have x: "x \<in> set (drop ?at cs)"
      using that by (auto simp: get_drop split: list.splits)
    then have "\<not> ch_logical x < ch_logical c" "x \<in> set cs"
      using partition_drop [OF inv, of ?P x] by (auto dest: in_set_dropD)
    then show ?thesis
      using dis start [OF wfs] covers_iff [OF wf, of "ch_logical x"] by (auto simp: not_le)
  qed
  ultimately show "is_ok (insert_chunk c cs)"
    by (auto simp: insert_chunk_def Let_def split: option.splits)
qed

interpretation cmap: address_map insert_chunk chunk_for set cm_inv wf_chunk covers
  by unfold_locales (simp_all add: insert_chunk_inv insert_chunk_Ok_iff chunk_for_iff)

section \<open>Properties of the chunk map\<close>

text \<open>
  C12. Inserting a chunk is refused exactly when some logical address of the chunk is mapped already:
  whether it equals, contains or partly overlaps a chunk of the map makes no difference. Otherwise it gives an ordered map without overlaps
  in which exactly the addresses of the chunk are found in it and every other address is found
  where it was before.
\<close>

theorem insert_chunk_lookup:
  assumes "cm_inv cs" and "wf_chunk c"
  shows "(is_ok (insert_chunk c cs) \<longleftrightarrow> \<not> (\<exists>l. covers c l \<and> chunk_for cs l \<noteq> None)) \<and>
    (\<forall>cs'. insert_chunk c cs = Ok cs' \<longrightarrow>
       cm_inv cs' \<and> (\<forall>l. chunk_for cs' l = (if covers c l then Some c else chunk_for cs l)))"
proof -
  have "is_ok (insert_chunk c cs) \<longleftrightarrow> \<not> (\<exists>l. covers c l \<and> chunk_for cs l \<noteq> None)"
    using cmap.ins_refused_iff [OF assms] by (auto simp: is_ok_def split: sum.splits)
  then show ?thesis
    using cmap.look_after_ins [OF assms] cmap.ins_ok [OF assms] by auto
qed

theorem insert_chunk_lookup_witness:
  "\<exists>cs'. insert_chunk (demo_chunk BG_RAID5 3 0) [] = Ok cs' \<and>
     chunk_for cs' 1048576 = Some (demo_chunk BG_RAID5 3 0) \<and>
     \<not> is_ok (insert_chunk (demo_chunk BG_RAID5 3 0) cs')"
proof -
  let ?c = "demo_chunk BG_RAID5 3 0"
  have inv: "cm_inv []" by (simp add: cm_inv_def)
  have ok: "insert_chunk ?c [] = Ok [?c]"
    by (simp add: insert_chunk_def partition_point_def before_def get_def)
  have cov: "covers ?c 1048576"
    by (simp add: covers_def demo_chunk_def clen_def)
  have one: "cm_inv [?c]" "chunk_for [?c] 1048576 = Some ?c"
    using insert_chunk_lookup [OF inv demo_wf(1)] ok cov by auto
  have "\<not> is_ok (insert_chunk ?c [?c])"
    using insert_chunk_lookup [OF one(1) demo_wf(1)] cov one(2) by blast
  then show ?thesis using ok one(2) by blast
qed

lemma chunk_from_item_Some:
  "chunk_from_item key data ss = Ok (Some c) \<Longrightarrow>
     wf_chunk c \<and> ch_logical c = key_offset key \<and> chunk_validate_geometry c ss = Ok () \<and>
     encoded_len c \<le> length data"
  using chunk_parse_wf by (auto simp: chunk_from_item_def try_in_eq_Ok split: if_splits)

lemma chunk_from_item_not_None:
  "key_type key = KT_CHUNK_ITEM \<Longrightarrow> chunk_from_item key data ss \<noteq> Ok None"
  by (auto simp: chunk_from_item_def try_in_eq_Ok split: if_splits)

definition aligned_map :: "u32 \<Rightarrow> chunk_table \<Rightarrow> bool" where
  "aligned_map ss cs \<longleftrightarrow> cm_inv cs \<and> (\<forall>c \<in> set cs. chunk_validate_geometry c ss = Ok ())"

text \<open>
  What the array in the superblock encodes: nothing, or a key of a chunk item, the item, and what
  follows them.
\<close>

inductive sys_entries :: "u32 \<Rightarrow> bytes \<Rightarrow> chunk list \<Rightarrow> bool" for ss where
  sys_end: "sys_entries ss [] []"
| sys_entry: "disk_key_parse array = Ok key \<Longrightarrow> key_type key = KT_CHUNK_ITEM \<Longrightarrow> objectid key = OID_FIRST_CHUNK_TREE \<Longrightarrow>
    chunk_from_item key (drop DISK_KEY_SIZE array) ss = Ok (Some c) \<Longrightarrow>
    sys_entries ss (drop (DISK_KEY_SIZE + encoded_len c) array) cs \<Longrightarrow> sys_entries ss array (c # cs)"

inductive_simps sys_entries_Nil: "sys_entries ss [] cs"
inductive_cases sys_entriesE: "sys_entries ss array cs"

definition chunks_apart :: "chunk \<Rightarrow> chunk \<Rightarrow> bool" where
  "chunks_apart a b \<longleftrightarrow> (\<forall>l. \<not> (covers a l \<and> covers b l))"

lemma disk_key_parse_length: "disk_key_parse b = Ok k \<Longrightarrow> DISK_KEY_SIZE \<le> length b"
  by (auto simp: disk_key_parse_eq split: if_splits)

lemma sys_entries_good:
  "sys_entries ss array ds \<Longrightarrow> c \<in> set ds \<Longrightarrow> wf_chunk c \<and> chunk_validate_geometry c ss = Ok ()"
  by (induction rule: sys_entries.induct) (use chunk_from_item_Some in auto)

text \<open>The loop reads the entries and inserts the chunks in turn; it never reads past the array.\<close>

lemma sys_chunk_loop_Ok:
  "sys_chunk_loop array ss pos m = Ok m' \<Longrightarrow> pos \<le> length array \<Longrightarrow>
   \<exists>ds. sys_entries ss (drop pos array) ds \<and> cmap.ins_all ds m = Ok m'"
proof (induction array ss pos m rule: sys_chunk_loop.induct)
  case (1 array ss pos m)
  show ?case
  proof (cases "pos < length array")
    case False
    then have p: "pos = length array" using 1(3) by simp
    have "m' = m" using 1(2) unfolding p by (simp add: sys_chunk_loop.simps [of array ss "length array" m])
    then show ?thesis unfolding p by (intro exI [of _ "[]"]) (simp add: sys_end)
  next
    case True
    obtain key item c m1 where st: "disk_key_parse (drop pos array) = Ok key"
      "key_type key = KT_CHUNK_ITEM" "objectid key = OID_FIRST_CHUNK_TREE" "get_from (pos + DISK_KEY_SIZE) array = Ok item"
      "chunk_from_item key item ss = Ok (Some c)" "insert_chunk c m = Ok m1"
      "sys_chunk_loop array ss (pos + DISK_KEY_SIZE + encoded_len c) m1 = Ok m'"
      using 1(2) True
      by (subst (asm) sys_chunk_loop.simps)
        (auto simp: try_in_eq_Ok map_err_eq_Ok ok_or_eq_Ok get_in_range simp del: drop_drop split: if_splits)
    have item: "item = drop (pos + DISK_KEY_SIZE) array" using st(4) by (simp add: get_from_def split: if_splits)
    have "pos + DISK_KEY_SIZE + encoded_len c \<le> length array"
      using chunk_from_item_Some [OF st(5)] disk_key_parse_length [OF st(1)] unfolding item length_drop by linarith
    then obtain ds where ds: "sys_entries ss (drop (pos + DISK_KEY_SIZE + encoded_len c) array) ds" "cmap.ins_all ds m1 = Ok m'"
      using 1(1) [OF True _ _ st(2) [THEN not_not [THEN iffD2]] st(3) [THEN not_not [THEN iffD2]] st(4,5) _ st(6,7)] st(1)
      by (auto simp: get_in_range True less_imp_le)
    have "sys_entries ss (drop pos array) (c # ds)"
      using st ds(1) by (intro sys_entry [of _ key]) (simp_all add: item add.commute add.left_commute)
    then show ?thesis using ds(2) st(6) by (intro exI [of _ "c # ds"]) simp
  qed
qed

lemma sys_chunk_loop_complete:
  "sys_entries ss rest ds \<Longrightarrow> rest = drop pos array \<Longrightarrow> pos \<le> length array \<Longrightarrow>
   sys_chunk_loop array ss pos m = cmap.ins_all ds m"
proof (induction arbitrary: pos m rule: sys_entries.induct)
  case sys_end
  then show ?case by (simp add: sys_chunk_loop.simps [of array ss pos m])
next
  case (sys_entry rest key c cs)
  have len: "DISK_KEY_SIZE \<le> length rest" using disk_key_parse_length [OF sys_entry(1)] .
  have more: "pos < length array" "pos + DISK_KEY_SIZE \<le> length array" using len sys_entry(7,8) by simp_all
  have "pos + DISK_KEY_SIZE + encoded_len c \<le> length array"
    using chunk_from_item_Some [OF sys_entry(4)] more(2) unfolding sys_entry(7) length_drop by linarith
  then have IH: "sys_chunk_loop array ss (pos + DISK_KEY_SIZE + encoded_len c) m1 = cmap.ins_all cs m1" for m1
    using sys_entry(6) [of "pos + DISK_KEY_SIZE + encoded_len c" m1] sys_entry(7) by (simp add: add.commute add.left_commute)
  have "drop DISK_KEY_SIZE rest = drop (pos + DISK_KEY_SIZE) array" using sys_entry(7) by (simp add: add.commute)
  then have found: "chunk_from_item key (drop (pos + DISK_KEY_SIZE) array) ss = Ok (Some c)" using sys_entry(4) by simp
  have key: "disk_key_parse (drop pos array) = Ok key" using sys_entry(1,7) by simp
  show ?case
    unfolding sys_chunk_loop.simps [of array ss pos m] if_P [OF more(1)]
    using more(2) by (simp add: get_in_range(2) less_imp_le [OF more(1)] key sys_entry(2,3) found ext [OF IH])
qed

text \<open>Panics of the pieces the loop is made of.\<close>

lemma benign_if: "(P \<Longrightarrow> benign x) \<Longrightarrow> (\<not> P \<Longrightarrow> benign y) \<Longrightarrow> benign (if P then x else y)"
  by simp

lemma profile_from_type_benign: "benign (profile_from_type t)"
  by (auto simp: profile_from_type_def Let_def)

lemma chunk_validate_benign: "benign (chunk_validate c)"
  by (auto simp: chunk_validate_def chunk_profile_of_def Let_def split: option.splits
      intro!: benign_try_in profile_from_type_benign)

lemma collect_benign:
  "(\<And>x. x \<in> set xs \<Longrightarrow> benign (f x)) \<Longrightarrow> benign (collect_results f xs)"
  using collect_results_Err [of f xs] by (force simp: benign_iff)

lemma stripe_parse_benign: "benign (stripe_parse b)"
  by (simp add: stripe_parse_def get_in_range)

lemma chunk_parse_benign: "benign (chunk_parse l b)"
  by (auto simp: chunk_parse_def Let_def get_in_range
      intro!: benign_try_in benign_if chunk_validate_benign collect_benign stripe_parse_benign)

lemma check_stripe_offsets_benign: "benign (check_stripe_offsets s sts)"
  by (induction s sts rule: check_stripe_offsets.induct) auto

lemma chunk_from_item_benign: "benign (chunk_from_item k d ss)"
  by (auto simp: chunk_from_item_def chunk_validate_geometry_def Let_def
      intro!: benign_try_in chunk_parse_benign check_stripe_offsets_benign)

lemma insert_chunk_benign: "benign (insert_chunk c m)"
  by (auto simp: insert_chunk_def Let_def split: option.splits)

lemma found_benign:
  "chunk_from_item key data ss = Ok found \<Longrightarrow> key_type key = KT_CHUNK_ITEM \<Longrightarrow> benign (ok_or e found)"
  using chunk_from_item_not_None [of key data ss] by (cases found) auto

lemma sys_chunk_loop_benign: "pos \<le> length array \<Longrightarrow> benign (sys_chunk_loop array ss pos m)"
proof (induction array ss pos m rule: sys_chunk_loop.induct)
  case (1 array ss pos m)
  show ?case
  proof (cases "pos < length array")
    case True
    have key: "benign (map_err (\<lambda>_. BadChunkItem ''sys_chunk_array truncated'') (disk_key_parse (drop pos array)))"
      by (simp add: disk_key_parse_eq)
    show ?thesis
      unfolding sys_chunk_loop.simps [of array ss pos m] if_P [OF True] get_in_range(2) [OF less_imp_le [OF True]] try_in_Ok
    proof (intro benign_try_in benign_if key, simp_all only: not_not benign_simps, goal_cases)
      case (1 k)
      then show ?case using disk_key_parse_length [of "drop pos array" k] True by (simp add: map_err_eq_Ok get_in_range)
    next
      case (2 k item)
      then show ?case by (simp add: chunk_from_item_benign)
    next
      case (3 k item found)
      then show ?case using found_benign by blast
    next
      case (4 k item found c)
      then show ?case by (simp add: insert_chunk_benign)
    next
      case (5 k item found c m')
      then have item: "item = drop (pos + DISK_KEY_SIZE) array" "chunk_from_item k item ss = Ok (Some c)"
        "pos + DISK_KEY_SIZE \<le> length array"
        by (auto simp: get_from_def ok_or_eq_Ok split: if_splits)
      then have "pos + DISK_KEY_SIZE + encoded_len c \<le> length array"
        using chunk_from_item_Some [OF item(2)] unfolding item(1) length_drop by linarith
      then show ?case
        using 5 "1.IH" True by (simp add: get_in_range)
    qed
  qed (simp add: sys_chunk_loop.simps [of array ss pos m])
qed

text \<open>
  C13. The bootstrap map is the superblock's array, read. It is built exactly when the array is a sequence
  of keys and chunk items, each complete, well formed and aligned to the sector size, of which no
  two chunks share an address; then it holds these chunks and no other, in order. On every other
  array, truncated anywhere, the result is an error, and no read of a key, of an item or of one of its
  stripes is past the bytes there are: an index out of range is a panic of the model too.
\<close>

theorem bootstrap_sound:
  "case bootstrap sb of
     Inr cs \<Rightarrow> aligned_map (sb_sectorsize sb) cs \<and>
       (\<exists>ds. sys_entries (sb_sectorsize sb) (sb_sys_chunk_array sb) ds \<and> sorted_wrt chunks_apart ds \<and> set cs = set ds)
   | Inl e \<Rightarrow> (\<forall>s. e \<noteq> Panic s) \<and>
       \<not> (\<exists>ds. sys_entries (sb_sectorsize sb) (sb_sys_chunk_array sb) ds \<and> sorted_wrt chunks_apart ds)"
proof -
  let ?ss = "sb_sectorsize sb" and ?array = "sb_sys_chunk_array sb"
  have boot: "bootstrap sb = sys_chunk_loop ?array ?ss 0 []" by (simp add: bootstrap_def from_sys_chunk_array_def)
  have inv: "cm_inv []" by (simp add: cm_inv_def)
  have ok: "is_ok (cmap.ins_all ds []) \<longleftrightarrow> sorted_wrt chunks_apart ds" if "sys_entries ?ss ?array ds" for ds
    using cmap.ins_all_iff [OF inv, of ds] sys_entries_good [OF that] by (simp add: chunks_apart_def [abs_def])
  show ?thesis
  proof (cases "bootstrap sb")
    case (Inl e)
    have "\<not> sorted_wrt chunks_apart ds" if "sys_entries ?ss ?array ds" for ds
      using ok [OF that] sys_chunk_loop_complete [OF that, of 0 ?array "[]"] Inl boot by simp
    then show ?thesis
      using sys_chunk_loop_benign [of 0 ?array ?ss "[]"] Inl boot by (auto simp: benign_iff)
  next
    case (Inr cs)
    obtain ds where ds: "sys_entries ?ss ?array ds" "cmap.ins_all ds [] = Ok cs"
      using sys_chunk_loop_Ok [of ?array ?ss 0 "[]" cs] Inr boot by auto
    have "cm_inv cs \<and> set cs = set ds"
      using cmap.ins_all_inv [OF inv _ ds(2)] sys_entries_good [OF ds(1)] by simp
    then show ?thesis
      using Inr ds ok [OF ds(1)] sys_entries_good [OF ds(1)] by (auto simp: aligned_map_def)
  qed
qed

text \<open>
  Through the map: a translation comes from the one chunk that covers the address.
\<close>

lemma map_mirror_Ok:
  "cm_inv cs \<Longrightarrow> map_mirror cs l m = Ok r \<longleftrightarrow>
     (\<exists>c \<in> set cs. covers c l \<and> chunk_map_mirror c l m = Ok r)"
  by (auto simp: map_mirror_def try_in_eq_Ok ok_or_eq_Ok chunk_for_iff)

text \<open>
  Chunks whose stripes keep apart from each other's on every device, as the device tree promises.
\<close>

definition extents_apart :: "chunk \<Rightarrow> chunk_profile \<Rightarrow> chunk \<Rightarrow> chunk_profile \<Rightarrow> bool" where
  "extents_apart a p b q \<longleftrightarrow>
     (\<forall>x \<in> set (ch_stripes a). \<forall>y \<in> set (ch_stripes b). st_devid x = st_devid y \<longrightarrow>
        unat (st_offset x) + span a p \<le> unat (st_offset y) \<or>
        unat (st_offset y) + span b q \<le> unat (st_offset x))"

definition layout_ok :: "chunk_table \<Rightarrow> bool" where
  "layout_ok cs \<longleftrightarrow>
     (\<forall>c \<in> set cs. \<forall>p. chunk_profile_of c = Ok p \<longrightarrow> stripes_apart c p) \<and>
     (\<forall>a \<in> set cs. \<forall>b \<in> set cs. a \<noteq> b \<longrightarrow>
        (\<forall>p q. chunk_profile_of a = Ok p \<longrightarrow> chunk_profile_of b = Ok q \<longrightarrow> extents_apart a p b q))"

lemma map_in_stripe:
  assumes "wf_chunk c" and "chunk_map_mirror c l m = Ok r" and "chunk_profile_of c = Ok p"
  shows "\<exists>st \<in> set (ch_stripes c). mp_devid r = st_devid st \<and>
    unat (st_offset st) \<le> unat (mp_physical r) \<and> unat (mp_physical r) < unat (st_offset st) + span c p"
proof -
  have d: "covers c l" "m < mirrors_of p" "parity_fits p c"
    using chunk_map_mirror_dom [OF assms(1,2)] assms(3) by (metis Inr_inject)+
  note r = chunk_map_mirror_Ok [OF assms(1) d(1) assms(3) d(2,3) assms(2)]
  have off: "offset_in c l < clen c"
    using d(1) by (auto simp: covers_def offset_in_def)
  have "stripe_of c p (offset_in c l) m < nstripes c"
    unfolding stripe_of_def by (rule place_of_bound(1) [OF wf_chunk_stripes [OF assms(1,3)] d(2)])
  then have "ch_stripes c ! stripe_of c p (offset_in c l) m \<in> set (ch_stripes c)"
    using wf_chunk_facts(5) [OF assms(1)] by simp
  then show ?thesis
    using r within_span [OF assms(1) off, of p m] by (intro bexI) auto
qed

text \<open>Two translations to one physical byte.\<close>

lemma map_mirror_inj:
  assumes inv: "cm_inv cs" and lay: "layout_ok cs"
    and ok: "map_mirror cs l1 m1 = Ok r1" "map_mirror cs l2 m2 = Ok r2"
    and same: "mp_devid r1 = mp_devid r2" "mp_physical r1 = mp_physical r2"
  shows "l1 = l2 \<and> m1 = m2"
proof -
  obtain a b where a: "a \<in> set cs" "chunk_map_mirror a l1 m1 = Ok r1"
    and b: "b \<in> set cs" "chunk_map_mirror b l2 m2 = Ok r2"
    using ok by (auto simp: map_mirror_Ok [OF inv])
  have wf: "wf_chunk a" "wf_chunk b" using inv a(1) b(1) by (auto simp: cm_inv_def)
  obtain p q where p: "chunk_profile_of a = Ok p" and q: "chunk_profile_of b = Ok q"
    using wf_chunk_profile wf by blast
  have "a = b"
  proof (rule ccontr)
    assume "a \<noteq> b"
    then have ap: "extents_apart a p b q"
      using lay a(1) b(1) p q by (auto simp: layout_ok_def)
    obtain x where x: "x \<in> set (ch_stripes a)" "mp_devid r1 = st_devid x"
      "unat (st_offset x) \<le> unat (mp_physical r1)" "unat (mp_physical r1) < unat (st_offset x) + span a p"
      using map_in_stripe [OF wf(1) a(2) p] by blast
    obtain y where y: "y \<in> set (ch_stripes b)" "mp_devid r2 = st_devid y"
      "unat (st_offset y) \<le> unat (mp_physical r2)" "unat (mp_physical r2) < unat (st_offset y) + span b q"
      using map_in_stripe [OF wf(2) b(2) q] by blast
    have "st_devid x = st_devid y" using x(2) y(2) same(1) by simp
    then have "unat (st_offset x) + span a p \<le> unat (st_offset y) \<or>
        unat (st_offset y) + span b q \<le> unat (st_offset x)"
      using ap x(1) y(1) by (auto simp: extents_apart_def)
    then show False using x y same by auto
  qed
  then show ?thesis
    using chunk_map_inj [OF wf(1) p _ a(2)] lay a(1) b(2) p same by (auto simp: layout_ok_def)
qed

text \<open>
  C10. No two logical bytes share a physical byte: on a map whose device extents do not overlap,
  equal device and physical address mean equal logical address and equal copy, whatever the
  profiles of the chunks.
\<close>

theorem map_mirror_injective:
  assumes inv: "cm_inv cs" and lay: "layout_ok cs"
    and ok: "map_mirror cs l1 m1 = Ok r1" "map_mirror cs l2 m2 = Ok r2"
    and same: "mp_devid r1 = mp_devid r2" "mp_physical r1 = mp_physical r2"
  shows "l1 = l2 \<and> m1 = m2"
  by (rule map_mirror_inj [OF assms])

theorem map_mirror_injective_witness:
  "map_mirror [demo_chunk BG_RAID10 4 2] 1048576 0 =
     Ok \<lparr>mp_devid = 1, mp_physical = 1048576, mp_len = 65536\<rparr> \<and>
   map_mirror [demo_chunk BG_RAID10 4 2] 1179648 0 =
     Ok \<lparr>mp_devid = 1, mp_physical = 1114112, mp_len = 65536\<rparr> \<and> (1048576 :: u64) \<noteq> 1114112"
proof -
  let ?cs = "[demo_chunk BG_RAID10 4 2]"
  have inv: "cm_inv ?cs" using demo_wf by (simp add: cm_inv_def)
  have lay: "layout_ok ?cs" using demo_profile demo_apart by (simp add: layout_ok_def)
  have "covers (demo_chunk BG_RAID10 4 2) 1048576" "covers (demo_chunk BG_RAID10 4 2) 1179648"
    by (simp_all add: covers_def demo_chunk_def clen_def)
  then have ok: "map_mirror ?cs 1048576 0 = Ok \<lparr>mp_devid = 1, mp_physical = 1048576, mp_len = 65536\<rparr>"
    "map_mirror ?cs 1179648 0 = Ok \<lparr>mp_devid = 1, mp_physical = 1114112, mp_len = 65536\<rparr>"
    by (simp_all add: map_mirror_Ok [OF inv] demo_maps)
  have "(1048576 :: u64) \<noteq> 1114112"
    using map_mirror_injective [OF inv lay ok] by auto
  with ok show ?thesis by blast
qed

end
