(* ===== verification/Btree.thy ===== *)
theory Btree
  imports ChunkMap
begin

text \<open>
  \<open>src/src/btree.rs\<close>, blocks: the header every tree block opens with, the key pointers of a
  node, the items of a leaf, and the checks a block passes before anything in it is used. The
  lemmas say what a parsed block guarantees, and that its entries are what its bytes say.
\<close>

section \<open>Sizes and offsets\<close>

abbreviation (input) HEADER_SIZE :: nat where
  "HEADER_SIZE \<equiv> 101"

abbreviation (input) LEAF_DATA_OFFSET :: nat where
  "LEAF_DATA_OFFSET \<equiv> 101"

abbreviation (input) KEY_PTR_SIZE :: nat where
  "KEY_PTR_SIZE \<equiv> 33"

abbreviation (input) ITEM_SIZE :: nat where
  "ITEM_SIZE \<equiv> 25"

abbreviation (input) H_CSUM :: nat where
  "H_CSUM \<equiv> 0x00"

abbreviation (input) H_FSID :: nat where
  "H_FSID \<equiv> 0x20"

abbreviation (input) H_BYTENR :: nat where
  "H_BYTENR \<equiv> 0x30"

abbreviation (input) H_FLAGS :: nat where
  "H_FLAGS \<equiv> 0x38"

abbreviation (input) H_CHUNK_TREE_UUID :: nat where
  "H_CHUNK_TREE_UUID \<equiv> 0x40"

abbreviation (input) H_GENERATION :: nat where
  "H_GENERATION \<equiv> 0x50"

abbreviation (input) H_OWNER :: nat where
  "H_OWNER \<equiv> 0x58"

abbreviation (input) H_NRITEMS :: nat where
  "H_NRITEMS \<equiv> 0x60"

abbreviation (input) H_LEVEL :: nat where
  "H_LEVEL \<equiv> 0x64"

abbreviation (input) HEADER_FLAG_WRITTEN :: u64 where
  "HEADER_FLAG_WRITTEN \<equiv> 1"

abbreviation (input) HEADER_FLAG_RELOC :: u64 where
  "HEADER_FLAG_RELOC \<equiv> 2"

abbreviation (input) BACKREF_REV_SHIFT :: nat where
  "BACKREF_REV_SHIFT \<equiv> 56"

definition BACKREF_REV_MASK :: u64 where
  "BACKREF_REV_MASK = push_bit BACKREF_REV_SHIFT 0xff"

section \<open>Headers, key pointers, items\<close>

definition bad_block :: "string \<Rightarrow> error" where
  "bad_block msg = BadSuperblock (''tree block: '' @ msg)"

record header =
  hd_csum :: bytes
  hd_fsid :: bytes
  hd_bytenr :: u64
  hd_flags :: u64
  hd_chunk_tree_uuid :: bytes
  hd_generation :: u64
  hd_owner :: u64
  hd_nritems :: u32
  hd_level :: u8

definition header_parse :: "bytes \<Rightarrow> header result" where
  "header_parse buf =
     (if length buf < HEADER_SIZE then Err (BadSuperblock ''tree block header needs 101 bytes'')
      else Ok \<lparr>hd_csum = slice H_CSUM CSUM_SIZE buf,
               hd_fsid = uuid_at buf H_FSID,
               hd_bytenr = le64 buf H_BYTENR,
               hd_flags = le64 buf H_FLAGS,
               hd_chunk_tree_uuid = uuid_at buf H_CHUNK_TREE_UUID,
               hd_generation = le64 buf H_GENERATION,
               hd_owner = le64 buf H_OWNER,
               hd_nritems = le32 buf H_NRITEMS,
               hd_level = buf ! H_LEVEL\<rparr>)"

definition header_is_leaf :: "header \<Rightarrow> bool" where
  "header_is_leaf h \<longleftrightarrow> hd_level h = 0"

definition backref_rev :: "header \<Rightarrow> u8" where
  "backref_rev h = ucast (drop_bit BACKREF_REV_SHIFT (hd_flags h AND BACKREF_REV_MASK))"

definition is_written :: "header \<Rightarrow> bool" where
  "is_written h \<longleftrightarrow> hd_flags h AND HEADER_FLAG_WRITTEN \<noteq> 0"

definition is_reloc :: "header \<Rightarrow> bool" where
  "is_reloc h \<longleftrightarrow> hd_flags h AND HEADER_FLAG_RELOC \<noteq> 0"

record key_ptr =
  kp_key :: disk_key
  kp_blockptr :: u64
  kp_generation :: u64

definition key_ptr_parse :: "bytes \<Rightarrow> key_ptr result" where
  "key_ptr_parse buf =
     (if length buf < KEY_PTR_SIZE then Err (BadSuperblock ''key pointer needs 33 bytes'')
      else try_in (disk_key_parse buf) (\<lambda>key.
        Ok \<lparr>kp_key = key, kp_blockptr = le64 buf DISK_KEY_SIZE,
            kp_generation = le64 buf (DISK_KEY_SIZE + 8)\<rparr>))"

record item =
  it_key :: disk_key
  it_offset :: u32
  it_size :: u32

definition item_parse :: "bytes \<Rightarrow> item result" where
  "item_parse buf =
     (if length buf < ITEM_SIZE then Err (BadSuperblock ''leaf item needs 25 bytes'')
      else try_in (disk_key_parse buf) (\<lambda>key.
        Ok \<lparr>it_key = key, it_offset = le32 buf DISK_KEY_SIZE, it_size = le32 buf (DISK_KEY_SIZE + 4)\<rparr>))"

definition data_end :: "item \<Rightarrow> nat" where
  "data_end i = unat (it_offset i) + unat (it_size i)"

datatype body = NodeBody "key_ptr list" | LeafBody "item list"

definition body_key_ptrs :: "body \<Rightarrow> key_ptr list option" where
  "body_key_ptrs b = (case b of NodeBody p \<Rightarrow> Some p | LeafBody _ \<Rightarrow> None)"

definition body_items :: "body \<Rightarrow> item list option" where
  "body_items b = (case b of LeafBody i \<Rightarrow> Some i | NodeBody _ \<Rightarrow> None)"

definition body_len :: "body \<Rightarrow> nat" where
  "body_len b = (case b of NodeBody p \<Rightarrow> length p | LeafBody i \<Rightarrow> length i)"

definition body_is_empty :: "body \<Rightarrow> bool" where
  "body_is_empty b \<longleftrightarrow> body_len b = 0"

record tree_geometry =
  tg_nodesize :: u32
  tg_csum_type :: checksum_type
  tg_fsid :: bytes

definition geometry_from_superblock :: "superblock \<Rightarrow> tree_geometry" where
  "geometry_from_superblock sb =
     \<lparr>tg_nodesize = sb_nodesize sb, tg_csum_type = sb_csum_type sb, tg_fsid = node_uuid sb\<rparr>"

record tree_block =
  tb_header :: header
  tb_body :: body
  tb_bytes :: bytes

section \<open>Parsing a block\<close>

text \<open>
  The two entry loops carry what the source's loops carry: the entries read so far, and for a
  leaf the byte the next item's data must end at. \<open>nritems\<close> comes from 32 bits and the entry
  sizes are below 64, so the source's \<open>checked_mul\<close> on \<open>usize\<close> has no failing case.
\<close>

definition follows :: "('a \<Rightarrow> disk_key) \<Rightarrow> 'a list \<Rightarrow> 'a \<Rightarrow> bool" where
  "follows key_of acc x \<longleftrightarrow>
     (if acc = [] then True else compare_keys (key_of (last acc)) (key_of x) = Less)"

fun leaf_items_loop :: "bytes \<Rightarrow> nat \<Rightarrow> nat \<Rightarrow> nat list \<Rightarrow> nat \<Rightarrow> item list \<Rightarrow> item list result" where
  "leaf_items_loop bytes leaf_data_size array_end [] expected_end items = Ok items"
| "leaf_items_loop bytes leaf_data_size array_end (i # idx) expected_end items =
     try_in (map_err (\<lambda>_. bad_block ''item is truncated'')
               (item_parse (drop (LEAF_DATA_OFFSET + i * ITEM_SIZE) bytes))) (\<lambda>item.
     if data_end item > leaf_data_size then Err (bad_block ''item data runs past the data area'')
     else if unat (it_offset item) < array_end then
       Err (bad_block ''item data starts inside the item array'')
     else if data_end item \<noteq> expected_end then Err (bad_block ''items are not contiguous'')
     else if \<not> follows it_key items item then Err (bad_block ''item key does not follow'')
     else leaf_items_loop bytes leaf_data_size array_end idx (unat (it_offset item)) (items @ [item]))"

definition parse_leaf_items :: "bytes \<Rightarrow> nat \<Rightarrow> nat \<Rightarrow> item list result" where
  "parse_leaf_items bytes nritems nodesize =
     (let array_end = nritems * ITEM_SIZE in
      if LEAF_DATA_OFFSET + array_end > nodesize then
        Err (bad_block ''the items need more bytes than the node has'')
      else
        let leaf_data_size = nodesize - LEAF_DATA_OFFSET in
        leaf_items_loop bytes leaf_data_size array_end [0..<nritems] leaf_data_size [])"

fun key_ptrs_loop :: "bytes \<Rightarrow> nat list \<Rightarrow> key_ptr list \<Rightarrow> key_ptr list result" where
  "key_ptrs_loop bytes [] ptrs = Ok ptrs"
| "key_ptrs_loop bytes (i # idx) ptrs =
     try_in (map_err (\<lambda>_. bad_block ''key pointer is truncated'')
               (key_ptr_parse (drop (HEADER_SIZE + i * KEY_PTR_SIZE) bytes))) (\<lambda>ptr.
     if kp_blockptr ptr = 0 then Err (bad_block ''child has a null blockptr'')
     else if \<not> follows kp_key ptrs ptr then Err (bad_block ''child key does not follow'')
     else key_ptrs_loop bytes idx (ptrs @ [ptr]))"

definition parse_key_ptrs :: "bytes \<Rightarrow> nat \<Rightarrow> nat \<Rightarrow> key_ptr list result" where
  "parse_key_ptrs bytes nritems nodesize =
     (if nritems = 0 then Err (bad_block ''internal node has no children'')
      else
        let array_end = nritems * KEY_PTR_SIZE in
        if HEADER_SIZE + array_end > nodesize then
          Err (bad_block ''the key pointers need more bytes than the node has'')
        else key_ptrs_loop bytes [0..<nritems] [])"

definition parse_accepting ::
  "hash_lib \<Rightarrow> bytes \<Rightarrow> u64 \<Rightarrow> tree_geometry \<Rightarrow> bytes list \<Rightarrow> tree_block result" where
  "parse_accepting H bytes logical geom seeds =
     (let nodesize = unat (tg_nodesize geom) in
      if length bytes \<noteq> nodesize then Err (bad_block ''wrong number of bytes for a node'')
      else
        try_in (header_parse bytes) (\<lambda>h.
        if \<not> checksum_verify H (tg_csum_type geom) (slice CSUM_SIZE (nodesize - CSUM_SIZE) bytes) (hd_csum h) then
          Err (ChecksumMismatch ''tree block'' logical)
        else if hd_bytenr h \<noteq> logical then
          Err (BlockIdentityMismatch ''tree block'' logical (hd_bytenr h))
        else if hd_fsid h \<noteq> tg_fsid geom \<and> hd_fsid h \<notin> set seeds then
          Err (bad_block ''fsid is not this volume's'')
        else if hd_level h \<ge> MAX_LEVEL then
          Err (bad_block ''level is at or above the maximum tree height'')
        else
          let nritems = unat (hd_nritems h) in
          try_in (if header_is_leaf h then map_sum id LeafBody (parse_leaf_items bytes nritems nodesize)
                  else map_sum id NodeBody (parse_key_ptrs bytes nritems nodesize)) (\<lambda>b.
          Ok \<lparr>tb_header = h, tb_body = b, tb_bytes = bytes\<rparr>)))"

definition tree_block_parse :: "hash_lib \<Rightarrow> bytes \<Rightarrow> u64 \<Rightarrow> tree_geometry \<Rightarrow> tree_block result" where
  "tree_block_parse H bytes logical geom = parse_accepting H bytes logical geom []"

definition block_is_leaf :: "tree_block \<Rightarrow> bool" where
  "block_is_leaf b = header_is_leaf (tb_header b)"

definition item_data :: "tree_block \<Rightarrow> item \<Rightarrow> bytes option" where
  "item_data b i =
     (let start = LEAF_DATA_OFFSET + unat (it_offset i); stop = start + unat (it_size i) in
      if stop \<le> length (tb_bytes b) then Some (slice start (unat (it_size i)) (tb_bytes b)) else None)"

definition node_slot :: "key_ptr list \<Rightarrow> disk_key \<Rightarrow> nat" where
  "node_slot ptrs key = partition_point (\<lambda>p. compare_keys (kp_key p) key \<noteq> Greater) ptrs - 1"

definition leaf_slot :: "item list \<Rightarrow> disk_key \<Rightarrow> nat" where
  "leaf_slot items key = partition_point (\<lambda>i. compare_keys (it_key i) key = Less) items"

section \<open>What a parsed block guarantees\<close>

abbreviation strictly_sorted :: "disk_key list \<Rightarrow> bool" where
  "strictly_sorted ks \<equiv> sorted_wrt (<) ks"

lemma follows_sorted:
  assumes "strictly_sorted (map key_of acc)" and "follows key_of acc x"
  shows "strictly_sorted (map key_of (acc @ [x]))"
proof (cases acc rule: rev_cases)
  case (snoc ys y)
  have "key_of y < key_of x"
    using assms(2) by (simp add: follows_def snoc compare_keys_simps)
  then show ?thesis
    using assms(1) by (auto simp: snoc sorted_wrt_append)
qed simp

text \<open>The data runs of a leaf's items, each ending where the one before it begins.\<close>

fun tiles :: "nat \<Rightarrow> item list \<Rightarrow> bool" where
  "tiles stop [] = True"
| "tiles stop (i # idx) = (data_end i = stop \<and> tiles (unat (it_offset i)) idx)"

lemma leaf_items_loop_Ok:
  assumes "leaf_items_loop bytes lds ae idx stop acc = Ok items"
    and "strictly_sorted (map it_key acc)"
  shows "\<exists>new. items = acc @ new \<and>
    list_all2 (\<lambda>i it. item_parse (drop (LEAF_DATA_OFFSET + i * ITEM_SIZE) bytes) = Ok it) idx new \<and>
    tiles stop new \<and> (\<forall>it \<in> set new. data_end it \<le> lds \<and> ae \<le> unat (it_offset it)) \<and>
    strictly_sorted (map it_key items)"
  using assms
proof (induction idx arbitrary: stop acc)
  case (Cons i idx)
  obtain it where it: "item_parse (drop (LEAF_DATA_OFFSET + i * ITEM_SIZE) bytes) = Ok it"
    "data_end it \<le> lds" "ae \<le> unat (it_offset it)" "data_end it = stop" "follows it_key acc it"
    "leaf_items_loop bytes lds ae idx (unat (it_offset it)) (acc @ [it]) = Ok items"
    using Cons.prems(1) by (auto simp: try_in_eq_Ok map_err_eq_Ok not_less split: if_splits)
  from Cons.IH [OF it(6) follows_sorted [OF Cons.prems(2) it(5)]]
  obtain new where "items = (acc @ [it]) @ new"
    "list_all2 (\<lambda>i it. item_parse (drop (LEAF_DATA_OFFSET + i * ITEM_SIZE) bytes) = Ok it) idx new"
    "tiles (unat (it_offset it)) new" "\<forall>it \<in> set new. data_end it \<le> lds \<and> ae \<le> unat (it_offset it)"
    "strictly_sorted (map it_key items)"
    by blast
  then show ?case
    using it by (intro exI [of _ "it # new"]) auto
qed simp

lemma key_ptrs_loop_Ok:
  assumes "key_ptrs_loop bytes idx acc = Ok ptrs" and "strictly_sorted (map kp_key acc)"
  shows "\<exists>new. ptrs = acc @ new \<and>
    list_all2 (\<lambda>i p. key_ptr_parse (drop (HEADER_SIZE + i * KEY_PTR_SIZE) bytes) = Ok p) idx new \<and>
    (\<forall>p \<in> set new. kp_blockptr p \<noteq> 0) \<and> strictly_sorted (map kp_key ptrs)"
  using assms
proof (induction idx arbitrary: acc)
  case (Cons i idx)
  obtain p where p: "key_ptr_parse (drop (HEADER_SIZE + i * KEY_PTR_SIZE) bytes) = Ok p"
    "kp_blockptr p \<noteq> 0" "follows kp_key acc p" "key_ptrs_loop bytes idx (acc @ [p]) = Ok ptrs"
    using Cons.prems(1) by (auto simp: try_in_eq_Ok map_err_eq_Ok split: if_splits)
  from Cons.IH [OF p(4) follows_sorted [OF Cons.prems(2) p(3)]]
  obtain new where "ptrs = (acc @ [p]) @ new"
    "list_all2 (\<lambda>i p. key_ptr_parse (drop (HEADER_SIZE + i * KEY_PTR_SIZE) bytes) = Ok p) idx new"
    "\<forall>p \<in> set new. kp_blockptr p \<noteq> 0" "strictly_sorted (map kp_key ptrs)"
    by blast
  then show ?case
    using p by (intro exI [of _ "p # new"]) auto
qed simp

lemma parse_leaf_items_Ok:
  assumes "parse_leaf_items bytes n ns = Ok items"
  shows "length items = n" "LEAF_DATA_OFFSET + n * ITEM_SIZE \<le> ns" "strictly_sorted (map it_key items)"
    "tiles (ns - LEAF_DATA_OFFSET) items"
    "\<And>it. it \<in> set items \<Longrightarrow> data_end it \<le> ns - LEAF_DATA_OFFSET \<and> n * ITEM_SIZE \<le> unat (it_offset it)"
    "\<And>i. i < n \<Longrightarrow> item_parse (drop (LEAF_DATA_OFFSET + i * ITEM_SIZE) bytes) = Ok (items ! i)"
proof -
  have le: "LEAF_DATA_OFFSET + n * ITEM_SIZE \<le> ns"
    and loop: "leaf_items_loop bytes (ns - LEAF_DATA_OFFSET) (n * ITEM_SIZE) [0..<n] (ns - LEAF_DATA_OFFSET) [] = Ok items"
    using assms by (auto simp: parse_leaf_items_def Let_def not_less split: if_splits)
  from leaf_items_loop_Ok [OF loop]
  have ex: "list_all2 (\<lambda>i it. item_parse (drop (LEAF_DATA_OFFSET + i * ITEM_SIZE) bytes) = Ok it) [0..<n] items"
    "tiles (ns - LEAF_DATA_OFFSET) items" "strictly_sorted (map it_key items)"
    "\<forall>it \<in> set items. data_end it \<le> ns - LEAF_DATA_OFFSET \<and> n * ITEM_SIZE \<le> unat (it_offset it)"
    by auto
  show "LEAF_DATA_OFFSET + n * ITEM_SIZE \<le> ns" by (rule le)
  show "length items = n" using list_all2_lengthD [OF ex(1)] by simp
  show "strictly_sorted (map it_key items)" "tiles (ns - LEAF_DATA_OFFSET) items"
    using ex by simp_all
  show "data_end it \<le> ns - LEAF_DATA_OFFSET \<and> n * ITEM_SIZE \<le> unat (it_offset it)" if "it \<in> set items" for it
    using ex(4) that by blast
  show "item_parse (drop (LEAF_DATA_OFFSET + i * ITEM_SIZE) bytes) = Ok (items ! i)" if "i < n" for i
    using list_all2_nthD [OF ex(1), of i] that by simp
qed

lemma parse_key_ptrs_Ok:
  assumes "parse_key_ptrs bytes n ns = Ok ptrs"
  shows "length ptrs = n" "0 < n" "HEADER_SIZE + n * KEY_PTR_SIZE \<le> ns" "strictly_sorted (map kp_key ptrs)"
    "\<And>p. p \<in> set ptrs \<Longrightarrow> kp_blockptr p \<noteq> 0"
    "\<And>i. i < n \<Longrightarrow> key_ptr_parse (drop (HEADER_SIZE + i * KEY_PTR_SIZE) bytes) = Ok (ptrs ! i)"
proof -
  have le: "HEADER_SIZE + n * KEY_PTR_SIZE \<le> ns" "0 < n"
    and loop: "key_ptrs_loop bytes [0..<n] [] = Ok ptrs"
    using assms by (auto simp: parse_key_ptrs_def Let_def not_less split: if_splits)
  from key_ptrs_loop_Ok [OF loop]
  have ex: "list_all2 (\<lambda>i p. key_ptr_parse (drop (HEADER_SIZE + i * KEY_PTR_SIZE) bytes) = Ok p) [0..<n] ptrs"
    "strictly_sorted (map kp_key ptrs)" "\<forall>p \<in> set ptrs. kp_blockptr p \<noteq> 0"
    by auto
  show "HEADER_SIZE + n * KEY_PTR_SIZE \<le> ns" "0 < n" by (rule le)+
  show "length ptrs = n" using list_all2_lengthD [OF ex(1)] by simp
  show "strictly_sorted (map kp_key ptrs)" by (rule ex(2))
  show "kp_blockptr p \<noteq> 0" if "p \<in> set ptrs" for p
    using ex(3) that by blast
  show "key_ptr_parse (drop (HEADER_SIZE + i * KEY_PTR_SIZE) bytes) = Ok (ptrs ! i)" if "i < n" for i
    using list_all2_nthD [OF ex(1), of i] that by simp
qed

lemma map_sum_id_Ok: "map_sum id f r = Ok y \<longleftrightarrow> (\<exists>x. r = Ok x \<and> y = f x)"
  by (cases r) auto

lemma parse_accepting_Ok:
  assumes "parse_accepting H bytes logical geom seeds = Ok b"
  shows "tb_bytes b = bytes" "length bytes = unat (tg_nodesize geom)"
    "header_parse bytes = Ok (tb_header b)"
    "checksum_verify H (tg_csum_type geom) (slice CSUM_SIZE (length bytes - CSUM_SIZE) bytes) (hd_csum (tb_header b))"
    "hd_bytenr (tb_header b) = logical" "hd_level (tb_header b) < MAX_LEVEL"
    "hd_fsid (tb_header b) = tg_fsid geom \<or> hd_fsid (tb_header b) \<in> set seeds"
    "\<And>is. tb_body b = LeafBody is \<Longrightarrow> hd_level (tb_header b) = 0 \<and>
       parse_leaf_items bytes (unat (hd_nritems (tb_header b))) (length bytes) = Ok is"
    "\<And>ps. tb_body b = NodeBody ps \<Longrightarrow> hd_level (tb_header b) \<noteq> 0 \<and>
       parse_key_ptrs bytes (unat (hd_nritems (tb_header b))) (length bytes) = Ok ps"
  using assms
  by (auto simp: parse_accepting_def Let_def try_in_eq_Ok header_is_leaf_def map_sum_id_Ok not_le split: if_splits)

text \<open>The bytes of the items in order.\<close>

definition item_bytes :: "bytes \<Rightarrow> item \<Rightarrow> bytes" where
  "item_bytes b i = slice (LEAF_DATA_OFFSET + unat (it_offset i)) (unat (it_size i)) b"

lemma slice_join: "slice a m xs @ slice (a + m) n xs = slice a (m + n) xs"
  unfolding slice_def by (metis add.commute drop_drop take_add)

lemma tiles_concat:
  assumes "tiles stop items" and "\<forall>it \<in> set items. low \<le> unat (it_offset it)" and "low \<le> stop"
  shows "\<exists>at. low \<le> at \<and> at \<le> stop \<and>
    concat (rev (map (item_bytes b) items)) = slice (LEAF_DATA_OFFSET + at) (stop - at) b"
  using assms
proof (induction items arbitrary: stop)
  case Nil
  then show ?case by (intro exI [of _ stop]) (simp add: slice_def)
next
  case (Cons it items)
  obtain at where at: "low \<le> at" "at \<le> unat (it_offset it)"
    "concat (rev (map (item_bytes b) items)) = slice (LEAF_DATA_OFFSET + at) (unat (it_offset it) - at) b"
    using Cons.IH [of "unat (it_offset it)"] Cons.prems by auto
  have e: "LEAF_DATA_OFFSET + unat (it_offset it) = LEAF_DATA_OFFSET + at + (unat (it_offset it) - at)"
    using at by simp
  have "concat (rev (map (item_bytes b) (it # items))) =
      slice (LEAF_DATA_OFFSET + at) (unat (it_offset it) - at + unat (it_size it)) b"
    by (simp only: list.map rev.simps concat_append concat.simps append_Nil2 at(3) item_bytes_def e slice_join)
  then show ?case
    using at Cons.prems by (intro exI [of _ at]) (auto simp: data_end_def)
qed

lemma item_data_Ok:
  assumes "parse_accepting H bytes logical geom seeds = Ok b" and "tb_body b = LeafBody items"
    and "it \<in> set items"
  shows "item_data b it = Some (item_bytes bytes it)" "length (item_bytes bytes it) = unat (it_size it)"
proof -
  note p = parse_accepting_Ok [OF assms(1)]
  note l = parse_leaf_items_Ok [OF conjunct2 [OF p(8) [OF assms(2)]]]
  have le: "LEAF_DATA_OFFSET + unat (it_offset it) + unat (it_size it) \<le> length bytes"
    using l(2) conjunct1 [OF l(5) [OF assms(3)]] unfolding data_end_def by linarith
  show "item_data b it = Some (item_bytes bytes it)"
    using le by (simp add: item_data_def item_bytes_def Let_def p(1))
  show "length (item_bytes bytes it) = unat (it_size it)"
    using le by (simp add: item_bytes_def)
qed

definition optmap :: "('a \<Rightarrow> 'b option) \<Rightarrow> 'a list \<Rightarrow> 'b list" where
  "optmap f xs = map the (map f xs)"

text \<open>
  C14. A block that parses is intact and belongs where it was found, and its entries can be used
  without further checks: the keys strictly ascend; every item's data is inside the block, clear of
  the item array; and the items' data, last item first, is exactly the tail of the block, no byte
  shared and none left over. A node has children, none of them at address zero.
\<close>

theorem tree_block_guarantees:
  assumes "parse_accepting H bytes logical geom seeds = Ok b"
  shows "hd_bytenr (tb_header b) = logical \<and> hd_level (tb_header b) < MAX_LEVEL \<and>
    checksum_verify H (tg_csum_type geom) (drop CSUM_SIZE bytes) (take CSUM_SIZE bytes) \<and>
    (case tb_body b of
       LeafBody items \<Rightarrow> hd_level (tb_header b) = 0 \<and>
         length items = unat (hd_nritems (tb_header b)) \<and> strictly_sorted (map it_key items) \<and>
         map (item_data b) items = map Some (optmap (item_data b) items) \<and>
         map length (optmap (item_data b) items) = map (\<lambda>i. unat (it_size i)) items \<and>
         (\<exists>at. LEAF_DATA_OFFSET + ITEM_SIZE * length items \<le> at \<and>
            drop at bytes = concat (rev (optmap (item_data b) items)))
     | NodeBody ptrs \<Rightarrow> hd_level (tb_header b) \<noteq> 0 \<and> ptrs \<noteq> [] \<and>
         length ptrs = unat (hd_nritems (tb_header b)) \<and> strictly_sorted (map kp_key ptrs) \<and>
         0 \<notin> set (map kp_blockptr ptrs))"
proof -
  note p = parse_accepting_Ok [OF assms]
  have h: "HEADER_SIZE \<le> length bytes" "hd_csum (tb_header b) = take CSUM_SIZE bytes"
    using p(3) by (auto simp: header_parse_def slice_def dest!: sym [of _ "tb_header b"] split: if_splits)
  have c: "checksum_verify H (tg_csum_type geom) (drop CSUM_SIZE bytes) (take CSUM_SIZE bytes)"
    using p(4) h by (simp add: slice_def)
  show ?thesis
  proof (cases "tb_body b")
    case (LeafBody items)
    note l = parse_leaf_items_Ok [OF conjunct2 [OF p(8) [OF LeafBody]]]
    note d = item_data_Ok [OF assms LeafBody]
    have om: "optmap (item_data b) items = map (item_bytes bytes) items"
      using d(1) by (simp add: optmap_def)
    have "\<exists>at. ITEM_SIZE * length items \<le> at \<and> at \<le> length bytes - LEAF_DATA_OFFSET \<and>
       concat (rev (map (item_bytes bytes) items)) =
       slice (LEAF_DATA_OFFSET + at) (length bytes - LEAF_DATA_OFFSET - at) bytes"
      using l by (intro tiles_concat) (auto simp: mult.commute)
    then obtain at where "ITEM_SIZE * length items \<le> at" "concat (rev (map (item_bytes bytes) items)) =
       slice (LEAF_DATA_OFFSET + at) (length bytes - LEAF_DATA_OFFSET - at) bytes"
      by blast
    then have "\<exists>at. LEAF_DATA_OFFSET + ITEM_SIZE * length items \<le> at \<and>
            drop at bytes = concat (rev (optmap (item_data b) items))"
      by (intro exI [of _ "LEAF_DATA_OFFSET + at"]) (simp add: om slice_def)
    then show ?thesis
      using p(5,6) p(8) [OF LeafBody] c l(1,3) d om by (simp add: LeafBody)
  next
    case (NodeBody ptrs)
    note n = parse_key_ptrs_Ok [OF conjunct2 [OF p(9) [OF NodeBody]]]
    have "0 \<notin> set (map kp_blockptr ptrs)" "ptrs \<noteq> []"
      using n(1,2,5) by (auto simp: image_iff)
    then show ?thesis
      using p(5,6) p(9) [OF NodeBody] c n(1,4) by (simp add: NodeBody)
  qed
qed

definition demo_leaf :: bytes where
  "demo_leaf =
     put_at 101 (key_bytes (DiskKey 1 2 3) @ u32_bytes 25 @ u32_bytes 2 @ [7, 8])
     (put_at H_NRITEMS (u32_bytes 1) (replicate 128 0))"

definition demo_geom :: tree_geometry where
  "demo_geom = \<lparr>tg_nodesize = 128, tg_csum_type = Crc32c, tg_fsid = replicate 16 0\<rparr>"

definition demo_item :: item where
  "demo_item = \<lparr>it_key = DiskKey 1 2 3, it_offset = 25, it_size = 2\<rparr>"

lemma length_demo_leaf [simp]: "length demo_leaf = 128"
  by (simp add: demo_leaf_def)

lemma demo_leaf_item: "item_parse (drop 101 demo_leaf) = Ok demo_item"
proof -
  have d: "drop 101 demo_leaf = key_bytes (DiskKey 1 2 3) @ u32_bytes 25 @ u32_bytes 2 @ [7, 8]"
    by (simp add: demo_leaf_def put_at_def)
  show ?thesis
    using le_append_same(2) [of "key_bytes (DiskKey 1 2 3)" 17 25 "u32_bytes 2 @ [7, 8]"]
      le_append_same(2) [of "key_bytes (DiskKey 1 2 3) @ u32_bytes 25" 21 2 "[7, 8]"]
    by (simp add: item_parse_def d disk_key_parse_bytes demo_item_def)
qed

lemma demo_leaf_parse:
  "\<exists>b. parse_accepting zero_hash demo_leaf 0 demo_geom [] = Ok b \<and> tb_body b = LeafBody [demo_item]"
proof -
  have h: "hd_csum h = replicate 32 0" "hd_fsid h = replicate 16 0" "hd_bytenr h = 0" "hd_level h = 0"
    "hd_nritems h = 1" if "header_parse demo_leaf = Ok h" for h
    using that by (auto simp: header_parse_def demo_leaf_def byte_simps uuid_at_def)
  obtain h where hp: "header_parse demo_leaf = Ok h"
    by (simp add: header_parse_def)
  have "parse_leaf_items demo_leaf 1 128 = Ok [demo_item]"
    using demo_leaf_item
    by (simp add: parse_leaf_items_def Let_def follows_def) (simp add: demo_item_def data_end_def)
  then show ?thesis
    using hp h [OF hp] zero_hash_verify
    by (simp add: parse_accepting_def Let_def demo_geom_def header_is_leaf_def)
qed

theorem tree_block_guarantees_witness:
  "\<exists>b. parse_accepting zero_hash demo_leaf 0 demo_geom [] = Ok b \<and>
     map length (optmap (item_data b) [demo_item]) = [2]"
proof -
  obtain b where b: "parse_accepting zero_hash demo_leaf 0 demo_geom [] = Ok b" "tb_body b = LeafBody [demo_item]"
    using demo_leaf_parse by blast
  then show ?thesis
    using tree_block_guarantees [OF b(1)] by (auto simp: demo_item_def)
qed

end
