(* ===== verification/TreeRead.thy ===== *)
theory TreeRead
  imports Btree "HOL-Library.AList"
begin

text \<open>
  \<open>src/src/btree.rs\<close>, reading: a block is read, verified and parsed with the volume's other
  copies and a cache behind it; and the node cache of \<open>src/src/fs.rs\<close>. A closure that fills a
  buffer is a function from the address and the buffer's length to the bytes; the cache's
  closures are functions that are given its state and return the next one. The lemmas say which
  copy is used, what the cache may hand back, and that a read through either is the same function.
\<close>

section \<open>The node cache\<close>

record node_cache =
  nc_capacity :: nat
  nc_blocks :: "(u64 \<times> tree_block \<times> u64) list"
  nc_tick :: u64

definition node_cache_new :: "nat \<Rightarrow> node_cache" where
  "node_cache_new capacity = \<lparr>nc_capacity = capacity, nc_blocks = [], nc_tick = 0\<rparr>"

definition node_cache_get :: "node_cache \<Rightarrow> u64 \<Rightarrow> tree_block option \<times> node_cache" where
  "node_cache_get nc logical =
     (let tick = nc_tick nc + 1 in
      (map_option fst (map_of (nc_blocks nc) logical),
       nc\<lparr>nc_tick := tick,
          nc_blocks := AList.map_entry logical (\<lambda>(block, _). (block, tick)) (nc_blocks nc)\<rparr>))"

fun least_used :: "(u64 \<times> tree_block \<times> u64) list \<Rightarrow> (u64 \<times> u64) option" where
  "least_used [] = None"
| "least_used ((k, _, used) # rest) =
     (case least_used rest of
        Some (k', used') \<Rightarrow> if used' < used then Some (k', used') else Some (k, used)
      | None \<Rightarrow> Some (k, used))"

definition node_cache_put :: "node_cache \<Rightarrow> u64 \<Rightarrow> tree_block \<Rightarrow> node_cache" where
  "node_cache_put nc logical block =
     (if nc_capacity nc = 0 then nc
      else
        let room = (if nc_capacity nc \<le> length (nc_blocks nc) \<and> logical \<notin> fst ` set (nc_blocks nc) then
                      (case least_used (nc_blocks nc) of
                         Some (victim, _) \<Rightarrow> AList.delete victim (nc_blocks nc)
                       | None \<Rightarrow> nc_blocks nc)
                    else nc_blocks nc);
            tick = nc_tick nc + 1
        in nc\<lparr>nc_blocks := AList.update logical (block, tick) room, nc_tick := tick\<rparr>)"

definition node_cache_clear :: "node_cache \<Rightarrow> node_cache" where
  "node_cache_clear nc = nc\<lparr>nc_blocks := []\<rparr>"

section \<open>Reading a block\<close>

record 'c tree =
  tr_hash :: hash_lib
  tr_geom :: tree_geometry
  tr_read :: "u64 \<Rightarrow> nat \<Rightarrow> bytes result"
  tr_redundancy :: "((u64 \<Rightarrow> nat result) \<times> (u64 \<Rightarrow> nat \<Rightarrow> nat \<Rightarrow> bytes result)) option"
  tr_cache :: "(('c \<Rightarrow> u64 \<Rightarrow> tree_block option \<times> 'c) \<times> ('c \<Rightarrow> u64 \<Rightarrow> tree_block \<Rightarrow> 'c)) option"
  tr_seeds :: "bytes list"

definition tree_new :: "hash_lib \<Rightarrow> tree_geometry \<Rightarrow> (u64 \<Rightarrow> nat \<Rightarrow> bytes result) \<Rightarrow> 'c tree" where
  "tree_new H geom rd =
     \<lparr>tr_hash = H, tr_geom = geom, tr_read = rd, tr_redundancy = None, tr_cache = None, tr_seeds = []\<rparr>"

definition with_redundancy ::
  "(u64 \<Rightarrow> nat result) \<Rightarrow> (u64 \<Rightarrow> nat \<Rightarrow> nat \<Rightarrow> bytes result) \<Rightarrow> 'c tree \<Rightarrow> 'c tree" where
  "with_redundancy mirrors rd T = T\<lparr>tr_redundancy := Some (mirrors, rd)\<rparr>"

definition with_seed_fsids :: "bytes list \<Rightarrow> 'c tree \<Rightarrow> 'c tree" where
  "with_seed_fsids seeds T = T\<lparr>tr_seeds := seeds\<rparr>"

definition with_cache ::
  "('c \<Rightarrow> u64 \<Rightarrow> tree_block option \<times> 'c) \<Rightarrow> ('c \<Rightarrow> u64 \<Rightarrow> tree_block \<Rightarrow> 'c) \<Rightarrow> 'c tree \<Rightarrow> 'c tree" where
  "with_cache cget cput T = T\<lparr>tr_cache := Some (cget, cput)\<rparr>"

definition tree_from_superblock :: "hash_lib \<Rightarrow> superblock \<Rightarrow> (u64 \<Rightarrow> nat \<Rightarrow> bytes result) \<Rightarrow> 'c tree" where
  "tree_from_superblock H sb rd = tree_new H (geometry_from_superblock sb) rd"

definition parse_generation :: "'c tree \<Rightarrow> u64 \<Rightarrow> u64 option \<Rightarrow> bytes \<Rightarrow> tree_block result" where
  "parse_generation T logical generation buf =
     try_in (parse_accepting (tr_hash T) buf logical (tr_geom T) (tr_seeds T)) (\<lambda>block.
     case generation of
       Some want \<Rightarrow>
         if hd_generation (tb_header block) \<noteq> want then Err (bad_block ''parent transid verify failed'')
         else Ok block
     | None \<Rightarrow> Ok block)"

definition node_bytes :: "'c tree \<Rightarrow> nat" where
  "node_bytes T = unat (tg_nodesize (tr_geom T))"

fun try_mirrors ::
  "'c tree \<Rightarrow> u64 \<Rightarrow> u64 option \<Rightarrow> (u64 \<Rightarrow> nat \<Rightarrow> nat \<Rightarrow> bytes result) \<Rightarrow> nat list \<Rightarrow> error \<Rightarrow> tree_block result" where
  "try_mirrors T logical generation rd [] first = Err first"
| "try_mirrors T logical generation rd (mirror # rest) first =
     (case rd logical mirror (node_bytes T) of
        Inl _ \<Rightarrow> try_mirrors T logical generation rd rest first
      | Inr buf \<Rightarrow>
          (case parse_generation T logical generation buf of
             Inr block \<Rightarrow> Ok block
           | Inl _ \<Rightarrow> try_mirrors T logical generation rd rest first))"

definition read_uncached :: "'c tree \<Rightarrow> u64 \<Rightarrow> u64 option \<Rightarrow> tree_block result" where
  "read_uncached T logical generation =
     (case try_in (tr_read T logical (node_bytes T)) (parse_generation T logical generation) of
        Inr block \<Rightarrow> Ok block
      | Inl first \<Rightarrow>
          (case tr_redundancy T of
             None \<Rightarrow> Err first
           | Some (mirrors, rd) \<Rightarrow>
               (case mirrors logical of
                  Inl _ \<Rightarrow> Err first
                | Inr nr \<Rightarrow> try_mirrors T logical generation rd [1..<nr] first)))"

definition cache_hit :: "u64 option \<Rightarrow> tree_block option \<Rightarrow> tree_block option" where
  "cache_hit generation found =
     (case found of
        Some block \<Rightarrow>
          (if (case generation of None \<Rightarrow> True | Some want \<Rightarrow> hd_generation (tb_header block) = want)
           then Some block else None)
      | None \<Rightarrow> None)"

definition read_verified :: "'c tree \<Rightarrow> u64 \<Rightarrow> u64 option \<Rightarrow> 'c \<Rightarrow> tree_block result \<times> 'c" where
  "read_verified T logical generation c =
     (case tr_cache T of
        None \<Rightarrow> (read_uncached T logical generation, c)
      | Some (cget, cput) \<Rightarrow>
          (let (found, c) = cget c logical in
           case cache_hit generation found of
             Some block \<Rightarrow> (Ok block, c)
           | None \<Rightarrow>
               (case read_uncached T logical generation of
                  Inl e \<Rightarrow> (Err e, c)
                | Inr block \<Rightarrow> (Ok block, cput c logical block))))"

definition read_block :: "'c tree \<Rightarrow> u64 \<Rightarrow> 'c \<Rightarrow> tree_block result \<times> 'c" where
  "read_block T logical = read_verified T logical None"

definition read_child :: "'c tree \<Rightarrow> u64 \<Rightarrow> u64 \<Rightarrow> 'c \<Rightarrow> tree_block result \<times> 'c" where
  "read_child T logical generation = read_verified T logical (Some generation)"

section \<open>Copies\<close>

text \<open>
  Copy \<open>m\<close> of a block as the driver reads it: copy 0 through the plain reader, the others through
  the mirror reader, and parsed.
\<close>

definition copy_at :: "'c tree \<Rightarrow> u64 \<Rightarrow> u64 option \<Rightarrow> nat \<Rightarrow> tree_block result" where
  "copy_at T l g m =
     (if m = 0 then try_in (tr_read T l (node_bytes T)) (parse_generation T l g)
      else case tr_redundancy T of
        None \<Rightarrow> Err (bad_block ''no other copy'')
      | Some (_, rd) \<Rightarrow> try_in (rd l m (node_bytes T)) (parse_generation T l g))"

definition copy_count :: "'c tree \<Rightarrow> u64 \<Rightarrow> nat" where
  "copy_count T l =
     (case tr_redundancy T of
        None \<Rightarrow> 1
      | Some (mirrors, _) \<Rightarrow> (case mirrors l of Inl _ \<Rightarrow> 1 | Inr k \<Rightarrow> max 1 k))"

lemma try_mirrors_find:
  assumes "tr_redundancy T = Some (mirrors, rd)" and "0 \<notin> set ms"
  shows "try_mirrors T l g rd ms first =
    (case find (\<lambda>m. is_ok (copy_at T l g m)) ms of None \<Rightarrow> Err first | Some m \<Rightarrow> copy_at T l g m)"
  using assms(2)
  by (induction ms) (auto simp: copy_at_def assms(1) try_in_def is_ok_def split: sum.splits)

text \<open>
  The copy that is used is the first that verifies, and when none does the error is copy 0's.
\<close>

lemma read_uncached_find:
  "read_uncached T l g =
     (case find (\<lambda>m. is_ok (copy_at T l g m)) [0..<copy_count T l] of
        Some m \<Rightarrow> copy_at T l g m
      | None \<Rightarrow> copy_at T l g 0)"
proof -
  have c0: "copy_at T l g 0 = try_in (tr_read T l (node_bytes T)) (parse_generation T l g)"
    by (simp add: copy_at_def)
  have pos: "0 < copy_count T l"
    by (auto simp: copy_count_def split: option.splits sum.splits)
  then have up: "[0..<copy_count T l] = 0 # [1..<copy_count T l]"
    by (simp add: upt_conv_Cons)
  show ?thesis
  proof (cases "copy_at T l g 0")
    case (Inr b)
    then show ?thesis
      by (simp add: up) (simp add: read_uncached_def flip: c0)
  next
    case (Inl e)
    have "read_uncached T l g =
        (case find (\<lambda>m. is_ok (copy_at T l g m)) [1..<copy_count T l] of
           None \<Rightarrow> Err e | Some m \<Rightarrow> copy_at T l g m)"
    proof (cases "tr_redundancy T")
      case None
      then show ?thesis
        using Inl by (simp add: read_uncached_def copy_count_def flip: c0)
    next
      case (Some x)
      obtain mirrors rd where x: "x = (mirrors, rd)" by fastforce
      have m: "[Suc 0..<max (Suc 0) k] = [Suc 0..<k]" for k :: nat
        by (cases "1 \<le> k") (simp_all add: max_def)
      show ?thesis
        using Inl Some x try_mirrors_find [of T mirrors rd]
        by (auto simp: read_uncached_def copy_count_def m simp flip: c0 split: sum.splits)
    qed
    then show ?thesis
      using Inl by (simp add: up split: option.split)
  qed
qed

lemma parse_generation_Ok:
  "parse_generation T l g buf = Ok b \<longleftrightarrow>
     parse_accepting (tr_hash T) buf l (tr_geom T) (tr_seeds T) = Ok b \<and>
     (g = None \<or> g = Some (hd_generation (tb_header b)))"
  by (cases g) (auto simp: parse_generation_def try_in_eq_Ok split: if_splits)

lemma copy_Ok:
  "copy_at T l g m = Ok b \<Longrightarrow> (g = None \<or> g = Some (hd_generation (tb_header b))) \<and>
     (\<exists>bytes. parse_accepting (tr_hash T) bytes l (tr_geom T) (tr_seeds T) = Ok b)"
  by (auto simp: copy_at_def try_in_eq_Ok parse_generation_Ok split: if_splits option.splits)

lemma copy_any_generation:
  "copy_at T l g m = Ok b \<longleftrightarrow> copy_at T l None m = Ok b \<and> (g = None \<or> g = Some (hd_generation (tb_header b)))"
  by (auto simp: copy_at_def try_in_eq_Ok parse_generation_Ok split: option.splits)

text \<open>
  C15. Redundancy: a read returns a block exactly when one of the volume's copies verifies at its
  address with the generation its parent recorded; it is the first such copy; and when none
  verifies, the error that is reported is copy 0's own.
\<close>

theorem read_uncached_mirrors:
  "(case read_uncached T l g of
      Inr b \<Rightarrow> \<exists>m. m < copy_count T l \<and> copy_at T l g m = Ok b \<and> \<not> (\<exists>k < m. is_ok (copy_at T l g k))
    | Inl e \<Rightarrow> copy_at T l g 0 = Err e \<and> \<not> (\<exists>m < copy_count T l. is_ok (copy_at T l g m)))"
proof (cases "find (\<lambda>m. is_ok (copy_at T l g m)) [0..<copy_count T l]")
  case None
  then have no: "\<not> (\<exists>m < copy_count T l. is_ok (copy_at T l g m))"
    by (auto simp: find_None_iff)
  moreover have "0 < copy_count T l"
    by (auto simp: copy_count_def split: option.splits sum.splits)
  ultimately show ?thesis
    using None by (auto simp: read_uncached_find is_ok_def split: sum.splits)
next
  case (Some m)
  then have m: "m < copy_count T l" "is_ok (copy_at T l g m)" "\<forall>k < m. \<not> is_ok (copy_at T l g k)"
    by (auto simp: find_Some_iff)
  then obtain b where "copy_at T l g m = Ok b" by (auto simp: is_ok_iff)
  with m Some show ?thesis by (auto simp: read_uncached_find)
qed

lemma copy_count_pos: "0 < copy_count T l"
  by (auto simp: copy_count_def split: option.splits sum.splits)

lemma read_uncached_copy:
  "read_uncached T l g = Ok b \<Longrightarrow> \<exists>m < copy_count T l. copy_at T l g m = Ok b"
  using copy_count_pos [of T l] by (auto simp: read_uncached_find find_Some_iff split: option.splits)

lemma read_uncached_None:
  "m < copy_count T l \<Longrightarrow> copy_at T l g m = Ok b \<Longrightarrow> \<exists>b'. read_uncached T l g = Ok b'"
  by (auto simp: read_uncached_find find_Some_iff find_None_iff is_ok_iff split: option.splits)

section \<open>Caches\<close>

text \<open>What the driver needs of a cache: it hands back only what was put in it.\<close>

locale block_cache =
  fixes cget :: "'c \<Rightarrow> u64 \<Rightarrow> tree_block option \<times> 'c"
    and cput :: "'c \<Rightarrow> u64 \<Rightarrow> tree_block \<Rightarrow> 'c"
    and held :: "'c \<Rightarrow> u64 \<Rightarrow> tree_block option"
    and cinv :: "'c \<Rightarrow> bool"
  assumes get_found: "cinv c \<Longrightarrow> fst (cget c l) = held c l"
    and get_keeps: "cinv c \<Longrightarrow> cinv (snd (cget c l)) \<and> held (snd (cget c l)) = held c"
    and put_keeps: "cinv c \<Longrightarrow> cinv (cput c l b)"
    and put_only: "cinv c \<Longrightarrow> held (cput c l b) k = Some x \<Longrightarrow> k = l \<and> x = b \<or> held c k = Some x"
begin

definition coherent :: "'c tree \<Rightarrow> 'c \<Rightarrow> bool" where
  "coherent T c \<longleftrightarrow> cinv c \<and>
     (\<forall>l b. held c l = Some b \<longrightarrow> (\<exists>m < copy_count T l. copy_at T l None m = Ok b))"

lemma coherent_get: "coherent T c \<Longrightarrow> coherent T (snd (cget c l))"
  using get_keeps by (simp add: coherent_def)

lemma coherent_put:
  assumes "coherent T c" and "read_uncached T l g = Ok b"
  shows "coherent T (cput c l b)"
  using assms read_uncached_copy [OF assms(2)] put_keeps put_only copy_any_generation [of T l g _ b]
  unfolding coherent_def by metis

lemma hit_copy:
  assumes "coherent T c" and "cache_hit g (held c l) = Some b"
  shows "\<exists>m < copy_count T l. copy_at T l g m = Ok b"
proof -
  have h: "held c l = Some b" and gen: "g = None \<or> g = Some (hd_generation (tb_header b))"
    using assms(2) by (auto simp: cache_hit_def split: option.splits if_splits)
  then obtain m where "m < copy_count T l" "copy_at T l None m = Ok b"
    using assms(1) by (auto simp: coherent_def)
  with gen show ?thesis
    using copy_any_generation [of T l g m b] by blast
qed

lemma read_verified_copy:
  assumes "tr_cache T = Some (cget, cput)" and "coherent T c" and "read_verified T l g c = (r, c')"
  shows "coherent T c' \<and> (r = read_uncached T l g \<or> (\<exists>b m. r = Ok b \<and> m < copy_count T l \<and> copy_at T l g m = Ok b))"
proof -
  obtain c1 where g: "cget c l = (held c l, c1)" "coherent T c1"
    using get_found [of c l] coherent_get [OF assms(2), of l] assms(2)
    by (cases "cget c l") (auto simp: coherent_def)
  show ?thesis
    using assms(1,3) g hit_copy [OF assms(2), of g l] coherent_put [OF g(2), of l g]
    by (auto simp: read_verified_def split: option.splits sum.splits)
qed

end

text \<open>The node cache is one: it never grows past its capacity, and it holds what was put.\<close>

definition nc_held :: "node_cache \<Rightarrow> u64 \<Rightarrow> tree_block option" where
  "nc_held nc l = map_option fst (map_of (nc_blocks nc) l)"

definition nc_inv :: "node_cache \<Rightarrow> bool" where
  "nc_inv nc \<longleftrightarrow> distinct (map fst (nc_blocks nc)) \<and> length (nc_blocks nc) \<le> nc_capacity nc"

lemma nc_get_held: "nc_held (snd (node_cache_get nc l)) = nc_held nc"
  by (rule ext) (auto simp: nc_held_def node_cache_get_def Let_def map_of_map_entry split: option.split)

lemma map_fst_map_entry: "map fst (AList.map_entry k f xs) = map fst xs"
  by (induction xs) auto

lemma nc_get_inv: "nc_inv nc \<Longrightarrow> nc_inv (snd (node_cache_get nc l))"
  using map_fst_map_entry [of l "\<lambda>(b, _). (b, nc_tick nc + 1)" "nc_blocks nc"]
  by (simp add: nc_inv_def node_cache_get_def Let_def) (metis length_map)

lemma delete_map_of: "map_of (AList.delete k xs) j = (if j = k then None else map_of xs j)"
  by (simp add: AList.delete_conv')

lemma length_update:
  "length (AList.update k v xs) = (if k \<in> fst ` set xs then length xs else Suc (length xs))"
  by (induction xs) auto

lemma least_used_None: "least_used xs = None \<longleftrightarrow> xs = []"
  by (cases xs rule: least_used.cases) (auto split: option.splits)

lemma least_used_Some:
  "least_used xs = Some (k, u) \<Longrightarrow> \<exists>b. (k, b, u) \<in> set xs \<and> (\<forall>j c w. (j, c, w) \<in> set xs \<longrightarrow> u \<le> w)"
proof (induction xs arbitrary: k u rule: least_used.induct)
  case (2 k0 b0 u0 rest)
  show ?case
  proof (cases "least_used rest")
    case None
    then show ?thesis
      using 2(2) by (auto simp: least_used_None)
  next
    case (Some y)
    obtain k' u' where y: "y = (k', u')" by fastforce
    obtain b where b: "(k', b, u') \<in> set rest" "\<forall>j c w. (j, c, w) \<in> set rest \<longrightarrow> u' \<le> w"
      using 2(1) Some y by blast
    show ?thesis
    proof (cases "u' < u0")
      case True
      then have "k = k'" "u = u'" using 2(2) Some y by auto
      then show ?thesis using b True by (intro exI [of _ b]) auto
    next
      case False
      then have "k = k0" "u = u0" using 2(2) Some y by auto
      then show ?thesis using b False by (intro exI [of _ b0]) (auto intro: order_trans [OF _ b(2) [rule_format]])
    qed
  qed
qed simp

lemma length_delete_in: "k \<in> fst ` set xs \<Longrightarrow> length (AList.delete k xs) < length xs"
  by (induction xs) (auto simp: AList.delete_eq intro: le_imp_less_Suc)

text \<open>The entries \<open>put\<close> leaves room for: all of them, or all but the least recently used.\<close>

definition nc_room :: "node_cache \<Rightarrow> u64 \<Rightarrow> (u64 \<times> tree_block \<times> u64) list" where
  "nc_room nc l =
     (if nc_capacity nc \<le> length (nc_blocks nc) \<and> l \<notin> fst ` set (nc_blocks nc) then
        (case least_used (nc_blocks nc) of
           Some (victim, _) \<Rightarrow> AList.delete victim (nc_blocks nc)
         | None \<Rightarrow> nc_blocks nc)
      else nc_blocks nc)"

lemma node_cache_put_room:
  "nc_capacity nc \<noteq> 0 \<Longrightarrow> node_cache_put nc l b =
     nc\<lparr>nc_blocks := AList.update l (b, nc_tick nc + 1) (nc_room nc l), nc_tick := nc_tick nc + 1\<rparr>"
  by (simp add: node_cache_put_def nc_room_def Let_def)

lemma nc_room_held: "map_of (nc_room nc l) k = Some x \<Longrightarrow> map_of (nc_blocks nc) k = Some x"
  by (auto simp: nc_room_def delete_map_of split: if_splits option.splits)

lemma nc_put_only:
  "nc_held (node_cache_put nc l b) k = Some x \<Longrightarrow> k = l \<and> x = b \<or> nc_held nc k = Some x"
proof (cases "nc_capacity nc = 0")
  case False
  then show "nc_held (node_cache_put nc l b) k = Some x \<Longrightarrow> ?thesis"
    by (auto simp: nc_held_def node_cache_put_room AList.update_conv' dest: nc_room_held split: if_splits)
qed (simp add: node_cache_put_def)

lemma nc_room_fits:
  assumes "nc_inv nc" and "nc_capacity nc \<noteq> 0"
  shows "l \<notin> fst ` set (nc_room nc l) \<longrightarrow> length (nc_room nc l) < nc_capacity nc"
    and "length (nc_room nc l) \<le> nc_capacity nc" and "distinct (map fst (nc_room nc l))"
proof -
  have ne: "nc_capacity nc \<le> length (nc_blocks nc) \<Longrightarrow> nc_blocks nc \<noteq> []"
    using assms(2) by auto
  show "l \<notin> fst ` set (nc_room nc l) \<longrightarrow> length (nc_room nc l) < nc_capacity nc"
  proof (cases "nc_capacity nc \<le> length (nc_blocks nc) \<and> l \<notin> fst ` set (nc_blocks nc)")
    case True
    then obtain v u where v: "least_used (nc_blocks nc) = Some (v, u)"
      using ne least_used_None [of "nc_blocks nc"] by fastforce
    then have "v \<in> fst ` set (nc_blocks nc)"
      using least_used_Some by force
    then have "length (AList.delete v (nc_blocks nc)) < length (nc_blocks nc)"
      by (rule length_delete_in)
    then show ?thesis
      using True v assms(1) by (simp add: nc_room_def nc_inv_def)
  next
    case False
    then show ?thesis by (auto simp: nc_room_def)
  qed
  have "length (nc_room nc l) \<le> length (nc_blocks nc)"
    using AList.length_delete_le by (auto simp: nc_room_def split: option.split)
  then show "length (nc_room nc l) \<le> nc_capacity nc"
    using assms(1) by (simp add: nc_inv_def)
  show "distinct (map fst (nc_room nc l))"
    using assms(1) by (auto simp: nc_room_def nc_inv_def AList.distinct_delete split: option.split)
qed

lemma nc_put_inv: "nc_inv nc \<Longrightarrow> nc_inv (node_cache_put nc l b)"
proof (cases "nc_capacity nc = 0")
  case False
  assume inv: "nc_inv nc"
  show ?thesis
    using nc_room_fits [OF inv False, of l] AList.distinct_update
    by (auto simp: nc_inv_def node_cache_put_room [OF False] length_update)
qed (simp add: node_cache_put_def)

interpretation nc: block_cache node_cache_get node_cache_put nc_held nc_inv
proof unfold_locales
  show "fst (node_cache_get c l) = nc_held c l" for c l
    by (simp add: node_cache_get_def nc_held_def Let_def)
  show "nc_inv c \<Longrightarrow> nc_inv (snd (node_cache_get c l)) \<and> nc_held (snd (node_cache_get c l)) = nc_held c" for c l
    by (simp add: nc_get_inv nc_get_held)
  show "nc_inv c \<Longrightarrow> nc_inv (node_cache_put c l b)" for c l b
    by (rule nc_put_inv)
  show "nc_held (node_cache_put c l b) k = Some x \<Longrightarrow> k = l \<and> x = b \<or> nc_held c k = Some x" for c l b k x
    by (rule nc_put_only)
qed

text \<open>
  The contract of a least-recently-used cache, over the blocks in the order of their use, the most
  recent first: a lookup that finds a block moves it to the front, and a block that is put goes to the
  front and pushes out what is past the capacity. \<open>lru_order\<close> says that the blocks of a cache, in the
  order of their recorded uses, are such a list.
\<close>

definition lru_touch :: "u64 \<Rightarrow> (u64 \<times> tree_block) list \<Rightarrow> (u64 \<times> tree_block) list" where
  "lru_touch l xs = (case map_of xs l of None \<Rightarrow> xs | Some b \<Rightarrow> (l, b) # filter (\<lambda>x. fst x \<noteq> l) xs)"

definition lru_put :: "nat \<Rightarrow> u64 \<Rightarrow> tree_block \<Rightarrow> (u64 \<times> tree_block) list \<Rightarrow> (u64 \<times> tree_block) list" where
  "lru_put n l b xs = take n ((l, b) # filter (\<lambda>x. fst x \<noteq> l) xs)"

definition nc_used :: "node_cache \<Rightarrow> u64 \<Rightarrow> nat" where
  "nc_used nc l = (case map_of (nc_blocks nc) l of Some (_, u) \<Rightarrow> unat u | None \<Rightarrow> 0)"

definition lru_order :: "node_cache \<Rightarrow> (u64 \<times> tree_block) list \<Rightarrow> bool" where
  "lru_order nc xs \<longleftrightarrow> nc_inv nc \<and> distinct (map fst xs) \<and> (\<forall>l. map_of xs l = nc_held nc l) \<and>
     sorted_wrt (\<lambda>x y. nc_used nc (fst y) < nc_used nc (fst x)) xs \<and>
     (\<forall>x \<in> set xs. nc_used nc (fst x) \<le> unat (nc_tick nc))"

lemma lru_order_new: "lru_order (node_cache_new n) []"
  by (simp add: lru_order_def nc_inv_def node_cache_new_def nc_held_def)

lemma lru_length:
  assumes "lru_order nc xs"
  shows "length xs = length (nc_blocks nc)" and "length xs \<le> nc_capacity nc"
proof -
  have d: "distinct (map fst xs)" "distinct (map fst (nc_blocks nc))" and h: "\<And>l. map_of xs l = nc_held nc l"
    using assms by (auto simp: lru_order_def nc_inv_def)
  have "l \<in> fst ` set xs \<longleftrightarrow> l \<in> fst ` set (nc_blocks nc)" for l
  proof -
    have "map_of xs l = None \<longleftrightarrow> map_of (nc_blocks nc) l = None" by (simp add: h nc_held_def)
    then show ?thesis unfolding map_of_eq_None_iff by blast
  qed
  then have "set (map fst xs) = set (map fst (nc_blocks nc))" by auto
  then show l: "length xs = length (nc_blocks nc)"
    using distinct_card [OF d(1)] distinct_card [OF d(2)] by simp
  then show "length xs \<le> nc_capacity nc" using assms by (simp add: lru_order_def nc_inv_def)
qed

text \<open>What a use at the next tick does to the order: the block used comes first, the others keep theirs.\<close>

lemma lru_order_front:
  assumes inv: "nc_inv nc'" and ord: "lru_order nc xs" and tick: "unat (nc_tick nc) < unat (nc_tick nc')"
    and sub: "set ys \<subseteq> set xs" "sorted_wrt (\<lambda>x y. nc_used nc (fst y) < nc_used nc (fst x)) ys" "distinct (map fst ys)"
    and l: "l \<notin> fst ` set ys" "nc_used nc' l = unat (nc_tick nc')"
    and held: "\<And>k. map_of ((l, b) # ys) k = nc_held nc' k"
    and used: "\<And>x. x \<in> set ys \<Longrightarrow> nc_used nc' (fst x) = nc_used nc (fst x)"
  shows "lru_order nc' ((l, b) # ys)"
proof -
  have le: "nc_used nc' (fst x) \<le> unat (nc_tick nc)" if "x \<in> set ys" for x
    using ord sub(1) that used [OF that] by (auto simp: lru_order_def)
  have "sorted_wrt (\<lambda>x y. nc_used nc' (fst y) < nc_used nc' (fst x)) ys"
    using sub(2) used by (auto simp: sorted_wrt_iff_nth_less)
  then show ?thesis
    using inv sub(3) l held le tick by (fastforce simp: lru_order_def)
qed

lemma map_of_filter_key: "map_of (filter (\<lambda>x. fst x \<noteq> l) xs) k = (if k = l then None else map_of xs k)"
  by (induction xs) auto

lemma lru_get:
  assumes ord: "lru_order nc xs" and tick: "unat (nc_tick nc) < 2 ^ 64 - 1"
  shows "fst (node_cache_get nc l) = map_of xs l" and "lru_order (snd (node_cache_get nc l)) (lru_touch l xs)"
proof -
  let ?nc = "snd (node_cache_get nc l)"
  have inv: "nc_inv nc" and d: "distinct (map fst xs)" and h: "\<And>k. map_of xs k = nc_held nc k"
    using ord by (auto simp: lru_order_def)
  show "fst (node_cache_get nc l) = map_of xs l" using nc.get_found [OF inv] h by simp
  have t: "unat (nc_tick ?nc) = unat (nc_tick nc) + 1"
    using tick by (simp add: node_cache_get_def Let_def unat_add_small)
  have used: "nc_used ?nc k = (if k = l \<and> nc_held nc l \<noteq> None then unat (nc_tick ?nc) else nc_used nc k)" for k
    by (auto simp: nc_used_def nc_held_def node_cache_get_def Let_def map_of_map_entry split: option.split)
  show "lru_order ?nc (lru_touch l xs)"
  proof (cases "map_of xs l")
    case None
    then have "nc_held nc l = None" using h by simp
    then have "nc_used ?nc k = nc_used nc k" for k using used by simp
    then show ?thesis
      using ord nc_get_inv [OF inv] None t by (auto simp: lru_touch_def lru_order_def nc_get_held)
  next
    case (Some b)
    have "lru_order ?nc ((l, b) # filter (\<lambda>x. fst x \<noteq> l) xs)"
    proof (rule lru_order_front [OF nc_get_inv [OF inv] ord])
      show "map_of ((l, b) # filter (\<lambda>x. fst x \<noteq> l) xs) k = nc_held ?nc k" for k
        using Some h [of k] h [of l] by (auto simp: nc_get_held map_of_filter_key)
      show "sorted_wrt (\<lambda>x y. nc_used nc (fst y) < nc_used nc (fst x)) (filter (\<lambda>x. fst x \<noteq> l) xs)"
        using ord by (simp add: lru_order_def sorted_wrt_filter)
      show "distinct (map fst (filter (\<lambda>x. fst x \<noteq> l) xs))" using d by (simp add: distinct_map_filter)
      show "nc_used ?nc l = unat (nc_tick ?nc)" using used [of l] Some h [of l] by simp
      show "nc_used ?nc (fst x) = nc_used nc (fst x)" if "x \<in> set (filter (\<lambda>x. fst x \<noteq> l) xs)" for x
        using that used by simp
    qed (use t in auto)
    then show ?thesis using Some by (simp add: lru_touch_def)
  qed
qed

lemma least_used_last:
  assumes ord: "lru_order nc xs" and v: "least_used (nc_blocks nc) = Some (v, u)"
  shows "xs \<noteq> [] \<and> v = fst (last xs)"
proof -
  have d: "distinct (map fst (nc_blocks nc))" and h: "\<And>k. map_of xs k = nc_held nc k"
    and sort: "sorted_wrt (\<lambda>x y. nc_used nc (fst y) < nc_used nc (fst x)) xs"
    using ord by (auto simp: lru_order_def nc_inv_def)
  obtain b where b: "(v, b, u) \<in> set (nc_blocks nc)" and least: "\<And>j c w. (j, c, w) \<in> set (nc_blocks nc) \<Longrightarrow> u \<le> w"
    using least_used_Some [OF v] by blast
  have vu: "nc_used nc v = unat u" "nc_held nc v = Some b" using b d by (simp_all add: nc_used_def nc_held_def)
  then have in_xs: "(v, b) \<in> set xs" using h [of v] by (simp add: map_of_SomeD)
  then have ne: "xs \<noteq> []" by auto
  have "\<not> nc_used nc (fst (last xs)) < nc_used nc v"
  proof -
    have "fst (last xs) \<in> fst ` set xs" using ne by simp
    then obtain c where "nc_held nc (fst (last xs)) = Some c" using h by (metis map_of_eq_None_iff not_None_eq)
    then obtain w where w: "map_of (nc_blocks nc) (fst (last xs)) = Some (c, w)" by (auto simp: nc_held_def)
    then have "u \<le> w" using least [of "fst (last xs)" c w] by (simp add: map_of_SomeD)
    then show ?thesis using w vu by (simp add: nc_used_def word_le_nat_alt)
  qed
  moreover have "nc_used nc (fst (last xs)) < nc_used nc (fst x)" if "x \<in> set (butlast xs)" for x
    using sort ne that sorted_wrt_append [of _ "butlast xs" "[last xs]"] by simp
  ultimately have "(v, b) \<notin> set (butlast xs)" by force
  then have "(v, b) = last xs" using in_xs ne by (metis in_set_butlastD append_butlast_last_id set_ConsD Un_iff set_append empty_iff list.set(1))
  with ne show ?thesis by (metis fst_conv)
qed

lemma map_of_butlast: "distinct (map fst xs) \<Longrightarrow> xs \<noteq> [] \<Longrightarrow> map_of (butlast xs) k = (if k = fst (last xs) then None else map_of xs k)"
proof (induction xs rule: rev_induct)
  case (snoc x xs)
  then show ?case by (auto simp: map_add_def map_of_eq_None_iff [symmetric] split: option.split)
qed simp

lemma lru_put_refines:
  assumes ord: "lru_order nc xs" and tick: "unat (nc_tick nc) < 2 ^ 64 - 1" and c: "nc_capacity nc \<noteq> 0"
  shows "lru_order (node_cache_put nc l b) (lru_put (nc_capacity nc) l b xs)"
proof -
  let ?nc = "node_cache_put nc l b" and ?f = "filter (\<lambda>x. fst x \<noteq> l) xs"
  define ys where "ys = take (nc_capacity nc - 1) ?f"
  have inv: "nc_inv nc" and d: "distinct (map fst xs)" and h: "\<And>k. map_of xs k = nc_held nc k"
    and sort: "sorted_wrt (\<lambda>x y. nc_used nc (fst y) < nc_used nc (fst x)) xs"
    using ord by (auto simp: lru_order_def)
  note len = lru_length [OF ord]
  have room: "map_of ys k = (if k = l then None else map_option fst (map_of (nc_room nc l) k))" for k
  proof (cases "nc_capacity nc \<le> length (nc_blocks nc) \<and> l \<notin> fst ` set (nc_blocks nc)")
    case True
    have lx: "map_of xs l = None" using True h [of l] by (simp add: nc_held_def map_of_eq_None_iff)
    then have f: "?f = xs" by (auto simp: filter_id_conv map_of_eq_None_iff)
    have n: "length xs = nc_capacity nc" using True len by simp
    obtain v u where v: "least_used (nc_blocks nc) = Some (v, u)"
      using True c least_used_None [of "nc_blocks nc"] by (cases "least_used (nc_blocks nc)") auto
    note last = least_used_last [OF ord v]
    have "ys = butlast xs" unfolding ys_def f by (simp add: butlast_conv_take n)
    then have "map_of ys k = (if k = v then None else map_of xs k)" using map_of_butlast [OF d] last by simp
    then show ?thesis
      using True v h [of k] lx by (auto simp: nc_room_def delete_map_of nc_held_def)
  next
    case False
    have "length ?f < nc_capacity nc"
    proof (cases "l \<in> fst ` set xs")
      case True
      then have "length ?f < length xs" by (auto intro!: length_filter_less)
      then show ?thesis using len(2) by simp
    next
      case no: False
      then have "l \<notin> fst ` set (nc_blocks nc)" using h [of l] by (simp add: nc_held_def flip: map_of_eq_None_iff)
      then show ?thesis using False len length_filter_le [of "\<lambda>x. fst x \<noteq> l" xs] by simp
    qed
    then have "ys = ?f" by (simp add: ys_def)
    then show ?thesis using False h [of k] by (auto simp: nc_room_def map_of_filter_key nc_held_def)
  qed
  have t: "nc_tick ?nc = nc_tick nc + 1" "unat (nc_tick ?nc) = unat (nc_tick nc) + 1"
    using tick c by (simp_all add: node_cache_put_room unat_add_small)
  have sub: "set ys \<subseteq> set xs" using set_take_subset [of _ ?f] by (fastforce simp: ys_def)
  have "lru_order ?nc ((l, b) # ys)"
  proof (rule lru_order_front [OF nc_put_inv [OF inv] ord])
    show "sorted_wrt (\<lambda>x y. nc_used nc (fst y) < nc_used nc (fst x)) ys"
      unfolding ys_def by (intro sorted_wrt_take sorted_wrt_filter sort)
    show "distinct (map fst ys)" unfolding ys_def using d by (simp add: take_map [symmetric] distinct_map_filter)
    show "l \<notin> fst ` set ys" using set_take_subset [of _ ?f] by (fastforce simp: ys_def)
    show "nc_used ?nc l = unat (nc_tick ?nc)" using t c by (simp add: nc_used_def node_cache_put_room AList.update_conv')
    show "map_of ((l, b) # ys) k = nc_held ?nc k" for k
      using room [of k] c by (simp add: nc_held_def node_cache_put_room AList.update_conv')
    show "nc_used ?nc (fst x) = nc_used nc (fst x)" if x: "x \<in> set ys" for x
    proof -
      have "map_of ys (fst x) \<noteq> None" using x by (auto simp: map_of_eq_None_iff)
      then have "fst x \<noteq> l \<and> map_of (nc_room nc l) (fst x) \<noteq> None" using room [of "fst x"] by (auto split: if_splits)
      then show ?thesis
        using nc_room_held [of nc l "fst x"] c
        by (auto simp: nc_used_def node_cache_put_room AList.update_conv' split: option.split)
    qed
  qed (use t sub in auto)
  moreover have "lru_put (nc_capacity nc) l b xs = (l, b) # ys"
    using c by (cases "nc_capacity nc") (simp_all add: lru_put_def ys_def)
  ultimately show ?thesis by simp
qed

text \<open>
  C16. The node cache is a least-recently-used cache of its capacity. With its blocks listed by their last
  use, the most recent first, a lookup answers from the list and moves the block it finds to the front;
  putting a block makes it the first, drops an older entry of its address, and evicts from the end what
  exceeds the capacity. A fresh cache is the empty list. The uses are counted in 64 bits, and the
  statement is for a count that has not run out.
\<close>

theorem node_cache_lru:
  assumes "lru_order nc xs" and "unat (nc_tick nc) < 2 ^ 64 - 1" and "0 < nc_capacity nc"
  shows "length xs \<le> nc_capacity nc \<and>
    fst (node_cache_get nc l) = map_of xs l \<and> lru_order (snd (node_cache_get nc l)) (lru_touch l xs) \<and>
    lru_order (node_cache_put nc l b) (lru_put (nc_capacity nc) l b xs)"
  using lru_length(2) [OF assms(1)] lru_get [OF assms(1,2)] lru_put_refines [OF assms(1,2)] assms(3) by simp

section \<open>Reads that verify\<close>

text \<open>
  The interface the descent and the walk rely on: a reader whose cache state keeps an invariant
  and whose answers are those of one function \<open>blk\<close> of the address and the expected generation,
  every answer a block that parsed.
\<close>

locale verified_reads =
  fixes T :: "'c tree"
    and coh :: "'c \<Rightarrow> bool"
    and blk :: "u64 \<Rightarrow> u64 option \<Rightarrow> tree_block result"
  assumes reads: "coh c \<Longrightarrow> fst (read_verified T l g c) = blk l g \<and> coh (snd (read_verified T l g c))"
    and parsed: "blk l g = Ok b \<Longrightarrow>
      \<exists>bytes. parse_accepting (tr_hash T) bytes l (tr_geom T) (tr_seeds T) = Ok b"
begin

lemma reads_to:
  assumes "coh c"
  obtains c' where "read_verified T l g c = (blk l g, c')" "coh c'"
  using reads [OF assms, of l g] that by (metis prod.collapse)

lemma blk_leaf:
  assumes "blk l g = Ok b" and "tb_body b = LeafBody items"
  shows "hd_level (tb_header b) = 0" "strictly_sorted (map it_key items)"
    "it \<in> set items \<Longrightarrow> item_data b it = Some (item_bytes (tb_bytes b) it)"
proof -
  obtain bytes where p: "parse_accepting (tr_hash T) bytes l (tr_geom T) (tr_seeds T) = Ok b"
    using parsed [OF assms(1)] by blast
  note ok = parse_accepting_Ok [OF p]
  show "hd_level (tb_header b) = 0" "strictly_sorted (map it_key items)"
    using ok(8) [OF assms(2)] parse_leaf_items_Ok(3) by blast+
  show "it \<in> set items \<Longrightarrow> item_data b it = Some (item_bytes (tb_bytes b) it)"
    using item_data_Ok(1) [OF p assms(2)] ok(1) by simp
qed

lemma blk_node:
  assumes "blk l g = Ok b" and "tb_body b = NodeBody ptrs"
  shows "hd_level (tb_header b) \<noteq> 0" "strictly_sorted (map kp_key ptrs)" "ptrs \<noteq> []"
proof -
  obtain bytes where p: "parse_accepting (tr_hash T) bytes l (tr_geom T) (tr_seeds T) = Ok b"
    using parsed [OF assms(1)] by blast
  note ok = conjunct2 [OF parse_accepting_Ok(9) [OF p assms(2)]]
  show "hd_level (tb_header b) \<noteq> 0" "strictly_sorted (map kp_key ptrs)" "ptrs \<noteq> []"
    using parse_accepting_Ok(9) [OF p assms(2)] parse_key_ptrs_Ok(1,2,4) [OF ok] by auto
qed

lemma blk_level: "blk l g = Ok b \<Longrightarrow> hd_level (tb_header b) < MAX_LEVEL"
  using parsed parse_accepting_Ok(6) by blast

end

text \<open>
  A tree without a cache, and one behind the node cache when no two copies of a block verify with
  different contents.
\<close>

definition copies_agree :: "'c tree \<Rightarrow> bool" where
  "copies_agree T \<longleftrightarrow>
     (\<forall>l m k a b. m < copy_count T l \<longrightarrow> k < copy_count T l \<longrightarrow>
        copy_at T l None m = Ok a \<longrightarrow> copy_at T l None k = Ok b \<longrightarrow> a = b)"

lemma read_uncached_parsed:
  "read_uncached T l g = Ok b \<Longrightarrow> \<exists>bytes. parse_accepting (tr_hash T) bytes l (tr_geom T) (tr_seeds T) = Ok b"
  using read_uncached_copy copy_Ok by blast

interpretation uncached: verified_reads "T\<lparr>tr_cache := None\<rparr>" "\<lambda>_. True" "read_uncached (T\<lparr>tr_cache := None\<rparr>)" for T
proof unfold_locales
  show "fst (read_verified (T\<lparr>tr_cache := None\<rparr>) l g c) = read_uncached (T\<lparr>tr_cache := None\<rparr>) l g \<and> True" for l g c
    by (simp add: read_verified_def)
  show "read_uncached (T\<lparr>tr_cache := None\<rparr>) l g = Ok b \<Longrightarrow> \<exists>bytes. parse_accepting (tr_hash (T\<lparr>tr_cache := None\<rparr>)) bytes l
      (tr_geom (T\<lparr>tr_cache := None\<rparr>)) (tr_seeds (T\<lparr>tr_cache := None\<rparr>)) = Ok b" for l g b
    by (rule read_uncached_parsed)
qed

abbreviation cached_tree :: "node_cache tree \<Rightarrow> node_cache tree" where
  "cached_tree T \<equiv> with_cache node_cache_get node_cache_put T"

definition cache_ok :: "node_cache tree \<Rightarrow> node_cache \<Rightarrow> bool" where
  "cache_ok T c \<longleftrightarrow> copies_agree T \<and> nc.coherent T c"

lemma agree_unique:
  assumes "copies_agree T" and "m < copy_count T l" and "copy_at T l g m = Ok b"
  shows "read_uncached T l g = Ok b"
proof -
  obtain b' where b': "read_uncached T l g = Ok b'"
    using read_uncached_None [OF assms(2,3)] by blast
  obtain k where "k < copy_count T l" "copy_at T l g k = Ok b'"
    using read_uncached_copy [OF b'] by blast
  then have "b' = b"
    using assms copy_any_generation [of T l g] unfolding copies_agree_def by metis
  with b' show ?thesis by simp
qed

lemma cached_read:
  assumes "cache_ok (cached_tree T) c"
  shows "fst (read_verified (cached_tree T) l g c) = read_uncached (cached_tree T) l g \<and>
    cache_ok (cached_tree T) (snd (read_verified (cached_tree T) l g c))"
proof -
  have tc: "tr_cache (cached_tree T) = Some (node_cache_get, node_cache_put)"
    by (simp add: with_cache_def)
  obtain r c' where rc: "read_verified (cached_tree T) l g c = (r, c')" by fastforce
  have a: "copies_agree (cached_tree T)" and co: "nc.coherent (cached_tree T) c"
    using assms by (simp_all add: cache_ok_def)
  from nc.read_verified_copy [OF tc co rc]
  show ?thesis
    using agree_unique [OF a] a by (auto simp: rc cache_ok_def)
qed

interpretation cached: verified_reads "cached_tree T" "cache_ok (cached_tree T)" "read_uncached (cached_tree T)" for T
  by unfold_locales (simp_all add: cached_read read_uncached_parsed)

definition demo_block :: tree_block where
  "demo_block =
     \<lparr>tb_header = \<lparr>hd_csum = [], hd_fsid = [], hd_bytenr = 0, hd_flags = 0, hd_chunk_tree_uuid = [],
        hd_generation = 0, hd_owner = 0, hd_nritems = 0, hd_level = 0\<rparr>,
      tb_body = LeafBody [], tb_bytes = []\<rparr>"

theorem node_cache_lru_witness:
  "\<exists>nc. snd (node_cache_get (node_cache_put (node_cache_put (node_cache_new 2) 1 demo_block) 2 demo_block) 1) = nc \<and>
     lru_order (node_cache_put nc 3 demo_block) [(3, demo_block), (1, demo_block)] \<and>
     fst (node_cache_get (node_cache_put nc 3 demo_block) 2) = None"
proof -
  let ?b = demo_block
  let ?n1 = "node_cache_put (node_cache_new 2) 1 ?b"
  let ?n2 = "node_cache_put ?n1 2 ?b"
  let ?n3 = "snd (node_cache_get ?n2 1)"
  let ?n4 = "node_cache_put ?n3 3 ?b"
  note d = node_cache_new_def node_cache_put_def node_cache_get_def Let_def
  have caps: "nc_capacity (node_cache_new 2) = 2" "nc_capacity ?n1 = 2" "nc_capacity ?n2 = 2" "nc_capacity ?n3 = 2" "nc_capacity ?n4 = 2"
    by (simp_all add: d)
  have ticks: "nc_tick (node_cache_new 2) = 0" "nc_tick ?n1 = 1" "nc_tick ?n2 = 2" "nc_tick ?n3 = 3" "nc_tick ?n4 = 4"
    by (simp_all add: d)
  have o1: "lru_order ?n1 [(1, ?b)]"
    using node_cache_lru [OF lru_order_new, of 2 1 ?b] caps ticks by (simp add: lru_put_def)
  have o2: "lru_order ?n2 [(2, ?b), (1, ?b)]"
    using node_cache_lru [OF o1, of 2 ?b] caps ticks by (simp add: lru_put_def take_Cons')
  have o3: "lru_order ?n3 [(1, ?b), (2, ?b)]"
    using node_cache_lru [OF o2, of 1 ?b] caps ticks by (simp add: lru_touch_def)
  have o4: "lru_order ?n4 [(3, ?b), (1, ?b)]"
    using node_cache_lru [OF o3, of 3 ?b] caps ticks by (simp add: lru_put_def take_Cons')
  show ?thesis
    using o4 node_cache_lru [OF o4, of 2 ?b] caps ticks by simp
qed

end
