(* ===== verification/TreeWalk.thy ===== *)
theory TreeWalk
  imports TreeRead
begin

text \<open>
  \<open>src/src/btree.rs\<close>, trees: descending to a key, searching, and walking in key order with a
  visitor. A visitor with a memory is a function that is given its state and returns the next
  one. The lemmas compare a search and a walk with the sequence of items an abstract tree holds.
\<close>

section \<open>Descending and searching\<close>

definition level_differs :: "u8 option \<Rightarrow> tree_block \<Rightarrow> bool" where
  "level_differs expected block =
     (case expected of Some want \<Rightarrow> hd_level (tb_header block) \<noteq> want | None \<Rightarrow> False)"

text \<open>\<open>n\<close> is the number of rounds the loop has left; it starts at \<open>MAX_LEVEL\<close>.\<close>

fun descend_loop ::
  "'c tree \<Rightarrow> disk_key \<Rightarrow> nat \<Rightarrow> u64 \<Rightarrow> u8 option \<Rightarrow> u64 option \<Rightarrow> tree_block list \<Rightarrow> 'c \<Rightarrow>
   tree_block list result \<times> 'c" where
  "descend_loop T key 0 logical level generation path c =
     (Err (bad_block ''descent did not reach a leaf''), c)"
| "descend_loop T key (Suc n) logical level generation path c =
     (case read_verified T logical generation c of
        (Inl e, c) \<Rightarrow> (Err e, c)
      | (Inr block, c) \<Rightarrow>
          if level_differs level block then (Err (bad_block ''the tree is inconsistent''), c)
          else
            (case body_key_ptrs (tb_body block) of
               None \<Rightarrow> (Ok (path @ [block]), c)
             | Some ptrs \<Rightarrow>
                 (case get ptrs (node_slot ptrs key) of
                    None \<Rightarrow> (Err (Panic ''index out of bounds''), c)
                  | Some p \<Rightarrow>
                      descend_loop T key n (kp_blockptr p) (Some (hd_level (tb_header block) - 1))
                        (Some (kp_generation p)) (path @ [block]) c)))"

definition descend_path :: "'c tree \<Rightarrow> u64 \<Rightarrow> disk_key \<Rightarrow> 'c \<Rightarrow> tree_block list result \<times> 'c" where
  "descend_path T root key c = descend_loop T key (unat MAX_LEVEL) root None None [] c"

definition descend :: "'c tree \<Rightarrow> u64 \<Rightarrow> disk_key \<Rightarrow> 'c \<Rightarrow> tree_block result \<times> 'c" where
  "descend T root key c =
     (let (r, c) = descend_path T root key c in
      (try_in r (\<lambda>path. if path = [] then Err (Panic ''a descent reads at least the root'') else Ok (last path)),
       c))"

type_synonym leaf_item = "disk_key \<times> bytes"

definition find_in_leaf :: "disk_key \<Rightarrow> tree_block \<Rightarrow> leaf_item option result" where
  "find_in_leaf key leaf =
     try_in (ok_or (bad_block ''descent ended on an internal node'') (body_items (tb_body leaf))) (\<lambda>items.
     case get items (leaf_slot items key) of
       None \<Rightarrow> Ok None
     | Some item \<Rightarrow>
         if compare_keys (it_key item) key \<noteq> Equal then Ok None
         else try_in (ok_or (bad_block ''item data is out of bounds'') (item_data leaf item)) (\<lambda>data.
           Ok (Some (it_key item, data))))"

definition search :: "'c tree \<Rightarrow> u64 \<Rightarrow> disk_key \<Rightarrow> 'c \<Rightarrow> leaf_item option result \<times> 'c" where
  "search T root key c =
     (let (r, c) = descend T root key c in (try_in r (find_in_leaf key), c))"

section \<open>Walking\<close>

type_synonym 'v visitor = "disk_key \<Rightarrow> bytes \<Rightarrow> 'v \<Rightarrow> bool result \<times> 'v"

text \<open>
  What a walk threads through itself: the addresses it has read, the cache and the visitor's
  state. The rest of \<open>WalkState\<close> is saved and restored around every child, so it is passed
  by value: the level and generation a block must have, and the depth, counted down from
  \<open>MAX_LEVEL\<close> in the first argument.
\<close>

type_synonym ('c, 'v) walk_state = "u64 set \<times> 'c \<times> 'v"

fun visit_items :: "tree_block \<Rightarrow> 'v visitor \<Rightarrow> item list \<Rightarrow> 'v \<Rightarrow> bool result \<times> 'v" where
  "visit_items block visit [] v = (Ok True, v)"
| "visit_items block visit (item # rest) v =
     (case item_data block item of
        None \<Rightarrow> (Err (bad_block ''item data is out of bounds''), v)
      | Some data \<Rightarrow>
          (case visit (it_key item) data v of
             (Inl e, v) \<Rightarrow> (Err e, v)
           | (Inr go, v) \<Rightarrow> if go then visit_items block visit rest v else (Ok False, v)))"

fun walk ::
  "'c tree \<Rightarrow> 'v visitor \<Rightarrow> nat \<Rightarrow> u8 option \<Rightarrow> u64 option \<Rightarrow> u64 \<Rightarrow> disk_key option \<Rightarrow> ('c, 'v) walk_state \<Rightarrow>
   bool result \<times> ('c, 'v) walk_state"
and walk_children ::
  "'c tree \<Rightarrow> 'v visitor \<Rightarrow> nat \<Rightarrow> u8 \<Rightarrow> disk_key option \<Rightarrow> key_ptr list \<Rightarrow> ('c, 'v) walk_state \<Rightarrow>
   bool result \<times> ('c, 'v) walk_state" where
  "walk T visit 0 level generation logical start st =
     (Err (bad_block ''walk went deeper than the maximum level''), st)"
| "walk T visit (Suc n) level generation logical start (seen, c, v) =
     (if logical \<in> seen then (Err (bad_block ''block appears twice in one walk''), (seen, c, v))
      else
        (case read_verified T logical generation c of
           (Inl e, c) \<Rightarrow> (Err e, (insert logical seen, c, v))
         | (Inr block, c) \<Rightarrow>
             if level_differs level block then
               (Err (bad_block ''the tree is inconsistent''), (insert logical seen, c, v))
             else
               (case tb_body block of
                  LeafBody items \<Rightarrow>
                    (let first = (case start of None \<Rightarrow> 0 | Some k \<Rightarrow> leaf_slot items k);
                         (r, v) = visit_items block visit (drop first items) v
                     in (r, (insert logical seen, c, v)))
                | NodeBody ptrs \<Rightarrow>
                    (let first = (case start of None \<Rightarrow> 0 | Some k \<Rightarrow> node_slot ptrs k) in
                     case checked_sub (hd_level (tb_header block)) 1 of
                       None \<Rightarrow> (Err (bad_block ''a node at level 0 has children''), (insert logical seen, c, v))
                     | Some child_level \<Rightarrow>
                         walk_children T visit n child_level start (drop first ptrs)
                           (insert logical seen, c, v)))))"
| "walk_children T visit n child_level start [] st = (Ok True, st)"
| "walk_children T visit n child_level start (p # ps) st =
     (case walk T visit n (Some child_level) (Some (kp_generation p)) (kp_blockptr p) start st of
        (Inl e, st) \<Rightarrow> (Err e, st)
      | (Inr go, st) \<Rightarrow>
          if go then walk_children T visit n child_level None ps st else (Ok False, st))"

definition run_walk ::
  "'c tree \<Rightarrow> u64 \<Rightarrow> disk_key option \<Rightarrow> 'v visitor \<Rightarrow> 'c \<Rightarrow> 'v \<Rightarrow> unit result \<times> 'c \<times> 'v" where
  "run_walk T root start visit c v =
     (let (r, (_, c, v)) = walk T visit (unat MAX_LEVEL) None None root start ({}, c, v) in
      (map_sum id (\<lambda>_. ()) r, c, v))"

definition for_each :: "'c tree \<Rightarrow> u64 \<Rightarrow> 'v visitor \<Rightarrow> 'c \<Rightarrow> 'v \<Rightarrow> unit result \<times> 'c \<times> 'v" where
  "for_each T root = run_walk T root None"

definition for_each_from ::
  "'c tree \<Rightarrow> u64 \<Rightarrow> disk_key \<Rightarrow> 'v visitor \<Rightarrow> 'c \<Rightarrow> 'v \<Rightarrow> unit result \<times> 'c \<times> 'v" where
  "for_each_from T root start = run_walk T root (Some start)"

definition collect_run :: "u64 \<Rightarrow> u8 \<Rightarrow> leaf_item list visitor" where
  "collect_run oid kt key data out =
     (if objectid key \<noteq> oid \<or> key_type key \<noteq> kt then (Ok False, out)
      else (Ok True, out @ [(key, data)]))"

definition find_all :: "'c tree \<Rightarrow> u64 \<Rightarrow> u64 \<Rightarrow> u8 \<Rightarrow> 'c \<Rightarrow> leaf_item list result \<times> 'c" where
  "find_all T root oid kt c =
     (let (r, c, out) = for_each_from T root (DiskKey oid kt 0) (collect_run oid kt) c [] in
      (try_in r (\<lambda>_. Ok out), c))"


section \<open>The tree a root holds\<close>

text \<open>
  An abstract tree: the address of every block and, in order, the separator keys and children of
  a node or the items of a leaf. \<open>stored\<close> says that the blocks read at those addresses are such
  a tree, with the levels and generations the parents record; \<open>separated\<close> that every child's
  keys lie where its separators say.
\<close>

datatype atree =
    ALeaf u64 "leaf_item list"
  | ANode u64 "disk_key list" "atree list"

primrec addr :: "atree \<Rightarrow> u64" where
  "addr (ALeaf a kvs) = a"
| "addr (ANode a ks ts) = a"

fun inorder :: "atree \<Rightarrow> leaf_item list" where
  "inorder (ALeaf a kvs) = kvs"
| "inorder (ANode a ks ts) = concat (map inorder ts)"

fun addrs :: "atree \<Rightarrow> u64 list" where
  "addrs (ALeaf a kvs) = [a]"
| "addrs (ANode a ks ts) = a # concat (map addrs ts)"

definition keys_of :: "atree \<Rightarrow> disk_key set" where
  "keys_of t = fst ` set (inorder t)"

fun separated :: "atree \<Rightarrow> bool" where
  "separated (ALeaf a kvs) = True"
| "separated (ANode a ks ts) =
     ((\<forall>t \<in> set ts. separated t) \<and>
      (\<forall>j < length ts. \<forall>i < j. (\<forall>k \<in> keys_of (ts ! i). k < ks ! j) \<and> (\<forall>k \<in> keys_of (ts ! j). ks ! j \<le> k)))"

definition leaf_items :: "tree_block \<Rightarrow> item list \<Rightarrow> leaf_item list" where
  "leaf_items b items = map (\<lambda>i. (it_key i, item_bytes (tb_bytes b) i)) items"

inductive stored :: "(u64 \<Rightarrow> u64 option \<Rightarrow> tree_block result) \<Rightarrow> u64 option \<Rightarrow> u8 \<Rightarrow> atree \<Rightarrow> bool"
  for blk where
  stored_leaf: "blk a g = Ok b \<Longrightarrow> tb_body b = LeafBody items \<Longrightarrow> hd_level (tb_header b) = lvl \<Longrightarrow>
     stored blk g lvl (ALeaf a (leaf_items b items))"
| stored_node: "blk a g = Ok b \<Longrightarrow> tb_body b = NodeBody ptrs \<Longrightarrow> hd_level (tb_header b) = lvl \<Longrightarrow>
     map addr ts = map kp_blockptr ptrs \<Longrightarrow>
     (\<And>i. i < length ptrs \<Longrightarrow> stored blk (Some (kp_generation (ptrs ! i))) (lvl - 1) (ts ! i)) \<Longrightarrow>
     stored blk g lvl (ANode a (map kp_key ptrs) ts)"

inductive_cases stored_leafE: "stored blk g lvl (ALeaf a kvs)"
inductive_cases stored_nodeE: "stored blk g lvl (ANode a ks ts)"

section \<open>Slots\<close>

lemma partition_point_below: "i < partition_point P xs \<Longrightarrow> P (xs ! i)"
  unfolding partition_point_def by (metis nth_mem set_takeWhileD takeWhile_nth)

lemma partition_point_at: "partition_point P xs < length xs \<Longrightarrow> \<not> P (xs ! partition_point P xs)"
  unfolding partition_point_def by (rule nth_length_takeWhile)

lemma sorted_nth_less:
  assumes "strictly_sorted (map f xs)" and "i < j" and "j < length xs"
  shows "f (xs ! i) < f (xs ! j)"
  using sorted_wrt_nth_less [OF assms(1,2)] assms(2,3) by simp

lemma node_slot_spec:
  assumes "strictly_sorted (map kp_key ptrs)" and "ptrs \<noteq> []"
  shows "node_slot ptrs key < length ptrs"
    and "0 < node_slot ptrs key \<Longrightarrow> kp_key (ptrs ! node_slot ptrs key) \<le> key"
    and "node_slot ptrs key < j \<Longrightarrow> j < length ptrs \<Longrightarrow> key < kp_key (ptrs ! j)"
proof -
  let ?P = "\<lambda>p. compare_keys (kp_key p) key \<noteq> Greater"
  let ?n = "partition_point ?P ptrs"
  have P: "?P p \<longleftrightarrow> kp_key p \<le> key" for p
    by (auto simp: compare_keys_simps not_less)
  have n: "?n \<le> length ptrs" by (rule partition_point_le)
  show "node_slot ptrs key < length ptrs"
    using n assms(2) by (cases ptrs) (auto simp: node_slot_def)
  show "kp_key (ptrs ! node_slot ptrs key) \<le> key" if "0 < node_slot ptrs key"
  proof -
    have "?n - 1 < ?n" using that by (simp add: node_slot_def)
    then have "?P (ptrs ! (?n - 1))" by (rule partition_point_below)
    then show ?thesis by (simp only: P node_slot_def)
  qed
  show "key < kp_key (ptrs ! j)" if "node_slot ptrs key < j" "j < length ptrs"
  proof -
    have le: "?n \<le> j" using that by (simp add: node_slot_def)
    have "key < kp_key (ptrs ! ?n)"
    proof -
      have "?n < length ptrs" using le that(2) by simp
      then have "\<not> ?P (ptrs ! ?n)" by (rule partition_point_at)
      then show ?thesis by (simp only: P not_le)
    qed
    then show ?thesis
      using le that(2) sorted_nth_less [OF assms(1), of ?n j] by (cases "?n = j") auto
  qed
qed

lemma leaf_slot_spec:
  assumes "strictly_sorted (map it_key items)"
  shows "drop (leaf_slot items key) items = filter (\<lambda>i. key \<le> it_key i) items"
  using assms
proof (induction items)
  case Nil
  show ?case by simp
next
  case (Cons x xs)
  show ?case
  proof (cases "it_key x < key")
    case True
    then show ?thesis
      using Cons by (simp add: leaf_slot_def partition_point_def compare_keys_simps)
  next
    case False
    then have "filter (\<lambda>i. key \<le> it_key i) xs = xs"
      using Cons.prems by (auto simp: filter_id_conv intro: order_trans less_imp_le)
    then show ?thesis
      using False by (simp add: leaf_slot_def partition_point_def compare_keys_simps)
  qed
qed

lemma find_in_leaf_spec:
  assumes body: "tb_body b = LeafBody items" and srt: "strictly_sorted (map it_key items)"
    and data: "\<And>it. it \<in> set items \<Longrightarrow> item_data b it = Some (item_bytes (tb_bytes b) it)"
  shows "find_in_leaf key b = Ok (map_option (Pair key) (map_of (leaf_items b items) key))"
proof -
  let ?n = "leaf_slot items key"
  have d: "drop ?n items = filter (\<lambda>i. key \<le> it_key i) items"
    by (rule leaf_slot_spec [OF srt])
  have mo: "map_of (leaf_items b items) key = map_of (leaf_items b (filter (\<lambda>i. key \<le> it_key i) items)) key"
    by (induction items) (auto simp: leaf_items_def)
  show ?thesis
  proof (cases "drop ?n items")
    case Nil
    then have "get items ?n = None" by (simp add: get_drop)
    then show ?thesis
      using Nil by (simp add: find_in_leaf_def body body_items_def mo flip: d) (simp add: leaf_items_def)
  next
    case (Cons x xs)
    then have x: "get items ?n = Some x" "x \<in> set items"
      by (simp add: get_drop, metis in_set_dropD list.set_intros(1))
    have "strictly_sorted (map it_key (x # xs))"
      using sorted_wrt_drop [of "(<)" "map it_key items" ?n] srt Cons by (simp add: drop_map)
    moreover have "key \<le> it_key x"
      using Cons d by (metis (no_types, lifting) filter_eq_ConsD)
    ultimately have "it_key x \<noteq> key \<Longrightarrow> map_of (leaf_items b (x # xs)) key = None"
      by (auto simp: leaf_items_def map_of_eq_None_iff)
    then show ?thesis
      using x data [OF x(2)]
      by (auto simp: find_in_leaf_def body body_items_def mo Cons compare_keys_simps simp flip: d)
        (auto simp: leaf_items_def)
  qed
qed

lemma map_of_concat_at:
  "s < length xss \<Longrightarrow> (\<And>i. i < length xss \<Longrightarrow> i \<noteq> s \<Longrightarrow> key \<notin> fst ` set (xss ! i)) \<Longrightarrow>
   map_of (concat xss) key = map_of (xss ! s) key"
proof (induction xss arbitrary: s)
  case (Cons xs xss)
  have none: "map_of xs key = None" if "s \<noteq> 0"
    using Cons.prems(2) [of 0] that by (simp add: map_of_eq_None_iff)
  show ?case
  proof (cases s)
    case 0
    have "key \<notin> fst ` set (xss ! i)" if "i < length xss" for i
      using Cons.prems(2) [of "Suc i"] 0 that by simp
    then have "key \<notin> fst ` set ys" if "ys \<in> set xss" for ys
      using that by (metis in_set_conv_nth)
    then have "key \<notin> fst ` set (concat xss)"
      by auto
    then have "map_of (concat xss) key = None"
      by (rule iffD2 [OF map_of_eq_None_iff])
    then show ?thesis
      using 0 by (auto simp: map_add_def split: option.split)
  next
    case (Suc r)
    have "map_of (concat xss) key = map_of (xss ! r) key"
    proof (rule Cons.IH)
      show "r < length xss" using Cons.prems(1) Suc by simp
      show "key \<notin> fst ` set (xss ! i)" if "i < length xss" "i \<noteq> r" for i
        using Cons.prems(2) [of "Suc i"] Suc that by simp
    qed
    then show ?thesis
      using none Suc by (auto simp: map_add_def split: option.split)
  qed
qed simp

section \<open>Descent\<close>

lemma unat_level_pred: "lvl \<noteq> 0 \<Longrightarrow> unat (lvl - 1 :: u8) = unat lvl - 1"
  by (subst unat_sub_le) (auto simp: word_le_nat_alt unat_gt_0 Suc_le_eq)

lemma child_keys_at:
  assumes sep: "separated (ANode a ks ts)" and srt: "strictly_sorted (map kp_key ptrs)"
    and ne: "ptrs \<noteq> []" and ks: "ks = map kp_key ptrs" and len: "length ts = length ptrs"
    and i: "i < length ts" and k: "k \<in> keys_of (ts ! i)"
  shows "i < node_slot ptrs key \<Longrightarrow> k < key" and "node_slot ptrs key < i \<Longrightarrow> key < k"
proof -
  let ?s = "node_slot ptrs key"
  note ns = node_slot_spec [OF srt ne, of key]
  show "k < key" if lt: "i < ?s"
  proof -
    have "k < ks ! ?s"
      using sep lt ns(1) k by (auto simp: len)
    moreover have "ks ! ?s \<le> key"
      using ns(1,2) lt by (simp add: ks)
    ultimately show ?thesis by simp
  qed
  show "key < k" if lt: "?s < i"
  proof -
    have "ks ! i \<le> k"
      using sep lt i k by auto
    moreover have "key < ks ! i"
      using ns(3) [OF lt] i by (simp add: ks len)
    ultimately show ?thesis by simp
  qed
qed

context verified_reads
begin

lemma descend_loop_stored:
  "stored blk g lvl t \<Longrightarrow> separated t \<Longrightarrow> coh c \<Longrightarrow> el = None \<or> el = Some lvl \<Longrightarrow> unat lvl < n \<Longrightarrow>
   \<exists>new b items c' l g'. descend_loop T key n (addr t) el g path c = (Ok (path @ new @ [b]), c') \<and> coh c' \<and>
     blk l g' = Ok b \<and> tb_body b = LeafBody items \<and>
     map_of (leaf_items b items) key = map_of (inorder t) key"
proof (induction arbitrary: n el path c rule: stored.induct)
  case (stored_leaf a g b items lvl)
  obtain c' where c': "read_verified T a g c = (blk a g, c')" "coh c'"
    using reads_to [OF stored_leaf.prems(2)] by blast
  obtain m where n: "n = Suc m" using stored_leaf.prems(4) by (cases n) auto
  have "descend_loop T key n a el g path c = (Ok (path @ [] @ [b]), c')"
    using c' stored_leaf by (auto simp: n level_differs_def body_key_ptrs_def)
  then show ?case
    using c'(2) stored_leaf.hyps(1,2) by auto
next
  case (stored_node a g b ptrs lvl ts)
  obtain c' where c': "read_verified T a g c = (blk a g, c')" "coh c'"
    using reads_to [OF stored_node.prems(2)] by blast
  obtain m where n: "n = Suc m" using stored_node.prems(4) by (cases n) auto
  note nd = blk_node [OF stored_node.hyps(1,2)]
  let ?s = "node_slot ptrs key"
  have s: "?s < length ptrs" by (rule node_slot_spec(1) [OF nd(2,3)])
  have len: "length ts = length ptrs" using stored_node.hyps(4) by (metis length_map)
  have lv: "unat (lvl - 1) < m"
  proof -
    have "lvl \<noteq> 0" using nd(1) stored_node.hyps(3) by simp
    moreover from this have "0 < unat lvl" by (simp add: unat_gt_0)
    ultimately show ?thesis
      using stored_node.prems(4) n by (simp add: unat_level_pred)
  qed
  have sub: "separated (ts ! ?s)"
    using stored_node.prems(1) s len by simp
  have ad: "addr (ts ! ?s) = kp_blockptr (ptrs ! ?s)"
    using stored_node.hyps(4) s len by (metis nth_map)
  from stored_node.IH [OF s sub c'(2), of "Some (lvl - 1)" m "path @ [b]"] lv
  obtain new b' items c'' l g' where r: "descend_loop T key m (addr (ts ! ?s)) (Some (lvl - 1))
      (Some (kp_generation (ptrs ! ?s))) (path @ [b]) c' = (Ok ((path @ [b]) @ new @ [b']), c'')"
    "coh c''" "blk l g' = Ok b'" "tb_body b' = LeafBody items"
    "map_of (leaf_items b' items) key = map_of (inorder (ts ! ?s)) key"
    by blast
  have "descend_loop T key n a el g path c = (Ok (path @ (b # new) @ [b']), c'')"
    using c' stored_node.hyps(1-3) stored_node.prems(3) s r(1) ad
    by (auto simp: n level_differs_def body_key_ptrs_def get_def)
  moreover have "map_of (inorder (ANode a (map kp_key ptrs) ts)) key = map_of (inorder (ts ! ?s)) key"
  proof -
    have "key \<notin> fst ` set (map inorder ts ! i)" if "i < length (map inorder ts)" "i \<noteq> ?s" for i
    proof
      assume "key \<in> fst ` set (map inorder ts ! i)"
      then have "key \<in> keys_of (ts ! i)" using that(1) by (simp add: keys_of_def)
      then show False
        using child_keys_at [OF stored_node.prems(1) nd(2,3) refl len, of i key key] that
        by (cases i ?s rule: linorder_cases) auto
    qed
    then have "map_of (concat (map inorder ts)) key = map_of (map inorder ts ! ?s) key"
      using s len by (intro map_of_concat_at) auto
    then show ?thesis using s len by simp
  qed
  ultimately show ?case
    using r(2-5) by auto
qed

lemma stored_level: "stored blk g lvl t \<Longrightarrow> unat lvl < 8"
  using blk_level by (fastforce elim: stored.cases simp: word_less_nat_alt)

lemma search_stored:
  assumes "stored blk None lvl t" and "separated t" and "coh c"
  shows "\<exists>c'. search T (addr t) key c = (Ok (map_option (Pair key) (map_of (inorder t) key)), c') \<and> coh c'"
proof -
  obtain new b items c' l g' where r: "descend_loop T key 8 (addr t) None None [] c = (Ok ([] @ new @ [b]), c')"
    "coh c'" "blk l g' = Ok b" "tb_body b = LeafBody items"
    "map_of (leaf_items b items) key = map_of (inorder t) key"
    using descend_loop_stored [OF assms, of None 8 key "[]"] stored_level [OF assms(1)] by blast
  have "find_in_leaf key b = Ok (map_option (Pair key) (map_of (leaf_items b items) key))"
    by (rule find_in_leaf_spec [OF r(4) blk_leaf(2,3) [OF r(3,4)]])
  then show ?thesis
    using r by (simp add: search_def descend_def descend_path_def)
qed

end

section \<open>The walk\<close>

fun visit_list :: "'v visitor \<Rightarrow> leaf_item list \<Rightarrow> 'v \<Rightarrow> bool result \<times> 'v" where
  "visit_list visit [] v = (Ok True, v)"
| "visit_list visit ((k, d) # rest) v =
     (case visit k d v of
        (Inl e, v) \<Rightarrow> (Err e, v)
      | (Inr go, v) \<Rightarrow> if go then visit_list visit rest v else (Ok False, v))"

lemma visit_list_append:
  "visit_list visit (xs @ ys) v =
     (case visit_list visit xs v of (Inr True, v) \<Rightarrow> visit_list visit ys v | r \<Rightarrow> r)"
  by (induction visit xs v rule: visit_list.induct) (auto split: prod.split sum.split bool.split)

lemma visit_items_list:
  "(\<And>it. it \<in> set items \<Longrightarrow> item_data b it = Some (item_bytes (tb_bytes b) it)) \<Longrightarrow>
   visit_items b visit items v = visit_list visit (leaf_items b items) v"
  by (induction items arbitrary: v) (auto simp: leaf_items_def split: prod.split sum.split)

definition from_key :: "disk_key option \<Rightarrow> leaf_item list \<Rightarrow> leaf_item list" where
  "from_key start kvs = (case start of None \<Rightarrow> kvs | Some k \<Rightarrow> filter (\<lambda>kv. k \<le> fst kv) kvs)"

lemma from_key_None [simp]: "from_key None kvs = kvs"
  by (simp add: from_key_def)

lemma from_key_leaf:
  "strictly_sorted (map it_key items) \<Longrightarrow>
   leaf_items b (drop (case start of None \<Rightarrow> 0 | Some k \<Rightarrow> leaf_slot items k) items) =
     from_key start (leaf_items b items)"
  by (cases start) (auto simp: from_key_def leaf_slot_spec leaf_items_def filter_map comp_def)

lemma concat_filter_one:
  assumes "s < length xss" and "\<And>i x. i < s \<Longrightarrow> x \<in> set (xss ! i) \<Longrightarrow> \<not> P x"
    and "\<And>i x. s < i \<Longrightarrow> i < length xss \<Longrightarrow> x \<in> set (xss ! i) \<Longrightarrow> P x"
  shows "filter P (concat xss) = filter P (xss ! s) @ concat (drop (Suc s) xss)"
proof -
  have "\<forall>ys \<in> set (take s xss). \<forall>x \<in> set ys. \<not> P x"
    using assms(1,2) by (auto simp: in_set_conv_nth [of _ "take s xss"])
  then have "filter P (concat (take s xss)) = []"
    by (auto simp: filter_empty_conv)
  moreover have "\<forall>ys \<in> set (drop (Suc s) xss). \<forall>x \<in> set ys. P x"
  proof (intro ballI)
    fix ys x
    assume "ys \<in> set (drop (Suc s) xss)" and x: "x \<in> set ys"
    then obtain i where "i < length xss - Suc s" "ys = xss ! Suc (s + i)"
      by (auto simp: in_set_conv_nth)
    then show "P x"
      using assms(3) [of "Suc (s + i)" x] x by simp
  qed
  then have "filter P (concat (drop (Suc s) xss)) = concat (drop (Suc s) xss)"
    by (auto simp: filter_id_conv)
  moreover have "concat xss = concat (take s xss) @ xss ! s @ concat (drop (Suc s) xss)"
    by (metis append_take_drop_id Cons_nth_drop_Suc [OF assms(1)] concat_append concat.simps(2))
  ultimately show ?thesis by simp
qed

lemma from_key_node:
  assumes sep: "separated (ANode a (map kp_key ptrs) ts)" and srt: "strictly_sorted (map kp_key ptrs)"
    and ne: "ptrs \<noteq> []" and len: "length ts = length ptrs"
    and first: "first = (case start of None \<Rightarrow> 0 | Some k \<Rightarrow> node_slot ptrs k)"
  shows "first < length ts"
    and "from_key start (inorder (ANode a (map kp_key ptrs) ts)) =
      from_key start (inorder (ts ! first)) @ concat (map inorder (drop (Suc first) ts))"
proof -
  show l: "first < length ts"
    using node_slot_spec(1) [OF srt ne] ne len by (auto simp: first split: option.split)
  show "from_key start (inorder (ANode a (map kp_key ptrs) ts)) =
      from_key start (inorder (ts ! first)) @ concat (map inorder (drop (Suc first) ts))"
  proof (cases start)
    case None
    then show ?thesis
      using l by (cases ts) (auto simp: first)
  next
    case (Some k)
    have "filter (\<lambda>kv. k \<le> fst kv) (concat (map inorder ts)) =
      filter (\<lambda>kv. k \<le> fst kv) (map inorder ts ! first) @ concat (drop (Suc first) (map inorder ts))"
    proof (rule concat_filter_one)
      show "first < length (map inorder ts)" using l by simp
      show "\<not> k \<le> fst x" if "i < first" "x \<in> set (map inorder ts ! i)" for i x
        using child_keys_at(1) [OF sep srt ne refl len, of i "fst x" k] that l
        by (auto simp: first Some keys_of_def)
      show "k \<le> fst x" if "first < i" "i < length (map inorder ts)" "x \<in> set (map inorder ts ! i)" for i x
        using child_keys_at(2) [OF sep srt ne refl len, of i "fst x" k] that
        by (auto simp: first Some keys_of_def)
    qed
    then show ?thesis
      using l by (simp add: Some from_key_def drop_map)
  qed
qed

text \<open>A walk that visits a list: what \<open>walk\<close> and its loop over children return.\<close>

definition visits ::
  "('c \<Rightarrow> bool) \<Rightarrow> 'v visitor \<Rightarrow> leaf_item list \<Rightarrow> u64 set \<Rightarrow> 'v \<Rightarrow>
   bool result \<times> ('c, 'v) walk_state \<Rightarrow> bool" where
  "visits coh visit kvs seen v out \<longleftrightarrow>
     (\<exists>seen' c'. out = (fst (visit_list visit kvs v), seen', c', snd (visit_list visit kvs v)) \<and>
        coh c' \<and> seen' \<subseteq> seen)"

lemma visits_mono: "visits coh visit kvs s v out \<Longrightarrow> s \<subseteq> s' \<Longrightarrow> visits coh visit kvs s' v out"
  unfolding visits_def by blast

context verified_reads
begin

definition walks :: "nat \<Rightarrow> u64 option \<Rightarrow> u8 \<Rightarrow> 'v visitor \<Rightarrow> atree \<Rightarrow> bool" where
  "walks n g lvl visit t \<longleftrightarrow>
     (\<forall>start el seen c v. (el = None \<or> el = Some lvl) \<longrightarrow> coh c \<longrightarrow> set (addrs t) \<inter> seen = {} \<longrightarrow>
        visits coh visit (from_key start (inorder t)) (seen \<union> set (addrs t)) v
          (walk T visit n el g (addr t) start (seen, c, v)))"

lemma walksD:
  "walks n g lvl visit t \<Longrightarrow> el = None \<or> el = Some lvl \<Longrightarrow> coh c \<Longrightarrow> set (addrs t) \<inter> seen = {} \<Longrightarrow>
   visits coh visit (from_key start (inorder t)) (seen \<union> set (addrs t)) v
     (walk T visit n el g (addr t) start (seen, c, v))"
  unfolding walks_def by blast

lemma walk_children_visits:
  assumes "list_all2 (\<lambda>p t. addr t = kp_blockptr p \<and> walks n (Some (kp_generation p)) lvl visit t) ps ts"
    and "distinct (concat (map addrs ts))" and "set (concat (map addrs ts)) \<inter> seen = {}" and "coh c"
  shows "visits coh visit
     (case ts of [] \<Rightarrow> [] | t # tt \<Rightarrow> from_key start (inorder t) @ concat (map inorder tt))
     (seen \<union> set (concat (map addrs ts))) v
     (walk_children T visit n lvl start ps (seen, c, v))"
  using assms
proof (induction arbitrary: start seen c v rule: list_all2_induct)
  case Nil
  then show ?case by (simp add: visits_def)
next
  case (Cons p ps t ts)
  let ?kvs = "from_key start (inorder t)"
  have "visits coh visit ?kvs (seen \<union> set (addrs t)) v
      (walk T visit n (Some lvl) (Some (kp_generation p)) (addr t) start (seen, c, v))"
    using Cons.prems by (intro walksD [OF conjunct2 [OF Cons.hyps(1)]]) auto
  then obtain seen1 c1 where w: "walk T visit n (Some lvl) (Some (kp_generation p)) (kp_blockptr p) start (seen, c, v) =
      (fst (visit_list visit ?kvs v), seen1, c1, snd (visit_list visit ?kvs v))"
    "coh c1" "seen1 \<subseteq> seen \<union> set (addrs t)"
    using Cons.hyps(1) by (auto simp: visits_def)
  obtain r1 v1 where rv: "visit_list visit ?kvs v = (r1, v1)" by fastforce
  have disj: "set (concat (map addrs ts)) \<inter> seen1 = {}"
    using Cons.prems(1,2) w(3) by auto
  have kvs: "(case ts of [] \<Rightarrow> [] | t # tt \<Rightarrow> from_key None (inorder t) @ concat (map inorder tt)) = concat (map inorder ts)"
    by (cases ts) simp_all
  have "visits coh visit (concat (map inorder ts)) (seen1 \<union> set (concat (map addrs ts))) v1
      (walk_children T visit n lvl None ps (seen1, c1, v1))"
    using Cons.IH [OF _ disj w(2), of None v1] Cons.prems(1) by (simp add: kvs)
  then have "visits coh visit (concat (map inorder ts)) (seen \<union> set (concat (map addrs (t # ts)))) v1
      (walk_children T visit n lvl None ps (seen1, c1, v1))"
    by (rule visits_mono) (use w(3) in auto)
  moreover have "seen1 \<subseteq> seen \<union> set (concat (map addrs (t # ts)))"
    using w(3) by auto
  ultimately show ?case
    using w(1,2) rv
    by (simp add: visits_def visit_list_append split: sum.split bool.split)
qed

lemma walk_stored:
  "stored blk g lvl t \<Longrightarrow> separated t \<Longrightarrow> distinct (addrs t) \<Longrightarrow> unat lvl < n \<Longrightarrow> walks n g lvl visit t"
proof (induction arbitrary: n rule: stored.induct)
  case (stored_leaf a g b items lvl)
  obtain m where n: "n = Suc m" using stored_leaf.prems(3) by (cases n) auto
  note lf = blk_leaf [OF stored_leaf.hyps(1,2)]
  have vl: "visit_items b visit (drop k items) v = visit_list visit (leaf_items b (drop k items)) v" for k v
    by (rule visit_items_list) (metis in_set_dropD lf(3))
  show ?case
    unfolding walks_def
  proof (intro allI impI)
    fix start el seen c v
    assume el: "el = None \<or> el = Some lvl" and c: "coh c"
      and seen: "set (addrs (ALeaf a (leaf_items b items))) \<inter> seen = {}"
    obtain c' where c': "read_verified T a g c = (blk a g, c')" "coh c'"
      using reads_to [OF c] by blast
    obtain r v' where rv: "visit_list visit (from_key start (leaf_items b items)) v = (r, v')" by fastforce
    have "walk T visit n el g a start (seen, c, v) = (r, insert a seen, c', v')"
      using el seen c' stored_leaf.hyps rv
      by (auto simp: n level_differs_def vl from_key_leaf [OF lf(2)])
    then show "visits coh visit (from_key start (inorder (ALeaf a (leaf_items b items))))
        (seen \<union> set (addrs (ALeaf a (leaf_items b items)))) v
        (walk T visit n el g (addr (ALeaf a (leaf_items b items))) start (seen, c, v))"
      using rv c'(2) by (auto simp: visits_def)
  qed
next
  case (stored_node a g b ptrs lvl ts)
  obtain m where n: "n = Suc m" using stored_node.prems(3) by (cases n) auto
  note nd = blk_node [OF stored_node.hyps(1,2)]
  have len: "length ts = length ptrs" using stored_node.hyps(4) by (metis length_map)
  have l0: "lvl \<noteq> 0" using nd(1) stored_node.hyps(3) by simp
  then have "0 < unat lvl" by (simp add: unat_gt_0)
  then have lv: "unat (lvl - 1) < m"
    using stored_node.prems(3) n l0 by (simp add: unat_level_pred)
  have sub: "checked_sub (hd_level (tb_header b)) 1 = Some (lvl - 1)"
    using l0 stored_node.hyps(3) by (simp add: checked_sub_def word_le_nat_alt unat_gt_0 Suc_le_eq)
  have child: "addr (ts ! i) = kp_blockptr (ptrs ! i) \<and> walks m (Some (kp_generation (ptrs ! i))) (lvl - 1) visit (ts ! i)"
    if i: "i < length ptrs" for i
  proof
    show "addr (ts ! i) = kp_blockptr (ptrs ! i)"
      using stored_node.hyps(4) i len by (metis nth_map)
    have t: "ts ! i \<in> set ts" using i len by simp
    show "walks m (Some (kp_generation (ptrs ! i))) (lvl - 1) visit (ts ! i)"
    proof (rule stored_node.IH [OF i _ _ lv])
      show "separated (ts ! i)" using stored_node.prems(1) t by simp
      show "distinct (addrs (ts ! i))"
        using stored_node.prems(2) t by (auto simp: distinct_concat_iff)
    qed
  qed
  show ?case
    unfolding walks_def
  proof (intro allI impI)
    fix start el seen c v
    assume el: "el = None \<or> el = Some lvl" and c: "coh c"
      and seen: "set (addrs (ANode a (map kp_key ptrs) ts)) \<inter> seen = {}"
    obtain c' where c': "read_verified T a g c = (blk a g, c')" "coh c'"
      using reads_to [OF c] by blast
    define first where "first = (case start of None \<Rightarrow> 0 | Some k \<Rightarrow> node_slot ptrs k)"
    note fk = from_key_node [OF stored_node.prems(1) nd(2,3) len first_def]
    have dr: "drop first ts = ts ! first # drop (Suc first) ts"
      using fk(1) by (simp add: Cons_nth_drop_Suc)
    have sub_set: "set (concat (map addrs (drop first ts))) \<subseteq> set (concat (map addrs ts))"
      by (auto dest: in_set_dropD)
    have "distinct (concat (map addrs ts))" using stored_node.prems(2) by simp
    then have dist: "distinct (concat (map addrs (drop first ts)))"
      by (metis append_take_drop_id concat_append distinct_append map_append)
    have vis: "visits coh visit (case drop first ts of [] \<Rightarrow> [] | t # tt \<Rightarrow> from_key start (inorder t) @ concat (map inorder tt))
        (insert a seen \<union> set (concat (map addrs (drop first ts)))) v
        (walk_children T visit m (lvl - 1) start (drop first ptrs) (insert a seen, c', v))"
    proof (rule walk_children_visits [OF _ dist _ c'(2)])
      show "list_all2 (\<lambda>p t. addr t = kp_blockptr p \<and> walks m (Some (kp_generation p)) (lvl - 1) visit t)
          (drop first ptrs) (drop first ts)"
        using child len by (auto simp: list_all2_conv_all_nth)
      show "set (concat (map addrs (drop first ts))) \<inter> insert a seen = {}"
        using seen stored_node.prems(2) sub_set by auto
    qed
    have w: "walk T visit n el g a start (seen, c, v) =
        walk_children T visit m (lvl - 1) start (drop first ptrs) (insert a seen, c', v)"
      using el seen c' stored_node.hyps sub by (auto simp: n level_differs_def first_def)
    have "insert a seen \<union> set (concat (map addrs (drop first ts))) \<subseteq>
        seen \<union> set (addrs (ANode a (map kp_key ptrs) ts))"
      using sub_set by auto
    then have "visits coh visit (case drop first ts of [] \<Rightarrow> [] | t # tt \<Rightarrow> from_key start (inorder t) @ concat (map inorder tt))
        (seen \<union> set (addrs (ANode a (map kp_key ptrs) ts))) v (walk T visit n el g a start (seen, c, v))"
      unfolding w by (rule visits_mono [OF vis])
    then show "visits coh visit (from_key start (inorder (ANode a (map kp_key ptrs) ts)))
        (seen \<union> set (addrs (ANode a (map kp_key ptrs) ts))) v
        (walk T visit n el g (addr (ANode a (map kp_key ptrs) ts)) start (seen, c, v))"
      unfolding fk(2) dr by simp
  qed
qed

lemma run_walk_stored:
  assumes "stored blk None lvl t" and "separated t" and "distinct (addrs t)" and "coh c"
  shows "\<exists>c'. run_walk T (addr t) start visit c v =
    (map_sum id (\<lambda>_. ()) (fst (visit_list visit (from_key start (inorder t)) v)), c',
     snd (visit_list visit (from_key start (inorder t)) v)) \<and> coh c'"
proof -
  have "walks 8 None lvl visit t"
    by (rule walk_stored [OF assms(1-3) stored_level [OF assms(1)]])
  then have "visits coh visit (from_key start (inorder t)) ({} \<union> set (addrs t)) v
      (walk T visit 8 None None (addr t) start ({}, c, v))"
    using assms(4) by (intro walksD) auto
  then show ?thesis
    by (auto simp: visits_def run_walk_def)
qed

end

section \<open>Runs of one object and type\<close>

definition in_run :: "u64 \<Rightarrow> u8 \<Rightarrow> leaf_item \<Rightarrow> bool" where
  "in_run oid kt kv \<longleftrightarrow> objectid (fst kv) = oid \<and> key_type (fst kv) = kt"

lemma collect_run_visits:
  "visit_list (collect_run oid kt) kvs out =
     (Ok (list_all (in_run oid kt) kvs), out @ takeWhile (in_run oid kt) kvs)"
  by (induction kvs arbitrary: out) (auto simp: collect_run_def in_run_def)

lemma run_is_interval:
  assumes "strictly_sorted (map fst kvs)"
  shows "takeWhile (in_run oid kt) (filter (\<lambda>kv. DiskKey oid kt 0 \<le> fst kv) kvs) = filter (in_run oid kt) kvs"
  using assms
proof (induction kvs)
  case (Cons kv kvs)
  obtain k d where kv: "kv = (k, d)" by fastforce
  consider "k < DiskKey oid kt 0" | "in_run oid kt kv" "DiskKey oid kt 0 \<le> k"
    | "DiskKey oid kt 0 \<le> k" "\<not> in_run oid kt kv"
    by (metis not_le)
  then show ?case
  proof cases
    case 1
    then have "\<not> in_run oid kt kv"
      by (cases k) (auto simp: kv in_run_def less_disk_key_def key_before_def)
    moreover have "\<not> DiskKey oid kt 0 \<le> k" using 1 by simp
    ultimately show ?thesis using Cons by (simp add: kv)
  next
    case 2
    then show ?thesis using Cons by (simp add: kv)
  next
    case 3
    have "\<not> in_run oid kt x" if "x \<in> set kvs" for x
    proof -
      have "k < fst x" using Cons.prems that by (auto simp: kv)
      then show ?thesis
        using 3 by (cases k; cases "fst x")
          (auto simp: kv in_run_def less_disk_key_def key_before_def less_eq_disk_key_def)
    qed
    then have "filter (in_run oid kt) kvs = []"
      by (simp add: filter_empty_conv)
    then show ?thesis using 3 by (simp add: kv)
  qed
qed simp

definition sorted_tree :: "atree \<Rightarrow> bool" where
  "sorted_tree t \<longleftrightarrow> separated t \<and> distinct (addrs t) \<and> strictly_sorted (map fst (inorder t))"

context verified_reads
begin

lemma find_all_stored:
  assumes "stored blk None lvl t" and "sorted_tree t" and "coh c"
  shows "\<exists>c'. find_all T (addr t) oid kt c = (Ok (filter (in_run oid kt) (inorder t)), c') \<and> coh c'"
proof -
  obtain c' where "run_walk T (addr t) (Some (DiskKey oid kt 0)) (collect_run oid kt) c [] =
      (Ok (), c', filter (in_run oid kt) (inorder t))" "coh c'"
    using run_walk_stored [OF assms(1) _ _ assms(3), of "Some (DiskKey oid kt 0)" "collect_run oid kt" "[]"]
      assms(2) by (auto simp: sorted_tree_def collect_run_visits from_key_def run_is_interval)
  then show ?thesis
    by (simp add: find_all_def for_each_from_def)
qed

end

section \<open>Properties\<close>

text \<open>
  C17. Search is lookup: in a tree that is well separated, read through the node cache and the
  volume's copies, searching for a key returns exactly the item the tree holds under that key, or
  nothing when it holds none; and the cache stays coherent. In particular the descent reaches a leaf
  within the eight rounds of its loop.
\<close>

theorem search_finds:
  assumes "stored (read_uncached (cached_tree T)) None lvl t" and "separated t"
    and "cache_ok (cached_tree T) c"
  shows "\<exists>c'. search (cached_tree T) (addr t) key c =
      (Ok (map_option (Pair key) (map_of (inorder t) key)), c') \<and> cache_ok (cached_tree T) c'"
  by (rule cached.search_stored [OF assms])

text \<open>
  C18. A walk visits the items in key order from the start key on, each once, and stops when the
  visitor says so or fails: what it returns and what the visitor has seen is what visiting the list
  of the tree's items with keys not below the start returns.
\<close>

theorem walk_visits_in_order:
  assumes "stored (read_uncached (cached_tree T)) None lvl t" and "separated t" and "distinct (addrs t)"
    and "cache_ok (cached_tree T) c"
  shows "\<exists>c'. for_each_from (cached_tree T) (addr t) start visit c v =
      (let (r, v') = visit_list visit (filter (\<lambda>kv. start \<le> fst kv) (inorder t)) v in
       (map_sum id (\<lambda>_. ()) r, c', v')) \<and> cache_ok (cached_tree T) c'"
  using cached.run_walk_stored [OF assms, of "Some start" visit v]
  by (auto simp: for_each_from_def from_key_def split: prod.split)

text \<open>
  \<open>find_all\<close> returns the items of one object and type, all of them and in key order.
\<close>

theorem find_all_run:
  assumes "stored (read_uncached (cached_tree T)) None lvl t" and "sorted_tree t"
    and "cache_ok (cached_tree T) c"
  shows "\<exists>c'. find_all (cached_tree T) (addr t) oid kt c =
      (Ok (filter (\<lambda>kv. objectid (fst kv) = oid \<and> key_type (fst kv) = kt) (inorder t)), c') \<and>
      cache_ok (cached_tree T) c'"
  using cached.find_all_stored [OF assms, of oid kt] by (simp add: in_run_def [abs_def])

definition demo_tree :: "node_cache tree" where
  "demo_tree = tree_new zero_hash demo_geom (\<lambda>l n. if l = 0 then Ok demo_leaf else Err NotFound)"

lemma demo_stored:
  "stored (read_uncached (cached_tree demo_tree)) None 0 (ALeaf 0 [(DiskKey 1 2 3, [7, 8])])"
proof -
  obtain b where b: "parse_accepting zero_hash demo_leaf 0 demo_geom [] = Ok b" "tb_body b = LeafBody [demo_item]"
    using demo_leaf_parse by blast
  have r: "read_uncached (cached_tree demo_tree) 0 None = Ok b"
    by (simp add: read_uncached_def with_cache_def demo_tree_def tree_new_def parse_generation_def b(1))
  have d: "leaf_items b [demo_item] = [(DiskKey 1 2 3, [7, 8])]"
    using parse_accepting_Ok(1) [OF b(1)]
    by (simp add: leaf_items_def demo_item_def item_bytes_def demo_leaf_def slice_put_inside)
      (simp add: slice_def)
  have "stored (read_uncached (cached_tree demo_tree)) None 0 (ALeaf 0 (leaf_items b [demo_item]))"
    using stored_leaf [of "read_uncached (cached_tree demo_tree)" 0 None b "[demo_item]" 0] r b(2)
      parse_accepting_Ok(8) [OF b] by blast
  then show ?thesis by (simp add: d)
qed

lemma demo_cache_ok: "cache_ok (cached_tree demo_tree) (node_cache_new 4)"
  by (auto simp: cache_ok_def copies_agree_def nc.coherent_def nc_inv_def nc_held_def node_cache_new_def
      copy_count_def with_cache_def demo_tree_def tree_new_def)

theorem search_finds_witness:
  "\<exists>c. search (cached_tree demo_tree) 0 (DiskKey 1 2 3) (node_cache_new 4) =
     (Ok (Some (DiskKey 1 2 3, [7, 8])), c)"
  using search_finds [OF demo_stored _ demo_cache_ok, of "DiskKey 1 2 3"] by auto

theorem walk_visits_in_order_witness:
  "\<exists>c. for_each_from (cached_tree demo_tree) 0 (DiskKey 1 0 0) (\<lambda>k d v. (Ok True, v @ d)) (node_cache_new 4) [9] =
     (Ok (), c, [9, 7, 8])"
  using walk_visits_in_order [OF demo_stored _ _ demo_cache_ok, of "DiskKey 1 0 0" "\<lambda>k d v. (Ok True, v @ d)" "[9]"]
  by (auto simp: less_eq_disk_key_def key_before_def)

theorem find_all_run_witness:
  "\<exists>c. find_all (cached_tree demo_tree) 0 1 2 (node_cache_new 4) = (Ok [(DiskKey 1 2 3, [7, 8])], c)"
  using find_all_run [OF demo_stored _ demo_cache_ok, of 1 2] by (auto simp: sorted_tree_def)

end
