(* ===== verification/LeafEdit.thy ===== *)
theory LeafEdit
  imports TreeWalk
begin

text \<open>
  \<open>src/src/leaf_edit.rs\<close> and \<open>apply_item_edits\<close> of \<open>src/src/transaction.rs\<close>: adding an item to a
  leaf's list, taking one out, and dividing a list that no longer fits. An \<open>OwnedItem\<close>, as a
  \<open>LeafItem\<close>, is the pair of its key and its bytes. \<open>binary_search_by\<close> is specified by its
  contract on a list in strict key order, which is what the lemmas keep.
\<close>

section \<open>Space\<close>

definition item_space :: "leaf_item \<Rightarrow> nat" where
  "item_space i = ITEM_SIZE + length (snd i)"

definition space_needed :: "leaf_item list \<Rightarrow> nat" where
  "space_needed items = HEADER_SIZE + sum_list (map item_space items)"

definition fit :: "u32 \<Rightarrow> leaf_item list \<Rightarrow> bool" where
  "fit nodesize items \<longleftrightarrow> space_needed items \<le> unat nodesize"

definition fits :: "u32 \<Rightarrow> leaf_item list \<Rightarrow> leaf_item \<Rightarrow> bool" where
  "fits nodesize items item \<longleftrightarrow> space_needed (items @ [item]) \<le> unat nodesize"

section \<open>Insertion and removal\<close>

definition key_order :: "disk_key \<Rightarrow> disk_key \<Rightarrow> ordering" where
  "key_order a b = cmp a b"

text \<open>\<open>Inr i\<close> is Rust's \<open>Ok(i)\<close>, the place of an equal key; \<open>Inl i\<close> its \<open>Err(i)\<close>, where to insert.\<close>

definition binary_search :: "leaf_item list \<Rightarrow> disk_key \<Rightarrow> nat + nat" where
  "binary_search items key =
     (let at = partition_point (\<lambda>x. key_order (fst x) key = Less) items in
      if at < length items \<and> key_order (fst (items ! at)) key = Equal then Inr at else Inl at)"

definition duplicate_key :: error where
  "duplicate_key = UnsupportedFeature ''the leaf already holds an item under the key''"

definition insert_unbounded :: "leaf_item list \<Rightarrow> leaf_item \<Rightarrow> leaf_item list result" where
  "insert_unbounded items item =
     (case binary_search items (fst item) of
        Inr _ \<Rightarrow> Err duplicate_key
      | Inl at \<Rightarrow> Ok (take at items @ item # drop at items))"

definition leaf_insert :: "u32 \<Rightarrow> leaf_item list \<Rightarrow> leaf_item \<Rightarrow> leaf_item list result" where
  "leaf_insert nodesize items item =
     (case binary_search items (fst item) of
        Inr _ \<Rightarrow> Err duplicate_key
      | Inl at \<Rightarrow>
          (let out = take at items @ item # drop at items in
           if space_needed out > unat nodesize then Err (UnsupportedFeature ''the item does not fit'')
           else Ok out))"

definition leaf_delete :: "leaf_item list \<Rightarrow> disk_key \<Rightarrow> leaf_item list result" where
  "leaf_delete items key =
     (case binary_search items key of
        Inl _ \<Rightarrow> Err (UnsupportedFeature ''the leaf holds no item under the key'')
      | Inr at \<Rightarrow> Ok (take at items @ drop (at + 1) items))"

section \<open>Division\<close>

definition too_few :: error where
  "too_few = UnsupportedFeature ''a leaf of fewer than two items cannot be split''"

definition split_items :: "leaf_item list \<Rightarrow> (leaf_item list \<times> leaf_item list) result" where
  "split_items items =
     (if length items < 2 then Err too_few
      else let mid = (length items + 1) div 2 in Ok (take mid items, drop mid items))"

definition insert_or_split :: "u32 \<Rightarrow> leaf_item list \<Rightarrow> leaf_item \<Rightarrow> leaf_item list list result" where
  "insert_or_split nodesize items item =
     (if fits nodesize items item then try_in (leaf_insert nodesize items item) (\<lambda>out. Ok [out])
      else
        (case binary_search items (fst item) of
           Inr _ \<Rightarrow> Err duplicate_key
         | Inl at \<Rightarrow>
             try_in (split_items (take at items @ item # drop at items)) (\<lambda>(left, right).
             Ok [left, right])))"

definition abs_diff :: "nat \<Rightarrow> nat \<Rightarrow> nat" where
  "abs_diff a b = (if a < b then b - a else a - b)"

text \<open>The first loop of \<open>split_to_fit\<close>: the division into two whose halves are closest in size.\<close>

fun best_pair :: "u32 \<Rightarrow> leaf_item list \<Rightarrow> nat list \<Rightarrow> (nat \<times> nat) option \<Rightarrow> (nat \<times> nat) option" where
  "best_pair nodesize items [] best = best"
| "best_pair nodesize items (at # rest) best =
     (let left = take at items; right = drop at items in
      if \<not> fit nodesize left \<or> \<not> fit nodesize right then best_pair nodesize items rest best
      else
        let gap = abs_diff (space_needed left) (space_needed right) in
        if (case best of None \<Rightarrow> True | Some (_, g) \<Rightarrow> gap < g)
        then best_pair nodesize items rest (Some (at, gap))
        else best_pair nodesize items rest best)"

text \<open>
  The second: leaves filled one after the other. \<open>start\<close> is where the leaf being filled begins,
  \<open>used\<close> what it holds.
\<close>

fun fill_leaves ::
  "u32 \<Rightarrow> leaf_item list \<Rightarrow> (nat \<times> leaf_item) list \<Rightarrow> nat \<Rightarrow> nat \<Rightarrow> leaf_item list list \<Rightarrow>
   leaf_item list list result" where
  "fill_leaves nodesize items [] start used leaves = Ok (leaves @ [drop start items])"
| "fill_leaves nodesize items ((at, item) # rest) start used leaves =
     (let size = item_space item in
      if HEADER_SIZE + size > unat nodesize then
        Err (UnsupportedFeature ''an item does not fit in a leaf'')
      else if used + size > unat nodesize then
        fill_leaves nodesize items rest at (HEADER_SIZE + size) (leaves @ [slice start (at - start) items])
      else fill_leaves nodesize items rest start (used + size) leaves)"

definition split_to_fit :: "u32 \<Rightarrow> leaf_item list \<Rightarrow> leaf_item list list result" where
  "split_to_fit nodesize items =
     (if length items < 2 then Err too_few
      else
        (case best_pair nodesize items [1..<length items] None of
           Some (at, _) \<Rightarrow> Ok [take at items, drop at items]
         | None \<Rightarrow> fill_leaves nodesize items (enumerate 0 items) 0 HEADER_SIZE []))"

section \<open>Edits\<close>

datatype item_edit = Put leaf_item | Delete disk_key

fun edit_key :: "item_edit \<Rightarrow> disk_key" where
  "edit_key (Put item) = fst item"
| "edit_key (Delete key) = key"




section \<open>The interface of an item store\<close>

text \<open>
  What an edit of a leaf promises, over the finite map from keys to bytes the list stands for:
  insertion adds a key that is not there, removal takes out one that is, either is refused
  otherwise.
\<close>

locale item_store =
  fixes ins :: "'s \<Rightarrow> leaf_item \<Rightarrow> 's result"
    and del :: "'s \<Rightarrow> disk_key \<Rightarrow> 's result"
    and look :: "'s \<Rightarrow> disk_key \<Rightarrow> bytes option"
    and sinv :: "'s \<Rightarrow> bool"
  assumes ins_new: "sinv s \<Longrightarrow> look s (fst i) = None \<Longrightarrow>
      \<exists>s'. ins s i = Ok s' \<and> sinv s' \<and> look s' = (look s)(fst i \<mapsto> snd i)"
    and ins_dup: "sinv s \<Longrightarrow> look s (fst i) \<noteq> None \<Longrightarrow> ins s i = Err duplicate_key"
    and del_there: "sinv s \<Longrightarrow> look s k \<noteq> None \<Longrightarrow>
      \<exists>s'. del s k = Ok s' \<and> sinv s' \<and> look s' = (look s)(k := None)"
    and del_missing: "sinv s \<Longrightarrow> look s k = None \<Longrightarrow> \<not> is_ok (del s k)"
begin

definition put :: "'s \<Rightarrow> leaf_item \<Rightarrow> 's result" where
  "put s i = try_in (if look s (fst i) \<noteq> None then del s (fst i) else Ok s) (\<lambda>s. ins s i)"

lemma put_map:
  assumes "sinv s"
  shows "\<exists>s'. put s i = Ok s' \<and> sinv s' \<and> look s' = (look s)(fst i \<mapsto> snd i)"
proof (cases "look s (fst i)")
  case None
  then show ?thesis using ins_new [OF assms None] by (simp add: put_def)
next
  case (Some d)
  obtain s1 where s1: "del s (fst i) = Ok s1" "sinv s1" "look s1 = (look s)(fst i := None)"
    using del_there [OF assms, of "fst i"] Some by auto
  then show ?thesis
    using ins_new [OF s1(2), of i] Some by (simp add: put_def)
qed

lemma ins_then_del:
  assumes "sinv s" and "ins s i = Ok s'"
  shows "\<exists>s''. del s' (fst i) = Ok s'' \<and> look s'' = look s"
proof -
  have n: "look s (fst i) = None"
    using ins_dup [OF assms(1), of i] assms(2) by (cases "look s (fst i)") auto
  have s': "sinv s'" "look s' = (look s)(fst i \<mapsto> snd i)"
    using ins_new [OF assms(1) n] assms(2) by auto
  then obtain s'' where "del s' (fst i) = Ok s''" "look s'' = (look s')(fst i := None)"
    using del_there [OF s'(1), of "fst i"] by auto
  then show ?thesis using s'(2) n by auto
qed

end

section \<open>A leaf's list is one\<close>

definition ordered_items :: "leaf_item list \<Rightarrow> bool" where
  "ordered_items items \<longleftrightarrow> strictly_sorted (map fst items)"

lemma binary_search_split:
  assumes "ordered_items items"
  shows "case binary_search items key of
      Inr at \<Rightarrow> \<exists>xs d ys. items = xs @ (key, d) # ys \<and> at = length xs
    | Inl at \<Rightarrow> \<exists>xs ys. items = xs @ ys \<and> at = length xs \<and>
        (\<forall>x \<in> set xs. fst x < key) \<and> (\<forall>y \<in> set ys. key < fst y)"
proof -
  let ?P = "\<lambda>x. key_order (fst x) key = Less"
  let ?at = "partition_point ?P items"
  have P: "?P x \<longleftrightarrow> fst x < key" for x
    by (simp add: key_order_def cmp_def)
  have E: "key_order (fst x) key = Equal \<longleftrightarrow> fst x = key" for x
    by (simp add: key_order_def cmp_def)
  have l: "length (take ?at items) = ?at"
    using partition_point_le [of ?P items] by simp
  have low: "fst x < key" if "x \<in> set (take ?at items)" for x
    using partition_take [OF that] by (simp only: P)
  show ?thesis
  proof (cases "drop ?at items")
    case Nil
    then have b: "binary_search items key = Inl ?at"
      by (simp add: binary_search_def)
    have t: "take ?at items = items"
      using Nil by simp
    have "items = items @ [] \<and> ?at = length items \<and> (\<forall>x \<in> set items. fst x < key) \<and> (\<forall>y \<in> set []. key < fst y)"
      using low l unfolding t by simp
    then show ?thesis
      unfolding b sum.case by blast
  next
    case (Cons y ys)
    then have lt: "?at < length items" and y: "items ! ?at = y"
      using nth_via_drop by (metis drop_all linorder_not_less list.distinct(1), metis nth_via_drop)
    have "\<not> ?P y" using partition_point_at [OF lt] y by metis
    then have ge: "\<not> fst y < key" using P [of y] by blast
    have srt: "fst y < fst z" if "z \<in> set ys" for z
    proof -
      have "ordered_items (take ?at items @ y # ys)"
        using assms Cons by (metis append_take_drop_id)
      then show ?thesis using that by (auto simp: ordered_items_def sorted_wrt_append)
    qed
    show ?thesis
    proof (cases "fst y = key")
      case True
      then have bs: "binary_search items key = Inr ?at"
        using lt y by (simp add: binary_search_def Let_def key_order_def cmp_def)
      have it: "items = take ?at items @ (key, snd y) # ys"
        using Cons True by (metis append_take_drop_id prod.collapse)
      show ?thesis
        unfolding bs sum.case
        by (intro exI [of _ "take ?at items"] exI [of _ "snd y"] exI [of _ ys] conjI it l [symmetric])
    next
      case False
      then have bs: "binary_search items key = Inl ?at"
        using y by (simp add: binary_search_def Let_def E)
      have it: "items = take ?at items @ (y # ys)"
        using Cons by (metis append_take_drop_id)
      have high: "\<forall>z \<in> set (y # ys). key < fst z"
      proof -
        have "key < fst y" using False ge by simp
        then show ?thesis using srt by (auto intro: less_trans)
      qed
      show ?thesis
        unfolding bs sum.case
        by (intro exI [of _ "take ?at items"] exI [of _ "y # ys"] conjI it l [symmetric] high ballI low)
    qed
  qed
qed

lemma ordered_distinct: "ordered_items items \<Longrightarrow> distinct (map fst items)"
  by (simp add: ordered_items_def strict_sorted_iff)

lemma binary_search_iff:
  assumes "ordered_items items"
  shows "(\<exists>at. binary_search items key = Inr at) \<longleftrightarrow> map_of items key \<noteq> None"
proof (cases "binary_search items key")
  case (Inl at)
  then have "key \<notin> fst ` set items"
    using binary_search_split [OF assms, of key] by force
  then show ?thesis using Inl by (simp add: map_of_eq_None_iff)
next
  case (Inr at)
  then have "key \<in> fst ` set items"
    using binary_search_split [OF assms, of key] by force
  then show ?thesis using Inr by (simp add: map_of_eq_None_iff)
qed

lemma insert_unbounded_new:
  assumes "ordered_items items" and "map_of items (fst item) = None"
  shows "\<exists>xs ys. items = xs @ ys \<and> insert_unbounded items item = Ok (xs @ item # ys) \<and>
    ordered_items (xs @ item # ys) \<and> map_of (xs @ item # ys) = (map_of items)(fst item \<mapsto> snd item)"
proof -
  obtain at where at: "binary_search items (fst item) = Inl at"
    using binary_search_iff [OF assms(1), of "fst item"] assms(2)
    by (cases "binary_search items (fst item)") auto
  obtain xs ys where xy: "items = xs @ ys" "at = length xs" "\<forall>x \<in> set xs. fst x < fst item"
    "\<forall>y \<in> set ys. fst item < fst y"
    using binary_search_split [OF assms(1), of "fst item"] at by auto
  have "insert_unbounded items item = Ok (xs @ item # ys)"
    using xy at by (simp add: insert_unbounded_def)
  moreover have "ordered_items (xs @ item # ys)"
    using assms(1) xy by (auto simp: ordered_items_def sorted_wrt_append)
  moreover have "map_of xs (fst item) = None"
    using xy(3) by (auto simp: map_of_eq_None_iff)
  then have "map_of (xs @ item # ys) = (map_of items)(fst item \<mapsto> snd item)"
    by (auto simp: fun_eq_iff xy(1) map_add_def split: option.splits)
  ultimately show ?thesis using xy(1) by blast
qed

lemma insert_unbounded_dup:
  assumes "ordered_items items" and "map_of items (fst item) \<noteq> None"
  shows "insert_unbounded items item = Err duplicate_key"
  using binary_search_iff [OF assms(1), of "fst item"] assms(2) by (auto simp: insert_unbounded_def)

lemma leaf_delete_there:
  assumes "ordered_items items" and "map_of items key = Some d"
  shows "\<exists>xs ys. items = xs @ (key, d) # ys \<and> leaf_delete items key = Ok (xs @ ys) \<and>
    ordered_items (xs @ ys) \<and> map_of (xs @ ys) = (map_of items)(key := None)"
proof -
  obtain at where at: "binary_search items key = Inr at"
    using binary_search_iff [OF assms(1), of key] assms(2) by auto
  obtain xs d' ys where xy: "items = xs @ (key, d') # ys" "at = length xs"
    using binary_search_split [OF assms(1), of key] at by auto
  have dist: "key \<notin> fst ` set xs" "key \<notin> fst ` set ys"
    using ordered_distinct [OF assms(1)] xy(1) by auto
  then have n: "map_of xs key = None" "map_of ys key = None"
    by (simp_all add: map_of_eq_None_iff)
  have "d' = d"
    using assms(2) n by (simp add: xy(1) map_add_def)
  moreover have "leaf_delete items key = Ok (xs @ ys)"
    using xy at by (simp add: leaf_delete_def)
  moreover have "ordered_items (xs @ ys)"
    using assms(1) xy by (auto simp: ordered_items_def sorted_wrt_append)
  moreover have "map_of (xs @ ys) = (map_of items)(key := None)"
    using n by (auto simp: fun_eq_iff xy(1) map_add_def split: option.splits)
  ultimately show ?thesis using xy(1) by blast
qed

lemma leaf_delete_missing:
  assumes "ordered_items items" and "map_of items key = None"
  shows "\<not> is_ok (leaf_delete items key)"
  using binary_search_iff [OF assms(1), of key] assms(2)
  by (cases "binary_search items key") (auto simp: leaf_delete_def)

interpretation leaf: item_store insert_unbounded leaf_delete map_of ordered_items
proof unfold_locales
  show "\<exists>s'. insert_unbounded s i = Ok s' \<and> ordered_items s' \<and> map_of s' = (map_of s)(fst i \<mapsto> snd i)"
    if "ordered_items s" "map_of s (fst i) = None" for s i
    using insert_unbounded_new [OF that] by blast
  show "insert_unbounded s i = Err duplicate_key" if "ordered_items s" "map_of s (fst i) \<noteq> None" for s i
    by (rule insert_unbounded_dup [OF that])
  show "\<exists>s'. leaf_delete s k = Ok s' \<and> ordered_items s' \<and> map_of s' = (map_of s)(k := None)"
    if "ordered_items s" "map_of s k \<noteq> None" for s k
    using leaf_delete_there [OF that(1)] that(2) by blast
  show "\<not> is_ok (leaf_delete s k)" if "ordered_items s" "map_of s k = None" for s k
    by (rule leaf_delete_missing [OF that])
qed

text \<open>\<open>insert\<close> is the unbounded insertion behind a check of the size of what it makes.\<close>

lemma leaf_insert_eq:
  "leaf_insert nodesize items item =
     try_in (insert_unbounded items item) (\<lambda>out.
     if fit nodesize out then Ok out else Err (UnsupportedFeature ''the item does not fit''))"
  by (auto simp: leaf_insert_def insert_unbounded_def fit_def Let_def split: sum.split)

lemma space_perm: "mset xs = mset ys \<Longrightarrow> space_needed xs = space_needed ys"
  unfolding space_needed_def by (metis mset_map sum_mset_sum_list)

lemma fits_insert:
  "ordered_items items \<Longrightarrow> insert_unbounded items item = Ok out \<Longrightarrow> fits nodesize items item = fit nodesize out"
  using insert_unbounded_new [of items item] insert_unbounded_dup [of items item]
    space_perm [of out "items @ [item]"]
  by (cases "map_of items (fst item)") (auto simp: fits_def fit_def)

section \<open>Edits refine map updates\<close>






lemma ordered_map_inj:
  "ordered_items xs \<Longrightarrow> ordered_items ys \<Longrightarrow> map_of xs = map_of ys \<Longrightarrow> xs = ys"
proof -
  assume o: "ordered_items xs" "ordered_items ys" and m: "map_of xs = map_of ys"
  have "set xs = set ys"
    using m ordered_distinct [OF o(1)] ordered_distinct [OF o(2)]
    by (metis map_of_eq_Some_iff surj_pair subset_antisym subsetI)
  moreover have "inj_on fst (set xs \<union> set ys)"
    using ordered_distinct [OF o(1)] calculation by (simp add: distinct_map)
  ultimately show ?thesis
    using o by (intro map_sorted_distinct_set_unique [of fst]) (simp_all add: ordered_items_def strict_sorted_iff)
qed



section \<open>Divisions that fit\<close>

definition halves_fit :: "u32 \<Rightarrow> leaf_item list \<Rightarrow> nat \<Rightarrow> bool" where
  "halves_fit ns items at \<longleftrightarrow> fit ns (take at items) \<and> fit ns (drop at items)"

definition gap_at :: "leaf_item list \<Rightarrow> nat \<Rightarrow> nat" where
  "gap_at items at = abs_diff (space_needed (take at items)) (space_needed (drop at items))"

definition best_of :: "u32 \<Rightarrow> leaf_item list \<Rightarrow> nat set \<Rightarrow> (nat \<times> nat) option \<Rightarrow> bool" where
  "best_of ns items ats best \<longleftrightarrow>
     (case best of
        None \<Rightarrow> \<forall>at \<in> ats. \<not> halves_fit ns items at
      | Some (at, g) \<Rightarrow> at \<in> ats \<and> halves_fit ns items at \<and> g = gap_at items at \<and>
          (\<forall>at' \<in> ats. halves_fit ns items at' \<longrightarrow> g \<le> gap_at items at'))"

definition improve :: "u32 \<Rightarrow> leaf_item list \<Rightarrow> (nat \<times> nat) option \<Rightarrow> nat \<Rightarrow> (nat \<times> nat) option" where
  "improve ns items best at =
     (if \<not> halves_fit ns items at then best
      else if (case best of None \<Rightarrow> True | Some (_, g) \<Rightarrow> gap_at items at < g) then Some (at, gap_at items at)
      else best)"

lemma best_pair_Cons: "best_pair ns items (at # rest) best = best_pair ns items rest (improve ns items best at)"
  by (cases best) (auto simp: improve_def halves_fit_def gap_at_def Let_def)

lemma best_of_improve: "best_of ns items ats best \<Longrightarrow> best_of ns items (insert at ats) (improve ns items best at)"
  by (cases best) (auto simp: best_of_def improve_def split: if_splits)

lemma best_pair_best:
  "best_of ns items ats best \<Longrightarrow> best_of ns items (set rest \<union> ats) (best_pair ns items rest best)"
proof (induction rest arbitrary: best ats)
  case (Cons at rest)
  then show ?case
    using Cons.IH [OF best_of_improve [OF Cons.prems]] by (simp only: best_pair_Cons) simp
qed simp

lemma space_snoc: "space_needed (xs @ [x]) = space_needed xs + item_space x"
  by (simp add: space_needed_def)

lemma space_one: "space_needed [x] = HEADER_SIZE + item_space x"
  by (simp add: space_needed_def)

lemma slice_snoc: "start \<le> at \<Longrightarrow> at < length xs \<Longrightarrow> slice start (Suc at - start) xs = slice start (at - start) xs @ [xs ! at]"
  by (simp add: slice_def Suc_diff_le take_Suc_conv_app_nth)

lemma fill_leaves_Ok:
  assumes "fill_leaves ns items (enumerate at (drop at items)) start used leaves = Ok out"
    and "used = space_needed (slice start (at - start) items)" and "start \<le> at" and "at \<le> length items"
    and "used \<le> unat ns" and "start < at \<or> start = 0 \<and> at = 0"
    and "concat leaves = take start items" and "\<forall>l \<in> set leaves. l \<noteq> [] \<and> fit ns l" and "items \<noteq> []"
  shows "concat out = items \<and> (\<forall>l \<in> set out. l \<noteq> [] \<and> fit ns l)"
  using assms
proof (induction "length items - at" arbitrary: at start used leaves)
  case 0
  then have "at = length items" by simp
  then have "out = leaves @ [drop start items]" "slice start (at - start) items = drop start items"
    using 0 by (simp_all add: slice_def)
  then show ?case
    using 0 by (auto simp: fit_def)
next
  case (Suc n)
  then have lt: "at < length items" by simp
  have en: "enumerate at (drop at items) = (at, items ! at) # enumerate (Suc at) (drop (Suc at) items)"
    using lt by (simp add: Cons_nth_drop_Suc [symmetric])
  let ?size = "item_space (items ! at)"
  have ok: "HEADER_SIZE + ?size \<le> unat ns"
    using Suc.prems(1) by (auto simp: en Let_def split: if_splits)
  show ?case
  proof (cases "used + ?size > unat ns")
    case True
    have "start < at"
      using Suc.prems(6) True ok Suc.prems(2) by (auto simp: space_needed_def slice_def)
    have one: "slice at (Suc at - at) items = [items ! at]"
      using lt by (simp add: slice_def Cons_nth_drop_Suc [symmetric])
    show ?thesis
    proof (rule Suc.hyps(1) [of "Suc at" at "HEADER_SIZE + ?size" "leaves @ [slice start (at - start) items]"])
      show "fill_leaves ns items (enumerate (Suc at) (drop (Suc at) items)) at (HEADER_SIZE + ?size)
          (leaves @ [slice start (at - start) items]) = Ok out"
        using Suc.prems(1) True ok by (simp add: en Let_def)
      show "HEADER_SIZE + ?size = space_needed (slice at (Suc at - at) items)"
        by (simp only: one space_one)
      have "take start items @ slice start (at - start) items = take at items"
        using \<open>start < at\<close> by (simp add: slice_def take_add [symmetric])
      then show "concat (leaves @ [slice start (at - start) items]) = take at items"
        using Suc.prems(7) by simp
      show "\<forall>l \<in> set (leaves @ [slice start (at - start) items]). l \<noteq> [] \<and> fit ns l"
        using Suc.prems(2,5,8) \<open>start < at\<close> lt by (auto simp: fit_def simp flip: length_greater_0_conv)
    qed (use Suc lt ok in auto)
  next
    case False
    show ?thesis
    proof (rule Suc.hyps(1) [of "Suc at" start "used + ?size" leaves])
      show "fill_leaves ns items (enumerate (Suc at) (drop (Suc at) items)) start (used + ?size) leaves = Ok out"
        using Suc.prems(1) False ok by (simp add: en Let_def)
      show "used + ?size = space_needed (slice start (Suc at - start) items)"
        using Suc.prems(2,3) lt by (simp only: slice_snoc space_snoc)
    qed (use Suc lt False in auto)
  qed
qed

lemma fill_leaves_is_ok:
  "is_ok (fill_leaves ns items ats start used leaves) \<longleftrightarrow> (\<forall>x \<in> snd ` set ats. fit ns [x])"
  by (induction ns items ats start used leaves rule: fill_leaves.induct)
    (auto simp: Let_def fit_def space_one)

text \<open>
  C20. Dividing a leaf: \<open>split_to_fit\<close> succeeds exactly when there are two items or more and each
  fits a leaf of its own; and then it returns non-empty leaves that each fit and together are
  the list in its order. When two leaves can hold the list it returns two, and no other division into
  two that fit is closer in size.
\<close>

theorem split_to_fit_correct:
  "(case split_to_fit ns items of
      Inr leaves \<Rightarrow> concat leaves = items \<and> (\<forall>l \<in> set leaves. l \<noteq> [] \<and> fit ns l) \<and> 2 \<le> length items \<and>
        (\<forall>at. 0 < at \<longrightarrow> at < length items \<longrightarrow> fit ns (take at items) \<longrightarrow> fit ns (drop at items) \<longrightarrow>
           (\<exists>l r. leaves = [l, r] \<and>
              abs_diff (space_needed l) (space_needed r) \<le>
              abs_diff (space_needed (take at items)) (space_needed (drop at items))))
    | Inl e \<Rightarrow> length items < 2 \<or> (\<exists>x \<in> set items. \<not> fit ns [x]))"
proof (cases "length items < 2")
  case True
  then show ?thesis by (simp add: split_to_fit_def)
next
  case False
  have best: "best_of ns items (set [1..<length items]) (best_pair ns items [1..<length items] None)"
    using best_pair_best [of ns items "{}" None "[1..<length items]"] by (simp add: best_of_def)
  show ?thesis
  proof (cases "best_pair ns items [1..<length items] None")
    case None
    have no: "\<forall>at \<in> set [1..<length items]. \<not> halves_fit ns items at"
      using best None by (simp add: best_of_def)
    have en: "enumerate 0 items = enumerate 0 (drop 0 items)" by simp
    have s: "split_to_fit ns items = fill_leaves ns items (enumerate 0 items) 0 HEADER_SIZE []"
      using False None by (simp add: split_to_fit_def)
    have ok: "is_ok (split_to_fit ns items) \<longleftrightarrow> (\<forall>x \<in> set items. fit ns [x])"
      by (simp only: s fill_leaves_is_ok) (simp flip: set_map)
    show ?thesis
    proof (cases "split_to_fit ns items")
      case (Inl e)
      then show ?thesis using ok by auto
    next
      case (Inr leaves)
      have ne: "items \<noteq> []" using False by auto
      have "fit ns [hd items]" using ok Inr ne by simp
      then have "HEADER_SIZE \<le> unat ns" by (simp add: fit_def space_one)
      then have "concat leaves = items \<and> (\<forall>l \<in> set leaves. l \<noteq> [] \<and> fit ns l)"
        using Inr ne unfolding s en
        by (intro fill_leaves_Ok [where at = 0 and start = 0 and leaves = "[]" and used = HEADER_SIZE])
          (simp_all add: space_needed_def slice_def)
      then show ?thesis
        using Inr False no by (auto simp: halves_fit_def)
    qed
  next
    case (Some b)
    obtain at g where b: "b = (at, g)" by fastforce
    have at: "halves_fit ns items at" "0 < at" "at < length items" "g = gap_at items at"
      "\<forall>at' \<in> set [1..<length items]. halves_fit ns items at' \<longrightarrow> g \<le> gap_at items at'"
      using best Some b by (auto simp: best_of_def)
    have "split_to_fit ns items = Ok [take at items, drop at items]"
      using False Some b by (simp add: split_to_fit_def)
    then show ?thesis
      using at False by (auto simp: halves_fit_def gap_at_def)
  qed
qed

text \<open>
  Dividing by count does not keep a leaf inside its block: a list one item too big for a 4096-byte
  leaf whose left half is still too big. \<open>insert_or_split\<close> returns it as a leaf.
\<close>

lemma insert_or_split_overfull:
  "\<exists>items item left right. fit 4096 items \<and> fit 4096 [item] \<and> ordered_items items \<and>
     insert_or_split 4096 items item = Ok [left, right] \<and> \<not> fit 4096 left"
proof -
  let ?a = "(DiskKey 1 1 0, replicate 3800 0)" and ?b = "(DiskKey 3 1 0, [0])"
  let ?c = "(DiskKey 2 1 0, replicate 200 0)"
  have o: "ordered_items [?a, ?b]"
    by (simp add: ordered_items_def less_disk_key_def key_before_def)
  have f: "fit 4096 [?a, ?b]" "fit 4096 [?c]" "\<not> fits 4096 [?a, ?b] ?c" "\<not> fit 4096 [?a, ?c]"
    by (simp_all add: fit_def fits_def space_needed_def item_space_def)
  have b: "binary_search [?a, ?b] (fst ?c) = Inl 1"
    by (simp add: binary_search_def partition_point_def key_order_def cmp_def less_disk_key_def key_before_def)
  have s: "split_items [?a, ?c, ?b] = Ok ([?a, ?c], [?b])"
    by (simp add: split_items_def)
  have "insert_or_split 4096 [?a, ?b] ?c = Ok [[?a, ?c], [?b]]"
    using f(3) b s unfolding insert_or_split_def by simp
  with f o show ?thesis by blast
qed

theorem split_to_fit_correct_witness:
  "\<exists>l r. split_to_fit 200 [(DiskKey 1 1 0, replicate 40 0), (DiskKey 2 1 0, replicate 30 0)] = Ok [l, r] \<and>
     concat [l, r] = [(DiskKey 1 1 0, replicate 40 0), (DiskKey 2 1 0, replicate 30 0)]"
proof -
  let ?a = "(DiskKey 1 1 0, replicate 40 0)" and ?b = "(DiskKey 2 1 0, replicate 30 0)"
  have f: "fit 200 [?a]" "fit 200 [?b]"
    by (simp_all add: fit_def space_needed_def item_space_def)
  have ok: "\<not> (length [?a, ?b] < 2 \<or> (\<exists>x \<in> set [?a, ?b]. \<not> fit 200 [x]))"
    using f by simp
  then obtain leaves where lv: "split_to_fit 200 [?a, ?b] = Ok leaves"
    using split_to_fit_correct [where ns = 200 and items = "[?a, ?b]"]
    by (auto split: sum.splits)
  have "concat leaves = [?a, ?b]" and "\<exists>l r. leaves = [l, r]"
    using split_to_fit_correct [where ns = 200 and items = "[?a, ?b]"] f by (auto simp: lv dest!: spec [of _ "Suc 0"])
  then show ?thesis
    using lv by auto
qed

end
