(* ===== verification/TreeWrite.thy ===== *)
theory TreeWrite
  imports LeafEdit
begin

text \<open>
  \<open>src/src/tree_write.rs\<close>: building the bytes of a leaf and of a node, the header both open with,
  and the checksum that is stamped last. The lemmas are round trips: what is built parses back to
  the very items or pointers it was built from.
\<close>

section \<open>Headers\<close>

record block_identity =
  bi_bytenr :: u64
  bi_owner :: u64
  bi_generation :: u64
  bi_level :: u8
  bi_flags :: u64
  bi_chunk_tree_uuid :: bytes

abbreviation (input) MIXED_BACKREF_REV :: u64 where
  "MIXED_BACKREF_REV \<equiv> 1"

definition flags_for_new_block :: u64 where
  "flags_for_new_block = HEADER_FLAG_WRITTEN OR push_bit BACKREF_REV_SHIFT MIXED_BACKREF_REV"

definition chunk_tree_uuid_of :: "bytes \<Rightarrow> bytes" where
  "chunk_tree_uuid_of block = slice H_CHUNK_TREE_UUID 16 block"

definition write_header :: "superblock \<Rightarrow> block_identity \<Rightarrow> u32 \<Rightarrow> bytes \<Rightarrow> bytes" where
  "write_header sb ident nritems block =
     (let block = put_at H_FSID (node_uuid sb) block;
          block = put_at H_BYTENR (u64_bytes (bi_bytenr ident)) block;
          block = put_at H_FLAGS (u64_bytes (bi_flags ident)) block;
          block = put_at H_CHUNK_TREE_UUID (bi_chunk_tree_uuid ident) block;
          block = put_at H_GENERATION (u64_bytes (bi_generation ident)) block;
          block = put_at H_OWNER (u64_bytes (bi_owner ident)) block;
          block = put_at H_NRITEMS (u32_bytes nritems) block
      in put_at H_LEVEL [bi_level ident] block)"

definition stamp_checksum :: "hash_lib \<Rightarrow> superblock \<Rightarrow> bytes \<Rightarrow> bytes" where
  "stamp_checksum H sb block = put_at 0 (digest H (sb_csum_type sb) (drop CSUM_SIZE block)) block"

section \<open>Leaves and nodes\<close>

fun windows_ordered :: "disk_key list \<Rightarrow> bool" where
  "windows_ordered (a # b # rest) = (key_before a b \<and> windows_ordered (b # rest))"
| "windows_ordered _ = True"

text \<open>The loop over the items: item \<open>i\<close> in the array, its data ending where the last began.\<close>

fun write_items :: "leaf_item list \<Rightarrow> nat \<Rightarrow> nat \<Rightarrow> bytes \<Rightarrow> bytes" where
  "write_items [] i dend block = block"
| "write_items ((key, data) # rest) i dend block =
     (let at = LEAF_DATA_OFFSET + i * ITEM_SIZE;
          dend = dend - length data;
          block = put_at at (key_bytes key) block;
          offset = of_nat (dend - LEAF_DATA_OFFSET) :: u32;
          block = put_at (at + DISK_KEY_SIZE) (u32_bytes offset) block;
          block = put_at (at + DISK_KEY_SIZE + 4) (u32_bytes (of_nat (length data))) block;
          block = put_at dend data block
      in write_items rest (i + 1) dend block)"

definition build_leaf :: "hash_lib \<Rightarrow> superblock \<Rightarrow> block_identity \<Rightarrow> leaf_item list \<Rightarrow> bytes result" where
  "build_leaf H sb ident items =
     (let nodesize = unat (sb_nodesize sb) in
      if bi_level ident \<noteq> 0 then Err (UnsupportedFeature ''a leaf is level 0 by definition'')
      else if space_needed items > nodesize then
        Err (UnsupportedFeature ''the items need more bytes than a tree block holds'')
      else if \<not> windows_ordered (map fst items) then
        Err (UnsupportedFeature ''leaf items are out of order'')
      else
        let block = write_header sb ident (of_nat (length items)) (replicate nodesize 0)
        in Ok (stamp_checksum H sb (write_items items 0 nodesize block)))"

definition key_ptr_capacity :: "superblock \<Rightarrow> nat" where
  "key_ptr_capacity sb = (unat (sb_nodesize sb) - HEADER_SIZE) div KEY_PTR_SIZE"

fun write_ptrs :: "key_ptr list \<Rightarrow> nat \<Rightarrow> bytes \<Rightarrow> bytes" where
  "write_ptrs [] i block = block"
| "write_ptrs (p # rest) i block =
     (let at = LEAF_DATA_OFFSET + i * KEY_PTR_SIZE;
          block = put_at at (key_bytes (kp_key p)) block;
          block = put_at (at + DISK_KEY_SIZE) (u64_bytes (kp_blockptr p)) block;
          block = put_at (at + DISK_KEY_SIZE + 8) (u64_bytes (kp_generation p)) block
      in write_ptrs rest (i + 1) block)"

definition build_node :: "hash_lib \<Rightarrow> superblock \<Rightarrow> block_identity \<Rightarrow> key_ptr list \<Rightarrow> bytes result" where
  "build_node H sb ident ptrs =
     (if bi_level ident = 0 then
        Err (UnsupportedFeature ''a node holding key pointers cannot be at level 0'')
      else if length ptrs > key_ptr_capacity sb then
        Err (UnsupportedFeature ''more key pointers than a node holds'')
      else if \<not> windows_ordered (map kp_key ptrs) then
        Err (UnsupportedFeature ''node key pointers are out of order'')
      else
        let block = write_header sb ident (of_nat (length ptrs)) (replicate (unat (sb_nodesize sb)) 0)
        in Ok (stamp_checksum H sb (write_ptrs ptrs 0 block)))"

section \<open>What was written is read back\<close>

lemma windows_ordered_iff: "windows_ordered ks \<longleftrightarrow> strictly_sorted ks"
proof (induction ks rule: windows_ordered.induct)
  case (1 a b rest)
  have "(\<forall>x \<in> set (b # rest). a < x) \<longleftrightarrow> a < b" if "strictly_sorted (b # rest)"
    using that by (auto intro: less_trans)
  then show ?case
    using 1 by (auto simp: key_before_iff)
qed simp_all

lemma put_at_append:
  "off + length a + length b \<le> length xs \<Longrightarrow> put_at (off + length a) b (put_at off a xs) = put_at off (a @ b) xs"
  by (simp add: put_at_def ac_simps)

text \<open>A place in the block as an item records it, and back.\<close>

definition rel :: "nat \<Rightarrow> nat" where
  "rel at = at - LEAF_DATA_OFFSET"

lemma unat_of_nat_u32: "n < 4294967296 \<Longrightarrow> unat (of_nat n :: u32) = n"
  by (simp add: unat_of_nat)

lemma unat_rel: "at < 4294967296 \<Longrightarrow> unat (of_nat (rel at) :: u32) = rel at"
  by (rule unat_of_nat_u32) (simp add: rel_def)

lemma rel_back: "LEAF_DATA_OFFSET \<le> at \<Longrightarrow> LEAF_DATA_OFFSET + rel at = at"
  by (simp add: rel_def)

definition item_record :: "disk_key \<Rightarrow> nat \<Rightarrow> nat \<Rightarrow> bytes" where
  "item_record key offset sz = key_bytes key @ u32_bytes (of_nat offset) @ u32_bytes (of_nat sz)"

lemma length_item_record [simp]: "length (item_record k a b) = 25"
  by (simp add: item_record_def)

lemma item_parse_record:
  assumes "slice at 25 b = item_record key offset sz" and "at + 25 \<le> length b"
  shows "item_parse (drop at b) = Ok \<lparr>it_key = key, it_offset = of_nat offset, it_size = of_nat sz\<rparr>"
proof -
  have d: "drop at b = key_bytes key @ u32_bytes (of_nat offset) @ u32_bytes (of_nat sz) @ drop (at + 25) b"
    using assms unfolding item_record_def slice_def
    by (metis append.assoc append_take_drop_id drop_drop add.commute)
  show ?thesis
    using assms(2) le_append_same(2) [of "key_bytes key" 17 "of_nat offset" "u32_bytes (of_nat sz) @ drop (at + 25) b"]
      le_append_same(2) [of "key_bytes key @ u32_bytes (of_nat offset)" 21 "of_nat sz" "drop (at + 25) b"]
    by (simp add: item_parse_def d disk_key_parse_bytes)
qed

definition put_item :: "nat \<Rightarrow> nat \<Rightarrow> leaf_item \<Rightarrow> bytes \<Rightarrow> bytes" where
  "put_item at start item block =
     put_at start (snd item) (put_at at (item_record (fst item) (rel start) (length (snd item))) block)"

lemma write_items_Cons:
  assumes "LEAF_DATA_OFFSET + i * ITEM_SIZE + 25 \<le> length block"
  shows "write_items (item # rest) i stop block =
    write_items rest (Suc i) (stop - length (snd item))
      (put_item (LEAF_DATA_OFFSET + i * ITEM_SIZE) (stop - length (snd item)) item block)"
proof -
  let ?at = "LEAF_DATA_OFFSET + i * ITEM_SIZE" and ?k = "key_bytes (fst item)"
  let ?o = "u32_bytes (of_nat (rel (stop - length (snd item))))"
  let ?s = "u32_bytes (of_nat (length (snd item)))"
  have "put_at (?at + 17) ?o (put_at ?at ?k block) = put_at ?at (?k @ ?o) block"
    using put_at_append [of ?at ?k ?o block] assms by simp
  moreover have "put_at (?at + 17 + 4) ?s (put_at ?at (?k @ ?o) block) = put_at ?at (item_record (fst item) (rel (stop - length (snd item))) (length (snd item))) block"
    using put_at_append [of ?at "?k @ ?o" ?s block] assms by (simp add: item_record_def rel_def add.assoc)
  ultimately show ?thesis
    by (cases item) (simp add: put_item_def Let_def rel_def)
qed

text \<open>The index entries the items get, and where their data lies.\<close>

fun laid :: "nat \<Rightarrow> leaf_item list \<Rightarrow> item list" where
  "laid stop [] = []"
| "laid stop ((key, data) # rest) =
     \<lparr>it_key = key, it_offset = of_nat (rel (stop - length data)), it_size = of_nat (length data)\<rparr>
     # laid (stop - length data) rest"

definition data_total :: "leaf_item list \<Rightarrow> nat" where
  "data_total items = sum_list (map (length \<circ> snd) items)"

lemma data_total_simps [simp]: "data_total [] = 0" "data_total (x # xs) = length (snd x) + data_total xs"
  by (simp_all add: data_total_def)

lemma length_put_item [simp]:
  "at + 25 \<le> length block \<Longrightarrow> start + length (snd item) \<le> length block \<Longrightarrow>
   length (put_item at start item block) = length block"
  by (simp add: put_item_def)

lemma write_items_reads:
  assumes "LEAF_DATA_OFFSET + (i + length items) * ITEM_SIZE + data_total items \<le> stop" and "stop \<le> length block"
    and "length block < 4294967296"
  shows "length (write_items items i stop block) = length block \<and>
    (\<forall>a n. a + n \<le> LEAF_DATA_OFFSET + i * ITEM_SIZE \<or> stop \<le> a \<longrightarrow>
       slice a n (write_items items i stop block) = slice a n block) \<and>
    list_all2 (\<lambda>j it. item_parse (drop (LEAF_DATA_OFFSET + j * ITEM_SIZE) (write_items items i stop block)) = Ok it)
      [i..<i + length items] (laid stop items) \<and>
    map (item_bytes (write_items items i stop block)) (laid stop items) = map snd items"
  using assms
proof (induction items arbitrary: i stop block)
  case Nil
  then show ?case by simp
next
  case (Cons item rest)
  obtain key data where item: "item = (key, data)" by fastforce
  let ?at = "LEAF_DATA_OFFSET + i * ITEM_SIZE" and ?s = "stop - length data"
  let ?b1 = "put_item ?at ?s item block"
  let ?b2 = "write_items (item # rest) i stop block"
  have fit: "?at + 25 + length rest * ITEM_SIZE + data_total rest + length data \<le> stop"
    using Cons.prems(1) by (simp add: item algebra_simps)
  then have len: "length ?b1 = length block" and at: "?at + 25 \<le> length block"
    using Cons.prems(2) by (simp_all add: item)
  have b2: "?b2 = write_items rest (Suc i) ?s ?b1"
    using write_items_Cons [of i block item rest stop] at by (simp add: item)
  have pre: "LEAF_DATA_OFFSET + (Suc i + length rest) * ITEM_SIZE + data_total rest \<le> ?s" "?s \<le> length ?b1"
    using fit Cons.prems(2) len by (simp_all add: algebra_simps)
  have len32: "length ?b1 < 4294967296" using len Cons.prems(3) by simp
  note ih = Cons.IH [OF pre len32, folded b2]
  have l2: "length ?b2 = length block" using ih len by simp
  have keep: "slice a n ?b2 = slice a n ?b1" if "a + n \<le> ?at + 25 \<or> ?s \<le> a" for a n
    using ih that by (auto simp: algebra_simps)
  have b1_at: "slice ?at 25 ?b1 = item_record key (rel ?s) (length data)"
    using fit Cons.prems(2) by (simp add: put_item_def item slice_put_disjoint slice_put_same)
  have rec: "item_parse (drop ?at ?b2) =
      Ok \<lparr>it_key = key, it_offset = of_nat (rel ?s), it_size = of_nat (length data)\<rparr>"
    using item_parse_record [of ?at ?b2] b1_at keep [of ?at 25] at l2 by simp
  have dat: "slice ?s (length data) ?b2 = data"
    using keep [of ?s "length data"] fit Cons.prems(2) by (simp add: put_item_def item slice_put_same)
  have off: "slice a n ?b2 = slice a n block" if "a + n \<le> ?at \<or> stop \<le> a" for a n
  proof -
    have "a + n \<le> ?at + 25 \<or> ?s \<le> a" using that by linarith
    then have "slice a n ?b2 = slice a n ?b1" by (rule keep)
    also have "\<dots> = slice a n block"
      using that fit Cons.prems(2) by (simp add: put_item_def item) (subst slice_put_disjoint; auto simp: slice_put_disjoint)+
    finally show ?thesis .
  qed
  have u: "unat (of_nat (rel ?s) :: u32) = rel ?s" "unat (of_nat (length data) :: u32) = length data"
    using fit Cons.prems(2,3) by (simp_all add: unat_rel unat_of_nat_u32)
  have it: "item_bytes ?b2 \<lparr>it_key = key, it_offset = of_nat (rel ?s), it_size = of_nat (length data)\<rparr> = data"
    using dat fit by (simp add: item_bytes_def u rel_back)
  have up: "[i..<i + length (item # rest)] = i # [Suc i..<Suc i + length rest]"
    by (simp add: upt_conv_Cons del: upt_Suc)
  show ?case
    unfolding up using l2 off rec it ih by (simp add: item)
qed

lemma laid_facts:
  assumes "LEAF_DATA_OFFSET + low + data_total items \<le> stop" and "stop < 4294967296"
  shows "tiles (rel stop) (laid stop items)"
    and "\<forall>it \<in> set (laid stop items). low \<le> unat (it_offset it) \<and> Btree.data_end it \<le> rel stop"
    and "map it_key (laid stop items) = map fst items"
  using assms
proof (induction items arbitrary: stop)
  case (Cons item rest)
  obtain key data where item: "item = (key, data)" by fastforce
  {
    case 1
    let ?s = "stop - length data"
    have u: "unat (of_nat (rel ?s) :: u32) = rel ?s" "unat (of_nat (length data) :: u32) = length data"
      using 1 item by (simp_all add: unat_rel unat_of_nat_u32)
    show ?case
      using 1 Cons.IH(1) [of ?s] by (simp add: item Btree.data_end_def u) (simp add: rel_def)
  next
    case 2
    let ?s = "stop - length data"
    have u: "unat (of_nat (rel ?s) :: u32) = rel ?s" "unat (of_nat (length data) :: u32) = length data"
      using 2 item by (simp_all add: unat_rel unat_of_nat_u32)
    have "rel ?s \<le> rel stop" "low \<le> rel ?s" "rel ?s + length data \<le> rel stop"
      using 2 item by (simp_all add: rel_def)
    then show ?case
      using 2 Cons.IH(2) [of ?s] by (fastforce simp: item Btree.data_end_def u)
  next
    case 3
    then show ?case
      using Cons.IH(3) [of "stop - length data"] by (simp add: item)
  }
qed simp_all

lemma leaf_items_loop_intro:
  assumes "list_all2 (\<lambda>j it. item_parse (drop (LEAF_DATA_OFFSET + j * ITEM_SIZE) b) = Ok it) idx its"
    and "tiles stop its" and "\<forall>it \<in> set its. Btree.data_end it \<le> lds \<and> ae \<le> unat (it_offset it)"
    and "strictly_sorted (map it_key (acc @ its))"
  shows "leaf_items_loop b lds ae idx stop acc = Ok (acc @ its)"
  using assms
proof (induction arbitrary: stop acc rule: list_all2_induct)
  case (Cons j idx it its)
  have "follows it_key acc it"
    using Cons.prems(3) by (cases acc rule: rev_cases) (auto simp: follows_def compare_keys_simps sorted_wrt_append)
  then show ?case
    using Cons.hyps(1) Cons.prems Cons.IH [of "unat (it_offset it)" "acc @ [it]"] by (auto simp: not_less)
qed simp

text \<open>The header that was written.\<close>

definition wf_ident :: "superblock \<Rightarrow> block_identity \<Rightarrow> bool" where
  "wf_ident sb ident \<longleftrightarrow> length (node_uuid sb) = 16 \<and> length (bi_chunk_tree_uuid ident) = 16"

lemma write_header_reads:
  assumes "wf_ident sb ident" and "HEADER_SIZE \<le> length block"
  shows "length (write_header sb ident n block) = length block"
    and "uuid_at (write_header sb ident n block) H_FSID = node_uuid sb"
    and "le64 (write_header sb ident n block) H_BYTENR = bi_bytenr ident"
    and "le64 (write_header sb ident n block) H_FLAGS = bi_flags ident"
    and "uuid_at (write_header sb ident n block) H_CHUNK_TREE_UUID = bi_chunk_tree_uuid ident"
    and "le64 (write_header sb ident n block) H_GENERATION = bi_generation ident"
    and "le64 (write_header sb ident n block) H_OWNER = bi_owner ident"
    and "le32 (write_header sb ident n block) H_NRITEMS = n"
    and "write_header sb ident n block ! H_LEVEL = bi_level ident"
  using assms by (auto simp: write_header_def wf_ident_def Let_def byte_simps)

lemma stamp_checksum_reads:
  assumes "wf_hash_lib H" and "CSUM_SIZE \<le> length block"
  shows "length (stamp_checksum H sb block) = length block"
    and "CSUM_SIZE \<le> a \<Longrightarrow> slice a k (stamp_checksum H sb block) = slice a k block"
    and "CSUM_SIZE \<le> a \<Longrightarrow> drop a (stamp_checksum H sb block) = drop a block"
    and "CSUM_SIZE \<le> a \<Longrightarrow> a < length block \<Longrightarrow> stamp_checksum H sb block ! a = block ! a"
    and "slice 0 CSUM_SIZE (stamp_checksum H sb block) = digest H (sb_csum_type sb) (drop CSUM_SIZE block)"
  using assms length_digest [OF assms(1)]
  by (simp_all add: stamp_checksum_def byte_simps) (simp add: put_at_def)

lemma stamped_header:
  assumes H: "wf_hash_lib H" and id: "wf_ident sb ident" and len: "HEADER_SIZE \<le> length body"
    and hd: "\<And>a k. a + k \<le> HEADER_SIZE \<Longrightarrow> slice a k body = slice a k (write_header sb ident n block)"
    and lb: "length block = length body"
  shows "header_parse (stamp_checksum H sb body) =
    Ok \<lparr>hd_csum = digest H (sb_csum_type sb) (drop CSUM_SIZE body), hd_fsid = node_uuid sb,
        hd_bytenr = bi_bytenr ident, hd_flags = bi_flags ident, hd_chunk_tree_uuid = bi_chunk_tree_uuid ident,
        hd_generation = bi_generation ident, hd_owner = bi_owner ident, hd_nritems = n, hd_level = bi_level ident\<rparr>"
proof -
  let ?s = "stamp_checksum H sb body"
  have c: "CSUM_SIZE \<le> length body" using len by simp
  note st = stamp_checksum_reads [OF H c, where sb = sb]
  note wh = write_header_reads [OF id, of block n] 
  have l: "HEADER_SIZE \<le> length block" using len lb by simp
  have r: "le64 ?s a = le64 (write_header sb ident n block) a" if "CSUM_SIZE \<le> a" "a + 8 \<le> HEADER_SIZE" for a
    using that st(2) hd by (simp add: le64_def)
  have r32: "le32 ?s a = le32 (write_header sb ident n block) a" if "CSUM_SIZE \<le> a" "a + 4 \<le> HEADER_SIZE" for a
    using that st(2) hd by (simp add: le32_def)
  have ru: "uuid_at ?s a = uuid_at (write_header sb ident n block) a" if "CSUM_SIZE \<le> a" "a + 16 \<le> HEADER_SIZE" for a
    using that st(2) hd by (simp add: uuid_at_def)
  have one: "xs ! a = hd (slice a 1 xs)" if "a < length xs" for a and xs :: bytes
    using that by (simp add: slice_def hd_drop_conv_nth)
  have lv: "?s ! H_LEVEL = write_header sb ident n block ! H_LEVEL"
    using len l st(1,2) hd [of H_LEVEL 1] wh(1) by (simp add: one)
  show ?thesis
    using len l st(1,5) wh by (simp add: header_parse_def r r32 ru lv)
qed

lemma build_leaf_written:
  assumes H: "wf_hash_lib H" and id: "wf_ident sb ident"
    and ok: "build_leaf H sb ident items = Ok block"
  shows "length block = unat (sb_nodesize sb) \<and> (\<exists>b its. tree_block_parse H block (bi_bytenr ident) (geometry_from_superblock sb) = Ok b \<and>
    tb_body b = LeafBody its \<and> leaf_items b its = items \<and>
    hd_generation (tb_header b) = bi_generation ident \<and> hd_owner (tb_header b) = bi_owner ident \<and>
    hd_flags (tb_header b) = bi_flags ident \<and> hd_level (tb_header b) = 0)"
proof -
  let ?ns = "unat (sb_nodesize sb)"
  let ?z = "replicate ?ns (0::u8)"
  let ?n = "of_nat (length items) :: u32"
  let ?h = "write_header sb ident ?n ?z"
  let ?w = "write_items items 0 ?ns ?h"
  let ?g = "geometry_from_superblock sb"
  have lvl: "bi_level ident = 0" and sp: "space_needed items \<le> ?ns"
    and srt: "strictly_sorted (map fst items)" and block: "block = stamp_checksum H sb ?w"
    using ok by (auto simp: build_leaf_def Let_def windows_ordered_iff not_less split: if_splits)
  have space: "space_needed items = HEADER_SIZE + length items * ITEM_SIZE + data_total items"
    unfolding space_needed_def by (induction items) (simp_all add: item_space_def)
  have ns32: "?ns < 4294967296" by (rule unat_u32)
  have hs: "HEADER_SIZE \<le> length ?z" using sp space by simp
  note wh = write_header_reads [OF id hs, of ?n]
  have pre: "LEAF_DATA_OFFSET + (0 + length items) * ITEM_SIZE + data_total items \<le> ?ns" "?ns \<le> length ?h"
    "length ?h < 4294967296"
    using sp space wh(1) ns32 by simp_all
  note wi = write_items_reads [OF pre]
  have lw: "length ?w = ?ns" using wi wh(1) by simp
  have c: "CSUM_SIZE \<le> length ?w" using lw hs by simp
  note st = stamp_checksum_reads [OF H c, where sb = sb]
  have len: "length block = ?ns" using st(1) lw block by simp
  have keep: "\<And>a k. a + k \<le> HEADER_SIZE \<Longrightarrow> slice a k ?w = slice a k ?h"
    using wi by auto
  have hdr: "header_parse block = Ok \<lparr>hd_csum = digest H (sb_csum_type sb) (drop CSUM_SIZE ?w), hd_fsid = node_uuid sb,
        hd_bytenr = bi_bytenr ident, hd_flags = bi_flags ident, hd_chunk_tree_uuid = bi_chunk_tree_uuid ident,
        hd_generation = bi_generation ident, hd_owner = bi_owner ident, hd_nritems = ?n, hd_level = bi_level ident\<rparr>"
    unfolding block by (rule stamped_header [OF H id _ keep]) (use lw hs in simp_all)
  have sum: "checksum_verify H (sb_csum_type sb) (slice CSUM_SIZE (?ns - CSUM_SIZE) block)
      (digest H (sb_csum_type sb) (drop CSUM_SIZE ?w))"
  proof -
    have "slice CSUM_SIZE (?ns - CSUM_SIZE) block = drop CSUM_SIZE ?w"
      using st(2,3) [of CSUM_SIZE] lw block by (simp add: slice_def)
    then show ?thesis
      using checksum_verify_digest [OF H] by simp
  qed
  have its: "list_all2 (\<lambda>j it. item_parse (drop (LEAF_DATA_OFFSET + j * ITEM_SIZE) block) = Ok it)
      [0..<length items] (laid ?ns items)"
    using wi st(3) by (simp add: block)
  have pre2: "LEAF_DATA_OFFSET + length items * ITEM_SIZE + data_total items \<le> ?ns" using pre(1) by simp
  note lf = laid_facts [OF pre2 ns32]
  have nr: "unat ?n = length items"
    using pre2 ns32 by (intro unat_of_nat_u32) simp
  have loop: "leaf_items_loop block (?ns - LEAF_DATA_OFFSET) (length items * ITEM_SIZE) [0..<length items]
      (?ns - LEAF_DATA_OFFSET) [] = Ok ([] @ laid ?ns items)"
    using lf srt by (intro leaf_items_loop_intro [OF its]) (simp_all add: rel_def)
  have pl: "parse_leaf_items block (length items) ?ns = Ok (laid ?ns items)"
    using loop pre(1) by (simp add: parse_leaf_items_def Let_def)
  obtain b where b: "tree_block_parse H block (bi_bytenr ident) ?g = Ok b" "tb_body b = LeafBody (laid ?ns items)"
    "tb_bytes b = block"
    "hd_generation (tb_header b) = bi_generation ident" "hd_owner (tb_header b) = bi_owner ident"
    "hd_flags (tb_header b) = bi_flags ident" "hd_level (tb_header b) = 0"
    using hdr sum pl len lvl nr
    by (simp add: tree_block_parse_def parse_accepting_def geometry_from_superblock_def Let_def header_is_leaf_def)
  have "map (item_bytes block) (laid ?ns items) = map (item_bytes ?w) (laid ?ns items)"
    using st(2) by (simp add: item_bytes_def block)
  then have "leaf_items b (laid ?ns items) = items"
    using wi lf(3) b(3) by (intro nth_equalityI) (auto simp: leaf_items_def dest: map_eq_imp_length_eq intro!: prod_eqI,
      (metis length_map nth_map)+)
  with b len show ?thesis by blast
qed

text \<open>
  C21. A leaf that is written is a leaf that is read: for items in strict key order that fit, the
  block \<open>build_leaf\<close> makes parses at its address with the volume's geometry, and its items, with
  their data, are the very list it was built from; the header says what the writer was told.
\<close>

theorem build_leaf_parses:
  assumes H: "wf_hash_lib H" and id: "wf_ident sb ident"
    and ok: "build_leaf H sb ident items = Ok block"
  shows "\<exists>b its. tree_block_parse H block (bi_bytenr ident) (geometry_from_superblock sb) = Ok b \<and>
    tb_body b = LeafBody its \<and> leaf_items b its = items \<and>
    hd_generation (tb_header b) = bi_generation ident \<and> hd_owner (tb_header b) = bi_owner ident \<and>
    hd_flags (tb_header b) = bi_flags ident \<and> hd_level (tb_header b) = 0"
  using build_leaf_written [OF assms] by blast

section \<open>Nodes\<close>

definition ptr_record :: "key_ptr \<Rightarrow> bytes" where
  "ptr_record p = key_bytes (kp_key p) @ u64_bytes (kp_blockptr p) @ u64_bytes (kp_generation p)"

lemma length_ptr_record [simp]: "length (ptr_record p) = 33"
  by (simp add: ptr_record_def)

lemma key_ptr_parse_record:
  assumes "slice at 33 b = ptr_record p" and "at + 33 \<le> length b"
  shows "key_ptr_parse (drop at b) = Ok p"
proof -
  have d: "drop at b = key_bytes (kp_key p) @ u64_bytes (kp_blockptr p) @ u64_bytes (kp_generation p) @ drop (at + 33) b"
    using assms unfolding ptr_record_def slice_def
    by (metis append.assoc append_take_drop_id drop_drop add.commute)
  show ?thesis
    using assms(2) le_append_same(1) [of "key_bytes (kp_key p)" 17 "kp_blockptr p" "u64_bytes (kp_generation p) @ drop (at + 33) b"]
      le_append_same(1) [of "key_bytes (kp_key p) @ u64_bytes (kp_blockptr p)" 25 "kp_generation p" "drop (at + 33) b"]
    by (simp add: key_ptr_parse_def d disk_key_parse_bytes)
qed

lemma write_ptrs_Cons:
  assumes "LEAF_DATA_OFFSET + i * KEY_PTR_SIZE + 33 \<le> length block"
  shows "write_ptrs (p # rest) i block =
    write_ptrs rest (Suc i) (put_at (LEAF_DATA_OFFSET + i * KEY_PTR_SIZE) (ptr_record p) block)"
proof -
  let ?at = "LEAF_DATA_OFFSET + i * KEY_PTR_SIZE" and ?k = "key_bytes (kp_key p)"
  let ?b = "u64_bytes (kp_blockptr p)" and ?g = "u64_bytes (kp_generation p)"
  have "put_at (?at + 17) ?b (put_at ?at ?k block) = put_at ?at (?k @ ?b) block"
    using put_at_append [of ?at ?k ?b block] assms by simp
  moreover have "put_at (?at + 17 + 8) ?g (put_at ?at (?k @ ?b) block) = put_at ?at (ptr_record p) block"
    using put_at_append [of ?at "?k @ ?b" ?g block] assms by (simp add: ptr_record_def add.assoc)
  ultimately show ?thesis by (simp add: Let_def)
qed

lemma write_ptrs_reads:
  assumes "LEAF_DATA_OFFSET + (i + length ptrs) * KEY_PTR_SIZE \<le> length block"
  shows "length (write_ptrs ptrs i block) = length block \<and>
    (\<forall>a n. a + n \<le> LEAF_DATA_OFFSET + i * KEY_PTR_SIZE \<longrightarrow>
       slice a n (write_ptrs ptrs i block) = slice a n block) \<and>
    list_all2 (\<lambda>j p. key_ptr_parse (drop (HEADER_SIZE + j * KEY_PTR_SIZE) (write_ptrs ptrs i block)) = Ok p)
      [i..<i + length ptrs] ptrs"
  using assms
proof (induction ptrs arbitrary: i block)
  case (Cons p rest)
  let ?at = "LEAF_DATA_OFFSET + i * KEY_PTR_SIZE"
  let ?b1 = "put_at ?at (ptr_record p) block"
  let ?b2 = "write_ptrs (p # rest) i block"
  have at: "?at + 33 \<le> length block" using Cons.prems by (simp add: algebra_simps)
  have b2: "?b2 = write_ptrs rest (Suc i) ?b1" by (rule write_ptrs_Cons [OF at])
  have len: "length ?b1 = length block" using at by simp
  have pre: "LEAF_DATA_OFFSET + (Suc i + length rest) * KEY_PTR_SIZE \<le> length ?b1"
    using Cons.prems len by (simp add: algebra_simps)
  note ih = Cons.IH [OF pre, folded b2]
  have l2: "length ?b2 = length block" using ih len by simp
  have keep: "slice a n ?b2 = slice a n ?b1" if "a + n \<le> ?at + 33" for a n
    using ih that by (auto simp: algebra_simps)
  have "slice ?at 33 ?b2 = ptr_record p"
    using keep [of ?at 33] at by (simp add: slice_put_same)
  then have rec: "key_ptr_parse (drop ?at ?b2) = Ok p"
    using at l2 by (intro key_ptr_parse_record) simp_all
  have off: "slice a n ?b2 = slice a n block" if "a + n \<le> ?at" for a n
    using keep [of a n] that at by (simp add: slice_put_disjoint)
  have up: "[i..<i + length (p # rest)] = i # [Suc i..<Suc i + length rest]"
    by (simp add: upt_conv_Cons del: upt_Suc)
  show ?case
    unfolding up using l2 off rec ih by simp
qed simp

lemma key_ptrs_loop_intro:
  assumes "list_all2 (\<lambda>j p. key_ptr_parse (drop (HEADER_SIZE + j * KEY_PTR_SIZE) b) = Ok p) idx ps"
    and "\<forall>p \<in> set ps. kp_blockptr p \<noteq> 0" and "strictly_sorted (map kp_key (acc @ ps))"
  shows "key_ptrs_loop b idx acc = Ok (acc @ ps)"
  using assms
proof (induction arbitrary: acc rule: list_all2_induct)
  case (Cons j idx p ps)
  have "follows kp_key acc p"
    using Cons.prems(2) by (cases acc rule: rev_cases) (auto simp: follows_def compare_keys_simps sorted_wrt_append)
  then show ?case
    using Cons.hyps(1) Cons.prems Cons.IH [of "acc @ [p]"] by auto
qed simp

text \<open>
  C22. A node that is written is a node that is read: for pointers in strict key order, at least one
  of them and none to address zero, the block \<open>build_node\<close> makes parses at its address, and its
  pointers are the very list it was built from.
\<close>

theorem build_node_parses:
  assumes H: "wf_hash_lib H" and id: "wf_ident sb ident" and ns: "HEADER_SIZE \<le> unat (sb_nodesize sb)"
    and lv: "bi_level ident < MAX_LEVEL" and ne: "ptrs \<noteq> []" and nz: "0 \<notin> set (map kp_blockptr ptrs)"
    and ok: "build_node H sb ident ptrs = Ok block"
  shows "\<exists>b. tree_block_parse H block (bi_bytenr ident) (geometry_from_superblock sb) = Ok b \<and>
    tb_body b = NodeBody ptrs \<and>
    hd_generation (tb_header b) = bi_generation ident \<and> hd_owner (tb_header b) = bi_owner ident \<and>
    hd_flags (tb_header b) = bi_flags ident \<and> hd_level (tb_header b) = bi_level ident"
proof -
  let ?ns = "unat (sb_nodesize sb)"
  let ?z = "replicate ?ns (0::u8)"
  let ?n = "of_nat (length ptrs) :: u32"
  let ?h = "write_header sb ident ?n ?z"
  let ?w = "write_ptrs ptrs 0 ?h"
  let ?g = "geometry_from_superblock sb"
  have lvl: "bi_level ident \<noteq> 0" and cap: "length ptrs \<le> (?ns - HEADER_SIZE) div KEY_PTR_SIZE"
    and srt: "strictly_sorted (map kp_key ptrs)" and block: "block = stamp_checksum H sb ?w"
    using ok by (auto simp: build_node_def Let_def windows_ordered_iff not_less key_ptr_capacity_def split: if_splits)
  have "length ptrs * KEY_PTR_SIZE \<le> ?ns - HEADER_SIZE"
    using cap div_times_less_eq_dividend [of "?ns - HEADER_SIZE" KEY_PTR_SIZE]
    by (meson mult_le_mono1 order_trans)
  then have space: "HEADER_SIZE + length ptrs * KEY_PTR_SIZE \<le> ?ns"
    using ns by simp
  have ns32: "?ns < 4294967296" by (rule unat_u32)
  have hs: "HEADER_SIZE \<le> length ?z" using ns by simp
  note wh = write_header_reads [OF id hs, of ?n]
  have pre: "LEAF_DATA_OFFSET + (0 + length ptrs) * KEY_PTR_SIZE \<le> length ?h"
    using space wh(1) by simp
  note wp = write_ptrs_reads [OF pre]
  have lw: "length ?w = ?ns" using wp wh(1) by simp
  have c: "CSUM_SIZE \<le> length ?w" using lw hs by simp
  note st = stamp_checksum_reads [OF H c, where sb = sb]
  have len: "length block = ?ns" using st(1) lw block by simp
  have keep: "\<And>a k. a + k \<le> HEADER_SIZE \<Longrightarrow> slice a k ?w = slice a k ?h"
    using wp by auto
  have hdr: "header_parse block = Ok \<lparr>hd_csum = digest H (sb_csum_type sb) (drop CSUM_SIZE ?w), hd_fsid = node_uuid sb,
        hd_bytenr = bi_bytenr ident, hd_flags = bi_flags ident, hd_chunk_tree_uuid = bi_chunk_tree_uuid ident,
        hd_generation = bi_generation ident, hd_owner = bi_owner ident, hd_nritems = ?n, hd_level = bi_level ident\<rparr>"
    unfolding block by (rule stamped_header [OF H id _ keep]) (use lw hs in simp_all)
  have sum: "checksum_verify H (sb_csum_type sb) (slice CSUM_SIZE (?ns - CSUM_SIZE) block)
      (digest H (sb_csum_type sb) (drop CSUM_SIZE ?w))"
  proof -
    have "slice CSUM_SIZE (?ns - CSUM_SIZE) block = drop CSUM_SIZE ?w"
      using st(2,3) [of CSUM_SIZE] lw block by (simp add: slice_def)
    then show ?thesis
      using checksum_verify_digest [OF H] by simp
  qed
  have nr: "unat ?n = length ptrs"
    using space ns32 by (intro unat_of_nat_u32) simp
  have pts: "list_all2 (\<lambda>j p. key_ptr_parse (drop (HEADER_SIZE + j * KEY_PTR_SIZE) block) = Ok p)
      [0..<length ptrs] ptrs"
    using wp st(3) by (simp add: block)
  have "key_ptrs_loop block [0..<length ptrs] [] = Ok ([] @ ptrs)"
    using srt nz by (intro key_ptrs_loop_intro [OF pts]) (auto simp: image_iff)
  then have "parse_key_ptrs block (length ptrs) ?ns = Ok ptrs"
    using ne space by (simp add: parse_key_ptrs_def Let_def)
  then show ?thesis
    using hdr sum len lvl nr lv
    by (simp add: tree_block_parse_def parse_accepting_def geometry_from_superblock_def Let_def header_is_leaf_def not_le)
qed

section \<open>Concrete blocks\<close>

definition demo_dev_item :: dev_item where
  "demo_dev_item =
     \<lparr>di_devid = 1, di_total_bytes = 134217728, di_bytes_used = 0, di_io_align = 4096, di_io_width = 4096,
      di_sector_size = 4096, di_dev_type = 0, di_generation = 0, di_start_offset = 0, di_dev_group = 0,
      di_seek_speed = 0, di_bandwidth = 0, di_uuid = replicate 16 2, di_fsid = replicate 16 3\<rparr>"

definition demo_super :: superblock where
  "demo_super =
     \<lparr>sb_csum = replicate 32 0, sb_fsid = replicate 16 3, sb_bytenr = 65536, sb_flags = 0, sb_generation = 7,
      sb_root = 8388608, sb_chunk_root = 4194304, sb_log_root = 0, sb_log_root_transid = 0,
      sb_total_bytes = 134217728, sb_bytes_used = 0, sb_root_dir_objectid = 6, sb_num_devices = 1,
      sb_sectorsize = 4096, sb_nodesize = 4096, sb_leafsize = 4096, sb_stripesize = 4096,
      sb_sys_chunk_array_size = 97, sb_chunk_root_generation = 7, sb_compat_flags = 0, sb_compat_ro_flags = 0,
      sb_incompat_flags = 0, sb_csum_type = Crc32c, sb_root_level = 0, sb_chunk_root_level = 0,
      sb_log_root_level = 0, sb_dev_item = demo_dev_item, sb_label = [], sb_cache_generation = 0,
      sb_uuid_tree_generation = 0, sb_metadata_uuid = replicate 16 0, sb_nr_global_roots = 0,
      sb_sys_chunk_array = replicate 97 0\<rparr>"

definition demo_ident :: "u8 \<Rightarrow> block_identity" where
  "demo_ident lvl =
     \<lparr>bi_bytenr = 65536, bi_owner = 5, bi_generation = 7, bi_level = lvl, bi_flags = flags_for_new_block,
      bi_chunk_tree_uuid = replicate 16 0\<rparr>"

lemma demo_ident_wf: "wf_ident demo_super (demo_ident lvl)"
  by (simp add: wf_ident_def demo_ident_def demo_super_def node_uuid_def)

lemma zero_hash_wf: "wf_hash_lib zero_hash"
  by (simp add: wf_hash_lib_def zero_hash_def)

theorem build_leaf_parses_witness:
  "\<exists>block b its. build_leaf zero_hash demo_super (demo_ident 0) [(DiskKey 1 1 0, [7]), (DiskKey 1 1 5, [8, 9])] = Ok block \<and>
     tree_block_parse zero_hash block 65536 (geometry_from_superblock demo_super) = Ok b \<and>
     leaf_items b its = [(DiskKey 1 1 0, [7]), (DiskKey 1 1 5, [8, 9])]"
proof -
  obtain block where b: "build_leaf zero_hash demo_super (demo_ident 0) [(DiskKey 1 1 0, [7]), (DiskKey 1 1 5, [8, 9])] = Ok block"
    by (simp add: build_leaf_def demo_ident_def demo_super_def space_needed_def item_space_def key_before_def Let_def)
  have "bi_bytenr (demo_ident 0) = 65536" by (simp add: demo_ident_def)
  with build_leaf_parses [OF zero_hash_wf demo_ident_wf b] b show ?thesis by auto
qed

theorem build_node_parses_witness:
  "\<exists>block b. build_node zero_hash demo_super (demo_ident 1)
       [\<lparr>kp_key = DiskKey 1 1 0, kp_blockptr = 4096, kp_generation = 6\<rparr>] = Ok block \<and>
     tree_block_parse zero_hash block 65536 (geometry_from_superblock demo_super) = Ok b \<and>
     tb_body b = NodeBody [\<lparr>kp_key = DiskKey 1 1 0, kp_blockptr = 4096, kp_generation = 6\<rparr>]"
proof -
  obtain block where b: "build_node zero_hash demo_super (demo_ident 1)
       [\<lparr>kp_key = DiskKey 1 1 0, kp_blockptr = 4096, kp_generation = 6\<rparr>] = Ok block"
    by (simp add: build_node_def demo_ident_def demo_super_def key_ptr_capacity_def Let_def)
  have "bi_bytenr (demo_ident 1) = 65536" "bi_level (demo_ident 1) < MAX_LEVEL" "HEADER_SIZE \<le> unat (sb_nodesize demo_super)"
    by (simp_all add: demo_ident_def demo_super_def)
  with build_node_parses [OF zero_hash_wf demo_ident_wf _ _ _ _ b] b show ?thesis by auto
qed

text \<open>
  \<open>build_node\<close> does not refuse an empty list of pointers, which the parser does not accept back.
\<close>

lemma build_node_empty:
  "\<exists>block. build_node zero_hash demo_super (demo_ident 1) [] = Ok block \<and>
     \<not> is_ok (tree_block_parse zero_hash block 65536 (geometry_from_superblock demo_super))"
proof -
  let ?h = "write_header demo_super (demo_ident 1) 0 (replicate 4096 0)"
  obtain block where b: "build_node zero_hash demo_super (demo_ident 1) [] = Ok block"
    by (simp add: build_node_def demo_ident_def Let_def)
  have bl: "block = stamp_checksum zero_hash demo_super ?h"
    using b by (simp add: build_node_def demo_ident_def demo_super_def Let_def)
  have "\<not> is_ok (tree_block_parse zero_hash block 65536 (geometry_from_superblock demo_super))"
  proof
    assume "is_ok (tree_block_parse zero_hash block 65536 (geometry_from_superblock demo_super))"
    then obtain tb where tb: "parse_accepting zero_hash block 65536 (geometry_from_superblock demo_super) [] = Ok tb"
      by (auto simp: is_ok_iff tree_block_parse_def)
    have lh: "length ?h = 4096"
      using write_header_reads(1) [OF demo_ident_wf, of "replicate 4096 0"] by simp
    have "header_parse block = Ok (tb_header tb)" by (rule parse_accepting_Ok(3) [OF tb])
    moreover have "\<exists>h. header_parse block = Ok h \<and> hd_nritems h = 0 \<and> hd_level h = 1"
      using stamped_header [OF zero_hash_wf demo_ident_wf [of 1], of ?h 0 "replicate 4096 0"] lh
      by (simp add: bl) (simp add: demo_ident_def)
    ultimately have "hd_nritems (tb_header tb) = 0" "hd_level (tb_header tb) = 1" by auto
    then show False
      using parse_accepting_Ok(8,9) [OF tb] parse_key_ptrs_Ok(2) by (cases "tb_body tb") fastforce+
  qed
  with b show ?thesis by blast
qed

end
