(* ===== verification/InodeItem.thy ===== *)
theory InodeItem
  imports TreeWrite
begin

text \<open>
  \<open>src/src/inode.rs\<close>: the 160-byte inode item, its parsing and the file type in its mode; and
  the places that write one: \<open>new_inode\<close>, \<open>touch\<close>, \<open>put_time\<close> of \<open>src/src/namespace.rs\<close> and the
  field changes of \<open>src/src/attrs.rs\<close>. The lemmas say when an item parses, that every write
  keeps its length and its validity, and what each write changes.
\<close>

section \<open>Constants\<close>

abbreviation (input) INODE_NODATASUM :: u64 where "INODE_NODATASUM \<equiv> 1"
abbreviation (input) INODE_NODATACOW :: u64 where "INODE_NODATACOW \<equiv> 2"
abbreviation (input) INODE_NOCOMPRESS :: u64 where "INODE_NOCOMPRESS \<equiv> 8"
abbreviation (input) INODE_COMPRESS :: u64 where "INODE_COMPRESS \<equiv> 0x800"
abbreviation (input) INODE_ITEM_KEY :: u8 where "INODE_ITEM_KEY \<equiv> 1"
abbreviation (input) INODE_REF_KEY :: u8 where "INODE_REF_KEY \<equiv> 12"
abbreviation (input) INODE_ITEM_SIZE :: nat where "INODE_ITEM_SIZE \<equiv> 160"
abbreviation (input) FIRST_FREE_OBJECTID :: u64 where "FIRST_FREE_OBJECTID \<equiv> 256"
abbreviation (input) IO_GENERATION :: nat where "IO_GENERATION \<equiv> 0"
abbreviation (input) IO_TRANSID :: nat where "IO_TRANSID \<equiv> 8"
abbreviation (input) IO_SIZE :: nat where "IO_SIZE \<equiv> 16"
abbreviation (input) IO_NBYTES :: nat where "IO_NBYTES \<equiv> 24"
abbreviation (input) IO_BLOCK_GROUP :: nat where "IO_BLOCK_GROUP \<equiv> 32"
abbreviation (input) IO_NLINK :: nat where "IO_NLINK \<equiv> 40"
abbreviation (input) IO_UID :: nat where "IO_UID \<equiv> 44"
abbreviation (input) IO_GID :: nat where "IO_GID \<equiv> 48"
abbreviation (input) IO_MODE :: nat where "IO_MODE \<equiv> 52"
abbreviation (input) IO_RDEV :: nat where "IO_RDEV \<equiv> 56"
abbreviation (input) IO_FLAGS :: nat where "IO_FLAGS \<equiv> 64"
abbreviation (input) IO_SEQUENCE :: nat where "IO_SEQUENCE \<equiv> 72"
abbreviation (input) IO_ATIME :: nat where "IO_ATIME \<equiv> 112"
abbreviation (input) IO_CTIME :: nat where "IO_CTIME \<equiv> 124"
abbreviation (input) IO_MTIME :: nat where "IO_MTIME \<equiv> 136"
abbreviation (input) IO_OTIME :: nat where "IO_OTIME \<equiv> 148"
abbreviation (input) NSEC_PER_SEC :: u32 where "NSEC_PER_SEC \<equiv> 1000000000"
abbreviation (input) S_IFMT :: u32 where "S_IFMT \<equiv> 0xF000"
abbreviation (input) S_IPERM :: u32 where "S_IPERM \<equiv> 0xFFF"
abbreviation (input) S_IFREG :: u32 where "S_IFREG \<equiv> 0x8000"
abbreviation (input) S_IFDIR :: u32 where "S_IFDIR \<equiv> 0x4000"
abbreviation (input) S_IFLNK :: u32 where "S_IFLNK \<equiv> 0xA000"

section \<open>File types\<close>

datatype file_type = Regular | Directory | Symlink | CharDevice | BlockDevice | Fifo | Socket

definition file_type_from_mode :: "u32 \<Rightarrow> file_type option" where
  "file_type_from_mode mode =
     (let t = mode AND S_IFMT in
      if t = 0x8000 then Some Regular
      else if t = 0x4000 then Some Directory
      else if t = 0xA000 then Some Symlink
      else if t = 0x2000 then Some CharDevice
      else if t = 0x6000 then Some BlockDevice
      else if t = 0x1000 then Some Fifo
      else if t = 0xC000 then Some Socket
      else None)"

section \<open>The inode item\<close>

text \<open>Seconds are signed: \<open>le64(buf, off) as i64\<close>.\<close>

record timestamp =
  ts_sec :: int
  ts_nsec :: u32

definition timestamp_parse :: "bytes \<Rightarrow> nat \<Rightarrow> timestamp result" where
  "timestamp_parse buf off =
     (let nsec = le32 buf (off + 8) in
      if nsec \<ge> NSEC_PER_SEC then Err (BadSuperblock ''inode timestamp has a second or more of nanoseconds'')
      else Ok \<lparr>ts_sec = sint (le64 buf off), ts_nsec = nsec\<rparr>)"

record inode =
  in_ino :: u64
  in_generation :: u64
  in_transid :: u64
  in_size :: u64
  in_nbytes :: u64
  in_block_group :: u64
  in_nlink :: u32
  in_uid :: u32
  in_gid :: u32
  in_mode :: u32
  in_rdev :: u64
  in_flags :: u64
  in_sequence :: u64
  in_atime :: timestamp
  in_ctime :: timestamp
  in_mtime :: timestamp
  in_otime :: timestamp

definition inode_parse :: "bytes \<Rightarrow> u64 \<Rightarrow> inode result" where
  "inode_parse data ino =
     (if length data < INODE_ITEM_SIZE then Err (BadSuperblock ''inode item is too short'')
      else
        try_in (timestamp_parse data IO_ATIME) (\<lambda>atime.
        try_in (timestamp_parse data IO_CTIME) (\<lambda>ctime.
        try_in (timestamp_parse data IO_MTIME) (\<lambda>mtime.
        try_in (timestamp_parse data IO_OTIME) (\<lambda>otime.
        Ok \<lparr>in_ino = ino,
            in_generation = le64 data IO_GENERATION,
            in_transid = le64 data IO_TRANSID,
            in_size = le64 data IO_SIZE,
            in_nbytes = le64 data IO_NBYTES,
            in_block_group = le64 data IO_BLOCK_GROUP,
            in_nlink = le32 data IO_NLINK,
            in_uid = le32 data IO_UID,
            in_gid = le32 data IO_GID,
            in_mode = le32 data IO_MODE,
            in_rdev = le64 data IO_RDEV,
            in_flags = le64 data IO_FLAGS,
            in_sequence = le64 data IO_SEQUENCE,
            in_atime = atime, in_ctime = ctime, in_mtime = mtime, in_otime = otime\<rparr>)))))"

definition inode_file_type :: "inode \<Rightarrow> file_type option" where
  "inode_file_type i = file_type_from_mode (in_mode i)"

definition permissions :: "inode \<Rightarrow> u32" where
  "permissions i = in_mode i AND S_IPERM"

definition is_dir :: "inode \<Rightarrow> bool" where
  "is_dir i = (inode_file_type i = Some Directory)"

definition is_regular_file :: "inode \<Rightarrow> bool" where
  "is_regular_file i = (inode_file_type i = Some Regular)"

definition is_symlink :: "inode \<Rightarrow> bool" where
  "is_symlink i = (inode_file_type i = Some Symlink)"

section \<open>Writing inode items\<close>

text \<open>\<open>now()\<close> is the seconds and nanoseconds of the clock, a parameter of every operation.\<close>

type_synonym clock = "u64 \<times> u32"

definition put_time :: "bytes \<Rightarrow> nat \<Rightarrow> clock \<Rightarrow> bytes" where
  "put_time b at t = put_at (at + 8) (u32_bytes (snd t)) (put_at at (u64_bytes (fst t)) b)"

definition touch :: "bytes \<Rightarrow> u64 \<Rightarrow> clock \<Rightarrow> nat list \<Rightarrow> bytes" where
  "touch raw generation now slots =
     (let raw = put_at IO_TRANSID (u64_bytes generation) raw;
          raw = put_at IO_SEQUENCE (u64_bytes (le64 raw IO_SEQUENCE + 1)) raw
      in foldl (\<lambda>b at. put_time b at now) raw slots)"

record inode_spec =
  ni_generation :: u64
  ni_size :: u64
  ni_mode :: u32
  ni_uid :: u32
  ni_gid :: u32
  ni_flags :: u64
  ni_now :: clock

definition new_inode :: "inode_spec \<Rightarrow> bytes" where
  "new_inode n =
     (let b = replicate INODE_ITEM_SIZE 0;
          b = put_at IO_GENERATION (u64_bytes (ni_generation n)) b;
          b = put_at IO_TRANSID (u64_bytes (ni_generation n)) b;
          b = put_at IO_SIZE (u64_bytes (ni_size n)) b;
          nbytes = (if ni_mode n AND S_IFMT = S_IFLNK then ni_size n else 0);
          b = put_at IO_NBYTES (u64_bytes nbytes) b;
          b = put_at IO_NLINK (u32_bytes 1) b;
          b = put_at IO_UID (u32_bytes (ni_uid n)) b;
          b = put_at IO_GID (u32_bytes (ni_gid n)) b;
          b = put_at IO_MODE (u32_bytes (ni_mode n)) b;
          b = put_at IO_FLAGS (u64_bytes (ni_flags n)) b;
          b = put_at IO_SEQUENCE (u64_bytes 1) b
      in foldl (\<lambda>b at. put_time b at (ni_now n)) b [IO_ATIME, IO_CTIME, IO_MTIME, IO_OTIME])"

text \<open>The closures \<open>set_mode\<close>, \<open>set_owner\<close> and \<open>set_times\<close> of \<open>attrs.rs\<close> pass to \<open>change_inode\<close>.\<close>

definition change_mode :: "u32 \<Rightarrow> bytes \<Rightarrow> bytes" where
  "change_mode mode raw =
     put_at IO_MODE (u32_bytes (((le32 raw IO_MODE) AND S_IFMT) OR (mode AND 0xFFF))) raw"

definition change_owner :: "u32 option \<Rightarrow> u32 option \<Rightarrow> bytes \<Rightarrow> bytes" where
  "change_owner uid gid raw =
     (let raw = (case uid of Some uid \<Rightarrow> put_at IO_UID (u32_bytes uid) raw | None \<Rightarrow> raw)
      in case gid of Some gid \<Rightarrow> put_at IO_GID (u32_bytes gid) raw | None \<Rightarrow> raw)"

definition change_times :: "clock option \<Rightarrow> clock option \<Rightarrow> bytes \<Rightarrow> bytes" where
  "change_times atime mtime raw =
     foldl (\<lambda>raw (at, t). case t of Some t \<Rightarrow> put_time raw at t | None \<Rightarrow> raw) raw
       [(IO_ATIME, atime), (IO_MTIME, mtime)]"

section \<open>Facts\<close>

definition time_ok :: "bytes \<Rightarrow> nat \<Rightarrow> bool" where
  "time_ok b at \<longleftrightarrow> le32 b (at + 8) < NSEC_PER_SEC"

definition inode_ok :: "bytes \<Rightarrow> bool" where
  "inode_ok b \<longleftrightarrow> INODE_ITEM_SIZE \<le> length b \<and> time_ok b IO_ATIME \<and> time_ok b IO_CTIME \<and>
     time_ok b IO_MTIME \<and> time_ok b IO_OTIME"

lemma timestamp_parse_ok: "is_ok (timestamp_parse b at) \<longleftrightarrow> time_ok b at"
  by (auto simp: timestamp_parse_def time_ok_def Let_def not_less)

lemma timestamp_parse_Ok:
  "timestamp_parse b at = Ok t \<longleftrightarrow> time_ok b at \<and> t = \<lparr>ts_sec = sint (le64 b at), ts_nsec = le32 b (at + 8)\<rparr>"
  by (auto simp: timestamp_parse_def time_ok_def Let_def)

lemma inode_parse_is_ok: "is_ok (inode_parse b ino) \<longleftrightarrow> inode_ok b"
proof -
  have "is_ok (try_in r f) \<longleftrightarrow> is_ok r \<and> (\<forall>x. r = Ok x \<longrightarrow> is_ok (f x))" for r :: "timestamp result" and f :: "timestamp \<Rightarrow> inode result"
    by (cases r) auto
  then show ?thesis
    by (simp add: inode_parse_def inode_ok_def timestamp_parse_ok)
      (auto simp: timestamp_parse_ok [symmetric] is_ok_iff not_less)
qed

lemma inode_parse_fields:
  assumes "inode_parse b ino = Ok i"
  shows "inode_ok b" and "in_ino i = ino" and "in_generation i = le64 b IO_GENERATION"
    and "in_size i = le64 b IO_SIZE" and "in_nlink i = le32 b IO_NLINK" and "in_mode i = le32 b IO_MODE"
    and "in_uid i = le32 b IO_UID" and "in_gid i = le32 b IO_GID" and "in_flags i = le64 b IO_FLAGS"
proof -
  show "inode_ok b"
    using assms inode_parse_is_ok [of b ino] by simp
qed (use assms in \<open>auto simp: inode_parse_def res_simps\<close>)

lemma length_put_time [simp]: "at + 12 \<le> length b \<Longrightarrow> length (put_time b at t) = length b"
  by (simp add: put_time_def)

lemma put_time_reads [byte_simps]:
  assumes "at + 12 \<le> length b"
  shows "a + 8 \<le> at \<or> at + 12 \<le> a \<Longrightarrow> le64 (put_time b at t) a = le64 b a"
    and "a + 4 \<le> at \<or> at + 12 \<le> a \<Longrightarrow> le32 (put_time b at t) a = le32 b a"
    and "le64 (put_time b at t) at = fst t"
    and "k = at + 8 \<Longrightarrow> le32 (put_time b at t) k = snd t"
  using assms by (auto simp: put_time_def byte_simps)

lemma put_time_ok:
  assumes "at + 12 \<le> length b" and "a + 12 \<le> at \<or> at + 12 \<le> a"
  shows "time_ok (put_time b at t) at \<longleftrightarrow> snd t < NSEC_PER_SEC"
    and "time_ok (put_time b at t) a \<longleftrightarrow> time_ok b a"
  using assms by (auto simp: time_ok_def byte_simps)

lemma put_at_time_ok:
  "off + length ys \<le> length b \<Longrightarrow> a + 12 \<le> off \<or> off + length ys \<le> a \<Longrightarrow>
   time_ok (put_at off ys b) a \<longleftrightarrow> time_ok b a"
  by (auto simp: time_ok_def byte_simps)

definition time_slots :: "nat set" where
  "time_slots = {IO_ATIME, IO_CTIME, IO_MTIME, IO_OTIME}"

lemma put_time_inode_ok:
  assumes "at \<in> time_slots" and "snd now < NSEC_PER_SEC" and "inode_ok b"
  shows "inode_ok (put_time b at now)"
  using assms by (auto simp: inode_ok_def time_slots_def put_time_ok time_ok_def byte_simps)

lemma times_inode_ok:
  "set slots \<subseteq> time_slots \<Longrightarrow> snd now < NSEC_PER_SEC \<Longrightarrow> inode_ok b \<Longrightarrow>
   inode_ok (foldl (\<lambda>b at. put_time b at now) b slots)"
  by (induction slots arbitrary: b) (auto simp: put_time_inode_ok)

lemma times_keep:
  assumes "set slots \<subseteq> time_slots" and "INODE_ITEM_SIZE \<le> length b"
  shows "length (foldl (\<lambda>b at. put_time b at now) b slots) = length b"
    and "a + 8 \<le> IO_ATIME \<Longrightarrow> le64 (foldl (\<lambda>b at. put_time b at now) b slots) a = le64 b a"
    and "a + 4 \<le> IO_ATIME \<Longrightarrow> le32 (foldl (\<lambda>b at. put_time b at now) b slots) a = le32 b a"
  using assms by (induction slots arbitrary: b) (auto simp: time_slots_def byte_simps)

lemma touch_keeps:
  assumes "set slots \<subseteq> time_slots" and "INODE_ITEM_SIZE \<le> length b"
  shows "length (touch b g now slots) = length b"
    and "le64 (touch b g now slots) IO_TRANSID = g"
    and "le64 (touch b g now slots) IO_SEQUENCE = le64 b IO_SEQUENCE + 1"
    and "a + 8 \<le> IO_ATIME \<Longrightarrow> a + 8 \<le> IO_TRANSID \<or> IO_TRANSID + 8 \<le> a \<Longrightarrow> a + 8 \<le> IO_SEQUENCE \<or> IO_SEQUENCE + 8 \<le> a \<Longrightarrow>
      le64 (touch b g now slots) a = le64 b a"
    and "a + 4 \<le> IO_ATIME \<Longrightarrow> a + 4 \<le> IO_TRANSID \<or> IO_TRANSID + 8 \<le> a \<Longrightarrow> a + 4 \<le> IO_SEQUENCE \<or> IO_SEQUENCE + 8 \<le> a \<Longrightarrow>
      le32 (touch b g now slots) a = le32 b a"
  using assms by (auto simp: touch_def Let_def times_keep byte_simps)

lemma touch_inode_ok:
  assumes "set slots \<subseteq> time_slots" and "snd now < NSEC_PER_SEC" and "inode_ok b"
  shows "inode_ok (touch b g now slots)"
  unfolding touch_def Let_def
  by (rule times_inode_ok [OF assms(1,2)]) (use assms(3) in \<open>auto simp: inode_ok_def put_at_time_ok\<close>)

text \<open>The item before its times are written.\<close>

definition inode_core :: "inode_spec \<Rightarrow> bytes" where
  "inode_core n =
     (let b = replicate INODE_ITEM_SIZE 0;
          b = put_at IO_GENERATION (u64_bytes (ni_generation n)) b;
          b = put_at IO_TRANSID (u64_bytes (ni_generation n)) b;
          b = put_at IO_SIZE (u64_bytes (ni_size n)) b;
          b = put_at IO_NBYTES (u64_bytes (if ni_mode n AND S_IFMT = S_IFLNK then ni_size n else 0)) b;
          b = put_at IO_NLINK (u32_bytes 1) b;
          b = put_at IO_UID (u32_bytes (ni_uid n)) b;
          b = put_at IO_GID (u32_bytes (ni_gid n)) b;
          b = put_at IO_MODE (u32_bytes (ni_mode n)) b;
          b = put_at IO_FLAGS (u64_bytes (ni_flags n)) b
      in put_at IO_SEQUENCE (u64_bytes 1) b)"

lemma new_inode_core:
  "new_inode n = put_time (put_time (put_time (put_time (inode_core n) IO_ATIME (ni_now n)) IO_CTIME (ni_now n))
     IO_MTIME (ni_now n)) IO_OTIME (ni_now n)"
  by (simp add: new_inode_def inode_core_def Let_def)

lemma length_inode_core [simp]: "length (inode_core n) = INODE_ITEM_SIZE"
  by (simp add: inode_core_def)

lemma inode_core_reads:
  "le64 (inode_core n) IO_GENERATION = ni_generation n"
  "le64 (inode_core n) IO_TRANSID = ni_generation n"
  "le64 (inode_core n) IO_SIZE = ni_size n"
  "le64 (inode_core n) IO_NBYTES = (if ni_mode n AND S_IFMT = S_IFLNK then ni_size n else 0)"
  "le32 (inode_core n) IO_NLINK = 1"
  "le32 (inode_core n) IO_UID = ni_uid n"
  "le32 (inode_core n) IO_GID = ni_gid n"
  "le32 (inode_core n) IO_MODE = ni_mode n"
  "le64 (inode_core n) IO_FLAGS = ni_flags n"
  "le64 (inode_core n) IO_SEQUENCE = 1"
  unfolding inode_core_def Let_def by (simp_all only: byte_simps length_put_at length_uN_bytes length_replicate arith_simps rel_simps simp_thms)

lemma new_inode_reads:
  shows "length (new_inode n) = INODE_ITEM_SIZE"
    and "a + 8 \<le> IO_ATIME \<Longrightarrow> le64 (new_inode n) a = le64 (inode_core n) a"
    and "a + 4 \<le> IO_ATIME \<Longrightarrow> le32 (new_inode n) a = le32 (inode_core n) a"
  by (simp_all add: new_inode_core byte_simps)

lemma new_inode_times:
  "at \<in> time_slots \<Longrightarrow> le64 (new_inode n) at = fst (ni_now n) \<and> le32 (new_inode n) (at + 8) = snd (ni_now n)"
  unfolding time_slots_def new_inode_core by (elim insertE emptyE) (simp_all add: byte_simps)

section \<open>Property\<close>

text \<open>
  C23. The inode item written for a new file, directory or link parses, and the parsed inode has the
  number, generation, size, owner, mode and flags it was written with, one link, sequence 1, and
  the clock's time in all four timestamps.
\<close>

theorem new_inode_parses:
  assumes "snd (ni_now n) < NSEC_PER_SEC"
  shows "\<exists>i. inode_parse (new_inode n) ino = Ok i \<and>
     in_ino i = ino \<and> in_generation i = ni_generation n \<and> in_transid i = ni_generation n \<and>
     in_size i = ni_size n \<and> in_nlink i = 1 \<and> in_uid i = ni_uid n \<and> in_gid i = ni_gid n \<and>
     in_mode i = ni_mode n \<and> in_flags i = ni_flags n \<and> in_sequence i = 1 \<and>
     in_nbytes i = (if ni_mode n AND S_IFMT = S_IFLNK then ni_size n else 0) \<and>
     {in_atime i, in_ctime i, in_mtime i, in_otime i} =
       {\<lparr>ts_sec = sint (fst (ni_now n)), ts_nsec = snd (ni_now n)\<rparr>}"
proof -
  have t: "timestamp_parse (new_inode n) at =
      Ok \<lparr>ts_sec = sint (fst (ni_now n)), ts_nsec = snd (ni_now n)\<rparr>" if "at \<in> time_slots" for at
    using assms new_inode_times [OF that, of n] by (simp add: timestamp_parse_def not_le Let_def)
  show ?thesis
    by (simp add: inode_parse_def new_inode_reads inode_core_reads t time_slots_def)
qed

theorem new_inode_parses_witness:
  "\<exists>i. inode_parse (new_inode \<lparr>ni_generation = 9, ni_size = 5, ni_mode = 0xA1FF, ni_uid = 1, ni_gid = 2,
       ni_flags = 0, ni_now = (77, 5)\<rparr>) 257 = Ok i \<and> in_nbytes i = 5 \<and> in_ino i = 257 \<and> in_mode i = 0xA1FF"
  using new_inode_parses [of "\<lparr>ni_generation = 9, ni_size = 5, ni_mode = 0xA1FF, ni_uid = 1, ni_gid = 2,
       ni_flags = 0, ni_now = (77, 5)\<rparr>" 257] by auto

section \<open>Changes keep an item valid\<close>

lemma touch_slot:
  assumes "snd now < NSEC_PER_SEC" and "inode_ok b" and "set slots \<subseteq> time_slots"
  shows "is_ok (inode_parse (touch b g now slots) ino)"
  using assms by (simp add: inode_parse_is_ok touch_inode_ok)

text \<open>A change of the mode keeps the file type.\<close>

lemma mode_bits: "((m AND S_IFMT) OR (p AND S_IPERM)) AND S_IFMT = m AND S_IFMT"
  "((m AND S_IFMT) OR (p AND S_IPERM)) AND S_IPERM = p AND S_IPERM" for m p :: u32
proof -
  have z: "(S_IFMT AND S_IPERM :: u32) = 0" by simp
  show "((m AND S_IFMT) OR (p AND S_IPERM)) AND S_IFMT = m AND S_IFMT"
    using z by (simp add: bit.conj_disj_distrib2 and.assoc)
  show "((m AND S_IFMT) OR (p AND S_IPERM)) AND S_IPERM = p AND S_IPERM"
    using z by (simp add: bit.conj_disj_distrib2 and.assoc)
qed

lemma change_mode_keeps:
  assumes "inode_ok b"
  shows "inode_ok (change_mode m b)" and "length (change_mode m b) = length b"
    and "file_type_from_mode (le32 (change_mode m b) IO_MODE) = file_type_from_mode (le32 b IO_MODE)"
    and "le32 (change_mode m b) IO_MODE AND S_IPERM = m AND S_IPERM"
proof -
  have l: "INODE_ITEM_SIZE \<le> length b" using assms by (simp add: inode_ok_def)
  show "inode_ok (change_mode m b)" "length (change_mode m b) = length b"
    using assms by (auto simp: inode_ok_def change_mode_def put_at_time_ok)
  have r: "le32 (change_mode m b) IO_MODE = ((le32 b IO_MODE) AND S_IFMT) OR (m AND S_IPERM)"
    using l by (simp add: change_mode_def byte_simps)
  show "file_type_from_mode (le32 (change_mode m b) IO_MODE) = file_type_from_mode (le32 b IO_MODE)"
    by (simp only: file_type_from_mode_def r mode_bits)
  show "le32 (change_mode m b) IO_MODE AND S_IPERM = m AND S_IPERM"
    by (simp only: r mode_bits)
qed

lemma change_owner_keeps:
  "inode_ok b \<Longrightarrow> inode_ok (change_owner u g b) \<and> length (change_owner u g b) = length b \<and>
   le32 (change_owner u g b) IO_UID = (case u of Some v \<Rightarrow> v | None \<Rightarrow> le32 b IO_UID) \<and>
   le32 (change_owner u g b) IO_GID = (case g of Some v \<Rightarrow> v | None \<Rightarrow> le32 b IO_GID)"
  by (auto simp: inode_ok_def change_owner_def put_at_time_ok byte_simps split: option.split)

lemma change_times_keeps:
  "inode_ok b \<Longrightarrow> (\<And>t. at = Some t \<Longrightarrow> snd t < NSEC_PER_SEC) \<Longrightarrow> (\<And>t. mt = Some t \<Longrightarrow> snd t < NSEC_PER_SEC) \<Longrightarrow>
   inode_ok (change_times at mt b)"
  by (cases at; cases mt) (simp_all add: change_times_def put_time_inode_ok time_slots_def)

end
