(* ===== verification/DirItems.thy ===== *)
theory DirItems
  imports InodeItem
begin

text \<open>
  \<open>src/src/dir.rs\<close> and \<open>src/src/xattr.rs\<close>: the records packed into a directory or attribute
  item, and their parsing; and the writers and cutters of such records in
  \<open>src/src/namespace.rs\<close> and \<open>src/src/attrs.rs\<close> (\<open>dir_entry\<close>, \<open>xattr_record\<close>, \<open>inode_ref\<close>,
  \<open>inode_extref\<close>, \<open>without_dir_record\<close>, \<open>without_ref\<close>, \<open>without_extref\<close>). The lemmas say that
  parsing is exactly the inverse of laying records end to end.
\<close>

section \<open>Constants\<close>

abbreviation (input) DIR_ITEM_KEY :: u8 where "DIR_ITEM_KEY \<equiv> 84"
abbreviation (input) DIR_INDEX_KEY :: u8 where "DIR_INDEX_KEY \<equiv> 96"
abbreviation (input) XATTR_ITEM_KEY :: u8 where "XATTR_ITEM_KEY \<equiv> 24"
abbreviation (input) DIR_ITEM_HEADER_SIZE :: nat where "DIR_ITEM_HEADER_SIZE \<equiv> 30"
abbreviation (input) MAX_NAME_LEN :: nat where "MAX_NAME_LEN \<equiv> 255"
abbreviation (input) D_LOCATION :: nat where "D_LOCATION \<equiv> 0"
abbreviation (input) D_TRANSID :: nat where "D_TRANSID \<equiv> 17"
abbreviation (input) D_DATA_LEN :: nat where "D_DATA_LEN \<equiv> 25"
abbreviation (input) D_NAME_LEN :: nat where "D_NAME_LEN \<equiv> 27"
abbreviation (input) D_TYPE :: nat where "D_TYPE \<equiv> 29"
abbreviation (input) D_NAME :: nat where "D_NAME \<equiv> 30"
abbreviation (input) FT_UNKNOWN :: u8 where "FT_UNKNOWN \<equiv> 0"
abbreviation (input) FT_REG_FILE :: u8 where "FT_REG_FILE \<equiv> 1"
abbreviation (input) FT_DIR :: u8 where "FT_DIR \<equiv> 2"
abbreviation (input) FT_CHRDEV :: u8 where "FT_CHRDEV \<equiv> 3"
abbreviation (input) FT_BLKDEV :: u8 where "FT_BLKDEV \<equiv> 4"
abbreviation (input) FT_FIFO :: u8 where "FT_FIFO \<equiv> 5"
abbreviation (input) FT_SOCK :: u8 where "FT_SOCK \<equiv> 6"
abbreviation (input) FT_SYMLINK :: u8 where "FT_SYMLINK \<equiv> 7"
abbreviation (input) FT_XATTR :: u8 where "FT_XATTR \<equiv> 8"
abbreviation (input) INODE_REF_HEADER :: nat where "INODE_REF_HEADER \<equiv> 10"
abbreviation (input) INODE_EXTREF_HEADER :: nat where "INODE_EXTREF_HEADER \<equiv> 18"
abbreviation (input) INLINE_HEADER :: nat where "INLINE_HEADER \<equiv> 21"

section \<open>Records of a directory item\<close>

definition ftype_from_raw :: "u8 \<Rightarrow> file_type option result" where
  "ftype_from_raw raw =
     (if raw = FT_UNKNOWN \<or> raw = FT_XATTR then Ok None
      else if raw = FT_REG_FILE then Ok (Some Regular)
      else if raw = FT_DIR then Ok (Some Directory)
      else if raw = FT_CHRDEV then Ok (Some CharDevice)
      else if raw = FT_BLKDEV then Ok (Some BlockDevice)
      else if raw = FT_FIFO then Ok (Some Fifo)
      else if raw = FT_SOCK then Ok (Some Socket)
      else if raw = FT_SYMLINK then Ok (Some Symlink)
      else Err (BadSuperblock ''directory entry type is not a defined value''))"

definition file_type_byte :: "inode \<Rightarrow> u8" where
  "file_type_byte i =
     (let t = in_mode i AND S_IFMT in
      if t = S_IFREG then FT_REG_FILE
      else if t = S_IFDIR then FT_DIR
      else if t = S_IFLNK then FT_SYMLINK
      else if t = 0x2000 then FT_CHRDEV
      else if t = 0x6000 then FT_BLKDEV
      else if t = 0x1000 then FT_FIFO
      else if t = 0xC000 then FT_SOCK
      else FT_UNKNOWN)"

definition name_hash :: "hash_lib \<Rightarrow> bytes \<Rightarrow> u64" where
  "name_hash H name = ucast (NOT (crc32c_append H (NOT (NOT 1)) name))"

record dir_entry =
  de_name :: bytes
  de_ino :: u64
  de_ftype :: "file_type option"
  de_location_type :: u8
  de_transid :: u64

definition is_inode :: "dir_entry \<Rightarrow> bool" where
  "is_inode e = (de_location_type e = INODE_ITEM_KEY)"

record raw_item =
  ri_location :: disk_key
  ri_transid :: u64
  ri_ftype :: u8
  ri_name :: bytes
  ri_value :: bytes

text \<open>
  \<open>rest\<close> is \<open>&data[pos..]\<close>; advancing \<open>pos\<close> drops from it. The name and value lengths are 16-bit
  fields, so their sum with the header cannot overflow a \<open>usize\<close> and that arm of the source never runs.
\<close>

function parse_items_loop :: "bytes \<Rightarrow> raw_item list \<Rightarrow> raw_item list result" where
  "parse_items_loop rest out =
     (if rest = [] then Ok out
      else if length rest < DIR_ITEM_HEADER_SIZE then Err (BadSuperblock ''item is truncated'')
      else
        try_in (disk_key_parse (drop D_LOCATION rest)) (\<lambda>location.
        let data_len = unat (le16 rest D_DATA_LEN);
            name_len = unat (le16 rest D_NAME_LEN)
        in if name_len = 0 then Err (BadSuperblock ''item has an empty name'')
           else if name_len > MAX_NAME_LEN then Err (BadSuperblock ''item has a name past the limit'')
           else
             let name_end = D_NAME + name_len;
                 finish = name_end + data_len
             in if finish > length rest then Err (BadSuperblock ''item needs more bytes than remain'')
                else parse_items_loop (drop finish rest)
                       (out @ [\<lparr>ri_location = location, ri_transid = le64 rest D_TRANSID,
                                ri_ftype = rest ! D_TYPE, ri_name = slice D_NAME name_len rest,
                                ri_value = slice name_end data_len rest\<rparr>])))"
  by pat_completeness auto
termination
  by (relation "measure (\<lambda>(rest, out). length rest)") auto

declare parse_items_loop.simps [simp del]

definition parse_items :: "bytes \<Rightarrow> raw_item list result" where
  "parse_items data = parse_items_loop data []"

definition parse_dir_items :: "bytes \<Rightarrow> dir_entry list result" where
  "parse_dir_items data =
     try_in (parse_items data) (collect_results (\<lambda>r.
       try_in (ftype_from_raw (ri_ftype r)) (\<lambda>ft.
       Ok \<lparr>de_name = ri_name r, de_ino = objectid (ri_location r), de_ftype = ft,
           de_location_type = key_type (ri_location r), de_transid = ri_transid r\<rparr>)))"

record xattr_entry =
  xe_name :: bytes
  xe_value :: bytes

definition parse_xattr_items :: "bytes \<Rightarrow> xattr_entry list result" where
  "parse_xattr_items data =
     try_in (parse_items data) (collect_results (\<lambda>r.
       if ri_ftype r \<noteq> FT_XATTR then Err (BadSuperblock ''extended attribute carries another file type'')
       else Ok \<lparr>xe_name = ri_name r, xe_value = ri_value r\<rparr>))"

section \<open>Writing records\<close>

definition dir_entry_bytes :: "u64 \<Rightarrow> u64 \<Rightarrow> u8 \<Rightarrow> bytes \<Rightarrow> bytes" where
  "dir_entry_bytes child generation ft name =
     (let b = replicate D_NAME 0;
          b = put_at D_LOCATION (u64_bytes child) b;
          b = b[D_LOCATION + 8 := INODE_ITEM_KEY];
          b = put_at D_TRANSID (u64_bytes generation) b;
          b = put_at D_NAME_LEN (u16_bytes (of_nat (length name))) b;
          b = b[D_TYPE := ft]
      in b @ name)"

definition xattr_record :: "u64 \<Rightarrow> bytes \<Rightarrow> bytes \<Rightarrow> bytes" where
  "xattr_record generation name val =
     (let b = replicate D_NAME 0;
          b = put_at D_TRANSID (u64_bytes generation) b;
          b = put_at D_DATA_LEN (u16_bytes (of_nat (length val))) b;
          b = put_at D_NAME_LEN (u16_bytes (of_nat (length name))) b;
          b = b[D_TYPE := FT_XATTR]
      in b @ name @ val)"

definition inode_ref :: "u64 \<Rightarrow> bytes \<Rightarrow> bytes" where
  "inode_ref index name = u64_bytes index @ u16_bytes (of_nat (length name)) @ name"

definition inode_extref :: "u64 \<Rightarrow> u64 \<Rightarrow> bytes \<Rightarrow> bytes" where
  "inode_extref parent index name =
     u64_bytes parent @ u64_bytes index @ u16_bytes (of_nat (length name)) @ name"

definition inline_extent :: "u64 \<Rightarrow> bytes \<Rightarrow> bytes" where
  "inline_extent generation data =
     (let b = replicate INLINE_HEADER 0;
          b = put_at 0 (u64_bytes generation) b;
          b = put_at 8 (u64_bytes (of_nat (length data))) b
      in b @ data)"

section \<open>Cutting one record out of an item\<close>

text \<open>Each loop is at \<open>pos\<close> in \<open>data\<close>; a record that would run past the end stops it.\<close>

function without_ref_loop :: "bytes \<Rightarrow> bytes \<Rightarrow> nat \<Rightarrow> (u64 \<times> bytes) option" where
  "without_ref_loop data name pos =
     (if pos + INODE_REF_HEADER \<le> length data then
        let len = unat (le16 data (pos + 8));
            finish = pos + INODE_REF_HEADER + len
        in if finish > length data then None
           else if slice (pos + INODE_REF_HEADER) len data = name then
             Some (le64 data pos, take pos data @ drop finish data)
           else without_ref_loop data name finish
      else None)"
  by pat_completeness auto
termination
  by (relation "measure (\<lambda>(data, name, pos). length data - pos)") auto

definition without_ref :: "bytes \<Rightarrow> bytes \<Rightarrow> (u64 \<times> bytes) option" where
  "without_ref data name = without_ref_loop data name 0"

function without_extref_loop :: "bytes \<Rightarrow> u64 \<Rightarrow> bytes \<Rightarrow> nat \<Rightarrow> (u64 \<times> bytes) option" where
  "without_extref_loop data parent name pos =
     (if pos + INODE_EXTREF_HEADER \<le> length data then
        let len = unat (le16 data (pos + 16));
            finish = pos + INODE_EXTREF_HEADER + len
        in if finish > length data then None
           else if le64 data pos = parent \<and> slice (pos + INODE_EXTREF_HEADER) len data = name then
             Some (le64 data (pos + 8), take pos data @ drop finish data)
           else without_extref_loop data parent name finish
      else None)"
  by pat_completeness auto
termination
  by (relation "measure (\<lambda>(data, parent, name, pos). length data - pos)") auto

definition without_extref :: "bytes \<Rightarrow> u64 \<Rightarrow> bytes \<Rightarrow> (u64 \<times> bytes) option" where
  "without_extref data parent name = without_extref_loop data parent name 0"

function without_dir_record_loop :: "bytes \<Rightarrow> bytes \<Rightarrow> nat \<Rightarrow> bytes option" where
  "without_dir_record_loop data name pos =
     (if pos + D_NAME \<le> length data then
        let r = drop pos data;
            data_len = unat (le16 r D_DATA_LEN);
            name_len = unat (le16 r D_NAME_LEN);
            finish = pos + D_NAME + name_len + data_len
        in if finish > length data then None
           else if slice D_NAME name_len r = name then Some (take pos data @ drop finish data)
           else without_dir_record_loop data name finish
      else None)"
  by pat_completeness auto
termination
  by (relation "measure (\<lambda>(data, name, pos). length data - pos)") auto

definition without_dir_record :: "bytes \<Rightarrow> bytes \<Rightarrow> bytes option" where
  "without_dir_record data name = without_dir_record_loop data name 0"

declare without_ref_loop.simps [simp del] without_extref_loop.simps [simp del]
  without_dir_record_loop.simps [simp del]

definition holds_no_extent :: "bytes \<Rightarrow> bool" where
  "holds_no_extent data =
     (case get data 20 of
        None \<Rightarrow> False
      | Some t \<Rightarrow>
          if t = 0 then True
          else if t = 1 \<or> t = 2 then 29 \<le> length data \<and> le64 data 21 = 0
          else False)"

section \<open>Records laid end to end\<close>

definition raw_bytes :: "raw_item \<Rightarrow> bytes" where
  "raw_bytes r =
     key_bytes (ri_location r) @ u64_bytes (ri_transid r) @ u16_bytes (of_nat (length (ri_value r))) @
     u16_bytes (of_nat (length (ri_name r))) @ [ri_ftype r] @ ri_name r @ ri_value r"

definition wf_raw :: "raw_item \<Rightarrow> bool" where
  "wf_raw r \<longleftrightarrow> 0 < length (ri_name r) \<and> length (ri_name r) \<le> MAX_NAME_LEN \<and> length (ri_value r) < 65536"

lemma length_raw_bytes [simp]: "length (raw_bytes r) = D_NAME + length (ri_name r) + length (ri_value r)"
  by (simp add: raw_bytes_def)

lemma unat_of_nat_u16: "n < 65536 \<Longrightarrow> unat (of_nat n :: u16) = n"
  by (simp add: unat_of_nat)

lemma raw_bytes_reads:
  assumes "wf_raw r"
  shows "disk_key_parse (raw_bytes r @ rest) = Ok (ri_location r)"
    and "le64 (raw_bytes r @ rest) D_TRANSID = ri_transid r"
    and "unat (le16 (raw_bytes r @ rest) D_DATA_LEN) = length (ri_value r)"
    and "unat (le16 (raw_bytes r @ rest) D_NAME_LEN) = length (ri_name r)"
    and "(raw_bytes r @ rest) ! D_TYPE = ri_ftype r"
    and "slice D_NAME (length (ri_name r)) (raw_bytes r @ rest) = ri_name r"
    and "slice (D_NAME + length (ri_name r)) (length (ri_value r)) (raw_bytes r @ rest) = ri_value r"
    and "drop (D_NAME + length (ri_name r) + length (ri_value r)) (raw_bytes r @ rest) = rest"
proof -
  have n: "length (ri_name r) < 65536" "length (ri_value r) < 65536"
    using assms by (auto simp: wf_raw_def)
  show "disk_key_parse (raw_bytes r @ rest) = Ok (ri_location r)"
    by (simp add: raw_bytes_def disk_key_parse_bytes)
  show "le64 (raw_bytes r @ rest) D_TRANSID = ri_transid r"
    by (simp add: raw_bytes_def le_append_same)
  have "le16 (raw_bytes r @ rest) D_DATA_LEN = of_nat (length (ri_value r))"
    using le_append_same(3) [of "key_bytes (ri_location r) @ u64_bytes (ri_transid r)" D_DATA_LEN]
    by (simp add: raw_bytes_def)
  then show "unat (le16 (raw_bytes r @ rest) D_DATA_LEN) = length (ri_value r)"
    by (simp add: unat_of_nat_u16 n)
  have "le16 (raw_bytes r @ rest) D_NAME_LEN = of_nat (length (ri_name r))"
    using le_append_same(3) [of "key_bytes (ri_location r) @ u64_bytes (ri_transid r) @
        u16_bytes (of_nat (length (ri_value r)))" D_NAME_LEN]
    by (simp add: raw_bytes_def)
  then show "unat (le16 (raw_bytes r @ rest) D_NAME_LEN) = length (ri_name r)"
    by (simp add: unat_of_nat_u16 n)
qed (simp_all add: raw_bytes_def nth_append slice_def)

lemma parse_items_step:
  "wf_raw r \<Longrightarrow> parse_items_loop (raw_bytes r @ rest) out = parse_items_loop rest (out @ [r])"
  by (subst parse_items_loop.simps)
    (auto simp: raw_bytes_reads Let_def wf_raw_def intro!: arg_cong [where f = "parse_items_loop rest"]
      dest: arg_cong [where f = length])

lemma parse_items_nil: "parse_items_loop [] out = Ok out"
  by (simp add: parse_items_loop.simps)

lemma parse_items_bytes:
  "list_all wf_raw rs \<Longrightarrow> parse_items_loop (concat (map raw_bytes rs)) out = Ok (out @ rs)"
  by (induction rs arbitrary: out) (simp_all add: parse_items_nil parse_items_step)

lemma le16_bytes: "off + 2 \<le> length b \<Longrightarrow> u16_bytes (le16 b off) = slice off 2 b"
  using le_nat_bound [of "slice off 2 b"]
  by (simp add: le16_def u16_bytes_def unat_of_nat to_le_le_nat)

lemma slice_join_at: "b = a + m \<Longrightarrow> slice a m xs @ slice b n xs = slice a (m + n) xs"
  by (simp add: slice_join)

lemma disk_key_parse_key_bytes:
  assumes "disk_key_parse b = Ok k"
  shows "key_bytes k = slice 0 17 b"
proof -
  have l: "17 \<le> length b" and k: "k = DiskKey (le64 b 0) (b ! 8) (le64 b 9)"
    using assms by (auto simp: disk_key_parse_eq split: if_splits)
  have "[b ! 8] = slice 8 1 b"
    using l by (simp add: slice_def take_Suc_conv_app_nth Cons_nth_drop_Suc [symmetric])
  then have "key_bytes k = slice 0 8 b @ slice 8 1 b @ slice 9 8 b"
    using l by (simp add: key_bytes_def k u64_bytes_le64)
  also have "\<dots> = slice 0 17 b"
    using l slice_join_at [of 9 8 1 b 8] slice_join_at [of 8 0 8 b 9] by simp
  finally show ?thesis .
qed

lemma parse_items_inv:
  "parse_items_loop rest out = Ok items \<Longrightarrow>
   \<exists>rs. items = out @ rs \<and> rest = concat (map raw_bytes rs) \<and> list_all wf_raw rs"
proof (induction rest out rule: parse_items_loop.induct)
  case (1 rest out)
  show ?case
  proof (cases "rest = []")
    case True
    then show ?thesis using "1.prems" by (simp add: parse_items_nil)
  next
    case False
    define dl where "dl = unat (le16 rest D_DATA_LEN)"
    define nl where "nl = unat (le16 rest D_NAME_LEN)"
    obtain k where k: "disk_key_parse rest = Ok k" and len: "30 \<le> length rest"
      and n: "0 < nl" "nl \<le> MAX_NAME_LEN" "30 + nl + dl \<le> length rest"
      and rec: "parse_items_loop (drop (30 + nl + dl) rest)
        (out @ [\<lparr>ri_location = k, ri_transid = le64 rest D_TRANSID, ri_ftype = rest ! D_TYPE,
           ri_name = slice D_NAME nl rest, ri_value = slice (D_NAME + nl) dl rest\<rparr>]) = Ok items"
      using "1.prems" False
      by (subst (asm) parse_items_loop.simps)
        (auto simp: Let_def dl_def nl_def res_simps not_less split: if_splits)
    define r where "r = \<lparr>ri_location = k, ri_transid = le64 rest D_TRANSID, ri_ftype = rest ! D_TYPE,
           ri_name = slice D_NAME nl rest, ri_value = slice (D_NAME + nl) dl rest\<rparr>"
    obtain rs where rs: "items = (out @ [r]) @ rs" "drop (30 + nl + dl) rest = concat (map raw_bytes rs)"
        "list_all wf_raw rs"
      using "1.IH" [of k dl nl "30 + nl" "30 + nl + dl"] rec k len n False
      by (auto simp: r_def dl_def nl_def)
    have dl: "dl < 65536" using unat_u16 by (simp add: dl_def)
    have w: "wf_raw r" using n len dl by (simp add: wf_raw_def r_def)
    have u: "of_nat dl = le16 rest D_DATA_LEN" "of_nat nl = le16 rest D_NAME_LEN"
      by (simp_all add: dl_def nl_def)
    have "[rest ! D_TYPE] = slice 29 1 rest"
      using len by (simp add: slice_def take_Suc_conv_app_nth Cons_nth_drop_Suc [symmetric])
    then have "raw_bytes r = slice 0 17 rest @ slice 17 8 rest @ slice 25 2 rest @ slice 27 2 rest @
        slice 29 1 rest @ slice 30 nl rest @ slice (30 + nl) dl rest"
      using len n
      by (simp add: raw_bytes_def r_def disk_key_parse_key_bytes [OF k] u64_bytes_le64 u le16_bytes)
    also have "\<dots> = slice 0 (30 + nl + dl) rest"
      by (simp add: slice_join_at ac_simps)
    finally have "rest = raw_bytes r @ concat (map raw_bytes rs)"
      using rs(2) by (metis append_take_drop_id drop0 slice_def)
    then show ?thesis
      using rs w by (intro exI [of _ "r # rs"]) simp
  qed
qed

lemma parse_items_eq:
  "parse_items data = Ok items \<longleftrightarrow> data = concat (map raw_bytes items) \<and> list_all wf_raw items"
  using parse_items_inv [of data "[]" items] parse_items_bytes [of items "[]"]
  by (auto simp: parse_items_def)

section \<open>What the writers write\<close>

lemma to_le_0: "to_le n 0 = replicate n 0"
  by (induction n) simp_all

lemma zero_bytes: "u64_bytes 0 = replicate 8 0" "u16_bytes 0 = replicate 2 0"
  by (simp_all add: u64_bytes_def u16_bytes_def to_le_0)

lemma put_front: "length ys \<le> n \<Longrightarrow> put_at 0 ys (replicate n 0 @ zs) = ys @ replicate (n - length ys) 0 @ zs"
  by (simp add: put_at_def)

lemma put_past:
  "length xs \<le> off \<Longrightarrow> put_at off ys (xs @ zs) = xs @ put_at (off - length xs) ys zs"
  by (simp add: put_at_def)

lemma dir_entry_bytes_raw:
  "dir_entry_bytes child g ft name =
     raw_bytes \<lparr>ri_location = DiskKey child INODE_ITEM_KEY 0, ri_transid = g, ri_ftype = ft,
       ri_name = name, ri_value = []\<rparr>"
  by (simp add: dir_entry_bytes_def raw_bytes_def key_bytes_def Let_def zero_bytes put_at_def
      list_update_append numeral_eq_Suc)

lemma xattr_record_raw:
  "xattr_record g name val =
     raw_bytes \<lparr>ri_location = DiskKey 0 0 0, ri_transid = g, ri_ftype = FT_XATTR, ri_name = name, ri_value = val\<rparr>"
  by (simp add: xattr_record_def raw_bytes_def key_bytes_def Let_def zero_bytes put_at_def
      list_update_append numeral_eq_Suc)

section \<open>Cutting a record\<close>

fun remove_first :: "('a \<Rightarrow> bool) \<Rightarrow> 'a list \<Rightarrow> ('a \<times> 'a list) option" where
  "remove_first P [] = None"
| "remove_first P (x # xs) =
     (if P x then Some (x, xs) else map_option (\<lambda>(y, ys). (y, x # ys)) (remove_first P xs))"

lemma remove_first_None: "remove_first P xs = None \<longleftrightarrow> (\<forall>x \<in> set xs. \<not> P x)"
  by (induction xs) auto

lemma remove_first_Some:
  "remove_first P xs = Some (y, ys) \<Longrightarrow> P y \<and> (\<exists>as bs. xs = as @ y # bs \<and> ys = as @ bs \<and> (\<forall>x \<in> set as. \<not> P x))"
proof (induction xs arbitrary: ys)
  case (Cons x xs)
  show ?case
  proof (cases "P x")
    case True
    then have "P y \<and> x # xs = [] @ y # ys \<and> ys = [] @ ys \<and> (\<forall>x \<in> set []. \<not> P x)"
      using Cons.prems by simp
    then show ?thesis by blast
  next
    case False
    then obtain zs where z: "remove_first P xs = Some (y, zs)" "ys = x # zs"
      using Cons.prems by auto
    then obtain as bs where "P y" "xs = as @ y # bs" "zs = as @ bs" "\<forall>x \<in> set as. \<not> P x"
      using Cons.IH by blast
    then have "P y \<and> x # xs = (x # as) @ y # bs \<and> ys = (x # as) @ bs \<and> (\<forall>x \<in> set (x # as). \<not> P x)"
      using z False by simp
    then show ?thesis by blast
  qed
qed simp

lemma remove_first_SomeE:
  assumes "remove_first P xs = Some (y, ys)"
  obtains as bs where "P y" "xs = as @ y # bs" "ys = as @ bs" "\<forall>x \<in> set as. \<not> P x"
  using remove_first_Some [OF assms] by (elim conjE exE)

lemma without_dir_record_at:
  "list_all wf_raw rs \<Longrightarrow>
   without_dir_record_loop (pre @ concat (map raw_bytes rs)) name (length pre) =
     map_option (\<lambda>(_, rs'). pre @ concat (map raw_bytes rs')) (remove_first (\<lambda>r. ri_name r = name) rs)"
proof (induction rs arbitrary: pre)
  case Nil
  show ?case by (subst without_dir_record_loop.simps) simp
next
  case (Cons r rs)
  then have w: "wf_raw r" by simp
  let ?rest = "concat (map raw_bytes rs)"
  note reads = raw_bytes_reads [OF w, of ?rest]
  have step: "without_dir_record_loop ((pre @ raw_bytes r) @ ?rest) name (length pre + 30 + length (ri_name r) + length (ri_value r)) =
      map_option (\<lambda>(_, rs'). (pre @ raw_bytes r) @ concat (map raw_bytes rs')) (remove_first (\<lambda>r. ri_name r = name) rs)"
    using Cons.IH [of "pre @ raw_bytes r"] Cons.prems by (simp add: add.assoc)
  show ?case
    by (subst without_dir_record_loop.simps)
      (use step in \<open>auto simp: Let_def reads option.map_comp comp_def case_prod_unfold\<close>)
qed

lemma without_dir_record_bytes:
  "list_all wf_raw rs \<Longrightarrow>
   without_dir_record (concat (map raw_bytes rs)) name =
     map_option (\<lambda>(_, rs'). concat (map raw_bytes rs')) (remove_first (\<lambda>r. ri_name r = name) rs)"
  using without_dir_record_at [of rs "[]" name] by (simp add: without_dir_record_def)

text \<open>Reference items: an index and a name; an extended one has the directory before them.\<close>

definition wf_refs :: "(u64 \<times> bytes) list \<Rightarrow> bool" where
  "wf_refs = list_all (\<lambda>(_, name). length name < 65536)"

definition refs_bytes :: "(u64 \<times> bytes) list \<Rightarrow> bytes" where
  "refs_bytes rs = concat (map (\<lambda>(i, n). inode_ref i n) rs)"

lemma refs_bytes_simps [simp]:
  "refs_bytes [] = []" "refs_bytes (r # rs) = inode_ref (fst r) (snd r) @ refs_bytes rs"
  "refs_bytes (rs @ rs') = refs_bytes rs @ refs_bytes rs'"
  by (simp_all add: refs_bytes_def case_prod_unfold)

lemma without_ref_at:
  "wf_refs rs \<Longrightarrow>
   without_ref_loop (pre @ refs_bytes rs) name (length pre) =
     map_option (\<lambda>(r, rs'). (fst r, pre @ refs_bytes rs')) (remove_first (\<lambda>r. snd r = name) rs)"
proof (induction rs arbitrary: pre)
  case Nil
  show ?case by (subst without_ref_loop.simps) simp
next
  case (Cons r rs)
  obtain i n where r: "r = (i, n)" by (cases r)
  have n: "length n < 65536" using Cons.prems by (simp add: wf_refs_def r)
  define all where "all = pre @ inode_ref i n @ refs_bytes rs"
  have reads: "le64 all (length pre) = i" "unat (le16 all (length pre + 8)) = length n"
      "slice (length pre + 10) (length n) all = n" "drop (length pre + 10 + length n) all = refs_bytes rs"
      "take (length pre) all = pre" "length all = length pre + 10 + length n + length (refs_bytes rs)"
    using le_append_same(1) [of pre "length pre" i] le_append_same(3) [of "pre @ u64_bytes i" "length pre + 8"]
    by (simp_all add: all_def inode_ref_def unat_of_nat_u16 n slice_def)
  have step: "without_ref_loop all name (length pre + 10 + length n) =
      map_option (\<lambda>(r, rs'). (fst r, (pre @ inode_ref i n) @ refs_bytes rs')) (remove_first (\<lambda>r. snd r = name) rs)"
    using Cons.IH [of "pre @ inode_ref i n"] Cons.prems by (simp add: inode_ref_def wf_refs_def add.assoc all_def)
  have "without_ref_loop all name (length pre) =
      (if n = name then Some (i, pre @ refs_bytes rs) else without_ref_loop all name (length pre + 10 + length n))"
    using reads by (subst without_ref_loop.simps) (auto simp: Let_def)
  then show ?case
    by (auto simp: step r all_def [symmetric] option.map_comp comp_def case_prod_unfold)
qed

lemma without_ref_bytes:
  "wf_refs rs \<Longrightarrow>
   without_ref (refs_bytes rs) name =
     map_option (\<lambda>(r, rs'). (fst r, refs_bytes rs')) (remove_first (\<lambda>r. snd r = name) rs)"
  using without_ref_at [of rs "[]" name] by (simp add: without_ref_def)

section \<open>Properties\<close>

text \<open>
  C24. Parsing a directory or attribute item is exactly reading records laid end to end: the parser
  returns a list of records if and only if the item is the concatenation of those records' bytes and
  each has a name of 1 to 255 bytes and a value whose length fits its field. In particular nothing is
  skipped, no byte is left over, and a list of records is recovered from its bytes.
\<close>

theorem parse_items_iff:
  "parse_items data = Ok items \<longleftrightarrow>
   data = concat (map raw_bytes items) \<and>
   list_all (\<lambda>r. length (ri_name r) \<in> {1..255} \<and> length (ri_value r) \<in> {0..<65536}) items"
proof -
  have "wf_raw = (\<lambda>r. length (ri_name r) \<in> {1..255} \<and> length (ri_value r) \<in> {0..<65536})"
    by (auto simp: wf_raw_def fun_eq_iff Suc_le_eq)
  then show ?thesis by (simp add: parse_items_eq)
qed

text \<open>
  C25. An attribute set on an item that holds other records is read back with the value it was set to,
  exactly once, and every record under another name is kept in order: this is the record that
  \<open>set_xattr\<close> writes after cutting the old one.
\<close>

theorem xattr_replaced:
  assumes "parse_xattr_items existing = Ok entries" and "distinct (map xe_name entries)"
    and "length name \<in> {1..255}" and "length val < 65536"
  shows "parse_xattr_items
      (case without_dir_record existing name of Some rest \<Rightarrow> rest @ xattr_record g name val
       | None \<Rightarrow> existing @ xattr_record g name val) =
     Ok (filter (\<lambda>e. xe_name e \<noteq> name) entries @ [\<lparr>xe_name = name, xe_value = val\<rparr>])"
proof -
  define conv :: "raw_item \<Rightarrow> xattr_entry" where "conv r = \<lparr>xe_name = ri_name r, xe_value = ri_value r\<rparr>" for r
  have parsed: "parse_xattr_items (concat (map raw_bytes rs)) = Ok (map conv rs)"
    if "list_all wf_raw rs" "\<forall>r \<in> set rs. ri_ftype r = FT_XATTR" for rs
    using that parse_items_eq [of "concat (map raw_bytes rs)" rs]
    by (simp add: parse_xattr_items_def collect_results_map conv_def)
  obtain rs where rs: "parse_items existing = Ok rs" and ok: "list_all2 (\<lambda>r e. ri_ftype r = FT_XATTR \<and> e = conv r) rs entries"
  proof -
    obtain rs where "parse_items existing = Ok rs" "list_all2 (\<lambda>r e. (if ri_ftype r \<noteq> FT_XATTR
        then Err (BadSuperblock ''extended attribute carries another file type'') else Ok (conv r)) = Ok e) rs entries"
      using assms(1) by (auto simp: parse_xattr_items_def res_simps collect_results_eq_Ok conv_def)
    then show ?thesis
      by (intro that [of rs]) (auto elim!: list_all2_mono split: if_splits)
  qed
  have w: "list_all wf_raw rs" "existing = concat (map raw_bytes rs)"
    using rs by (auto simp: parse_items_eq)
  have ft: "\<forall>r \<in> set rs. ri_ftype r = FT_XATTR" and en: "entries = map conv rs"
    using ok by (auto simp: list_all2_conv_all_nth in_set_conv_nth intro: nth_equalityI)
  define new where "new = \<lparr>ri_location = DiskKey 0 0 0, ri_transid = g, ri_ftype = FT_XATTR, ri_name = name, ri_value = val\<rparr>"
  have new: "xattr_record g name val = raw_bytes new" "wf_raw new" "conv new = \<lparr>xe_name = name, xe_value = val\<rparr>" "ri_ftype new = FT_XATTR"
    using assms(3,4) by (auto simp: new_def xattr_record_raw wf_raw_def conv_def)
  have names: "map xe_name entries = map ri_name rs" by (simp add: en conv_def comp_def)
  define left where "left = filter (\<lambda>r. ri_name r \<noteq> name) rs"
  have fl: "filter (\<lambda>e. xe_name e \<noteq> name) entries = map conv left"
    by (simp add: en left_def filter_map comp_def conv_def)
  have cut: "(case without_dir_record existing name of Some rest \<Rightarrow> rest @ xattr_record g name val
       | None \<Rightarrow> existing @ xattr_record g name val) = concat (map raw_bytes (left @ [new]))"
  proof (cases "remove_first (\<lambda>r. ri_name r = name) rs")
    case None
    then have "left = rs" by (simp add: left_def remove_first_None)
    then show ?thesis by (simp add: w(2) without_dir_record_bytes [OF w(1)] None new(1))
  next
    case (Some p)
    obtain y ys where p: "p = (y, ys)" by (cases p)
    obtain as bs where sp: "ri_name y = name" "rs = as @ y # bs" "ys = as @ bs"
      by (rule remove_first_SomeE [OF Some [unfolded p]])
    then have "ri_name r \<noteq> name" if "r \<in> set as \<union> set bs" for r
      using that assms(2) by (auto simp: names) (metis image_eqI)+
    then have "filter (\<lambda>r. ri_name r \<noteq> name) as = as" "filter (\<lambda>r. ri_name r \<noteq> name) bs = bs"
      by (auto simp: filter_id_conv)
    then have "left = ys"
      by (simp add: left_def sp)
    then show ?thesis by (simp add: w(2) without_dir_record_bytes [OF w(1)] Some p new(1))
  qed
  have "list_all wf_raw (left @ [new])" "\<forall>r \<in> set (left @ [new]). ri_ftype r = FT_XATTR"
    using w(1) ft new by (auto simp: left_def list_all_iff)
  then show ?thesis
    using parsed [of "left @ [new]"] by (simp only: cut fl) (simp add: new(3))
qed

theorem xattr_replaced_witness:
  "parse_xattr_items
      (case without_dir_record (xattr_record 1 [97] [1, 2] @ xattr_record 1 [98] []) [97] of
         Some rest \<Rightarrow> rest @ xattr_record 2 [97] [3]
       | None \<Rightarrow> (xattr_record 1 [97] [1, 2] @ xattr_record 1 [98] []) @ xattr_record 2 [97] [3]) =
     Ok [\<lparr>xe_name = [98], xe_value = []\<rparr>, \<lparr>xe_name = [97], xe_value = [3]\<rparr>]"
proof -
  have "parse_xattr_items (xattr_record 1 [97] [1, 2] @ xattr_record 1 [98] []) =
      Ok [\<lparr>xe_name = [97], xe_value = [1, 2]\<rparr>, \<lparr>xe_name = [98], xe_value = []\<rparr>]"
    by (simp add: parse_xattr_items_def xattr_record_raw parse_items_def parse_items_step wf_raw_def
        parse_items_step [of _ "[]", simplified] parse_items_nil)
  from xattr_replaced [OF this, of "[97]" "[3]" 2] show ?thesis by simp
qed

end
