(* ===== verification/Pool.thy ===== *)
theory Pool
  imports DirItems
begin

text \<open>
  \<open>src/src/fs.rs\<close>, the pool of devices: reading a logical range on one read attempt
  (\<open>read_logical_pool_mirror\<close>, \<open>read_logical_on_mirror\<close>), rebuilding it from parity
  (\<open>read_rebuilt\<close>), and writing it to every copy (\<open>mirror_spans\<close>, \<open>write_logical_all_mirrors\<close>,
  \<open>write_parity\<close>). The lemmas relate both to a logical image: the bytes the volume holds.

  A block device is a third-party type. A read handle is the function that fills a buffer of
  the given length from the given place; the devices a pool can write are values of a parameter type
  whose operations are the fields of \<open>block_lib\<close>. What the driver relies on is \<open>wf_block_lib\<close>:
  a read returns the bytes at the place, a write replaces them and nothing else.
\<close>

section \<open>Reading\<close>

type_synonym block_read = "u64 \<Rightarrow> nat \<Rightarrow> bytes result"

fun first_ok :: "('a \<Rightarrow> 'b result) \<Rightarrow> 'a list \<Rightarrow> 'b option" where
  "first_ok f [] = None"
| "first_ok f (x # xs) = (case f x of Inr y \<Rightarrow> Some y | Inl _ \<Rightarrow> first_ok f xs)"

lemma first_ok_cong [fundef_cong]:
  "xs = ys \<Longrightarrow> (\<And>x. x \<in> set ys \<Longrightarrow> f x = g x) \<Longrightarrow> first_ok f xs = first_ok g ys"
proof (induction ys arbitrary: xs)
  case (Cons y ys)
  then show ?case by (simp split: sum.split)
qed simp

lemma first_ok_Some: "first_ok f xs = Some y \<Longrightarrow> \<exists>x \<in> set xs. f x = Ok y"
  by (induction xs) (auto split: sum.splits)

lemma first_ok_None: "first_ok f xs = None \<longleftrightarrow> (\<forall>x \<in> set xs. \<not> is_ok (f x))"
  by (induction xs) (auto split: sum.splits)

definition rebuilt_from_parity :: "chunk_table \<Rightarrow> nat \<Rightarrow> u64 \<Rightarrow> chunk option" where
  "rebuilt_from_parity cs attempt at =
     (if attempt = 0 then None
      else Option.bind (chunk_for cs at) (\<lambda>c. if parity_count c \<noteq> None then Some c else None))"

definition read_rebuilt ::
  "chunk \<Rightarrow> nat \<Rightarrow> u64 \<Rightarrow> nat \<Rightarrow> (u64 \<Rightarrow> u64 \<Rightarrow> nat \<Rightarrow> bytes result) \<Rightarrow> bytes result" where
  "read_rebuilt c attempt logical len rd =
     try_in (chunk_parity_read c logical) (\<lambda>plan.
     let n = min (unat (pr_len plan)) len in
     if n = 0 then Err (UnmappedLogical logical)
     else
       try_in (ok_or (BadChunkItem ''read attempt of a chunk offering fewer'')
                 (for_attempt attempt (pr_want plan) (length (pr_data plan)) (pr_q plan \<noteq> None))) (\<lambda>way.
       let fetch = (\<lambda>(devid, physical). rd devid physical n);
           unread = (\<lambda>i. i = pr_want plan \<or> way = RebuildPQ i)
       in try_in (collect_results
                    (\<lambda>(i, at). if unread i then Ok None else try_in (fetch at) (\<lambda>b. Ok (Some b)))
                    (enumerate 0 (pr_data plan))) (\<lambda>data.
          try_in (case way of
                    RebuildQ \<Rightarrow> Ok None
                  | _ \<Rightarrow> try_in (fetch (pr_p plan)) (\<lambda>b. Ok (Some b))) (\<lambda>p.
          try_in (case (way, pr_q plan) of
                    (RebuildP, _) \<Rightarrow> Ok None
                  | (_, Some q) \<Rightarrow> try_in (fetch q) (\<lambda>b. Ok (Some b))
                  | (_, None) \<Rightarrow> Ok None) (\<lambda>q.
          try_in (rebuild way (pr_want plan) data p q) (\<lambda>out.
          if length out \<noteq> n then Err (Panic ''source slice length does not match destination'')
          else Ok out))))))"

lemma read_rebuilt_length:
  "read_rebuilt c attempt logical len rd = Ok out \<Longrightarrow> 0 < length out \<and> length out \<le> len"
  by (auto simp: read_rebuilt_def Let_def try_in_eq_Ok split: if_splits)

text \<open>
  The loops advance \<open>done\<close> over the buffer; here \<open>at\<close> is \<open>logical + done\<close> and \<open>len\<close> what is
  left to fill. \<open>devid\<close> is \<open>u64::MAX\<close> where any device may answer.
\<close>

function read_logical_on_mirror ::
  "block_read \<Rightarrow> chunk_table \<Rightarrow> u64 \<Rightarrow> nat \<Rightarrow> u64 \<Rightarrow> nat \<Rightarrow> bytes result" where
  "read_logical_on_mirror dev cs devid mirror at len =
     (if len = 0 then Ok []
      else
        (case rebuilt_from_parity cs mirror at of
           Some c \<Rightarrow>
             try_in (read_rebuilt c mirror at len
                       (\<lambda>on physical n.
                          if devid \<noteq> -1 \<and> on \<noteq> devid then
                            Err (UnsupportedFeature ''rebuilding needs a device that is not open'')
                          else dev physical n)) (\<lambda>out.
             try_in (read_logical_on_mirror dev cs devid mirror (at + of_nat (length out)) (len - length out)) (\<lambda>rest.
             Ok (out @ rest)))
         | None \<Rightarrow>
             try_in (map_mirror cs at mirror) (\<lambda>m.
             if devid \<noteq> -1 \<and> mp_devid m \<noteq> devid then
               Err (UnsupportedFeature ''the range lives on a device that is not open'')
             else
               let n = min (unat (mp_len m)) len in
               if n = 0 then Err (UnmappedLogical at)
               else
                 try_in (dev (mp_physical m) n) (\<lambda>out.
                 try_in (read_logical_on_mirror dev cs devid mirror (at + of_nat n) (len - n)) (\<lambda>rest.
                 Ok (out @ rest))))))"
  by pat_completeness auto
termination
  by (relation "measure (\<lambda>(dev, cs, devid, mirror, at, len). len)") (auto dest: read_rebuilt_length)

definition device_for :: "(u64 \<times> block_read) list \<Rightarrow> u64 \<Rightarrow> block_read result" where
  "device_for devs devid =
     ok_or (UnsupportedFeature ''the range lives on a device which was not given'') (map_of devs devid)"

text \<open>
  A failed attempt may have filled part of the buffer; the attempt that succeeds fills all of it.
\<close>

function read_logical_pool_mirror ::
  "block_read \<Rightarrow> (u64 \<times> block_read) list \<Rightarrow> chunk_table \<Rightarrow> nat \<Rightarrow> u64 \<Rightarrow> nat \<Rightarrow> bytes result" where
  "read_logical_pool_mirror dev devs cs mirror at len =
     (if devs = [] then read_logical_on_mirror dev cs (-1) mirror at len
      else if len = 0 then Ok []
      else
        (case rebuilt_from_parity cs mirror at of
           Some c \<Rightarrow>
             try_in (read_rebuilt c mirror at len
                       (\<lambda>devid physical n. try_in (device_for devs devid) (\<lambda>d. d physical n))) (\<lambda>out.
             try_in (read_logical_pool_mirror dev devs cs mirror (at + of_nat (length out)) (len - length out)) (\<lambda>rest.
             Ok (out @ rest)))
         | None \<Rightarrow>
             try_in (map_mirror cs at mirror) (\<lambda>m.
             let n = min (unat (mp_len m)) len in
             if n = 0 then Err (UnmappedLogical at)
             else
               (case map_of devs (mp_devid m) of
                  None \<Rightarrow>
                    (if mirror = 0 then
                       try_in (read_attempts_at cs at) (\<lambda>attempts.
                       case first_ok (\<lambda>attempt. read_logical_pool_mirror dev devs cs attempt at n) [1..<attempts] of
                         Some out \<Rightarrow>
                           try_in (read_logical_pool_mirror dev devs cs mirror (at + of_nat n) (len - n)) (\<lambda>rest.
                           Ok (out @ rest))
                       | None \<Rightarrow> Err (UnsupportedFeature ''the range lives on a device which was not given''))
                     else Err (UnsupportedFeature ''the range lives on a device which was not given''))
                | Some d \<Rightarrow>
                    try_in (d (mp_physical m) n) (\<lambda>out.
                    try_in (read_logical_pool_mirror dev devs cs mirror (at + of_nat n) (len - n)) (\<lambda>rest.
                    Ok (out @ rest)))))))"
  by pat_completeness auto
termination
  by (relation "inv_image (less_than <*lex*> less_than)
        (\<lambda>(dev, devs, cs, mirror, at, len). (if mirror = 0 then 1 else 0 :: nat, len))")
    (auto dest: read_rebuilt_length)

declare read_logical_on_mirror.simps [simp del] read_logical_pool_mirror.simps [simp del]

definition read_logical_pool ::
  "block_read \<Rightarrow> (u64 \<times> block_read) list \<Rightarrow> chunk_table \<Rightarrow> u64 \<Rightarrow> nat \<Rightarrow> bytes result" where
  "read_logical_pool dev devs cs logical len = read_logical_pool_mirror dev devs cs 0 logical len"

section \<open>A parity read is contiguous\<close>

text \<open>A chunk whose device extents end inside the address space.\<close>

definition chunk_fits :: "chunk \<Rightarrow> bool" where
  "chunk_fits c \<longleftrightarrow>
     (\<forall>p. chunk_profile_of c = Ok p \<longrightarrow> (\<forall>st \<in> set (ch_stripes c). unat (st_offset st) + span c p \<le> 2 ^ 64))"

definition shift :: "nat \<Rightarrow> u64 \<times> u64 \<Rightarrow> u64 \<times> u64" where
  "shift d x = (fst x, snd x + of_nat d)"

lemma stripe_at_shift:
  assumes "stripe_at c row i = Ok x" and "unat row + d < s"
    and "\<And>st. st \<in> set (ch_stripes c) \<Longrightarrow> unat (st_offset st) + s \<le> 2 ^ 64"
  shows "stripe_at c (row + of_nat d) i = Ok (shift d x)" and "unat (snd x) + d < 2 ^ 64"
proof -
  have i: "i < length (ch_stripes c)" "fst x = st_devid (ch_stripes c ! i)"
    "snd x = st_offset (ch_stripes c ! i) + row"
    "unat (st_offset (ch_stripes c ! i)) + unat row < 2 ^ 64"
    using assms(1) by (auto simp: stripe_at_Ok checked_add_Some)
  have o: "unat (st_offset (ch_stripes c ! i)) + s \<le> 2 ^ 64"
    using assms(3) i(1) by simp
  have b: "unat (st_offset (ch_stripes c ! i)) + (unat row + d) < 2 ^ 64"
    using o assms(2) by linarith
  then have d: "unat (of_nat d :: u64) = d"
    by (simp add: unat_of_nat_u64)
  have r: "unat (row + of_nat d) = unat row + d"
    using b by (simp add: unat_add_small d)
  show "stripe_at c (row + of_nat d) i = Ok (shift d x)"
    using i b by (simp add: stripe_at_Ok checked_add_Some r shift_def add.assoc)
  show "unat (snd x) + d < 2 ^ 64"
    using i b by (simp add: unat_add_small)
qed

lemma stripes_at_shift:
  assumes "collect_results (stripe_at c row) ids = Ok xs" and "unat row + d < s"
    and "\<And>st. st \<in> set (ch_stripes c) \<Longrightarrow> unat (st_offset st) + s \<le> 2 ^ 64"
  shows "collect_results (stripe_at c (row + of_nat d)) ids = Ok (map (shift d) xs)"
    and "\<forall>x \<in> set xs. unat (snd x) + d < 2 ^ 64"
proof -
  have sh: "stripe_at c (row + of_nat d) i = Ok (shift d x) \<and> unat (snd x) + d < 2 ^ 64"
    if "stripe_at c row i = Ok x" for i x
    using stripe_at_shift [OF that assms(2,3)] by blast
  have xs: "list_all2 (\<lambda>i x. stripe_at c row i = Ok x) ids xs"
    using assms(1) by (simp add: collect_results_eq_Ok)
  show "collect_results (stripe_at c (row + of_nat d)) ids = Ok (map (shift d) xs)"
    using xs sh by (simp add: collect_results_eq_Ok list_all2_map2 list_all2_mono)
  show "\<forall>x \<in> set xs. unat (snd x) + d < 2 ^ 64"
  proof
    fix x
    assume "x \<in> set xs"
    then obtain i where "i < length xs" "x = xs ! i" by (auto simp: in_set_conv_nth)
    then show "unat (snd x) + d < 2 ^ 64"
      using xs sh [of "ids ! i" x] by (simp add: list_all2_conv_all_nth)
  qed
qed

lemma row_bound:
  assumes "off < clen c" and "off mod slen c + d < slen c"
  shows "off div slen c div data_width p (nstripes c) * slen c + off mod slen c + d < span c p"
proof -
  let ?w = "data_width p (nstripes c)"
  have "off div slen c div ?w \<le> (clen c - 1) div slen c div ?w"
    using assms(1) by (intro div_le_mono) simp
  then have "off div slen c div ?w * slen c \<le> (clen c - 1) div slen c div ?w * slen c"
    by (rule mult_le_mono1)
  then show ?thesis
    using assms(2) unfolding span_def add_mult_distrib by linarith
qed

lemma parity_read_row:
  assumes wf: "wf_chunk c" and ok: "chunk_parity_read c l = Ok pr" and d: "d < unat (pr_len pr)"
    and row: "Option.bind (checked_mul ((l - ch_logical c) div ch_stripe_len c div k) (ch_stripe_len c))
       (\<lambda>r. checked_add r ((l - ch_logical c) mod ch_stripe_len c)) = Some row"
    and k: "k = of_nat (nstripes c) - of_nat np" and p: "chunk_profile_of c = Ok p" "p \<in> {Raid5, Raid6}"
      "np = parity_np p" and cov: "covers c l"
    and len: "pr_len pr = min (ch_stripe_len c - (l - ch_logical c) mod ch_stripe_len c) (logical_end c - l)"
  shows "unat row + d < span c p" and "offset_in c l mod slen c + d < slen c" and "offset_in c l + d < clen c"
    and "unat k = data_width p (nstripes c)"
proof -
  note facts = wf_chunk_facts [OF wf]
  have off: "unat (l - ch_logical c) = offset_in c l" by (rule offset_unat [OF cov])
  have lt: "offset_in c l < clen c" using cov by (auto simp: covers_def offset_in_def)
  have m: "unat ((l - ch_logical c) mod ch_stripe_len c) = offset_in c l mod slen c"
    by (simp add: unat_mod_word off slen_def)
  have sm: "offset_in c l mod slen c < slen c" using facts(2) by simp
  have a: "unat (ch_stripe_len c - (l - ch_logical c) mod ch_stripe_len c) = slen c - offset_in c l mod slen c"
    using sm by (subst unat_sub_le) (auto simp: word_le_nat_alt m slen_def)
  have b: "unat (logical_end c - l) = clen c - offset_in c l"
    using cov facts(4) by (subst unat_sub_le) (auto simp: covers_def offset_in_def word_le_nat_alt)
  have "d < slen c - offset_in c l mod slen c" "d < clen c - offset_in c l"
    using d len a b by (auto simp: min_def word_le_nat_alt split: if_splits)
  then show dm: "offset_in c l mod slen c + d < slen c" and "offset_in c l + d < clen c"
    by auto
  have kk: "unat k = data_width p (nstripes c)"
    using wf_chunk_stripes [OF wf p(1)] p(2,3) unat_stripes_sub [of np c]
    by (auto simp: k data_width_def stripes_match_def parity_np_def nstripes_def)
  then show "unat k = data_width p (nstripes c)" .
  have "unat row = offset_in c l div slen c div data_width p (nstripes c) * slen c + offset_in c l mod slen c"
    using row by (auto simp: bind_eq_Some_conv checked_mul_Some checked_add_Some unat_add_small unat_mult_small
        unat_div_word kk off m slen_def)
  then show "unat row + d < span c p"
    using row_bound [OF lt dm, of p] by simp
qed

lemma unat_min: "unat (min a b) = min (unat a) (unat b)" for a b :: "'a::len word"
  by (simp add: min_def word_le_nat_alt)

lemma min_less_both: "min (a - (x + d)) (b - (y + d)) = min (a - x) (b - y) - (d :: nat)"
  by linarith

lemma parity_read_contiguous:
  assumes wf: "wf_chunk c" and fits: "chunk_fits c" and ok: "chunk_parity_read c l = Ok pr"
    and d: "d < unat (pr_len pr)"
  shows "chunk_parity_read c (l + of_nat d) =
      Ok \<lparr>pr_want = pr_want pr, pr_data = map (shift d) (pr_data pr), pr_p = shift d (pr_p pr),
          pr_q = map_option (shift d) (pr_q pr), pr_len = pr_len pr - of_nat d\<rparr>"
    and "x \<in> set (pr_data pr @ [pr_p pr] @ optlist (pr_q pr)) \<Longrightarrow> unat (snd x) + d < 2 ^ 64"
proof -
  let ?o = "l - ch_logical c" and ?L = "l + of_nat d"
  obtain p np pl row k where p: "chunk_profile_of c = Ok p" "p \<in> {Raid5, Raid6}" "np = parity_np p"
    and cov: "covers c l" and k: "k = of_nat (nstripes c) - of_nat np" and k0: "k \<noteq> 0"
    and pl: "placement (nstripes c) np (?o div ch_stripe_len c div k) = Ok pl"
    and row: "Option.bind (checked_mul (?o div ch_stripe_len c div k) (ch_stripe_len c))
       (\<lambda>r. checked_add r (?o mod ch_stripe_len c)) = Some row"
    and data: "collect_results (stripe_at c row) (data_stripes pl) = Ok (pr_data pr)"
    and pp: "stripe_at c row (p_stripe pl) = Ok (pr_p pr)"
    and qq: "collect_results (stripe_at c row) (optlist (q_stripe pl)) = Ok (optlist (pr_q pr))"
    and want: "pr_want pr = unat (?o div ch_stripe_len c mod k)"
    and len: "pr_len pr = min (ch_stripe_len c - ?o mod ch_stripe_len c) (logical_end c - l)"
    by (rule chunk_parity_read_Ok [OF wf ok])
  note facts = wf_chunk_facts [OF wf]
  note b = parity_read_row [OF wf ok d row k p cov len]
  have fit: "\<And>st. st \<in> set (ch_stripes c) \<Longrightarrow> unat (st_offset st) + span c p \<le> 2 ^ 64"
    using fits p(1) by (simp add: chunk_fits_def)
  have lt: "unat l + d < unat (ch_logical c) + clen c"
    using b(3) cov by (auto simp: covers_def offset_in_def)
  have ud: "unat (of_nat d :: u64) = d"
    using lt facts(3) by (simp add: unat_of_nat_u64)
  have ul: "unat ?L = unat l + d"
    using lt facts(3) by (simp add: unat_add_small ud)
  have cov': "covers c ?L" using cov lt by (auto simp: covers_def ul)
  have off: "unat ?o = offset_in c l" by (rule offset_unat [OF cov])
  have off': "?L - ch_logical c = ?o + of_nat d" by simp
  have so: "unat (?o + of_nat d) = offset_in c l + d"
    using lt facts(3) by (subst unat_add_small) (simp_all add: off ud offset_in_def)
  have el: "(?o + of_nat d) div ch_stripe_len c = ?o div ch_stripe_len c"
    and wi: "(?o + of_nat d) mod ch_stripe_len c = ?o mod ch_stripe_len c + of_nat d"
  proof -
    note x = add_div_mod_within [OF b(2)]
    have "unat ((?o + of_nat d) div ch_stripe_len c) = unat (?o div ch_stripe_len c)"
      using x by (simp only: unat_div_word so off slen_def)
    then show "(?o + of_nat d) div ch_stripe_len c = ?o div ch_stripe_len c"
      by (simp only: word_unat_eq_iff)
    have "unat (?o mod ch_stripe_len c + of_nat d) = unat (?o mod ch_stripe_len c) + d"
      using b(2) unat_u64 [of "ch_stripe_len c"]
      by (subst unat_add_small) (simp_all add: ud unat_mod_word off flip: slen_def)
    then have "unat ((?o + of_nat d) mod ch_stripe_len c) = unat (?o mod ch_stripe_len c + of_nat d)"
      using x by (simp only: unat_mod_word so off slen_def)
    then show "(?o + of_nat d) mod ch_stripe_len c = ?o mod ch_stripe_len c + of_nat d"
      by (simp only: word_unat_eq_iff)
  qed
  have row': "Option.bind (checked_mul (?o div ch_stripe_len c div k) (ch_stripe_len c))
       (\<lambda>r. checked_add r (?o mod ch_stripe_len c + of_nat d)) = Some (row + of_nat d)"
  proof -
    obtain r where r: "checked_mul (?o div ch_stripe_len c div k) (ch_stripe_len c) = Some r"
      "row = r + ?o mod ch_stripe_len c" "unat r + unat (?o mod ch_stripe_len c) < 2 ^ 64"
      using row by (auto simp: bind_eq_Some_conv checked_add_Some)
    have "unat row + d < 2 ^ 64"
      using b(1) fit [of "ch_stripes c ! 0"] facts(5,6) by fastforce
    moreover have "unat row = unat r + unat (?o mod ch_stripe_len c)"
      using r by (simp add: unat_add_small)
    moreover have "unat (?o mod ch_stripe_len c + of_nat d) = unat (?o mod ch_stripe_len c) + d"
      using calculation by (subst unat_add_small) (simp_all add: ud)
    ultimately show ?thesis
      by (simp add: r checked_add_Some add.assoc)
  qed
  have np: "parity_count c = Some np"
    using ok p cov covers_iff [OF wf, of l] parity_count_profile [OF p(1)]
    by (auto simp: chunk_parity_read_def try_in_eq_Ok ok_or_eq_Ok split: if_splits)
  have q0: "(case q_stripe pl of None \<Rightarrow> Ok None | Some q \<Rightarrow> try_in (stripe_at c row q) (\<lambda>q. Ok (Some q))) = Ok (pr_q pr)"
    using qq by (auto simp: try_in_eq_Ok optlist_def split: option.splits)
  have q1: "(case q_stripe pl of None \<Rightarrow> Ok None | Some q \<Rightarrow> try_in (stripe_at c (row + of_nat d) q) (\<lambda>q. Ok (Some q))) =
      Ok (map_option (shift d) (pr_q pr))"
  proof (cases "q_stripe pl")
    case None
    then have "pr_q pr = None" using q0 by simp
    with None show ?thesis by simp
  next
    case (Some i)
    then obtain x where x: "stripe_at c row i = Ok x" "pr_q pr = Some x"
      using q0 by (auto simp: try_in_eq_Ok)
    then show ?thesis
      using Some stripe_at_shift(1) [OF x(1) b(1) fit] by simp
  qed
  have len': "min (ch_stripe_len c - (?o mod ch_stripe_len c + of_nat d)) (logical_end c - ?L) = pr_len pr - of_nat d"
  proof -
    have w: "unat (?o mod ch_stripe_len c) = offset_in c l mod slen c"
      by (simp add: unat_mod_word off slen_def)
    have w': "unat (?o mod ch_stripe_len c + of_nat d) = offset_in c l mod slen c + d"
      using b(2) unat_u64 [of "ch_stripe_len c"]
      by (subst unat_add_small) (simp_all add: ud w flip: slen_def)
    have s1: "unat (ch_stripe_len c - ?o mod ch_stripe_len c) = slen c - offset_in c l mod slen c"
      and s2: "unat (ch_stripe_len c - (?o mod ch_stripe_len c + of_nat d)) = slen c - (offset_in c l mod slen c + d)"
      using b(2) by (simp_all add: unat_sub_le word_le_nat_alt w w' flip: slen_def)
    have e1: "unat (logical_end c - l) = clen c - offset_in c l"
      and e2: "unat (logical_end c - ?L) = clen c - (offset_in c l + d)"
      using lt cov facts(4) by (simp_all add: unat_sub_le word_le_nat_alt ul covers_def offset_in_def)
    have "unat (pr_len pr) = min (slen c - offset_in c l mod slen c) (clen c - offset_in c l)"
      by (simp add: len unat_min s1 e1)
    moreover have "unat (pr_len pr - of_nat d) = unat (pr_len pr) - d"
      using assms(4) by (simp add: unat_sub_le word_le_nat_alt ud)
    ultimately show ?thesis
      by (simp add: word_unat_eq_iff unat_min s2 e2 min_less_both)
  qed
  have nr: "\<not> (?L < ch_logical c \<or> ?L \<ge> logical_end c)" "ch_stripe_len c \<noteq> 0"
    using covers_iff [OF wf, of ?L] cov' facts(2) by (auto simp: slen_def)
  show "chunk_parity_read c ?L =
      Ok \<lparr>pr_want = pr_want pr, pr_data = map (shift d) (pr_data pr), pr_p = shift d (pr_p pr),
          pr_q = map_option (shift d) (pr_q pr), pr_len = pr_len pr - of_nat d\<rparr>"
    using nr k0 pl row' q1 stripes_at_shift(1) [OF data b(1) fit] stripe_at_shift(1) [OF pp b(1) fit]
    by (simp add: chunk_parity_read_def Let_def np off' el wi k want len' flip: nstripes_def)
  show "unat (snd x) + d < 2 ^ 64" if "x \<in> set (pr_data pr @ [pr_p pr] @ optlist (pr_q pr))"
  proof -
    have q: "unat (snd y) + d < 2 ^ 64" if y: "pr_q pr = Some y" for y
    proof -
      obtain i where "stripe_at c row i = Ok y"
        using q0 y by (auto simp: try_in_eq_Ok split: option.splits)
      then show ?thesis
        by (rule stripe_at_shift(2) [OF _ b(1) fit])
    qed
    show ?thesis
      using that stripes_at_shift(2) [OF data b(1) fit] stripe_at_shift(2) [OF pp b(1) fit] q
      by (cases "pr_q pr") auto
  qed
qed

section \<open>The logical image\<close>

text \<open>
  \<open>disk\<close> gives every device's bytes, \<open>img\<close> the volume's: what every copy of a logical byte
  holds. A read handle answers from a device's bytes; a parity chunk's P and Q are, byte by byte, what
  the driver computes from the data beside them.
\<close>

type_synonym disk = "u64 \<Rightarrow> nat \<Rightarrow> u8"

definition reads_as :: "(nat \<Rightarrow> u8) \<Rightarrow> block_read \<Rightarrow> bool" where
  "reads_as f d \<longleftrightarrow>
     (\<forall>p n b. d p n = Ok b \<longrightarrow> unat p + n \<le> 2 ^ 64 \<and> b = map (\<lambda>i. f (unat p + i)) [0..<n])"

definition pool_reads :: "disk \<Rightarrow> block_read \<Rightarrow> (u64 \<times> block_read) list \<Rightarrow> bool" where
  "pool_reads disk dev devs \<longleftrightarrow>
     (if devs = [] then \<forall>devid. reads_as (disk devid) dev
      else \<forall>devid d. map_of devs devid = Some d \<longrightarrow> reads_as (disk devid) d)"

definition byte_at :: "disk \<Rightarrow> u64 \<times> u64 \<Rightarrow> u8" where
  "byte_at disk x = disk (fst x) (unat (snd x))"

definition image_ok :: "disk \<Rightarrow> chunk_table \<Rightarrow> (u64 \<Rightarrow> u8) \<Rightarrow> bool" where
  "image_ok disk cs img \<longleftrightarrow>
     (\<forall>l m r. map_mirror cs l m = Ok r \<longrightarrow> disk (mp_devid r) (unat (mp_physical r)) = img l)"

definition parity_ok :: "disk \<Rightarrow> chunk_table \<Rightarrow> bool" where
  "parity_ok disk cs \<longleftrightarrow>
     (\<forall>c \<in> set cs. \<forall>l pr. chunk_parity_read c l = Ok pr \<longrightarrow>
        parity (map (\<lambda>x. [byte_at disk x]) (pr_data pr)) (pr_q pr \<noteq> None) =
          ([byte_at disk (pr_p pr)], map_option (\<lambda>q. [byte_at disk q]) (pr_q pr)))"

definition bytes_of :: "(u64 \<Rightarrow> u8) \<Rightarrow> u64 \<Rightarrow> nat \<Rightarrow> bytes" where
  "bytes_of img l n = map (\<lambda>i. img (l + of_nat i)) [0..<n]"

lemma bytes_of_append: "bytes_of img l n @ bytes_of img (l + of_nat n) m = bytes_of img l (n + m)"
  by (rule nth_equalityI) (auto simp: bytes_of_def nth_append add.assoc simp flip: of_nat_add)

lemma length_bytes_of [simp]: "length (bytes_of img l n) = n"
  by (simp add: bytes_of_def)

lemma map_mirror_shift:
  assumes inv: "cm_inv cs" and ok: "map_mirror cs l m = Ok r"
    and d: "d < unat (mp_len r)" "unat (mp_physical r) + d < 2 ^ 64"
  shows "map_mirror cs (l + of_nat d) m =
    Ok \<lparr>mp_devid = mp_devid r, mp_physical = mp_physical r + of_nat d, mp_len = mp_len r - of_nat d\<rparr>"
proof -
  obtain c where c: "c \<in> set cs" "covers c l" "chunk_map_mirror c l m = Ok r"
    using ok by (auto simp: map_mirror_Ok [OF inv])
  have wf: "wf_chunk c" using inv c(1) by (simp add: cm_inv_def)
  note st = map_run_contiguous [OF wf c(3) d]
  have "covers c (l + of_nat d)"
    by (rule chunk_map_mirror_dom [OF wf st])
  then show ?thesis
    using c(1) st map_mirror_Ok [OF inv] by blast
qed

lemma direct_run:
  assumes inv: "cm_inv cs" and img: "image_ok disk cs img" and ok: "map_mirror cs l m = Ok r"
    and n: "n \<le> unat (mp_len r)" "unat (mp_physical r) + n \<le> 2 ^ 64"
  shows "map (\<lambda>i. disk (mp_devid r) (unat (mp_physical r) + i)) [0..<n] = bytes_of img l n"
proof -
  have "disk (mp_devid r) (unat (mp_physical r) + i) = img (l + of_nat i)" if i: "i < n" for i
  proof -
    have b: "unat (mp_physical r) + i < 2 ^ 64" using i n(2) by linarith
    have "disk (mp_devid r) (unat (mp_physical r + of_nat i)) = img (l + of_nat i)"
      using map_mirror_shift [OF inv ok _ b] i n(1) img by (force simp: image_ok_def)
    then show ?thesis
      using b by (simp add: unat_add_small unat_of_nat_u64)
  qed
  then show ?thesis by (simp add: bytes_of_def)
qed

section \<open>Rebuilding reads the image\<close>

lemma for_attempt_bounds:
  "for_attempt a want k raid6 = Some m \<Longrightarrow> want < k \<Longrightarrow> 1 \<le> a \<and> a < attempts k raid6"
  using others_length [of want k]
  by (auto simp: for_attempt_def attempts_def Let_def split: if_splits)

lemma rebuild_ignores:
  "rebuild RebuildP want data p q = rebuild RebuildP want data p q'"
  "rebuild RebuildQ want data p q = rebuild RebuildQ want data p' q"
  by (simp_all add: rebuild_def)

definition run_at :: "disk \<Rightarrow> nat \<Rightarrow> u64 \<times> u64 \<Rightarrow> bytes" where
  "run_at disk n x = map (\<lambda>j. disk (fst x) (unat (snd x) + j)) [0..<n]"

lemma length_run_at [simp]: "length (run_at disk n x) = n"
  by (simp add: run_at_def)

lemma parity_of_runs:
  assumes cols: "\<And>j. j < n \<Longrightarrow>
      parity (map (\<lambda>x. [disk (fst x) (unat (snd x) + j)]) xs) raid6 =
        ([disk (fst pp) (unat (snd pp) + j)], map_option (\<lambda>q. [disk (fst q) (unat (snd q) + j)]) pq)"
    and ne: "xs \<noteq> []" and r: "raid6 = (pq \<noteq> None)"
  shows "parity (map (run_at disk n) xs) raid6 = (run_at disk n pp, map_option (run_at disk n) pq)"
proof -
  let ?ds = "map (run_at disk n) xs" and ?one = "\<lambda>j. map (\<lambda>x. [disk (fst x) (unat (snd x) + j)]) xs"
  obtain p q where pq: "parity ?ds raid6 = (p, q)" by (cases "parity ?ds raid6")
  have L: "\<forall>d \<in> set ?ds. length d = n" "?ds \<noteq> []" using ne by auto
  have col: "column_at j ?ds = column_at 0 (?one j)" if "j < n" for j
    using that by (simp add: column_at_def run_at_def)
  note big = parity_col [OF pq L]
  have small: "disk (fst pp) (unat (snd pp) + j) = wsum (\<lambda>_. False) (\<lambda>_. 1) 0 (column_at j ?ds)"
    "raid6 \<Longrightarrow> \<exists>y. pq = Some y \<and> disk (fst y) (unat (snd y) + j) = wsum (\<lambda>_. False) pow_g 0 (column_at j ?ds)"
    if j: "j < n" for j
  proof -
    have s: "\<forall>d \<in> set (?one j). length d = 1" "?one j \<noteq> []" using ne by auto
    note c = parity_col [OF cols [OF j] s]
    show "disk (fst pp) (unat (snd pp) + j) = wsum (\<lambda>_. False) (\<lambda>_. 1) 0 (column_at j ?ds)"
      using c(2) [of 0] by (simp add: col [OF j])
    show "\<exists>y. pq = Some y \<and> disk (fst y) (unat (snd y) + j) = wsum (\<lambda>_. False) pow_g 0 (column_at j ?ds)" if raid6
      using c(3) [OF that] by (auto simp: col [OF j])
  qed
  have "p = run_at disk n pp"
    using big(1,2) small(1) by (intro nth_equalityI) (auto simp: run_at_def)
  moreover have "q = map_option (run_at disk n) pq"
  proof (cases raid6)
    case True
    then obtain y q' where "pq = Some y" "q = Some q'" "length q' = n"
      "\<forall>j<n. q' ! j = wsum (\<lambda>_. False) pow_g 0 (column_at j ?ds)"
      using big(3) r by blast
    then show ?thesis
      using small(2) [OF _ True] by (auto simp: run_at_def intro!: nth_equalityI)
  next
    case False
    then have "pq = None" using r by blast
    then show ?thesis using pq False by (simp add: parity_def Let_def)
  qed
  ultimately show ?thesis by (simp add: pq)
qed

lemma erased_elements:
  assumes "collect_results (\<lambda>(i, at). if unread i then Ok None else try_in (fetch at) (\<lambda>b. Ok (Some b)))
      (enumerate 0 xs) = Ok data"
    and "\<And>x b. fetch x = Ok b \<Longrightarrow> b = g x"
  shows "data = erase unread 0 (map g xs)"
proof (rule nth_equalityI)
  have l: "list_all2 (\<lambda>x y. (case x of (i, at) \<Rightarrow> if unread i then Ok None else try_in (fetch at) (\<lambda>b. Ok (Some b))) = Ok y)
      (enumerate 0 xs) data"
    using assms(1) by (simp add: collect_results_eq_Ok)
  show "length data = length (erase unread 0 (map g xs))"
    using list_all2_lengthD [OF l] by (simp add: erase_def)
  fix i
  assume i: "i < length data"
  then have ix: "i < length xs" using list_all2_lengthD [OF l] by simp
  have "(if unread i then Ok None else try_in (fetch (xs ! i)) (\<lambda>b. Ok (Some b))) = Ok (data ! i)"
    using list_all2_nthD2 [OF l i] ix by (simp add: nth_enumerate_eq)
  then show "data ! i = erase unread 0 (map g xs) ! i"
    using ix assms(2) by (auto simp: erase_def nth_enumerate_eq try_in_eq_Ok split: if_splits)
qed

lemma parity_read_width:
  assumes "wf_chunk c" and "chunk_parity_read c l = Ok pr"
  shows "length (pr_data pr) \<le> 255" and "pr_want pr < length (pr_data pr)"
proof -
  show "pr_want pr < length (pr_data pr)"
    using parity_read_target [OF assms] by simp
  obtain np pl row k p where pl: "np = parity_np p"
      "placement (nstripes c) np ((l - ch_logical c) div ch_stripe_len c div k) = Ok pl"
    and data: "collect_results (stripe_at c row) (data_stripes pl) = Ok (pr_data pr)"
    by (rule chunk_parity_read_Ok [OF assms])
  have "length (pr_data pr) = length (data_stripes pl)"
    using data by (auto simp: collect_results_eq_Ok dest: list_all2_lengthD)
  also have "\<dots> \<le> 255"
    using placement_Ok(2,3) [OF pl(2)] pl(1) by (auto simp: parity_np_def split: if_splits)
  finally show "length (pr_data pr) \<le> 255" .
qed

lemma rebuild_of_runs:
  assumes par: "parity_ok disk cs" and c: "c \<in> set cs" and wf: "wf_chunk c" and fits: "chunk_fits c"
    and plan: "chunk_parity_read c l = Ok plan" and n: "n \<le> unat (pr_len plan)"
    and m: "for_attempt a (pr_want plan) (length (pr_data plan)) (pr_q plan \<noteq> None) = Some way"
  shows "rebuild way (pr_want plan) (erase (lost way (pr_want plan)) 0 (map (run_at disk n) (pr_data plan)))
      (Some (run_at disk n (pr_p plan))) (map_option (run_at disk n) (pr_q plan)) =
    Ok (run_at disk n (pr_data plan ! pr_want plan))"
proof -
  let ?want = "pr_want plan" and ?xs = "pr_data plan" and ?raid6 = "pr_q plan \<noteq> None"
  note width = parity_read_width [OF wf plan]
  have cols: "parity (map (\<lambda>x. [disk (fst x) (unat (snd x) + j)]) ?xs) ?raid6 =
        ([disk (fst (pr_p plan)) (unat (snd (pr_p plan)) + j)],
         map_option (\<lambda>q. [disk (fst q) (unat (snd q) + j)]) (pr_q plan))" if j: "j < n" for j
  proof -
    have jl: "j < unat (pr_len plan)" using j n by simp
    have at: "byte_at disk (shift j x) = disk (fst x) (unat (snd x) + j)"
      if "x \<in> set (?xs @ [pr_p plan] @ optlist (pr_q plan))" for x
      using parity_read_contiguous(2) [OF wf fits plan jl that]
      by (simp add: byte_at_def shift_def unat_add_small unat_of_nat_u64)
    have a: "parity (map (\<lambda>x. [byte_at disk x]) (map (shift j) ?xs)) (map_option (shift j) (pr_q plan) \<noteq> None) =
        ([byte_at disk (shift j (pr_p plan))], map_option (\<lambda>q. [byte_at disk q]) (map_option (shift j) (pr_q plan)))"
      using par parity_read_contiguous(1) [OF wf fits plan jl] c unfolding parity_ok_def
      by (metis parity_read.select_convs(2,3,4))
    have b: "map (\<lambda>x. [byte_at disk x]) (map (shift j) ?xs) = map (\<lambda>x. [disk (fst x) (unat (snd x) + j)]) ?xs"
      using at by simp
    have c: "map_option (\<lambda>q. [byte_at disk q]) (map_option (shift j) (pr_q plan)) =
        map_option (\<lambda>q. [disk (fst q) (unat (snd q) + j)]) (pr_q plan)"
      using at by (cases "pr_q plan") auto
    have d: "byte_at disk (shift j (pr_p plan)) = disk (fst (pr_p plan)) (unat (snd (pr_p plan)) + j)"
      using at by simp
    show ?thesis using a unfolding b c d by (simp only: option.map_disc_iff simp_thms)
  qed
  have par': "parity (map (run_at disk n) ?xs) ?raid6 =
      (run_at disk n (pr_p plan), map_option (run_at disk n) (pr_q plan))"
    by (rule parity_of_runs [OF cols]) (use width(2) in auto)
  obtain m' where m': "for_attempt a ?want (length (map (run_at disk n) ?xs)) ?raid6 = Some m'"
    "rebuild m' ?want (erase (lost m' ?want) 0 (map (run_at disk n) ?xs)) (Some (run_at disk n (pr_p plan)))
       (map_option (run_at disk n) (pr_q plan)) = Ok (map (run_at disk n) ?xs ! ?want)"
    using rebuild_lost [OF par', of n ?want a] for_attempt_bounds [OF m width(2)] width by auto
  then show ?thesis using m width(2) by simp
qed

lemma rebuilt_run:
  assumes inv: "cm_inv cs" and img: "image_ok disk cs img" and par: "parity_ok disk cs"
    and c: "c \<in> set cs" and fits: "chunk_fits c"
    and rd: "\<And>devid p n b. rd devid p n = Ok b \<Longrightarrow> b = map (\<lambda>i. disk devid (unat p + i)) [0..<n]"
    and ok: "read_rebuilt c a l len rd = Ok out"
  shows "out = bytes_of img l (length out)"
proof -
  have wf: "wf_chunk c" using inv c by (simp add: cm_inv_def)
  define fetch where "fetch x = rd (fst x) (snd x) (length out)" for x
  obtain plan way data p q where plan: "chunk_parity_read c l = Ok plan"
    and m: "for_attempt a (pr_want plan) (length (pr_data plan)) (pr_q plan \<noteq> None) = Some way"
    and n: "length out = min (unat (pr_len plan)) len"
    and data: "collect_results (\<lambda>(i, at). if i = pr_want plan \<or> way = RebuildPQ i then Ok None
        else try_in (fetch at) (\<lambda>b. Ok (Some b))) (enumerate 0 (pr_data plan)) = Ok data"
    and p: "(case way of RebuildQ \<Rightarrow> Ok None
        | _ \<Rightarrow> try_in (fetch (pr_p plan)) (\<lambda>b. Ok (Some b))) = Ok p"
    and q: "(case way of RebuildP \<Rightarrow> Ok None
        | _ \<Rightarrow> (case pr_q plan of Some q \<Rightarrow> try_in (fetch q) (\<lambda>b. Ok (Some b)) | None \<Rightarrow> Ok None)) = Ok q"
    and out: "rebuild way (pr_want plan) data p q = Ok out"
  proof -
    obtain plan where plan: "chunk_parity_read c l = Ok plan"
      using ok by (auto simp: read_rebuilt_def try_in_eq_Ok)
    define n where "n = min (unat (pr_len plan)) len"
    define fe where "fe = (\<lambda>x :: u64 \<times> u64. rd (fst x) (snd x) n)"
    obtain way where m: "for_attempt a (pr_want plan) (length (pr_data plan)) (pr_q plan \<noteq> None) = Some way"
      using ok by (auto simp: read_rebuilt_def try_in_eq_Ok plan Let_def ok_or_eq_Ok split: if_splits)
    have "try_in (collect_results (\<lambda>(i, at). if i = pr_want plan \<or> way = RebuildPQ i then Ok None
        else try_in (fe at) (\<lambda>b. Ok (Some b))) (enumerate 0 (pr_data plan))) (\<lambda>data.
      try_in (case way of RebuildQ \<Rightarrow> Ok None | _ \<Rightarrow> try_in (fe (pr_p plan)) (\<lambda>b. Ok (Some b))) (\<lambda>p.
      try_in (case way of RebuildP \<Rightarrow> Ok None
        | _ \<Rightarrow> (case pr_q plan of Some q \<Rightarrow> try_in (fe q) (\<lambda>b. Ok (Some b)) | None \<Rightarrow> Ok None)) (\<lambda>q.
      try_in (rebuild way (pr_want plan) data p q) (\<lambda>out.
      if length out \<noteq> n then Err (Panic ''source slice length does not match destination'') else Ok out)))) = Ok out"
      using ok unfolding read_rebuilt_def plan try_in_Ok Let_def m ok_or_simps n_def [symmetric] fe_def case_prod_unfold
      by (simp split: if_splits cong: rebuild_method.case_cong option.case_cong)
    then obtain data p q where st: "collect_results (\<lambda>(i, at). if i = pr_want plan \<or> way = RebuildPQ i then Ok None
        else try_in (fe at) (\<lambda>b. Ok (Some b))) (enumerate 0 (pr_data plan)) = Ok data"
      "(case way of RebuildQ \<Rightarrow> Ok None | _ \<Rightarrow> try_in (fe (pr_p plan)) (\<lambda>b. Ok (Some b))) = Ok p"
      "(case way of RebuildP \<Rightarrow> Ok None
        | _ \<Rightarrow> (case pr_q plan of Some q \<Rightarrow> try_in (fe q) (\<lambda>b. Ok (Some b)) | None \<Rightarrow> Ok None)) = Ok q"
      "rebuild way (pr_want plan) data p q = Ok out" and n: "length out = n"
      unfolding try_in_eq_Ok by (auto split: if_splits)
    have fe: "fe = fetch" using n by (simp add: fetch_def fe_def fun_eq_iff)
    show ?thesis
      by (rule that [OF plan m _ st(1-3) [unfolded fe] st(4)]) (simp add: n n_def)
  qed
  let ?n = "length out" and ?want = "pr_want plan" and ?xs = "pr_data plan" and ?raid6 = "pr_q plan \<noteq> None"
  note width = parity_read_width [OF wf plan]
  have run: "b = run_at disk ?n x" if "fetch x = Ok b" for x b
    using rd that by (simp add: run_at_def fetch_def)
  have rb: "rebuild way ?want (erase (lost way ?want) 0 (map (run_at disk ?n) ?xs)) (Some (run_at disk ?n (pr_p plan)))
       (map_option (run_at disk ?n) (pr_q plan)) = Ok (run_at disk ?n (?xs ! ?want))"
    by (rule rebuild_of_runs [OF par c wf fits plan _ m]) (use n in simp)
  have lost: "(\<lambda>i. i = ?want \<or> way = RebuildPQ i) = lost way ?want"
    by (auto simp: lost_def fun_eq_iff split: rebuild_method.split)
  have d: "data = erase (lost way ?want) 0 (map (run_at disk ?n) ?xs)"
    using erased_elements [OF data, of "run_at disk ?n"] run by (simp add: lost)
  have r6: "?raid6" if "way = RebuildPQ i" for i
    using m that by (auto simp: for_attempt_def Let_def split: if_splits)
  have "rebuild way ?want data p q = rebuild way ?want data (Some (run_at disk ?n (pr_p plan)))
       (map_option (run_at disk ?n) (pr_q plan))"
  proof (cases way)
    case RebuildP
    then have "p = Some (run_at disk ?n (pr_p plan))"
      using p by (auto simp: try_in_eq_Ok dest: run)
    then show ?thesis
      using RebuildP rebuild_ignores(1) by simp
  next
    case RebuildQ
    have "?raid6" using m RebuildQ by (auto simp: for_attempt_def Let_def split: if_splits)
    then have "q = map_option (run_at disk ?n) (pr_q plan)"
      using q RebuildQ by (auto simp: try_in_eq_Ok dest: run)
    then show ?thesis
      using RebuildQ rebuild_ignores(2) by simp
  next
    case (RebuildPQ i)
    then show ?thesis
      using p q r6 [OF RebuildPQ] by (auto simp: try_in_eq_Ok dest!: run)
  qed
  then have o: "out = run_at disk ?n (?xs ! ?want)"
    using out rb d by simp
  have target: "chunk_map_mirror c l 0 = Ok \<lparr>mp_devid = fst (?xs ! ?want), mp_physical = snd (?xs ! ?want), mp_len = pr_len plan\<rparr>"
    using parity_read_target [OF wf plan] by simp
  have n0: "0 < ?n" using read_rebuilt_length [OF ok] by simp
  have "covers c l" by (rule chunk_map_mirror_dom [OF wf target])
  then have mapped: "map_mirror cs l 0 = Ok \<lparr>mp_devid = fst (?xs ! ?want), mp_physical = snd (?xs ! ?want), mp_len = pr_len plan\<rparr>"
    using target c map_mirror_Ok [OF inv] by blast
  have "unat (snd (?xs ! ?want)) + (?n - 1) < 2 ^ 64"
    using parity_read_contiguous(2) [OF wf fits plan, of "?n - 1" "?xs ! ?want"] n n0 width(2) by auto
  then have "run_at disk ?n (?xs ! ?want) = bytes_of img l ?n"
    using direct_run [OF inv img mapped, of ?n] n n0 by (simp add: run_at_def)
  then show ?thesis using o by simp
qed

section \<open>Every read attempt reads the image\<close>

definition volume_ok :: "disk \<Rightarrow> chunk_table \<Rightarrow> (u64 \<Rightarrow> u8) \<Rightarrow> bool" where
  "volume_ok disk cs img \<longleftrightarrow>
     cm_inv cs \<and> (\<forall>c \<in> set cs. chunk_fits c) \<and> image_ok disk cs img \<and> parity_ok disk cs"

lemma rebuilt_Some:
  "cm_inv cs \<Longrightarrow> rebuilt_from_parity cs a l = Some c \<Longrightarrow> c \<in> set cs \<and> a \<noteq> 0"
  by (auto simp: rebuilt_from_parity_def bind_eq_Some_conv chunk_for_iff split: if_splits)

lemma volume_rebuilt:
  assumes v: "volume_ok disk cs img" and c: "rebuilt_from_parity cs a l = Some c"
    and rd: "\<And>devid p n b. rd devid p n = Ok b \<Longrightarrow> b = map (\<lambda>i. disk devid (unat p + i)) [0..<n]"
    and ok: "read_rebuilt c a l len rd = Ok out"
  shows "out = bytes_of img l (length out)"
proof -
  have v': "cm_inv cs" "image_ok disk cs img" "parity_ok disk cs" "\<And>c. c \<in> set cs \<Longrightarrow> chunk_fits c"
    using v by (auto simp: volume_ok_def)
  have "c \<in> set cs" using rebuilt_Some [OF v'(1) c] by simp
  then show ?thesis
    using rebuilt_run [OF v'(1-3) _ v'(4) rd ok] by blast
qed

lemma volume_direct:
  assumes v: "volume_ok disk cs img" and m: "map_mirror cs l a = Ok r" and n: "n \<le> unat (mp_len r)"
    and d: "reads_as (disk (mp_devid r)) d" "d (mp_physical r) n = Ok out"
  shows "out = bytes_of img l n"
  using direct_run [of cs disk img l a r n] v m n d by (auto simp: volume_ok_def reads_as_def)

lemma read_on_mirror_image:
  assumes v: "volume_ok disk cs img" and dev: "\<And>devid. reads_as (disk devid) dev"
  shows "read_logical_on_mirror dev cs devid a l n = Ok b \<Longrightarrow> b = bytes_of img l n"
proof (induction n arbitrary: l b rule: less_induct)
  case (less n)
  note rec = less.IH and ok = less.prems [unfolded read_logical_on_mirror.simps [of dev cs devid a l n]]
  have rd: "b = map (\<lambda>i. disk on (unat p + i)) [0..<k]"
    if "(if devid \<noteq> - 1 \<and> on \<noteq> devid then Err (UnsupportedFeature ''rebuilding needs a device that is not open'')
         else dev p k) = Ok b" for on p k b
    using that dev [of on] by (auto simp: reads_as_def split: if_splits)
  show ?case
  proof (cases "n = 0")
    case True
    then show ?thesis using ok by (simp add: bytes_of_def)
  next
    case n0: False
    show ?thesis
    proof (cases "rebuilt_from_parity cs a l")
      case (Some c)
      obtain out rest where o: "read_rebuilt c a l n (\<lambda>on p k. if devid \<noteq> - 1 \<and> on \<noteq> devid
            then Err (UnsupportedFeature ''rebuilding needs a device that is not open'') else dev p k) = Ok out"
        and r: "read_logical_on_mirror dev cs devid a (l + of_nat (length out)) (n - length out) = Ok rest"
        and b: "b = out @ rest"
        using ok n0 Some by (auto simp: try_in_eq_Ok)
      have "out = bytes_of img l (length out)" by (rule volume_rebuilt [OF v Some rd o])
      moreover have "rest = bytes_of img (l + of_nat (length out)) (n - length out)"
      proof (rule rec [OF _ r])
        show "n - length out < n" using read_rebuilt_length [OF o] by linarith
      qed
      ultimately show ?thesis
        using bytes_of_append [of img l "length out" "n - length out"] read_rebuilt_length [OF o] b by simp
    next
      case None
      obtain r out rest where m: "map_mirror cs l a = Ok r"
        and k: "0 < min (unat (mp_len r)) n" and d: "dev (mp_physical r) (min (unat (mp_len r)) n) = Ok out"
        and re: "read_logical_on_mirror dev cs devid a (l + of_nat (min (unat (mp_len r)) n)) (n - min (unat (mp_len r)) n) = Ok rest"
        and b: "b = out @ rest"
        using ok n0 None by (auto simp: try_in_eq_Ok Let_def split: if_splits)
      have "out = bytes_of img l (min (unat (mp_len r)) n)"
        by (rule volume_direct [OF v m _ dev d]) simp
      moreover have "rest = bytes_of img (l + of_nat (min (unat (mp_len r)) n)) (n - min (unat (mp_len r)) n)"
        using rec [OF _ re] k by simp
      ultimately show ?thesis
        using bytes_of_append [of img l "min (unat (mp_len r)) n" "n - min (unat (mp_len r)) n"] b by simp
    qed
  qed
qed

lemma read_pool_image:
  assumes v: "volume_ok disk cs img" and pool: "pool_reads disk dev devs"
  shows "read_logical_pool_mirror dev devs cs a l n = Ok b \<Longrightarrow> b = bytes_of img l n"
proof (cases "devs = []")
  case True
  assume "read_logical_pool_mirror dev devs cs a l n = Ok b"
  then have "read_logical_on_mirror dev cs (- 1) a l n = Ok b"
    using True by (simp add: read_logical_pool_mirror.simps [of dev "[]" cs a l n])
  then show ?thesis
    by (rule read_on_mirror_image [OF v, rotated]) (use pool True in \<open>simp add: pool_reads_def\<close>)
next
  case False
  have dv: "reads_as (disk devid) d" if "map_of devs devid = Some d" for devid d
    using pool False that by (simp add: pool_reads_def)
  have rd: "b = map (\<lambda>i. disk devid (unat p + i)) [0..<k]"
    if "try_in (device_for devs devid) (\<lambda>d. d p k) = Ok b" for devid p k b
    using that dv by (auto simp: device_for_def reads_as_def try_in_eq_Ok ok_or_eq_Ok)
  assume "read_logical_pool_mirror dev devs cs a l n = Ok b"
  then show ?thesis
  proof (induction "(if a = 0 then 1 else 0 :: nat, n)" arbitrary: a l n b rule: wf_induct_rule [OF wf_lex_prod [OF wf_less_than wf_less_than]])
    case (1 a n l b)
    note rec = "1.hyps" and ok = "1.prems" [unfolded read_logical_pool_mirror.simps [of dev devs cs a l n]]
    show ?case
    proof (cases "n = 0")
      case True
      then show ?thesis using ok False by (simp add: bytes_of_def)
    next
      case n0: False
      show ?thesis
      proof (cases "rebuilt_from_parity cs a l")
        case (Some c)
        obtain out rest where o: "read_rebuilt c a l n (\<lambda>devid p k. try_in (device_for devs devid) (\<lambda>d. d p k)) = Ok out"
          and r: "read_logical_pool_mirror dev devs cs a (l + of_nat (length out)) (n - length out) = Ok rest"
          and b: "b = out @ rest"
          using ok n0 Some False by (auto simp: try_in_eq_Ok)
        have "out = bytes_of img l (length out)" by (rule volume_rebuilt [OF v Some rd o])
        moreover have "rest = bytes_of img (l + of_nat (length out)) (n - length out)"
        proof (rule rec [OF _ r])
          have "n - length out < n" using read_rebuilt_length [OF o] by linarith
          then show "((if a = 0 then 1 else 0, n - length out), if a = 0 then 1 else 0, n) \<in> less_than <*lex*> less_than"
            by simp
        qed
        ultimately show ?thesis
          using bytes_of_append [of img l "length out" "n - length out"] read_rebuilt_length [OF o] b by simp
      next
        case None
        define k where "k r = min (unat (mp_len r)) n" for r :: mapping
        obtain r where m: "map_mirror cs l a = Ok r" and k0: "0 < k r"
          and ok1: "(case map_of devs (mp_devid r) of
                  None \<Rightarrow>
                    (if a = 0 then
                       try_in (read_attempts_at cs l) (\<lambda>attempts.
                       case first_ok (\<lambda>attempt. read_logical_pool_mirror dev devs cs attempt l (k r)) [1..<attempts] of
                         Some out \<Rightarrow>
                           try_in (read_logical_pool_mirror dev devs cs a (l + of_nat (k r)) (n - k r)) (\<lambda>rest.
                           Ok (out @ rest))
                       | None \<Rightarrow> Err (UnsupportedFeature ''the range lives on a device which was not given''))
                     else Err (UnsupportedFeature ''the range lives on a device which was not given''))
                | Some d \<Rightarrow>
                    try_in (d (mp_physical r) (k r)) (\<lambda>out.
                    try_in (read_logical_pool_mirror dev devs cs a (l + of_nat (k r)) (n - k r)) (\<lambda>rest.
                    Ok (out @ rest)))) = Ok b"
          using ok n0 None False unfolding k_def by (auto simp: try_in_eq_Ok Let_def split: if_splits)
        obtain out rest where out: "out = bytes_of img l (k r)"
          and re: "read_logical_pool_mirror dev devs cs a (l + of_nat (k r)) (n - k r) = Ok rest" and b: "b = out @ rest"
        proof (cases "map_of devs (mp_devid r)")
          case None
          then obtain attempts out rest where a0: "a = 0"
            and f: "first_ok (\<lambda>attempt. read_logical_pool_mirror dev devs cs attempt l (k r)) [1..<attempts] = Some out"
            and re: "read_logical_pool_mirror dev devs cs a (l + of_nat (k r)) (n - k r) = Ok rest" "b = out @ rest"
            using ok1 by (auto simp: try_in_eq_Ok split: if_splits option.splits)
          obtain x where x: "x \<noteq> 0" "read_logical_pool_mirror dev devs cs x l (k r) = Ok out"
            using first_ok_Some [OF f] by (auto simp: Suc_le_eq)
          have "out = bytes_of img l (k r)" using rec [OF _ x(2)] x(1) a0 by simp
          with that re show ?thesis by blast
        next
          case (Some d)
          then obtain out rest where d: "d (mp_physical r) (k r) = Ok out"
            and re: "read_logical_pool_mirror dev devs cs a (l + of_nat (k r)) (n - k r) = Ok rest" "b = out @ rest"
            using ok1 by (auto simp: try_in_eq_Ok)
          have "out = bytes_of img l (k r)"
            by (rule volume_direct [OF v m _ dv [OF Some] d]) (simp add: k_def)
          with that re show ?thesis by blast
        qed
        have kn: "k r \<le> n" by (simp add: k_def)
        have "rest = bytes_of img (l + of_nat (k r)) (n - k r)"
          using rec [OF _ re] k0 kn by simp
        then show ?thesis
          using bytes_of_append [of img l "k r" "n - k r"] kn b out by simp
      qed
    qed
  qed
qed

text \<open>
  C3. Every read attempt returns the volume's bytes. On a volume whose copies and parities are
  consistent with one logical image, whatever attempt the caller asks for and whichever devices
  are given, a read that returns has returned the image's bytes: directly, from another
  copy, through the rebuild from P, from Q or from both, and across runs and chunks.
\<close>

theorem every_attempt_reads_image:
  assumes "volume_ok disk cs img" and "pool_reads disk dev devs"
    and "read_logical_pool_mirror dev devs cs attempt l n = Ok b"
  shows "b = bytes_of img l n"
  by (rule read_pool_image [OF assms])

definition zero_dev :: block_read where
  "zero_dev p n = (if unat p + n \<le> 2 ^ 32 then Ok (replicate n 0) else Err (Io ''past the end''))"

lemma zero_dev_reads: "reads_as (\<lambda>_. 0) zero_dev"
  by (auto simp: reads_as_def zero_dev_def map_replicate_const)

lemma wsum_zero: "(\<forall>x \<in> set xs. x = 0) \<Longrightarrow> wsum un w i xs = 0"
  by (induction un w i xs rule: wsum.induct) auto

lemma zero_parity:
  assumes "xs \<noteq> []" and "r = (q \<noteq> None)"
  shows "parity (map (\<lambda>x. [0]) xs) r = ([0], map_option (\<lambda>q. [0]) q)"
proof -
  let ?ds = "map (\<lambda>x. [0]) xs :: bytes list"
  obtain p q' where pq: "parity ?ds r = (p, q')" by (cases "parity ?ds r")
  have z: "wsum un w 0 (column_at 0 ?ds) = 0" for un w
    by (rule wsum_zero) (auto simp: column_at_def)
  have ds: "\<forall>d \<in> set ?ds. length d = 1" "?ds \<noteq> []" using assms(1) by auto
  note col = parity_col [OF pq ds]
  have "p = [0]" using col(1) col(2) [of 0] z by (cases p) auto
  moreover have "q' = map_option (\<lambda>q. [0]) q"
  proof (cases r)
    case True
    then obtain y where y: "q = Some y" using assms(2) by auto
    obtain v where "q' = Some v" "length v = 1" "v ! 0 = 0" using col(3) [OF True] z by auto
    then show ?thesis using y by (cases v) auto
  next
    case False
    then show ?thesis using pq assms(2) by (auto simp: parity_def Let_def)
  qed
  ultimately show ?thesis by (simp add: pq)
qed

lemma zero_volume:
  assumes "cm_inv cs" and "\<forall>c \<in> set cs. chunk_fits c"
  shows "volume_ok (\<lambda>_ _. 0) cs (\<lambda>_. 0)"
proof -
  have "parity_ok (\<lambda>_ _. 0) cs"
    unfolding parity_ok_def
  proof (intro ballI allI impI)
    fix c l pr
    assume c: "c \<in> set cs" "chunk_parity_read c l = Ok pr"
    then have "wf_chunk c" using assms(1) by (simp add: cm_inv_def)
    then have "pr_data pr \<noteq> []" using parity_read_width(2) [OF _ c(2)] by auto
    then show
      "parity (map (\<lambda>x. [byte_at (\<lambda>_ _. 0) x]) (pr_data pr)) (pr_q pr \<noteq> None) =
        ([byte_at (\<lambda>_ _. 0) (pr_p pr)], map_option (\<lambda>q. [byte_at (\<lambda>_ _. 0) q]) (pr_q pr))"
      unfolding byte_at_def by (rule zero_parity) simp
  qed
  then show ?thesis using assms by (simp add: volume_ok_def image_ok_def)
qed

lemma demo_raid5_fits: "chunk_fits (demo_chunk BG_RAID5 3 0)"
  by (simp add: chunk_fits_def demo_profile span_def data_width_def nstripes_def clen_def slen_def)
    (simp add: demo_chunk_def)

theorem every_attempt_reads_image_witness:
  "read_logical_pool_mirror (\<lambda>_ _. Err ReadOnly) [(1, zero_dev), (2, zero_dev)] [demo_chunk BG_RAID5 3 0] 1 1249676 4 =
     Ok (bytes_of (\<lambda>_. 0) 1249676 4)"
proof -
  let ?c = "demo_chunk BG_RAID5 3 0" and ?devs = "[(1, zero_dev), (2, zero_dev)]"
  have inv: "cm_inv [?c]" using demo_wf by (simp add: cm_inv_def)
  have v: "volume_ok (\<lambda>_ _. 0) [?c] (\<lambda>_. 0)"
    using zero_volume [OF inv] demo_raid5_fits by simp
  have pool: "pool_reads (\<lambda>_ _. 0) (\<lambda>_ _. Err ReadOnly) ?devs"
    using zero_dev_reads by (auto simp: pool_reads_def)
  have cov: "covers ?c 1249676" by (simp add: covers_def demo_chunk_def clen_def)
  have ch: "chunk_for [?c] 1249676 = Some ?c"
    using chunk_for_iff [OF inv, of 1249676 ?c] cov by simp
  have plan: "chunk_parity_read ?c 1249676 =
     Ok \<lparr>pr_want = 1, pr_data = [(2, 1118604), (3, 1118604)], pr_p = (1, 1118604), pr_q = None, pr_len = 61044\<rparr>"
    by (simp add: chunk_parity_read_def demo_profile parity_count_def)
      (simp add: demo_simps logical_end_def saturating_add_def stripe_at_def placement_def
        checked_mul_def checked_add_def)
  have rb: "rebuilt_from_parity [?c] 1 1249676 = Some ?c"
    by (simp add: rebuilt_from_parity_def ch parity_count_def demo_profile)
  have x: "replicate 4 (0 :: u8) = [0, 0, 0, 0]" by (simp add: numeral_eq_Suc)
  define b :: bytes where "b = [0, 0, 0, 0]"
  have b: "read_rebuilt ?c 1 1249676 4 (\<lambda>devid p n. try_in (device_for ?devs devid) (\<lambda>d. d p n)) = Ok b"
     "length b = 4"
    by (simp_all add: read_rebuilt_def plan for_attempt_def Let_def device_for_def zero_dev_def rebuild_def x b_def)
  have "read_logical_pool_mirror (\<lambda>_ _. Err ReadOnly) ?devs [?c] 1 1249676 4 = Ok b"
    unfolding read_logical_pool_mirror.simps [of _ ?devs _ 1 _ 4] rb option.case b(1) try_in_Ok b(2)
    by (simp add: read_logical_pool_mirror.simps [of _ ?devs])
  then show ?thesis
    using every_attempt_reads_image [OF v pool, of 1 1249676 4 b] by simp
qed

end
