(* ===== verification/PoolWrite.thy ===== *)
theory PoolWrite
  imports Pool
begin

text \<open>
  \<open>src/src/fs.rs\<close>, writing a logical range to the pool: to every copy of it (\<open>mirror_spans\<close>) and, on
  a parity chunk, a full stripe at a time with its parity made anew (\<open>write_parity\<close>). The lemmas
  show that a write that succeeds changes the logical image by the bytes written and keeps the
  volume consistent: every copy holds the image, every other stripe keeps its parity.
\<close>

section \<open>Writing\<close>

record 'd block_lib =
  bl_size :: "'d \<Rightarrow> u64"
  bl_read :: "'d \<Rightarrow> block_read"
  bl_write :: "'d \<Rightarrow> u64 \<Rightarrow> bytes \<Rightarrow> 'd result"
  bl_flush :: "'d \<Rightarrow> 'd result"

text \<open>
  The devices a mount may write: \<open>writable\<close> and \<open>writable_pool\<close> of \<open>Filesystem\<close>. A handle in
  a \<open>WriteSpan\<close> is the device it was looked up by, so a span records the device's number.
\<close>

record 'd write_pool =
  wp_single :: "'d option"
  wp_pool :: "(u64 \<times> 'd) list"

definition write_device :: "'d write_pool \<Rightarrow> u64 \<Rightarrow> 'd result" where
  "write_device w devid =
     (if wp_pool w = [] then ok_or ReadOnly (wp_single w)
      else ok_or (UnsupportedFeature ''a chunk stripe names a device which is not in this pool'')
             (map_of (wp_pool w) devid))"

definition set_device :: "'d write_pool \<Rightarrow> u64 \<Rightarrow> 'd \<Rightarrow> 'd write_pool" where
  "set_device w devid d =
     (if wp_pool w = [] then w\<lparr>wp_single := Some d\<rparr>
      else w\<lparr>wp_pool := AList.update devid d (wp_pool w)\<rparr>)"

definition write_at :: "'d block_lib \<Rightarrow> 'd write_pool \<Rightarrow> u64 \<Rightarrow> u64 \<Rightarrow> bytes \<Rightarrow> unit result \<times> 'd write_pool" where
  "write_at B w devid physical data =
     (case write_device w devid of
        Inl e \<Rightarrow> (Err e, w)
      | Inr d \<Rightarrow>
          (case bl_write B d physical data of
             Inl e \<Rightarrow> (Err e, w)
           | Inr d' \<Rightarrow> (Ok (), set_device w devid d')))"

definition writable_span :: "'d block_lib \<Rightarrow> 'd \<Rightarrow> u64 \<Rightarrow> nat \<Rightarrow> unit result" where
  "writable_span B d physical len =
     try_in (ok_or (BadSuperblock ''a chunk maps a write past the address space'')
               (checked_add physical (of_nat len))) (\<lambda>finish.
     if finish > bl_size B d then Err (BadSuperblock ''a chunk maps a write past the end of a device'')
     else Ok ())"

text \<open>A span: the device, the place on it, and the part of the buffer it takes.\<close>

type_synonym write_span = "u64 \<times> u64 \<times> nat \<times> nat"

function mirror_run ::
  "'d block_lib \<Rightarrow> 'd write_pool \<Rightarrow> chunk_table \<Rightarrow> u64 \<Rightarrow> nat \<Rightarrow> nat \<Rightarrow> nat \<Rightarrow> write_span list result" where
  "mirror_run B w cs logical mirror len ready =
     (if ready < len then
        try_in (map_mirror cs (logical + of_nat ready) mirror) (\<lambda>m.
        let n = min (unat (mp_len m)) (len - ready) in
        if n = 0 then Err (UnmappedLogical (logical + of_nat ready))
        else
          try_in (write_device w (mp_devid m)) (\<lambda>d.
          try_in (writable_span B d (mp_physical m) n) (\<lambda>_.
          try_in (mirror_run B w cs logical mirror len (ready + n)) (\<lambda>rest.
          Ok ((mp_devid m, mp_physical m, ready, n) # rest)))))
      else Ok [])"
  by pat_completeness auto
termination
  by (relation "measure (\<lambda>(B, w, cs, logical, mirror, len, ready). len - ready)") auto

declare mirror_run.simps [simp del]

definition mirror_spans ::
  "'d block_lib \<Rightarrow> 'd write_pool \<Rightarrow> chunk_table \<Rightarrow> u64 \<Rightarrow> nat \<Rightarrow> write_span list result" where
  "mirror_spans B w cs logical len =
     try_in (mirrors_at cs logical) (\<lambda>mirrors.
     try_in (collect_results (\<lambda>mirror. mirror_run B w cs logical mirror len 0) [0..<mirrors]) (\<lambda>runs.
     Ok (concat runs)))"

fun write_spans ::
  "'d block_lib \<Rightarrow> bytes \<Rightarrow> write_span list \<Rightarrow> 'd write_pool \<Rightarrow> unit result \<times> 'd write_pool" where
  "write_spans B buf [] w = (Ok (), w)"
| "write_spans B buf ((devid, physical, from, n) # rest) w =
     (case write_at B w devid physical (slice from n buf) of
        (Inl e, w) \<Rightarrow> (Err e, w)
      | (Inr _, w) \<Rightarrow> write_spans B buf rest w)"

text \<open>
  Laying the part of the buffer that falls in one full stripe over its data elements: \<open>x\<close> is
  the next logical byte, in the stripe that begins at \<open>start\<close> and is written up to \<open>stop\<close>. A round
  whose subtraction would wrap, or whose element does not exist, is a panic of the source. An element
  no longer than \<open>within\<close> does not arise: it is shorter than the stripe length only where the
  chunk ends in it, and \<open>stop\<close> is not past that end.
\<close>

function lay_stripe ::
  "bytes \<Rightarrow> u64 \<Rightarrow> u64 \<Rightarrow> nat \<Rightarrow> u64 \<Rightarrow> u64 \<Rightarrow> u64 \<Rightarrow> bytes list \<Rightarrow> nat list \<Rightarrow> (bytes list \<times> nat list) result" where
  "lay_stripe buf logical stripe_len len start stop x data touched =
     (if x < stop then
        let offset = x - start;
            index = unat (offset div stripe_len);
            within = unat (offset mod stripe_len)
        in if len \<le> within \<or> length data \<le> index then Err (Panic ''range out of the element'')
           else
             let n = min (len - within) (unat (stop - x));
                 from = unat (x - logical)
             in lay_stripe buf logical stripe_len len start stop (x + of_nat n)
                  (data[index := put_at within (slice from n buf) (data ! index)])
                  (insort_insert index touched)
      else Ok (data, touched))"
  by pat_completeness auto

lemma step_towards:
  assumes "(x :: u64) < stop" and "0 < n" and "n \<le> unat (stop - x)"
  shows "unat (stop - (x + of_nat n)) = unat (stop - x) - n"
proof -
  have "unat (of_nat n :: u64) = n"
    using assms(3) unat_u64 [of "stop - x"] by (intro unat_of_nat_u64) simp
  then have "unat (stop - x - of_nat n) = unat (stop - x) - n"
    using assms(3) by (subst unat_sub_le) (simp_all add: word_le_nat_alt)
  then show ?thesis by (simp add: diff_diff_eq)
qed

lemma distance_pos: "(x :: u64) < stop \<Longrightarrow> 0 < unat (stop - x)"
  by (simp add: unat_sub_le word_less_nat_alt less_imp_le word_le_nat_alt)

termination lay_stripe
proof (relation "measure (\<lambda>(buf, logical, stripe_len, len, start, stop, x, data, touched). unat (stop - x))", simp, goal_cases)
  case (1 buf logical stripe_len len start stop x data touched off index within n src)
  then show ?case
    using distance_pos [of x stop] step_towards [of x stop n] by simp
qed

declare lay_stripe.simps [simp del]

fun check_spans :: "'d block_lib \<Rightarrow> 'd write_pool \<Rightarrow> nat \<Rightarrow> ((u64 \<times> u64) \<times> bytes) list \<Rightarrow> unit result" where
  "check_spans B w len [] = Ok ()"
| "check_spans B w len (((devid, physical), b) # rest) =
     try_in (write_device w devid) (\<lambda>d.
     try_in (writable_span B d physical len) (\<lambda>_. check_spans B w len rest))"

fun write_elements ::
  "'d block_lib \<Rightarrow> ((u64 \<times> u64) \<times> bytes) list \<Rightarrow> 'd write_pool \<Rightarrow> unit result \<times> 'd write_pool" where
  "write_elements B [] w = (Ok (), w)"
| "write_elements B (((devid, physical), b) # rest) w =
     (case write_at B w devid physical b of
        (Inl e, w) \<Rightarrow> (Err e, w)
      | (Inr _, w) \<Rightarrow> write_elements B rest w)"

text \<open>One round of \<open>write_parity\<close>: the writes of the full stripe at \<open>start\<close>.\<close>

definition stripe_writes ::
  "'d block_lib \<Rightarrow> 'd write_pool \<Rightarrow> chunk \<Rightarrow> u64 \<Rightarrow> bytes \<Rightarrow> u64 \<Rightarrow> u64 \<Rightarrow> u64 \<Rightarrow> ((u64 \<times> u64) \<times> bytes) list result" where
  "stripe_writes B w c logical buf start stop at =
     try_in (chunk_parity_read c start) (\<lambda>plan.
     let len = unat (pr_len plan) in
     try_in (collect_results (\<lambda>(devid, physical).
               try_in (write_device w devid) (\<lambda>d.
               try_in (writable_span B d physical len) (\<lambda>_. bl_read B d physical len)))
             (pr_data plan)) (\<lambda>data.
     try_in (lay_stripe buf logical (ch_stripe_len c) len start stop at data []) (\<lambda>(data, touched).
     let (p, q) = parity data (pr_q plan \<noteq> None);
         writes = map (\<lambda>i. (pr_data plan ! i, data ! i)) touched @ [(pr_p plan, p)] @
           (case (pr_q plan, q) of (Some at_q, Some q) \<Rightarrow> [(at_q, q)] | _ \<Rightarrow> [])
     in try_in (check_spans B w len writes) (\<lambda>_. Ok writes))))"

definition stripe_start :: "chunk \<Rightarrow> u64 \<Rightarrow> u64 \<Rightarrow> u64" where
  "stripe_start c full at = ch_logical c + (at - ch_logical c) div full * full"

function write_stripes ::
  "'d block_lib \<Rightarrow> chunk \<Rightarrow> u64 \<Rightarrow> u64 \<Rightarrow> bytes \<Rightarrow> u64 \<Rightarrow> u64 \<Rightarrow> 'd write_pool \<Rightarrow> unit result \<times> 'd write_pool" where
  "write_stripes B c full logical buf finish at w =
     (if at < finish then
        if full = 0 then (Err div_by_zero, w)
        else if at < ch_logical c \<or> checked_add (stripe_start c full at) full = None then
          (Err (Panic ''attempt to add with overflow''), w)
        else
          let start = stripe_start c full at;
              stop = min (start + full) finish
          in (case stripe_writes B w c logical buf start stop at of
                Inl e \<Rightarrow> (Err e, w)
              | Inr writes \<Rightarrow>
                  (case write_elements B writes w of
                     (Inl e, w) \<Rightarrow> (Err e, w)
                   | (Inr _, w) \<Rightarrow> write_stripes B c full logical buf finish stop w))
      else (Ok (), w))"
  by pat_completeness auto

lemma stripe_start_bounds:
  assumes "ch_logical c \<le> at" and "full \<noteq> 0"
  shows "unat (stripe_start c full at) =
      unat (ch_logical c) + (unat at - unat (ch_logical c)) div unat full * unat full"
    and "unat (stripe_start c full at) \<le> unat at"
    and "unat at < unat (stripe_start c full at) + unat full"
proof -
  let ?o = "unat at - unat (ch_logical c)"
  have o: "unat (at - ch_logical c) = ?o"
    using assms(1) by (simp add: unat_sub_le)
  have le: "?o div unat full * unat full \<le> ?o" by simp
  have ol: "unat (ch_logical c) + ?o = unat at"
    using assms(1) by (simp add: word_le_nat_alt)
  have "unat (ch_logical c) + ?o div unat full * unat full \<le> unat at" using le ol by linarith
  then have b: "unat (ch_logical c) + ?o div unat full * unat full < 2 ^ 64"
    by (rule le_less_trans) (use unat_u64 [of at] in simp)
  have m: "unat ((at - ch_logical c) div full * full) = ?o div unat full * unat full"
    using b by (subst unat_mult_small) (simp_all add: unat_div_word o)
  show e: "unat (stripe_start c full at) = unat (ch_logical c) + ?o div unat full * unat full"
    unfolding stripe_start_def using b by (subst unat_add_small) (simp_all add: m)
  show "unat (stripe_start c full at) \<le> unat at" using le ol e by linarith
  have "?o mod unat full < unat full"
    using assms(2) by (simp add: unat_gt_0)
  then show "unat at < unat (stripe_start c full at) + unat full"
    using div_mult_mod_eq [of ?o "unat full"] ol e by linarith
qed

lemma stripe_progress:
  assumes "at < finish" and "full \<noteq> 0" and "\<not> (at < ch_logical c \<or> checked_add (stripe_start c full at) full = None)"
  shows "at < min (stripe_start c full at + full) finish"
proof -
  have "ch_logical c \<le> at" using assms(3) by (auto simp: not_less)
  note b = stripe_start_bounds(3) [OF this assms(2)]
  have "unat (stripe_start c full at + full) = unat (stripe_start c full at) + unat full"
    using assms(3) by (auto simp: checked_add_def unat_add_small split: if_splits)
  then show ?thesis using b assms(1) by (simp add: word_less_nat_alt)
qed

lemma distance_less: "(x :: u64) < y \<Longrightarrow> y \<le> z \<Longrightarrow> unat (z - y) < unat (z - x)"
  by (simp add: unat_sub_le word_less_nat_alt word_le_nat_alt)

termination write_stripes
proof (relation "measure (\<lambda>(B, c, full, logical, buf, finish, at, w). unat (finish - at))", simp, goal_cases)
  case (1 B c full logical buf finish at w start stop)
  then show ?case
    using stripe_progress [of at finish full c] by (simp add: distance_less)
qed

declare write_stripes.simps [simp del]

definition write_parity ::
  "'d block_lib \<Rightarrow> chunk \<Rightarrow> u64 \<Rightarrow> bytes \<Rightarrow> 'd write_pool \<Rightarrow> unit result \<times> 'd write_pool" where
  "write_parity B c logical buf w =
     (case parity_count c of
        None \<Rightarrow> (Err (Panic ''a parity chunk''), w)
      | Some np \<Rightarrow>
          (case (if unat (ch_num_stripes c) < np then None
                 else checked_mul (ucast (ch_num_stripes c) - of_nat np) (ch_stripe_len c)) of
             None \<Rightarrow> (Err (Panic ''attempt to multiply with overflow''), w)
           | Some full \<Rightarrow>
               (case checked_add logical (of_nat (length buf)) of
                  None \<Rightarrow> (Err (UnmappedLogical logical), w)
                | Some finish \<Rightarrow>
                    if finish > logical_end c then (Err (UnmappedLogical (logical_end c)), w)
                    else write_stripes B c full logical buf finish logical w)))"

definition write_logical_all_mirrors ::
  "'d block_lib \<Rightarrow> chunk_table \<Rightarrow> u64 \<Rightarrow> bytes \<Rightarrow> 'd write_pool \<Rightarrow> unit result \<times> 'd write_pool" where
  "write_logical_all_mirrors B cs logical buf w =
     (case Option.bind (chunk_for cs logical) (\<lambda>c. if parity_count c \<noteq> None then Some c else None) of
        Some c \<Rightarrow> write_parity B c logical buf w
      | None \<Rightarrow>
          (case mirror_spans B w cs logical (length buf) of
             Inl e \<Rightarrow> (Err e, w)
           | Inr spans \<Rightarrow> write_spans B buf spans w))"

section \<open>What a write leaves on the devices\<close>

definition overwrite :: "nat \<Rightarrow> bytes \<Rightarrow> (nat \<Rightarrow> u8) \<Rightarrow> nat \<Rightarrow> u8" where
  "overwrite p b f a = (if p \<le> a \<and> a < p + length b then b ! (a - p) else f a)"

definition wf_block_lib :: "'d block_lib \<Rightarrow> ('d \<Rightarrow> nat \<Rightarrow> u8) \<Rightarrow> bool" where
  "wf_block_lib B cont \<longleftrightarrow>
     (\<forall>d p n b. bl_read B d p n = Ok b \<longrightarrow> b = map (\<lambda>i. cont d (unat p + i)) [0..<n]) \<and>
     (\<forall>d p b d'. bl_write B d p b = Ok d' \<longrightarrow> cont d' = overwrite (unat p) b (cont d)) \<and>
     (\<forall>d d'. bl_flush B d = Ok d' \<longrightarrow> cont d' = cont d)"

text \<open>What the pool's devices hold; \<open>gone\<close> is what a device that is not in it held.\<close>

definition pool_disk :: "('d \<Rightarrow> nat \<Rightarrow> u8) \<Rightarrow> disk \<Rightarrow> 'd write_pool \<Rightarrow> disk" where
  "pool_disk cont gone w devid = (case write_device w devid of Inr d \<Rightarrow> cont d | Inl _ \<Rightarrow> gone devid)"

definition map_devices :: "chunk_table \<Rightarrow> u64 set" where
  "map_devices cs = (\<Union>c \<in> set cs. st_devid ` set (ch_stripes c))"

text \<open>A volume mounted without a pool has the one device.\<close>

definition devices_known :: "'d write_pool \<Rightarrow> u64 set \<Rightarrow> bool" where
  "devices_known w D \<longleftrightarrow> (wp_pool w = [] \<longrightarrow> (\<forall>a \<in> D. \<forall>b \<in> D. a = b))"

definition put_disk :: "(u64 \<times> u64) \<times> bytes \<Rightarrow> disk \<Rightarrow> disk" where
  "put_disk x disk = disk(fst (fst x) := overwrite (unat (snd (fst x))) (snd x) (disk (fst (fst x))))"

definition hits :: "(u64 \<times> u64) \<times> bytes \<Rightarrow> u64 \<Rightarrow> nat \<Rightarrow> bool" where
  "hits x devid a \<longleftrightarrow> fst (fst x) = devid \<and> unat (snd (fst x)) \<le> a \<and> a < unat (snd (fst x)) + length (snd x)"

lemma put_disk_at:
  "put_disk x disk devid a = (if hits x devid a then snd x ! (a - unat (snd (fst x))) else disk devid a)"
  by (auto simp: put_disk_def hits_def overwrite_def)

lemma fold_put_disk:
  assumes "\<And>x. x \<in> set ws \<Longrightarrow> hits x devid a \<Longrightarrow> snd x ! (a - unat (snd (fst x))) = v"
  shows "fold put_disk ws disk devid a = (if \<exists>x \<in> set ws. hits x devid a then v else disk devid a)"
  using assms
proof (induction ws arbitrary: disk)
  case (Cons x ws)
  have "fold put_disk ws (put_disk x disk) devid a =
      (if \<exists>x \<in> set ws. hits x devid a then v else put_disk x disk devid a)"
    by (rule Cons.IH) (use Cons.prems in auto)
  then show ?case
    using Cons.prems [of x] put_disk_at [of x disk devid a] by auto
qed simp

lemma fold_put_disk_apart:
  "(\<And>x. x \<in> set ws \<Longrightarrow> \<not> hits x devid a) \<Longrightarrow> fold put_disk ws disk devid a = disk devid a"
  by (subst fold_put_disk [where v = "disk devid a"]) auto

lemma write_at_Ok:
  assumes lib: "wf_block_lib B cont" and w: "write_at B w devid p b = (Ok (), w')"
    and D: "devid \<in> D" "devices_known w D"
  shows "\<forall>x \<in> D. pool_disk cont gone w' x = put_disk ((devid, p), b) (pool_disk cont gone w) x"
    and "devices_known w' D"
proof -
  obtain d d' where d: "write_device w devid = Ok d" "bl_write B d p b = Ok d'" "w' = set_device w devid d'"
    using w by (auto simp: write_at_def split: sum.splits)
  have c: "cont d' = overwrite (unat p) b (cont d)"
    using lib d(2) by (simp add: wf_block_lib_def)
  show "devices_known w' D"
    using D(2) by (auto simp: devices_known_def d(3) set_device_def)
  show "\<forall>x \<in> D. pool_disk cont gone w' x = put_disk ((devid, p), b) (pool_disk cont gone w) x"
  proof (cases "wp_pool w = []")
    case True
    then have "x = devid" if "x \<in> D" for x
      using that D by (auto simp: devices_known_def)
    then show ?thesis
      using True d(1) c by (auto simp: pool_disk_def put_disk_def d(3) set_device_def write_device_def ok_or_eq_Ok)
  next
    case False
    then have ne: "AList.update devid d' (wp_pool w) \<noteq> []" by (simp add: AList.update_nonempty)
    show ?thesis
      using False ne d(1) c
      by (auto simp: pool_disk_def put_disk_def d(3) set_device_def write_device_def update_conv' ok_or_eq_Ok fun_eq_iff)
  qed
qed

lemma fold_put_disk_cong:
  assumes "disk x = disk' x"
  shows "fold put_disk ws disk x = fold put_disk ws disk' x"
  using assms
proof (induction ws arbitrary: disk disk')
  case (Cons y ws)
  have "put_disk y disk x = put_disk y disk' x" using Cons.prems by (auto simp: put_disk_def)
  then show ?case by (simp add: Cons.IH [of "put_disk y disk" "put_disk y disk'"])
qed simp

lemma write_elements_disk:
  assumes lib: "wf_block_lib B cont" and "write_elements B ws w = (Ok (), w')"
    and "(fst \<circ> fst) ` set ws \<subseteq> D" and "devices_known w D"
  shows "(\<forall>x \<in> D. pool_disk cont gone w' x = fold put_disk ws (pool_disk cont gone w) x) \<and> devices_known w' D"
  using assms(2-4)
proof (induction ws arbitrary: w)
  case (Cons x ws)
  obtain devid p b where x: "x = ((devid, p), b)" by (cases x) auto
  obtain v where v: "write_at B w devid p b = (Ok (), v)" "write_elements B ws v = (Ok (), w')"
    using Cons.prems(1) by (auto simp: x split: prod.splits sum.splits)
  have "devid \<in> D" using Cons.prems(2) by (simp add: x)
  note at = write_at_Ok [OF lib v(1) this Cons.prems(3)]
  have "(\<forall>y \<in> D. pool_disk cont gone w' y = fold put_disk ws (pool_disk cont gone v) y) \<and> devices_known w' D"
    using Cons.IH [OF v(2) _ at(2)] Cons.prems(2) by simp
  then show ?case
    using at(1) fold_put_disk_cong [of "pool_disk cont gone v" _ "put_disk x (pool_disk cont gone w)" ws]
    by (simp add: x)
qed simp

lemma write_spans_elements:
  "write_spans B buf spans w = write_elements B (map (\<lambda>(devid, p, at, n). ((devid, p), slice at n buf)) spans) w"
  by (induction B buf spans w rule: write_spans.induct) (auto split: prod.split sum.split)

section \<open>The spans of a write\<close>

text \<open>A span writes to a place the copy maps a run of the range to.\<close>

definition span_of :: "chunk_table \<Rightarrow> u64 \<Rightarrow> nat \<Rightarrow> nat \<Rightarrow> write_span \<Rightarrow> bool" where
  "span_of cs l len m s \<longleftrightarrow>
     (case s of (devid, p, at, n) \<Rightarrow>
        at + n \<le> len \<and> unat p + n < 2 ^ 64 \<and>
        (\<exists>r. map_mirror cs (l + of_nat at) m = Ok r \<and> devid = mp_devid r \<and> p = mp_physical r \<and> n \<le> unat (mp_len r)))"

lemma writable_span_Ok:
  assumes "writable_span B d p n = Ok ()" and "n < 2 ^ 64"
  shows "unat p + n < 2 ^ 64"
proof -
  have "unat (of_nat n :: u64) = n" using assms(2) by (simp add: unat_of_nat_u64)
  then show ?thesis
    using assms(1) by (auto simp: writable_span_def try_in_eq_Ok ok_or_eq_Ok checked_add_Some)
qed

lemma mirror_run_spans:
  assumes "mirror_run B w cs l m len ready = Ok spans"
  shows "(\<forall>s \<in> set spans. span_of cs l len m s) \<and>
    (\<forall>i. ready \<le> i \<and> i < len \<longrightarrow> (\<exists>(devid, p, at, n) \<in> set spans. at \<le> i \<and> i < at + n))"
  using assms
proof (induction B w cs l m len ready arbitrary: spans rule: mirror_run.induct)
  case (1 B w cs l m len ready)
  show ?case
  proof (cases "ready < len")
    case False
    then have "spans = []" using "1.prems" by (simp add: mirror_run.simps [of B w cs l m len ready])
    with False show ?thesis by auto
  next
    case True
    obtain r d rest n where r: "map_mirror cs (l + of_nat ready) m = Ok r"
      and n: "n = min (unat (mp_len r)) (len - ready)" "n \<noteq> 0"
      and d: "write_device w (mp_devid r) = Ok d" "writable_span B d (mp_physical r) n = Ok ()"
      and rest: "mirror_run B w cs l m len (ready + n) = Ok rest"
      and s: "spans = (mp_devid r, mp_physical r, ready, n) # rest"
      using "1.prems" True unfolding mirror_run.simps [of B w cs l m len ready]
      by (auto simp: try_in_eq_Ok Let_def simp del: mirror_run.simps split: if_splits)
    note IH = "1.IH" [OF True r n d rest]
    have "n < 2 ^ 64" using n(1) unat_u64 [of "mp_len r"] by simp
    then have "span_of cs l len m (mp_devid r, mp_physical r, ready, n)"
      using writable_span_Ok [OF d(2)] r n True by (auto simp: span_of_def)
    moreover have "\<exists>(devid, p, at, n) \<in> set spans. at \<le> i \<and> i < at + n" if "ready \<le> i" "i < len" for i
      using IH s that by (cases "i < ready + n") auto
    ultimately show ?thesis
      using IH s by auto
  qed
qed

lemma mirror_spans_Ok:
  assumes inv: "cm_inv cs" and ok: "mirror_spans B w cs l len = Ok spans" and c: "c \<in> set cs" "covers c l"
  shows "s \<in> set spans \<Longrightarrow> \<exists>m. span_of cs l len m s"
    and "m < num_mirrors c \<Longrightarrow> i < len \<Longrightarrow> \<exists>devid p at n. (devid, p, at, n) \<in> set spans \<and>
      span_of cs l len m (devid, p, at, n) \<and> at \<le> i \<and> i < at + n"
proof -
  have "chunk_for cs l = Some c" using c chunk_for_iff [OF inv] by blast
  then have "mirrors_at cs l = Ok (num_mirrors c)" by (simp add: mirrors_at_def)
  then obtain runs where runs: "collect_results (\<lambda>m. mirror_run B w cs l m len 0) [0..<num_mirrors c] = Ok runs"
    "spans = concat runs"
    using ok by (auto simp: mirror_spans_def try_in_eq_Ok)
  have L: "length runs = num_mirrors c" "\<And>m. m < num_mirrors c \<Longrightarrow> mirror_run B w cs l m len 0 = Ok (runs ! m)"
    using runs(1) by (auto simp: collect_results_eq_Ok list_all2_conv_all_nth)
  show "\<exists>m. span_of cs l len m s" if "s \<in> set spans"
  proof -
    have "\<exists>run \<in> set runs. s \<in> set run" using that runs(2) by simp
    then obtain m where "m < length runs" "s \<in> set (runs ! m)"
      by (metis in_set_conv_nth)
    then show ?thesis using mirror_run_spans [OF L(2), of m] L(1) by auto
  qed
  show "\<exists>devid p at n. (devid, p, at, n) \<in> set spans \<and>
      span_of cs l len m (devid, p, at, n) \<and> at \<le> i \<and> i < at + n" if m: "m < num_mirrors c" and i: "i < len"
  proof -
    have "runs ! m \<in> set runs" using m L(1) by simp
    then show ?thesis
      using mirror_run_spans [OF L(2) [OF m]] i runs(2) by fastforce
  qed
qed

definition put_image :: "(u64 \<Rightarrow> u8) \<Rightarrow> u64 \<Rightarrow> bytes \<Rightarrow> u64 \<Rightarrow> u8" where
  "put_image img logical buf l =
     (if unat logical \<le> unat l \<and> unat l < unat logical + length buf then buf ! (unat l - unat logical) else img l)"

text \<open>A byte a span writes is the image of one byte of the range, and carries it.\<close>

definition span_write :: "bytes \<Rightarrow> write_span \<Rightarrow> (u64 \<times> u64) \<times> bytes" where
  "span_write buf s = (case s of (devid, p, at, n) \<Rightarrow> ((devid, p), slice at n buf))"

lemma span_hits:
  assumes inv: "cm_inv cs" and s: "span_of cs l (length buf) m s" and h: "hits (span_write buf s) devid a"
  obtains i r where "i < length buf" "map_mirror cs (l + of_nat i) m = Ok r" "mp_devid r = devid"
    "unat (mp_physical r) = a" "snd (span_write buf s) ! (a - unat (snd (fst (span_write buf s)))) = buf ! i"
proof -
  obtain p at n r where d: "s = (mp_devid r, p, at, n)" "p = mp_physical r" "at + n \<le> length buf" "unat p + n < 2 ^ 64"
    "map_mirror cs (l + of_nat at) m = Ok r" "n \<le> unat (mp_len r)"
    using s by (auto simp: span_of_def)
  define j where "j = a - unat p"
  have len: "length (slice at n buf) = n" using d(3) by (simp add: slice_def)
  have h': "mp_devid r = devid" "unat p \<le> a" "j < n"
    using h len by (auto simp: hits_def span_write_def d(1) j_def)
  have b: "unat (mp_physical r) + j < 2 ^ 64" using h'(3) d(4) unfolding d(2) [symmetric] by simp
  have mm: "map_mirror cs (l + of_nat at + of_nat j) m =
      Ok \<lparr>mp_devid = mp_devid r, mp_physical = mp_physical r + of_nat j, mp_len = mp_len r - of_nat j\<rparr>"
    by (rule map_mirror_shift [OF inv d(5) _ b]) (use h'(3) d(6) in simp)
  show ?thesis
  proof (rule that)
    show "at + j < length buf" using h'(3) d(3) by simp
    show "map_mirror cs (l + of_nat (at + j)) m =
      Ok \<lparr>mp_devid = mp_devid r, mp_physical = mp_physical r + of_nat j, mp_len = mp_len r - of_nat j\<rparr>"
      using mm by (simp add: add.assoc)
    show "unat (mp_physical \<lparr>mp_devid = mp_devid r, mp_physical = mp_physical r + of_nat j, mp_len = mp_len r - of_nat j\<rparr>) = a"
      using b h'(2) d(2) by (simp add: unat_add_small unat_of_nat_u64 j_def)
    show "snd (span_write buf s) ! (a - unat (snd (fst (span_write buf s)))) = buf ! (at + j)"
      using h'(3) d(3) by (simp add: span_write_def d(1) nth_slice flip: j_def)
  qed (simp add: h')
qed

lemma in_extent:
  assumes inv: "cm_inv cs" and ok: "map_mirror cs l m = Ok r"
  obtains c p st where "c \<in> set cs" "covers c l" "chunk_profile_of c = Ok p" "st \<in> set (ch_stripes c)"
    "mp_devid r = st_devid st" "unat (st_offset st) \<le> unat (mp_physical r)"
    "unat (mp_physical r) < unat (st_offset st) + span c p"
proof -
  obtain c where c: "c \<in> set cs" "covers c l" "chunk_map_mirror c l m = Ok r"
    using ok by (auto simp: map_mirror_Ok [OF inv])
  have wf: "wf_chunk c" using inv c(1) by (simp add: cm_inv_def)
  obtain p where p: "chunk_profile_of c = Ok p" using wf_chunk_profile [OF wf] by blast
  show ?thesis
    using map_in_stripe [OF wf c(3) p] that [OF c(1,2) p] by blast
qed

lemma collect_results_in: "collect_results f xs = Ok ys \<Longrightarrow> y \<in> set ys \<Longrightarrow> \<exists>x \<in> set xs. f x = Ok y"
  by (force simp: collect_results_eq_Ok list_all2_conv_all_nth in_set_conv_nth)

text \<open>The bytes a rebuild reads lie in the stripes of its chunk.\<close>

lemma parity_in_extent:
  assumes wf: "wf_chunk c" and ok: "chunk_parity_read c l = Ok pr"
    and x: "x \<in> set (pr_data pr @ [pr_p pr] @ optlist (pr_q pr))" and p: "chunk_profile_of c = Ok p"
  shows "\<exists>st \<in> set (ch_stripes c). fst x = st_devid st \<and> unat (st_offset st) \<le> unat (snd x) \<and>
    unat (snd x) < unat (st_offset st) + span c p"
proof -
  obtain p' np pl row k where p': "chunk_profile_of c = Ok p'" "p' \<in> {Raid5, Raid6}" "np = parity_np p'"
    and cov: "covers c l" and k: "k = of_nat (nstripes c) - of_nat np"
    and k0: "k \<noteq> 0"
    and pl: "placement (nstripes c) np ((l - ch_logical c) div ch_stripe_len c div k) = Ok pl"
    and row: "Option.bind (checked_mul ((l - ch_logical c) div ch_stripe_len c div k) (ch_stripe_len c))
       (\<lambda>r. checked_add r ((l - ch_logical c) mod ch_stripe_len c)) = Some row"
    and data: "collect_results (stripe_at c row) (data_stripes pl) = Ok (pr_data pr)"
    and pp: "stripe_at c row (p_stripe pl) = Ok (pr_p pr)"
    and qq: "collect_results (stripe_at c row) (optlist (q_stripe pl)) = Ok (optlist (pr_q pr))"
    and len: "pr_len pr = min (ch_stripe_len c - (l - ch_logical c) mod ch_stripe_len c) (logical_end c - l)"
    by (rule chunk_parity_read_Ok [OF wf ok])
  have lt: "offset_in c l < clen c" using cov by (auto simp: covers_def offset_in_def)
  have "unat (mp_len \<lparr>mp_devid = fst (pr_data pr ! pr_want pr), mp_physical = snd (pr_data pr ! pr_want pr),
      mp_len = pr_len pr\<rparr>) = run_of c p' (offset_in c l)"
    using chunk_map_mirror_Ok(3) [OF wf cov p'(1)] parity_read_target [OF wf ok] chunk_map_mirror_dom [OF wf] p'(1)
    by (metis Inr_inject)
  then have "0 < unat (pr_len pr)"
    using lt wf_chunk_facts(2) [OF wf] by (auto simp: run_of_def)
  note b = parity_read_row(1) [OF wf ok this row k p'(1,2,3) cov len]
  have "\<exists>i. stripe_at c row i = Ok x"
    using x pp collect_results_in [OF data, of x] collect_results_in [OF qq, of x] by auto
  then obtain i where i: "stripe_at c row i = Ok x" ..
  then show ?thesis
    using b p p'(1)
    by (intro bexI [of _ "ch_stripes c ! i"]) (auto simp: stripe_at_Ok checked_add_Some unat_add_small)
qed

text \<open>A stripe of another chunk is out of reach of a span.\<close>

lemma span_misses:
  assumes inv: "cm_inv cs" and lay: "layout_ok cs" and c: "c \<in> set cs" and r: "map_mirror cs l m = Ok r" "covers c l"
    and c': "c' \<in> set cs" "c' \<noteq> c" "chunk_profile_of c' = Ok p'" "st \<in> set (ch_stripes c')"
    and at: "unat (st_offset st) \<le> a" "a < unat (st_offset st) + span c' p'"
  shows "\<not> (mp_devid r = st_devid st \<and> unat (mp_physical r) = a)"
proof -
  obtain d p s where d: "d \<in> set cs" "covers d l" "chunk_profile_of d = Ok p" "s \<in> set (ch_stripes d)"
    "mp_devid r = st_devid s" "unat (st_offset s) \<le> unat (mp_physical r)"
    "unat (mp_physical r) < unat (st_offset s) + span d p"
    by (rule in_extent [OF inv r(1)])
  have "d = c" using chunk_for_iff [OF inv, of l] d(1,2) c r(2) by (metis option.inject)
  then have "extents_apart c p c' p'"
    using lay c c'(1-3) d(3) unfolding layout_ok_def by metis
  then show ?thesis
    using d \<open>d = c\<close> c'(4) at by (force simp: extents_apart_def)
qed

section \<open>Writing every copy\<close>

text \<open>The range lies in one chunk.\<close>

definition in_chunk :: "chunk \<Rightarrow> u64 \<Rightarrow> nat \<Rightarrow> bool" where
  "in_chunk c l n \<longleftrightarrow> covers c l \<and> unat l + n \<le> unat (ch_logical c) + clen c"

lemma in_chunk_at:
  assumes "wf_chunk c" and "in_chunk c l n" and "i < n"
  shows "unat (l + of_nat i) = unat l + i" and "covers c (l + of_nat i)"
proof -
  have "unat l + i < 2 ^ 64"
    using assms wf_chunk_facts(3) [OF assms(1)] by (simp add: in_chunk_def)
  then show "unat (l + of_nat i) = unat l + i"
    by (simp add: unat_add_small unat_of_nat_u64)
  then show "covers c (l + of_nat i)"
    using assms by (auto simp: in_chunk_def covers_def)
qed

lemma same_byte:
  assumes "cm_inv cs" and "layout_ok cs" and "map_mirror cs a m = Ok r" and "map_mirror cs b m' = Ok r'"
    and "mp_devid r = mp_devid r'" and "unat (mp_physical r) = unat (mp_physical r')"
  shows "a = b"
proof -
  have "mp_physical r = mp_physical r'" using assms(6) by (metis word_unat_eq_iff)
  then show ?thesis using map_mirror_inj [OF assms(1-5)] by blast
qed

lemma parity_bytes_cong:
  assumes "\<And>x. x \<in> set (pr_data pr @ [pr_p pr] @ optlist (pr_q pr)) \<Longrightarrow> byte_at disk' x = byte_at disk x"
  shows "map (\<lambda>x. [byte_at disk' x]) (pr_data pr) = map (\<lambda>x. [byte_at disk x]) (pr_data pr)"
    and "byte_at disk' (pr_p pr) = byte_at disk (pr_p pr)"
    and "map_option (\<lambda>q. [byte_at disk' q]) (pr_q pr) = map_option (\<lambda>q. [byte_at disk q]) (pr_q pr)"
proof -
  show "map (\<lambda>x. [byte_at disk' x]) (pr_data pr) = map (\<lambda>x. [byte_at disk x]) (pr_data pr)"
    "byte_at disk' (pr_p pr) = byte_at disk (pr_p pr)" using assms by simp_all
  show "map_option (\<lambda>q. [byte_at disk' q]) (pr_q pr) = map_option (\<lambda>q. [byte_at disk q]) (pr_q pr)"
    using assms by (cases "pr_q pr") auto
qed

lemma parity_ok_cong:
  assumes par: "parity_ok disk cs"
    and same: "\<And>d l pr x. d \<in> set cs \<Longrightarrow> chunk_parity_read d l = Ok pr \<Longrightarrow>
      x \<in> set (pr_data pr @ [pr_p pr] @ optlist (pr_q pr)) \<Longrightarrow> byte_at disk' x = byte_at disk x"
  shows "parity_ok disk' cs"
  unfolding parity_ok_def
proof (intro ballI allI impI)
  fix d l' pr
  assume d: "d \<in> set cs" "chunk_parity_read d l' = Ok pr"
  note cong = parity_bytes_cong [of pr disk' disk, OF same [OF d]]
  have "parity (map (\<lambda>x. [byte_at disk x]) (pr_data pr)) (pr_q pr \<noteq> None) =
      ([byte_at disk (pr_p pr)], map_option (\<lambda>q. [byte_at disk q]) (pr_q pr))"
    using par d unfolding parity_ok_def by blast
  then show "parity (map (\<lambda>x. [byte_at disk' x]) (pr_data pr)) (pr_q pr \<noteq> None) =
      ([byte_at disk' (pr_p pr)], map_option (\<lambda>q. [byte_at disk' q]) (pr_q pr))"
    by (simp only: cong)
qed

lemma volume_ok_cong:
  assumes v: "volume_ok disk cs img" and same: "\<And>x. x \<in> map_devices cs \<Longrightarrow> disk' x = disk x"
  shows "volume_ok disk' cs img"
proof -
  have inv: "cm_inv cs" and img: "image_ok disk cs img" and par: "parity_ok disk cs"
    and fits: "\<forall>c \<in> set cs. chunk_fits c" using v by (auto simp: volume_ok_def)
  have "image_ok disk' cs img"
    unfolding image_ok_def
  proof (intro allI impI)
    fix l m r
    assume r: "map_mirror cs l m = Ok r"
    obtain c p st where "c \<in> set cs" "st \<in> set (ch_stripes c)" "mp_devid r = st_devid st"
      by (rule in_extent [OF inv r])
    then have "mp_devid r \<in> map_devices cs" by (auto simp: map_devices_def)
    then show "disk' (mp_devid r) (unat (mp_physical r)) = img l"
      using img r same by (simp add: image_ok_def)
  qed
  moreover have "parity_ok disk' cs"
  proof (rule parity_ok_cong [OF par])
    fix d l pr x
    assume d: "d \<in> set cs" "chunk_parity_read d l = Ok pr" "x \<in> set (pr_data pr @ [pr_p pr] @ optlist (pr_q pr))"
    have wf: "wf_chunk d" using inv d(1) by (simp add: cm_inv_def)
    obtain q where q: "chunk_profile_of d = Ok q" using wf_chunk_profile [OF wf] by blast
    have "fst x \<in> map_devices cs"
      using parity_in_extent [OF wf d(2,3) q] d(1) by (auto simp: map_devices_def)
    then show "byte_at disk' x = byte_at disk x" by (simp add: byte_at_def same)
  qed
  ultimately show ?thesis using inv fits by (simp add: volume_ok_def)
qed

lemma mirrored_image:
  assumes v: "volume_ok disk cs img" and lay: "layout_ok cs"
    and c: "c \<in> set cs" "in_chunk c l (length buf)" "parity_count c = None"
    and spans: "mirror_spans B w cs l (length buf) = Ok spans"
  shows "volume_ok (fold put_disk (map (span_write buf) spans) disk) cs (put_image img l buf)"
proof -
  let ?ws = "map (span_write buf) spans" and ?disk = "fold put_disk (map (span_write buf) spans) disk"
  have inv: "cm_inv cs" and img: "image_ok disk cs img" and par: "parity_ok disk cs"
    and fits: "\<forall>c \<in> set cs. chunk_fits c" using v by (auto simp: volume_ok_def)
  have wf: "wf_chunk c" using inv c(1) by (simp add: cm_inv_def)
  have cov: "covers c l" using c(2) by (simp add: in_chunk_def)
  note sp = mirror_spans_Ok [OF inv spans c(1) cov]
  note inc = in_chunk_at [OF wf c(2)]
  have hit: "\<exists>i m r. i < length buf \<and> map_mirror cs (l + of_nat i) m = Ok r \<and> mp_devid r = devid \<and>
      unat (mp_physical r) = a \<and> snd x ! (a - unat (snd (fst x))) = buf ! i"
    if x: "x \<in> set ?ws" "hits x devid a" for x devid a
  proof -
    obtain s where s: "s \<in> set spans" "x = span_write buf s" using x(1) by (metis imageE set_map)
    obtain m where m: "span_of cs l (length buf) m s" using sp(1) [OF s(1)] ..
    show ?thesis
      using span_hits [OF inv m, of devid a] x(2) s(2) by blast
  qed
  have image: "?disk (mp_devid r) (unat (mp_physical r)) = put_image img l buf l'"
    if r: "map_mirror cs l' m = Ok r" for l' m r
  proof (cases "unat l \<le> unat l' \<and> unat l' < unat l + length buf")
    case True
    define i where "i = unat l' - unat l"
    have i: "i < length buf" "unat l' = unat l + i" using True by (auto simp: i_def)
    then have "l' = l + of_nat i" using inc(1) [of i] by (metis word_unat_eq_iff)
    note i = i(1) this
    have val: "snd x ! (unat (mp_physical r) - unat (snd (fst x))) = buf ! i"
      if x: "x \<in> set ?ws" "hits x (mp_devid r) (unat (mp_physical r))" for x
    proof -
      obtain j m' r' where j: "j < length buf" "map_mirror cs (l + of_nat j) m' = Ok r'" "mp_devid r' = mp_devid r"
        "unat (mp_physical r') = unat (mp_physical r)" "snd x ! (unat (mp_physical r) - unat (snd (fst x))) = buf ! j"
        using hit [OF x] by blast
      have "l + of_nat j = l'"
        by (rule same_byte [OF inv lay j(2) r j(3,4)])
      then have "unat (l + of_nat j) = unat (l + of_nat i)" using i(2) by (simp only:)
      then have "j = i" unfolding inc(1) [OF j(1)] inc(1) [OF i(1)] by simp
      then show ?thesis using j(5) by simp
    qed
    have "\<exists>x \<in> set ?ws. hits x (mp_devid r) (unat (mp_physical r))"
    proof -
      have c': "covers c l'" using inc(2) [OF i(1)] i(2) by simp
      have "m < num_mirrors c"
      proof -
        obtain d where d: "d \<in> set cs" "covers d l'" "chunk_map_mirror d l' m = Ok r"
          using r by (auto simp: map_mirror_Ok [OF inv])
        have "d = c" using chunk_for_iff [OF inv, of l'] d(1,2) c(1) c' by (metis option.inject)
        then show ?thesis
          using chunk_map_mirror_dom [OF wf] d(3) num_mirrors_of [OF wf] by metis
      qed
      then obtain devid p at n where s: "(devid, p, at, n) \<in> set spans"
        "span_of cs l (length buf) m (devid, p, at, n)" "at \<le> i" "i < at + n"
        using sp(2) i(1) by blast
      then obtain q where q: "map_mirror cs (l + of_nat at) m = Ok q" "devid = mp_devid q" "p = mp_physical q"
        "n \<le> unat (mp_len q)" "unat (mp_physical q) + n < 2 ^ 64" "at + n \<le> length buf"
        by (auto simp: span_of_def)
      have b: "unat (mp_physical q) + (i - at) < 2 ^ 64" using q(5) s(3,4) by linarith
      define j where "j = i - at"
      have j: "i = at + j" "j < unat (mp_len q)" using s(3,4) q(4) by (auto simp: j_def)
      have "l + of_nat at + of_nat j = l'"
        unfolding i(2) j(1) by (simp add: add.assoc)
      then have "r = \<lparr>mp_devid = mp_devid q, mp_physical = mp_physical q + of_nat j, mp_len = mp_len q - of_nat j\<rparr>"
        using map_mirror_shift [OF inv q(1) j(2)] b r by (simp add: j_def)
      moreover have "unat (mp_physical q + of_nat j) = unat (mp_physical q) + j"
        using b by (simp add: unat_add_small unat_of_nat_u64 flip: j_def)
      ultimately have "mp_devid r = devid" "unat (mp_physical r) = unat p + (i - at)"
        using q(2,3) by (simp_all add: j_def)
      then have "hits (span_write buf (devid, p, at, n)) (mp_devid r) (unat (mp_physical r))"
        using s(3,4) q(6) by (auto simp: hits_def span_write_def slice_def)
      then show ?thesis using s(1) by force
    qed
    moreover have "?disk (mp_devid r) (unat (mp_physical r)) =
        (if \<exists>x \<in> set ?ws. hits x (mp_devid r) (unat (mp_physical r)) then buf ! i
         else disk (mp_devid r) (unat (mp_physical r)))"
      by (rule fold_put_disk [OF val])
    ultimately show ?thesis
      using True by (simp only: put_image_def i_def if_True simp_thms)
  next
    case False
    have "\<not> hits x (mp_devid r) (unat (mp_physical r))" if x: "x \<in> set ?ws" for x
    proof
      assume h: "hits x (mp_devid r) (unat (mp_physical r))"
      obtain j m' r' where j: "j < length buf" "map_mirror cs (l + of_nat j) m' = Ok r'" "mp_devid r' = mp_devid r"
        "unat (mp_physical r') = unat (mp_physical r)"
        using hit [OF x h] by blast
      have "unat (l + of_nat j) = unat l'"
        by (rule arg_cong [OF same_byte [OF inv lay j(2) r j(3,4)]])
      then show False using False j(1) unfolding inc(1) [OF j(1)] by linarith
    qed
    then show ?thesis
      using img r False by (subst fold_put_disk_apart) (auto simp: put_image_def image_ok_def)
  qed
  have same: "byte_at ?disk x = byte_at disk x"
    if p: "d \<in> set cs" "chunk_parity_read d l' = Ok pr" "x \<in> set (pr_data pr @ [pr_p pr] @ optlist (pr_q pr))" for d l' pr x
  proof -
    have wf': "wf_chunk d" using inv p(1) by (simp add: cm_inv_def)
    have ne: "d \<noteq> c" using p(2) c(3) by (auto simp: chunk_parity_read_def split: if_splits)
    obtain q where q: "chunk_profile_of d = Ok q" using wf_chunk_profile [OF wf'] by blast
    obtain st where st: "st \<in> set (ch_stripes d)" "fst x = st_devid st" "unat (st_offset st) \<le> unat (snd x)"
      "unat (snd x) < unat (st_offset st) + span d q"
      using parity_in_extent [OF wf' p(2,3) q] by blast
    have "\<not> hits y (fst x) (unat (snd x))" if y: "y \<in> set ?ws" for y
    proof
      assume "hits y (fst x) (unat (snd x))"
      then obtain i m r where i: "i < length buf" "map_mirror cs (l + of_nat i) m = Ok r" "mp_devid r = fst x"
        "unat (mp_physical r) = unat (snd x)"
        using hit [OF y] by blast
      show False
        using span_misses [OF inv lay c(1) i(2) inc(2) [OF i(1)] p(1) ne q st(1,3,4)] i(3,4) st(2) by simp
    qed
    then show ?thesis unfolding byte_at_def by (rule fold_put_disk_apart)
  qed
  have "parity_ok ?disk cs"
    by (rule parity_ok_cong [OF par same])
  then show ?thesis
    using inv fits image by (auto simp: volume_ok_def image_ok_def)
qed

lemma write_copies_image:
  assumes lib: "wf_block_lib B cont" and v: "volume_ok (pool_disk cont gone w) cs img" and lay: "layout_ok cs"
    and c: "c \<in> set cs" "in_chunk c l (length buf)" "parity_count c = None"
    and dev: "devices_known w (map_devices cs)"
    and ok: "write_logical_all_mirrors B cs l buf w = (Ok (), w')"
  shows "volume_ok (pool_disk cont gone w') cs (put_image img l buf)"
proof -
  have inv: "cm_inv cs" using v by (simp add: volume_ok_def)
  have wf: "wf_chunk c" using inv c(1) by (simp add: cm_inv_def)
  have cov: "covers c l" using c(2) by (simp add: in_chunk_def)
  have ch: "chunk_for cs l = Some c" using c(1) cov chunk_for_iff [OF inv] by blast
  obtain spans where spans: "mirror_spans B w cs l (length buf) = Ok spans"
    and "write_spans B buf spans w = (Ok (), w')"
    using ok by (auto simp: write_logical_all_mirrors_def ch c(3) split: sum.splits)
  then have ws: "write_elements B (map (span_write buf) spans) w = (Ok (), w')"
    by (simp add: write_spans_elements span_write_def [abs_def])
  have "(fst \<circ> fst) ` set (map (span_write buf) spans) \<subseteq> map_devices cs"
  proof
    fix x
    assume "x \<in> (fst \<circ> fst) ` set (map (span_write buf) spans)"
    then obtain s where s: "s \<in> set spans" "x = fst s" by (auto simp: span_write_def)
    then obtain m r at where r: "map_mirror cs (l + of_nat at) m = Ok r" and x: "x = mp_devid r"
      using mirror_spans_Ok(1) [OF inv spans c(1) cov s(1)] by (auto simp: span_of_def)
    obtain d p st where "d \<in> set cs" "st \<in> set (ch_stripes d)" "mp_devid r = st_devid st"
      by (rule in_extent [OF inv r])
    then show "x \<in> map_devices cs" by (auto simp: map_devices_def x)
  qed
  note at = write_elements_disk [OF lib ws this dev, of gone]
  show ?thesis
    by (rule volume_ok_cong [OF mirrored_image [OF v lay c spans]]) (use at in blast)
qed

end
