(* ===== verification/StripeWrite.thy ===== *)
theory StripeWrite
  imports PoolWrite
begin

text \<open>
  A write to a parity chunk keeps the volume consistent. A round of \<open>write_parity\<close>
  (\<open>src/src/fs.rs\<close>) reads the data elements of one full stripe, lays the bytes over them and writes
  what it touched with P and Q made anew; \<open>stripe_round\<close> shows that the round changes the
  logical image by exactly its bytes and leaves every full stripe with its parity,
  \<open>write_image\<close> extends it to a whole write of any profile, and \<open>write_read_back\<close> puts it together
  with reading.
\<close>

section \<open>The elements of a full stripe\<close>

definition elements :: "parity_read \<Rightarrow> (u64 \<times> u64) list" where
  "elements pr = pr_data pr @ [pr_p pr] @ optlist (pr_q pr)"

text \<open>The full stripe a byte lies in, and its place in each element.\<close>

definition stripe_row :: "chunk \<Rightarrow> chunk_profile \<Rightarrow> u64 \<Rightarrow> nat" where
  "stripe_row c p l = offset_in c l div slen c div data_width p (nstripes c)"

definition stripe_within :: "chunk \<Rightarrow> u64 \<Rightarrow> nat" where
  "stripe_within c l = offset_in c l mod slen c"

lemma parity_elements:
  assumes wf: "wf_chunk c" and ok: "chunk_parity_read c l = Ok pr" and p: "chunk_profile_of c = Ok p"
  obtains pl where "p \<in> {Raid5, Raid6}"
    "placement (nstripes c) (parity_np p) (of_nat (stripe_row c p l)) = Ok pl"
    "length (pr_data pr) = data_width p (nstripes c)" "pr_q pr = None \<longleftrightarrow> p = Raid5"
    "length (elements pr) = nstripes c" "length (place_all pl) = nstripes c"
    "\<forall>e < nstripes c. fst (elements pr ! e) = st_devid (ch_stripes c ! (place_all pl ! e)) \<and>
      unat (snd (elements pr ! e)) = unat (st_offset (ch_stripes c ! (place_all pl ! e))) +
        stripe_row c p l * slen c + stripe_within c l"
    "pr_want pr = offset_in c l div slen c mod data_width p (nstripes c)"
    "unat (pr_len pr) = min (slen c - stripe_within c l) (clen c - offset_in c l)"
proof -
  obtain p' np pl row k where p': "chunk_profile_of c = Ok p'" "p' \<in> {Raid5, Raid6}" "np = parity_np p'"
    and cov: "covers c l" and k: "k = of_nat (nstripes c) - of_nat np" and k0: "k \<noteq> 0"
    and pl: "placement (nstripes c) np ((l - ch_logical c) div ch_stripe_len c div k) = Ok pl"
    and row: "Option.bind (checked_mul ((l - ch_logical c) div ch_stripe_len c div k) (ch_stripe_len c))
       (\<lambda>r. checked_add r ((l - ch_logical c) mod ch_stripe_len c)) = Some row"
    and data: "collect_results (stripe_at c row) (data_stripes pl) = Ok (pr_data pr)"
    and pp: "stripe_at c row (p_stripe pl) = Ok (pr_p pr)"
    and qq: "collect_results (stripe_at c row) (optlist (q_stripe pl)) = Ok (optlist (pr_q pr))"
    and want: "pr_want pr = unat ((l - ch_logical c) div ch_stripe_len c mod k)"
    and len: "pr_len pr = min (ch_stripe_len c - (l - ch_logical c) mod ch_stripe_len c) (logical_end c - l)"
    by (rule chunk_parity_read_Ok [OF wf ok])
  have pe: "p' = p" using p p'(1) by simp
  note facts = wf_chunk_facts [OF wf]
  have off: "unat (l - ch_logical c) = offset_in c l" by (rule offset_unat [OF cov])
  have np: "np = 1 \<or> np = 2" using p'(3) by (simp add: parity_np_def)
  note pk = placement_Ok [OF pl np]
  have uk: "unat k = data_width p (nstripes c)"
    using p'(2,3) pk(1) unat_stripes_sub [of np c]
    by (auto simp: k data_width_def parity_np_def nstripes_def pe)
  have full: "(l - ch_logical c) div ch_stripe_len c div k = of_nat (stripe_row c p l)"
  proof -
    have "unat ((l - ch_logical c) div ch_stripe_len c div k) = stripe_row c p l"
      by (simp add: unat_div_word off uk stripe_row_def flip: slen_def)
    then show ?thesis by (metis of_nat_unat ucast_id)
  qed
  have sw: "stripe_within c l < slen c" using facts(2) by (simp add: stripe_within_def)
  have urow: "unat row = stripe_row c p l * slen c + stripe_within c l"
    using row by (auto simp: bind_eq_Some_conv checked_mul_Some checked_add_Some unat_add_small unat_mult_small
        unat_div_word uk off unat_mod_word stripe_row_def stripe_within_def slen_def)
  have el: "collect_results (stripe_at c row) (place_all pl) = Ok (elements pr)"
    using data pp qq by (auto simp: place_all_def elements_def collect_results_eq_Ok optlist_def list_all2_appendI
        split: option.splits)
  note ds = stripes_at_Ok [OF el]
  have card: "length (place_all pl) = nstripes c"
    using pk(4,5) distinct_card [OF pk(4)] by simp
  have dw: "data_width p (nstripes c) = nstripes c - np"
    using p'(2,3) by (auto simp: data_width_def parity_np_def pe)
  show ?thesis
  proof (rule that)
    show "p \<in> {Raid5, Raid6}" using p'(2) pe by simp
    show "placement (nstripes c) (parity_np p) (of_nat (stripe_row c p l)) = Ok pl"
      using pl unfolding full p'(3) pe .
    show "length (pr_data pr) = data_width p (nstripes c)"
      using stripes_at_Ok [OF data] pk(3) dw by simp
    have "q_stripe pl = None \<longleftrightarrow> np = 1"
      using pl np by (auto simp: placement_def Let_def split: if_splits)
    moreover have "pr_q pr = None \<longleftrightarrow> q_stripe pl = None"
      using stripes_at_Ok [OF qq] by (auto simp: optlist_def split: option.splits)
    ultimately show "pr_q pr = None \<longleftrightarrow> p = Raid5"
      using p'(2,3) by (auto simp: pe parity_np_def)
    show "length (elements pr) = nstripes c" using ds card by simp
    show "length (place_all pl) = nstripes c" by (rule card)
    show "\<forall>e < nstripes c. fst (elements pr ! e) = st_devid (ch_stripes c ! (place_all pl ! e)) \<and>
      unat (snd (elements pr ! e)) = unat (st_offset (ch_stripes c ! (place_all pl ! e))) +
        stripe_row c p l * slen c + stripe_within c l"
    proof (intro allI impI conjI)
      fix e
      assume e: "e < nstripes c"
      have l: "e < length (place_all pl)" "e < length (elements pr)" using e card ds by simp_all
      have "map fst (elements pr) ! e = map (\<lambda>i. st_devid (ch_stripes c ! i)) (place_all pl) ! e"
        using ds by simp
      then show "fst (elements pr ! e) = st_devid (ch_stripes c ! (place_all pl ! e))" using l by simp
      have "checked_add (st_offset (ch_stripes c ! (place_all pl ! e))) row = Some (snd (elements pr ! e))"
        using ds l(1) by simp
      then show "unat (snd (elements pr ! e)) = unat (st_offset (ch_stripes c ! (place_all pl ! e))) +
        stripe_row c p l * slen c + stripe_within c l"
        by (auto simp: checked_add_Some unat_add_small urow)
    qed
    show "pr_want pr = offset_in c l div slen c mod data_width p (nstripes c)"
      by (simp add: want unat_mod_word unat_div_word off uk flip: slen_def)
    have a: "unat (ch_stripe_len c - (l - ch_logical c) mod ch_stripe_len c) = slen c - stripe_within c l"
      using sw by (subst unat_sub_le) (auto simp: word_le_nat_alt unat_mod_word off slen_def stripe_within_def)
    have b: "unat (logical_end c - l) = clen c - offset_in c l"
      using cov facts(4) by (subst unat_sub_le) (auto simp: covers_def offset_in_def word_le_nat_alt)
    show "unat (pr_len pr) = min (slen c - stripe_within c l) (clen c - offset_in c l)"
      by (simp add: len unat_min a b)
  qed
qed

section \<open>Laying the bytes over the elements\<close>

lemma parity_column:
  assumes "parity ds r = (p, q)" and "\<forall>d \<in> set ds. length d = n" and "ds \<noteq> []" and "j < n"
  shows "parity (map (\<lambda>d. [d ! j]) ds) r = ([p ! j], map_option (\<lambda>q. [q ! j]) q)"
proof -
  let ?one = "map (\<lambda>d. [d ! j]) ds"
  obtain p' q' where pq: "parity ?one r = (p', q')" by (cases "parity ?one r")
  have col: "column_at 0 ?one = column_at j ds" by (simp add: column_at_def)
  note big = parity_col [OF assms(1-3)]
  have s: "\<forall>d \<in> set ?one. length d = 1" "?one \<noteq> []" using assms(3) by auto
  note small = parity_col [OF pq s]
  have "p' = [p ! j]"
    using small(1) small(2) [of 0] big(2) [OF assms(4)] col by (cases p') auto
  moreover have "q' = map_option (\<lambda>q. [q ! j]) q"
  proof (cases r)
    case True
    obtain v where v: "q' = Some v" "length v = 1" "v ! 0 = wsum (\<lambda>_. False) pow_g 0 (column_at j ds)"
      using small(3) [OF True] col by auto
    obtain u where "q = Some u" "u ! j = wsum (\<lambda>_. False) pow_g 0 (column_at j ds)"
      using big(3) [OF True] assms(4) by auto
    then show ?thesis using v by (cases v) auto
  next
    case False
    then show ?thesis using pq assms(1) by (auto simp: parity_def Let_def)
  qed
  ultimately show ?thesis by (simp add: pq)
qed

text \<open>
  What is laid: element \<open>i\<close> holds at \<open>j\<close> the byte of the buffer that belongs at the logical
  address of that place when the round reaches it.
\<close>

lemma lay_stripe_Ok:
  assumes "lay_stripe buf logical sl len start stop x data touched = Ok (data', touched')"
    and "\<forall>d \<in> set data. length d = len" and "len \<le> unat sl" and "start \<le> x" and "logical \<le> x"
    and "unat stop \<le> unat logical + length buf" and "set touched \<subseteq> {..<length data}"
  shows "length data' = length data \<and> (\<forall>d \<in> set data'. length d = len) \<and>
    set touched' \<subseteq> {..<length data} \<and> set touched \<subseteq> set touched' \<and>
    (\<forall>i < length data. i \<notin> set touched' \<longrightarrow> data' ! i = data ! i) \<and>
    (\<forall>i < length data. \<forall>j < len. data' ! i ! j =
       (if unat x \<le> unat start + i * unat sl + j \<and> unat start + i * unat sl + j < unat stop
        then buf ! (unat start + i * unat sl + j - unat logical) else data ! i ! j))"
  using assms
proof (induction buf logical sl len start stop x data touched rule: lay_stripe.induct)
  case (1 buf logical sl len start stop x data touched)
  note ok = "1.prems"(1) [unfolded lay_stripe.simps [of buf logical sl len start stop x data touched]]
  show ?case
  proof (cases "x < stop")
    case False
    then have "data' = data" "touched' = touched" using ok by auto
    then show ?thesis using "1.prems" False by (auto simp: word_less_nat_alt)
  next
    case True
    define o1 where "o1 = x - start"
    define idx where "idx = unat (o1 div sl)"
    define w where "w = unat (o1 mod sl)"
    define n where "n = min (len - w) (unat (stop - x))"
    define new where "new = put_at w (slice (unat (x - logical)) n buf) (data ! idx)"
    have g: "\<not> (len \<le> w \<or> length data \<le> idx)"
      and rest: "lay_stripe buf logical sl len start stop (x + of_nat n) (data[idx := new])
        (insort_insert idx touched) = Ok (data', touched')"
      using ok True by (auto simp: Let_def o1_def idx_def w_def n_def new_def split: if_splits)
    have uo: "unat o1 = unat x - unat start" using "1.prems"(4) by (simp add: o1_def unat_sub_le)
    have us: "unat (stop - x) = unat stop - unat x" using True by (simp add: unat_sub_le less_imp_le)
    have ul: "unat (x - logical) = unat x - unat logical" using "1.prems"(5) by (simp add: unat_sub_le)
    have sl0: "0 < unat sl" using g "1.prems"(3) by auto
    have pos: "unat x = unat start + idx * unat sl + w" and wl: "w < unat sl"
    proof -
      have "idx * unat sl + w = unat o1"
        by (simp add: idx_def w_def unat_div_word unat_mod_word)
      then show "unat x = unat start + idx * unat sl + w"
        using uo "1.prems"(4) by (simp add: word_le_nat_alt)
      show "w < unat sl" using sl0 by (simp add: w_def unat_mod_word)
    qed
    have nb: "0 < n" "n \<le> len - w" "n \<le> unat stop - unat x"
      using g distance_pos [OF True] by (auto simp: n_def us)
    have xn: "unat (x + of_nat n) = unat x + n"
    proof -
      have "unat x + n < 2 ^ 64" using nb(3) True unat_u64 [of stop] by (simp add: word_less_nat_alt)
      then show ?thesis by (simp add: unat_add_small unat_of_nat_u64)
    qed
    have src: "length (slice (unat (x - logical)) n buf) = n"
      "\<And>t. t < n \<Longrightarrow> slice (unat (x - logical)) n buf ! t = buf ! (unat x - unat logical + t)"
    proof -
      have "unat x - unat logical + n \<le> length buf"
        using nb(3) "1.prems"(5,6) True by (simp add: word_le_nat_alt word_less_nat_alt)
      then show "length (slice (unat (x - logical)) n buf) = n"
        "\<And>t. t < n \<Longrightarrow> slice (unat (x - logical)) n buf ! t = buf ! (unat x - unat logical + t)"
        by (simp_all add: ul slice_def)
    qed
    have dl: "length (data ! idx) = len" using g "1.prems"(2) by simp
    have fits: "w + length (slice (unat (x - logical)) n buf) \<le> length (data ! idx)"
      unfolding src(1) dl using nb(2) g by linarith
    have newl: "length new = len" using fits dl by (simp add: new_def)
    have newat: "new ! j = (if w \<le> j \<and> j < w + n then buf ! (unat x - unat logical + (j - w)) else data ! idx ! j)"
      if "j < len" for j
    proof -
      have "new ! j = (if w \<le> j \<and> j < w + n then slice (unat (x - logical)) n buf ! (j - w) else data ! idx ! j)"
        using nth_put_at [OF fits, of j] src(1) that dl by (simp only: new_def)
      moreover have "slice (unat (x - logical)) n buf ! (j - w) = buf ! (unat x - unat logical + (j - w))"
        if "w \<le> j \<and> j < w + n"
        by (rule src(2)) (use that in linarith)
      ultimately show ?thesis by (cases "w \<le> j \<and> j < w + n") (simp_all only: if_True if_False simp_thms)
    qed
    have IH: "length data' = length (data[idx := new]) \<and> (\<forall>d \<in> set data'. length d = len) \<and>
      set touched' \<subseteq> {..<length (data[idx := new])} \<and> set (insort_insert idx touched) \<subseteq> set touched' \<and>
      (\<forall>i < length (data[idx := new]). i \<notin> set touched' \<longrightarrow> data' ! i = data[idx := new] ! i) \<and>
      (\<forall>i < length (data[idx := new]). \<forall>j < len. data' ! i ! j =
       (if unat (x + of_nat n) \<le> unat start + i * unat sl + j \<and> unat start + i * unat sl + j < unat stop
        then buf ! (unat start + i * unat sl + j - unat logical) else data[idx := new] ! i ! j))"
    proof (rule "1.IH" [OF True o1_def idx_def w_def g n_def refl, folded new_def])
      show "lay_stripe buf logical sl len start stop (x + of_nat n) (data[idx := new])
        (insort_insert idx touched) = Ok (data', touched')" by (rule rest)
      show "\<forall>d \<in> set (data[idx := new]). length d = len"
        using "1.prems"(2) newl by (auto dest: set_update_subset_insert [THEN subsetD])
      show "start \<le> x + of_nat n" "logical \<le> x + of_nat n"
        using "1.prems"(4,5) xn by (simp_all add: word_le_nat_alt)
      show "set (insort_insert idx touched) \<subseteq> {..<length (data[idx := new])}"
        using "1.prems"(7) g by (auto simp: set_insort_insert)
    qed (use "1.prems" in auto)
    have val: "data' ! i ! j =
       (if unat x \<le> unat start + i * unat sl + j \<and> unat start + i * unat sl + j < unat stop
        then buf ! (unat start + i * unat sl + j - unat logical) else data ! i ! j)"
      if i: "i < length data" and j: "j < len" for i j
    proof -
      let ?at = "unat start + i * unat sl + j"
      have eq: "data' ! i ! j = (if unat x + n \<le> ?at \<and> ?at < unat stop
          then buf ! (?at - unat logical) else data[idx := new] ! i ! j)"
        using IH i j by (simp add: xn)
      show ?thesis
      proof (cases "i = idx")
        case True
        then have a: "?at + w = unat x + j" using pos by auto
        have ix: "?at - unat logical = unat x - unat logical + (j - w)" if "w \<le> j"
          using a that "1.prems"(5) by (simp add: word_le_nat_alt)
        have d: "data[idx := new] ! i = new" "data ! i = data ! idx" using True g by simp_all
        consider "j < w" | "w \<le> j \<and> j < w + n" | "w + n \<le> j" by linarith
        then show ?thesis
        proof cases
          case 1
          then have "\<not> unat x \<le> ?at" "\<not> unat x + n \<le> ?at" using a by linarith+
          then show ?thesis using eq newat [OF j] 1 d by simp
        next
          case 2
          moreover have "unat x < unat stop" using \<open>x < stop\<close> by (simp add: word_less_nat_alt)
          ultimately have "unat x \<le> ?at" "\<not> unat x + n \<le> ?at" "?at < unat stop" using a nb(3) by linarith+
          then show ?thesis using eq newat [OF j] 2 d ix by (simp only: if_True if_False simp_thms)
        next
          case 3
          then have "unat x \<le> ?at" "unat x + n \<le> ?at" using a by linarith+
          then show ?thesis using eq newat [OF j] 3 d by simp
        qed
      next
        case False
        have "unat x + n \<le> ?at \<longleftrightarrow> unat x \<le> ?at"
        proof (cases "i < idx")
          case True
          then have "(i + 1) * unat sl \<le> idx * unat sl" by (intro mult_le_mono1) simp
          then show ?thesis using j "1.prems"(3) pos by simp
        next
          case False
          then have "(idx + 1) * unat sl \<le> i * unat sl" using \<open>i \<noteq> idx\<close> by (intro mult_le_mono1) simp
          moreover have "w + n \<le> unat sl" using nb(2) "1.prems"(3) g by linarith
          ultimately show ?thesis using pos by simp
        qed
        then show ?thesis using eq False by simp
      qed
    qed
    show ?thesis
      using IH val by (auto simp: set_insort_insert nth_list_update split: if_splits)
  qed
qed

section \<open>Where the elements of a chunk lie\<close>

lemma stripe_place_bound:
  assumes "covers c l" and "stripe_within c l + j < slen c"
  shows "stripe_row c p l * slen c + stripe_within c l + j < span c p"
  using row_bound [of "offset_in c l" c j p] assms by (auto simp: stripe_row_def stripe_within_def covers_def offset_in_def)

lemma parity_covers: "wf_chunk c \<Longrightarrow> chunk_parity_read c l = Ok pr \<Longrightarrow> covers c l"
  using covers_iff [of c l] by (auto simp: chunk_parity_read_def split: if_splits)

lemma elements_meet:
  assumes wf: "wf_chunk c" and p: "chunk_profile_of c = Ok p" and apart: "stripes_apart c p"
    and plan: "chunk_parity_read c s = Ok plan" and pr: "chunk_parity_read c x = Ok pr"
    and e: "e1 < nstripes c" "e2 < nstripes c" and j: "stripe_within c s + j < slen c"
    and same: "fst (elements plan ! e1) = fst (elements pr ! e2)"
      "unat (snd (elements plan ! e1)) + j = unat (snd (elements pr ! e2))"
  shows "e1 = e2 \<and> stripe_row c p s = stripe_row c p x \<and> stripe_within c s + j = stripe_within c x"
proof -
  obtain pl1 where pl1: "p \<in> {Raid5, Raid6}" "placement (nstripes c) (parity_np p) (of_nat (stripe_row c p s)) = Ok pl1"
    "length (place_all pl1) = nstripes c"
    and at1: "\<forall>e < nstripes c. fst (elements plan ! e) = st_devid (ch_stripes c ! (place_all pl1 ! e)) \<and>
      unat (snd (elements plan ! e)) = unat (st_offset (ch_stripes c ! (place_all pl1 ! e))) +
        stripe_row c p s * slen c + stripe_within c s"
    by (rule parity_elements [OF wf plan p])
  obtain pl2 where pl2: "placement (nstripes c) (parity_np p) (of_nat (stripe_row c p x)) = Ok pl2"
    "length (place_all pl2) = nstripes c"
    and at2: "\<forall>e < nstripes c. fst (elements pr ! e) = st_devid (ch_stripes c ! (place_all pl2 ! e)) \<and>
      unat (snd (elements pr ! e)) = unat (st_offset (ch_stripes c ! (place_all pl2 ! e))) +
        stripe_row c p x * slen c + stripe_within c x"
    by (rule parity_elements [OF wf pr p])
  have np: "parity_np p = 1 \<or> parity_np p = 2" by (simp add: parity_np_def)
  note pk1 = placement_Ok [OF pl1(2) np] and pk2 = placement_Ok [OF pl2(1) np]
  let ?i = "place_all pl1 ! e1" and ?k = "place_all pl2 ! e2"
  have b: "?i < nstripes c" "?k < nstripes c"
    using pk1(5) pk2(5) e pl1(3) pl2(2) nth_mem by (metis lessThan_iff)+
  have w2: "stripe_within c x < slen c" using wf_chunk_facts(2) [OF wf] by (simp add: stripe_within_def)
  note s1 = stripe_place_bound [OF parity_covers [OF wf plan] j, of p]
  note s2 = stripe_place_bound [OF parity_covers [OF wf pr], of 0 p]
  have ik: "?i = ?k"
  proof (rule ccontr)
    assume "?i \<noteq> ?k"
    then have "unat (st_offset (ch_stripes c ! ?i)) + span c p \<le> unat (st_offset (ch_stripes c ! ?k)) \<or>
        unat (st_offset (ch_stripes c ! ?k)) + span c p \<le> unat (st_offset (ch_stripes c ! ?i))"
      using apart b at1 [rule_format, OF e(1)] at2 [rule_format, OF e(2)] same(1) by (simp add: stripes_apart_def)
    then show False
      using at1 [rule_format, OF e(1)] at2 [rule_format, OF e(2)] same(2) s1 s2 w2 by linarith
  qed
  have "stripe_row c p s * slen c + (stripe_within c s + j) = stripe_row c p x * slen c + stripe_within c x"
    using at1 [rule_format, OF e(1)] at2 [rule_format, OF e(2)] same(2) ik by simp
  then have r: "stripe_row c p s = stripe_row c p x" "stripe_within c s + j = stripe_within c x"
    using row_mod_inj [OF _ j w2] by blast+
  then have "pl1 = pl2" using pl1(2) pl2(1) by simp
  then have "e1 = e2"
    using ik pk1(4) e pl1(3) by (simp add: nth_eq_iff_index_eq)
  with r show ?thesis by simp
qed

lemma element_in_extent:
  assumes wf: "wf_chunk c" and p: "chunk_profile_of c = Ok p" and plan: "chunk_parity_read c s = Ok plan"
    and e: "e < nstripes c" and j: "stripe_within c s + j < slen c"
  shows "\<exists>st \<in> set (ch_stripes c). fst (elements plan ! e) = st_devid st \<and>
    unat (st_offset st) \<le> unat (snd (elements plan ! e)) + j \<and>
    unat (snd (elements plan ! e)) + j < unat (st_offset st) + span c p"
proof -
  obtain pl where pl: "placement (nstripes c) (parity_np p) (of_nat (stripe_row c p s)) = Ok pl"
    "length (place_all pl) = nstripes c"
    and at: "\<forall>e < nstripes c. fst (elements plan ! e) = st_devid (ch_stripes c ! (place_all pl ! e)) \<and>
      unat (snd (elements plan ! e)) = unat (st_offset (ch_stripes c ! (place_all pl ! e))) +
        stripe_row c p s * slen c + stripe_within c s"
    by (rule parity_elements [OF wf plan p])
  have np: "parity_np p = 1 \<or> parity_np p = 2" by (simp add: parity_np_def)
  have "place_all pl ! e < nstripes c"
    using placement_Ok(5) [OF pl(1) np] e pl(2) nth_mem by (metis lessThan_iff)
  then have "ch_stripes c ! (place_all pl ! e) \<in> set (ch_stripes c)"
    using wf_chunk_facts(5) [OF wf] by simp
  then show ?thesis
    using at [rule_format, OF e] stripe_place_bound [OF parity_covers [OF wf plan] j, of p] by (intro bexI) auto
qed

lemma collect_results_total: "(\<And>x. x \<in> set xs \<Longrightarrow> \<exists>y. f x = Ok y) \<Longrightarrow> \<exists>ys. collect_results f xs = Ok ys"
proof (induction xs)
  case (Cons x xs)
  obtain y ys where "f x = Ok y" "collect_results f xs = Ok ys"
    using Cons.IH Cons.prems by (metis list.set_intros)
  then show ?case by simp
qed simp

text \<open>A byte of a parity chunk can be rebuilt whenever its stripes keep below the end of the address space.\<close>

lemma parity_read_total:
  assumes wf: "wf_chunk c" and p: "chunk_profile_of c = Ok p" "p \<in> {Raid5, Raid6}" and fits: "chunk_fits c" "parity_fits p c"
    and cov: "covers c l"
  shows "\<exists>pr. chunk_parity_read c l = Ok pr"
proof -
  note facts = wf_chunk_facts [OF wf]
  let ?np = "parity_np p" and ?k = "of_nat (nstripes c) - of_nat (parity_np p) :: u64" and ?o = "l - ch_logical c"
  have np: "?np = 1 \<or> ?np = 2" by (simp add: parity_np_def)
  have n: "?np < nstripes c" "nstripes c \<le> 256"
    using wf_chunk_stripes [OF wf p(1)] p(2) fits(2)
    by (auto simp: stripes_match_def parity_np_def parity_fits_def)
  have pc: "parity_count c = Some ?np" using p by (auto simp: parity_count_def parity_np_def)
  have off: "unat ?o = offset_in c l" by (rule offset_unat [OF cov])
  have uk: "unat ?k = data_width p (nstripes c)"
    using p(2) n(1) unat_stripes_sub [of ?np c]
    by (auto simp: data_width_def parity_np_def nstripes_def)
  obtain pl where pl: "placement (nstripes c) ?np (?o div ch_stripe_len c div ?k) = Ok pl"
    using n by (auto simp: placement_def Let_def)
  note pk = placement_Ok [OF pl np]
  have w: "stripe_within c l + 0 < slen c" using facts(2) by (simp add: stripe_within_def)
  note sp = stripe_place_bound [OF cov w, of p]
  have fit: "unat (st_offset (ch_stripes c ! i)) + span c p \<le> 2 ^ 64" if "i < nstripes c" for i
    using fits(1) p(1) that facts(5) by (simp add: chunk_fits_def)
  have n0: "0 < nstripes c" using n(1) by simp
  have small: "stripe_row c p l * slen c + stripe_within c l < 2 ^ 64"
    using sp fit [OF n0] by linarith
  have full: "unat (?o div ch_stripe_len c div ?k) = stripe_row c p l"
    by (simp add: unat_div_word off uk stripe_row_def flip: slen_def)
  have within: "unat (?o mod ch_stripe_len c) = stripe_within c l"
    by (simp add: unat_mod_word off stripe_within_def flip: slen_def)
  define row where "row = ?o div ch_stripe_len c div ?k * ch_stripe_len c + ?o mod ch_stripe_len c"
  have m: "unat (?o div ch_stripe_len c div ?k * ch_stripe_len c) = stripe_row c p l * slen c"
    using small by (subst unat_mult_small) (simp_all add: full flip: slen_def)
  have urow: "unat row = stripe_row c p l * slen c + stripe_within c l"
    unfolding row_def using small by (subst unat_add_small) (simp_all add: m within)
  have row: "Option.bind (checked_mul (?o div ch_stripe_len c div ?k) (ch_stripe_len c))
      (\<lambda>r. checked_add r (?o mod ch_stripe_len c)) = Some row"
    using small m within full by (simp add: checked_mul_def checked_add_def row_def flip: slen_def)
  have at: "\<exists>x. stripe_at c row i = Ok x" if "i < nstripes c" for i
  proof -
    have "unat (st_offset (ch_stripes c ! i)) + unat row < 2 ^ 64"
      using fit [OF that] sp urow by linarith
    then show ?thesis using that facts(5) by (simp add: stripe_at_Ok checked_add_def)
  qed
  have all: "i < nstripes c" if "i \<in> set (place_all pl)" for i using that pk(5) by auto
  have "\<exists>ds. collect_results (stripe_at c row) (data_stripes pl) = Ok ds"
    by (rule collect_results_total) (use all at in \<open>auto simp: place_all_def\<close>)
  then obtain ds where ds: "collect_results (stripe_at c row) (data_stripes pl) = Ok ds" ..
  obtain pp where pp: "stripe_at c row (p_stripe pl) = Ok pp"
    using at [OF all, of "p_stripe pl"] by (auto simp: place_all_def)
  obtain qq where "(case q_stripe pl of None \<Rightarrow> Ok None | Some q \<Rightarrow> try_in (stripe_at c row q) (\<lambda>q. Ok (Some q))) = Ok qq"
  proof (cases "q_stripe pl")
    case (Some q)
    then obtain y where "stripe_at c row q = Ok y" using at [OF all, of q] Some by (auto simp: place_all_def)
    then show ?thesis using Some that by simp
  qed (use that in simp)
  moreover have "\<not> (l < ch_logical c \<or> l \<ge> logical_end c)" using covers_iff [OF wf] cov by blast
  moreover have "ch_stripe_len c \<noteq> 0" using facts(2) by (auto simp: slen_def)
  moreover have "?k \<noteq> 0" using uk data_width_pos [OF wf_chunk_stripes [OF wf p(1)]] by auto
  ultimately show ?thesis
    using pl row ds pp by (simp add: chunk_parity_read_def pc Let_def flip: nstripes_def)
qed

section \<open>One full stripe written\<close>

definition laid :: "parity_read \<Rightarrow> bytes list \<Rightarrow> bytes \<Rightarrow> bytes option \<Rightarrow> ((u64 \<times> u64) \<times> bytes) list" where
  "laid plan data p q = zip (elements plan) (data @ [p] @ optlist q)"

lemma parity_q_iff: "parity ds r = (p, q) \<Longrightarrow> q = None \<longleftrightarrow> \<not> r"
  by (auto simp: parity_def Let_def split: if_splits)

lemma stripe_writes_Ok:
  assumes wf: "wf_chunk c" and lib: "wf_block_lib B cont" and ok: "stripe_writes B w c logical buf start stop at = Ok writes"
    and at: "start \<le> at" "logical \<le> at" "unat stop \<le> unat logical + length buf"
  obtains plan data p q where "chunk_parity_read c start = Ok plan"
    "length data = length (pr_data plan)" "\<forall>d \<in> set data. length d = unat (pr_len plan)"
    "parity data (pr_q plan \<noteq> None) = (p, q)"
    "set writes \<subseteq> set (laid plan data p q)"
    "\<forall>z \<in> set (laid plan data p q). z \<in> set writes \<or>
       snd z = run_at (pool_disk cont gone w) (unat (pr_len plan)) (fst z)"
    "\<forall>i < length data. \<forall>j < unat (pr_len plan). data ! i ! j =
       (if unat at \<le> unat start + i * slen c + j \<and> unat start + i * slen c + j < unat stop
        then buf ! (unat start + i * slen c + j - unat logical)
        else pool_disk cont gone w (fst (pr_data plan ! i)) (unat (snd (pr_data plan ! i)) + j))"
proof -
  let ?disk = "pool_disk cont gone w"
  obtain plan where plan: "chunk_parity_read c start = Ok plan"
    using ok by (auto simp: stripe_writes_def try_in_eq_Ok)
  define len where "len = unat (pr_len plan)"
  obtain old data touched where
    old: "collect_results (\<lambda>(devid, physical). try_in (write_device w devid) (\<lambda>d.
        try_in (writable_span B d physical len) (\<lambda>_. bl_read B d physical len))) (pr_data plan) = Ok old"
    and lay: "lay_stripe buf logical (ch_stripe_len c) len start stop at old [] = Ok (data, touched)"
    and rest: "(let (p, q) = parity data (pr_q plan \<noteq> None);
         writes = map (\<lambda>i. (pr_data plan ! i, data ! i)) touched @ [(pr_p plan, p)] @
           (case (pr_q plan, q) of (Some at_q, Some q) \<Rightarrow> [(at_q, q)] | _ \<Rightarrow> [])
     in try_in (check_spans B w len writes) (\<lambda>_. Ok writes)) = Ok writes"
    using ok plan by (auto simp: stripe_writes_def try_in_eq_Ok Let_def len_def)
  obtain p q where pq: "parity data (pr_q plan \<noteq> None) = (p, q)" by (cases "parity data (pr_q plan \<noteq> None)")
  have writes: "writes = map (\<lambda>i. (pr_data plan ! i, data ! i)) touched @ [(pr_p plan, p)] @
           (case (pr_q plan, q) of (Some at_q, Some q) \<Rightarrow> [(at_q, q)] | _ \<Rightarrow> [])"
    using rest pq by (auto simp: Let_def try_in_eq_Ok)
  have old': "length old = length (pr_data plan)" "\<And>i. i < length old \<Longrightarrow> old ! i = run_at ?disk len (pr_data plan ! i)"
  proof -
    have l2: "list_all2 (\<lambda>x y. (case x of (devid, physical) \<Rightarrow> try_in (write_device w devid) (\<lambda>d.
        try_in (writable_span B d physical len) (\<lambda>_. bl_read B d physical len))) = Ok y) (pr_data plan) old"
      using old by (simp add: collect_results_eq_Ok)
    show "length old = length (pr_data plan)" using list_all2_lengthD [OF l2] by simp
    fix i
    assume i: "i < length old"
    have "(case pr_data plan ! i of (devid, physical) \<Rightarrow> try_in (write_device w devid) (\<lambda>d.
        try_in (writable_span B d physical len) (\<lambda>_. bl_read B d physical len))) = Ok (old ! i)"
      using list_all2_nthD2 [OF l2 i] .
    then show "old ! i = run_at ?disk len (pr_data plan ! i)"
      using lib by (auto simp: try_in_eq_Ok run_at_def pool_disk_def wf_block_lib_def case_prod_unfold)
  qed
  have len: "len \<le> slen c"
  proof -
    obtain pp where pp: "chunk_profile_of c = Ok pp" using wf_chunk_profile [OF wf] by blast
    show ?thesis by (rule parity_elements [OF wf plan pp]) (simp add: len_def)
  qed
  have L: "length data = length old \<and> (\<forall>d \<in> set data. length d = len) \<and>
    set touched \<subseteq> {..<length old} \<and> set [] \<subseteq> set touched \<and>
    (\<forall>i < length old. i \<notin> set touched \<longrightarrow> data ! i = old ! i) \<and>
    (\<forall>i < length old. \<forall>j < len. data ! i ! j =
       (if unat at \<le> unat start + i * unat (ch_stripe_len c) + j \<and> unat start + i * unat (ch_stripe_len c) + j < unat stop
        then buf ! (unat start + i * unat (ch_stripe_len c) + j - unat logical) else old ! i ! j))"
    by (rule lay_stripe_Ok [OF lay _ _ at(1,2,3)])
      (use old' len in \<open>auto simp: slen_def in_set_conv_nth\<close>)
  have T: "set touched \<subseteq> {..<length old}" "length data = length old" "\<forall>d \<in> set data. length d = len"
    "\<And>i. i < length old \<Longrightarrow> i \<notin> set touched \<Longrightarrow> data ! i = old ! i" using L by blast+
  have el: "laid plan data p q = zip (pr_data plan) data @ [(pr_p plan, p)] @ zip (optlist (pr_q plan)) (optlist q)"
    using T(2) old'(1) by (simp add: laid_def elements_def)
  have qs: "set (zip (optlist (pr_q plan)) (optlist q)) =
      set (case (pr_q plan, q) of (Some at_q, Some q) \<Rightarrow> [(at_q, q)] | _ \<Rightarrow> [])"
    by (auto simp: optlist_def split: option.splits)
  have zs: "(pr_data plan ! i, data ! i) \<in> set (zip (pr_data plan) data)" if "i < length old" for i
    using that T(2) old'(1) by (force simp: set_zip)
  show ?thesis
  proof (rule that [OF plan _ _ pq])
    show "length data = length (pr_data plan)" using T(2) old'(1) by simp
    show "\<forall>d \<in> set data. length d = unat (pr_len plan)" using T(3) by (simp add: len_def)
    show "set writes \<subseteq> set (laid plan data p q)"
    proof -
      have "set (map (\<lambda>i. (pr_data plan ! i, data ! i)) touched) \<subseteq> set (zip (pr_data plan) data)"
        using T(1) zs by auto
      then show ?thesis unfolding writes el set_append qs by blast
    qed
    show "\<forall>z \<in> set (laid plan data p q). z \<in> set writes \<or> snd z = run_at ?disk (unat (pr_len plan)) (fst z)"
    proof
      fix z
      assume "z \<in> set (laid plan data p q)"
      then consider i where "i < length old" "z = (pr_data plan ! i, data ! i)" | "z = (pr_p plan, p)"
        | "z \<in> set (zip (optlist (pr_q plan)) (optlist q))"
        using T(2) old'(1) unfolding el by (auto simp: set_zip)
      then show "z \<in> set writes \<or> snd z = run_at ?disk (unat (pr_len plan)) (fst z)"
      proof cases
        case 1
        then show ?thesis
          using T(4) [OF 1(1)] old'(2) [OF 1(1)] by (cases "i \<in> set touched") (auto simp: writes len_def)
      qed (use qs in \<open>auto simp: writes\<close>)
    qed
    show "\<forall>i < length data. \<forall>j < unat (pr_len plan). data ! i ! j =
       (if unat at \<le> unat start + i * slen c + j \<and> unat start + i * slen c + j < unat stop
        then buf ! (unat start + i * slen c + j - unat logical)
        else ?disk (fst (pr_data plan ! i)) (unat (snd (pr_data plan ! i)) + j))"
      using L old' by (simp add: slen_def len_def run_at_def)
  qed
qed

lemma same_stripe_elements:
  assumes wf: "wf_chunk c" and p: "chunk_profile_of c = Ok p" and plan: "chunk_parity_read c start = Ok plan"
    and pr: "chunk_parity_read c x = Ok pr" and row: "stripe_row c p x = stripe_row c p start"
    and start: "stripe_within c start = 0" and e: "e < nstripes c"
  shows "fst (elements plan ! e) = fst (elements pr ! e)"
    and "unat (snd (elements pr ! e)) = unat (snd (elements plan ! e)) + stripe_within c x"
proof -
  obtain pl where pl: "placement (nstripes c) (parity_np p) (of_nat (stripe_row c p start)) = Ok pl"
    and a: "\<forall>e < nstripes c. fst (elements plan ! e) = st_devid (ch_stripes c ! (place_all pl ! e)) \<and>
      unat (snd (elements plan ! e)) = unat (st_offset (ch_stripes c ! (place_all pl ! e))) +
        stripe_row c p start * slen c + stripe_within c start"
    by (rule parity_elements [OF wf plan p])
  obtain pl' where pl': "placement (nstripes c) (parity_np p) (of_nat (stripe_row c p x)) = Ok pl'"
    and a': "\<forall>e < nstripes c. fst (elements pr ! e) = st_devid (ch_stripes c ! (place_all pl' ! e)) \<and>
      unat (snd (elements pr ! e)) = unat (st_offset (ch_stripes c ! (place_all pl' ! e))) +
        stripe_row c p x * slen c + stripe_within c x"
    by (rule parity_elements [OF wf pr p])
  have "pl = pl'" using pl pl' row by simp
  then show "fst (elements plan ! e) = fst (elements pr ! e)"
    "unat (snd (elements pr ! e)) = unat (snd (elements plan ! e)) + stripe_within c x"
    using a [rule_format, OF e] a' [rule_format, OF e] row start by simp_all
qed

text \<open>
  What the writes of a round leave at a byte of some element: the laid byte in the full stripe the
  round is about, the old one in any other.
\<close>

lemma stripe_written:
  assumes wf: "wf_chunk c" and p: "chunk_profile_of c = Ok p" and apart: "stripes_apart c p"
    and plan: "chunk_parity_read c start = Ok plan" and start: "stripe_within c start = 0"
    and bs: "length bs = nstripes c" "\<forall>b \<in> set bs. length b = unat (pr_len plan)"
    and ws: "set writes \<subseteq> set (zip (elements plan) bs)"
      "\<forall>z \<in> set (zip (elements plan) bs). z \<in> set writes \<or> snd z = run_at disk (unat (pr_len plan)) (fst z)"
    and pr: "chunk_parity_read c x = Ok pr" and e: "e < nstripes c"
  shows "stripe_row c p x = stripe_row c p start \<Longrightarrow> stripe_within c x < unat (pr_len plan) \<Longrightarrow>
      fold put_disk writes disk (fst (elements pr ! e)) (unat (snd (elements pr ! e))) = bs ! e ! stripe_within c x"
    and "stripe_row c p x \<noteq> stripe_row c p start \<Longrightarrow>
      fold put_disk writes disk (fst (elements pr ! e)) (unat (snd (elements pr ! e))) =
        disk (fst (elements pr ! e)) (unat (snd (elements pr ! e)))"
proof -
  let ?x = "elements pr ! e" and ?len = "unat (pr_len plan)"
  have le: "length (elements plan) = nstripes c" and len: "?len \<le> slen c"
    by (rule parity_elements [OF wf plan p], simp)+
  have meet: "e1 = e \<and> stripe_row c p start = stripe_row c p x \<and> unat (snd ?x) - unat (snd (elements plan ! e1)) = stripe_within c x"
    if z: "e1 < nstripes c" "hits (elements plan ! e1, bs ! e1) (fst ?x) (unat (snd ?x))" for e1
  proof -
    have lb: "length (bs ! e1) = ?len" using bs z(1) by simp
    define j where "j = unat (snd ?x) - unat (snd (elements plan ! e1))"
    have h: "fst (elements plan ! e1) = fst ?x" "unat (snd (elements plan ! e1)) + j = unat (snd ?x)" "j < ?len"
      using z(2) lb by (auto simp: hits_def j_def)
    show ?thesis
      using elements_meet [OF wf p apart plan pr z(1) e _ h(1,2)] h(3) len start
      unfolding j_def [symmetric] by simp
  qed
  have in_ws: "\<exists>e1 < nstripes c. z = (elements plan ! e1, bs ! e1)" if "z \<in> set writes" for z
    using ws(1) that le bs(1) by (force simp: set_zip)
  {
    assume row: "stripe_row c p x = stripe_row c p start" and w: "stripe_within c x < ?len"
    have v: "snd z ! (unat (snd ?x) - unat (snd (fst z))) = bs ! e ! stripe_within c x"
      if z: "z \<in> set writes" "hits z (fst ?x) (unat (snd ?x))" for z
    proof -
      obtain e1 where e1: "e1 < nstripes c" "z = (elements plan ! e1, bs ! e1)" using in_ws [OF z(1)] by blast
      from meet [OF e1(1) z(2) [unfolded e1(2)]] show ?thesis by (auto simp: e1(2))
    qed
    note at = same_stripe_elements [OF wf p plan pr row start e]
    have old: "bs ! e ! stripe_within c x = disk (fst ?x) (unat (snd ?x))"
      if none: "\<not> (\<exists>z \<in> set writes. hits z (fst ?x) (unat (snd ?x)))"
    proof -
      have "(elements plan ! e, bs ! e) \<in> set (zip (elements plan) bs)"
        using e le bs(1) by (force simp: set_zip)
      moreover have "hits (elements plan ! e, bs ! e) (fst ?x) (unat (snd ?x))"
        using at w bs e by (simp add: hits_def)
      ultimately have "bs ! e = run_at disk ?len (elements plan ! e)" using ws(2) none by force
      then show ?thesis using w at by (simp add: run_at_def)
    qed
    show "fold put_disk writes disk (fst ?x) (unat (snd ?x)) = bs ! e ! stripe_within c x"
      using fold_put_disk [of writes "fst ?x" "unat (snd ?x)" "bs ! e ! stripe_within c x" disk, OF v] old by presburger
  }
  {
    assume row: "stripe_row c p x \<noteq> stripe_row c p start"
    show "fold put_disk writes disk (fst ?x) (unat (snd ?x)) = disk (fst ?x) (unat (snd ?x))"
    proof (rule fold_put_disk_apart)
      fix z
      assume "z \<in> set writes"
      then show "\<not> hits z (fst ?x) (unat (snd ?x))" using in_ws meet row by metis
    qed
  }
qed

text \<open>Stripes of other chunks are not reached.\<close>

lemma stripe_misses:
  assumes lay: "layout_ok cs" and c: "c \<in> set cs" "wf_chunk c" and p: "chunk_profile_of c = Ok p"
    and plan: "chunk_parity_read c start = Ok plan" and start: "stripe_within c start = 0"
    and bs: "length bs = nstripes c" "\<forall>b \<in> set bs. length b = unat (pr_len plan)"
    and ws: "set writes \<subseteq> set (zip (elements plan) bs)"
    and d: "d \<in> set cs" "d \<noteq> c" "chunk_profile_of d = Ok q" "st \<in> set (ch_stripes d)"
    and a: "unat (st_offset st) \<le> a" "a < unat (st_offset st) + span d q"
  shows "fold put_disk writes disk (st_devid st) a = disk (st_devid st) a"
proof (rule fold_put_disk_apart, rule notI)
  fix z
  assume z: "z \<in> set writes" and h: "hits z (st_devid st) a"
  have le: "length (elements plan) = nstripes c" and len: "unat (pr_len plan) \<le> slen c"
    by (rule parity_elements [OF c(2) plan p], simp)+
  obtain e where e: "e < nstripes c" "z = (elements plan ! e, bs ! e)"
    using ws z le bs(1) by (force simp: set_zip)
  define j where "j = a - unat (snd (elements plan ! e))"
  have lb: "length (bs ! e) = unat (pr_len plan)" using bs e(1) by simp
  have j: "fst (elements plan ! e) = st_devid st" "unat (snd (elements plan ! e)) + j = a" "j < slen c"
    using h lb len by (auto simp: hits_def e(2) j_def)
  obtain s where s: "s \<in> set (ch_stripes c)" "fst (elements plan ! e) = st_devid s"
    "unat (st_offset s) \<le> a" "a < unat (st_offset s) + span c p"
    using element_in_extent [OF c(2) p plan e(1), of j] start j by auto
  have "extents_apart c p d q" using lay c(1) d(1-3) p unfolding layout_ok_def by metis
  then show False using s j(1) d(4) a by (force simp: extents_apart_def)
qed

definition put_range :: "(u64 \<Rightarrow> u8) \<Rightarrow> u64 \<Rightarrow> bytes \<Rightarrow> nat \<Rightarrow> nat \<Rightarrow> u64 \<Rightarrow> u8" where
  "put_range img logical buf a b l = (if a \<le> unat l \<and> unat l < b then buf ! (unat l - unat logical) else img l)"

text \<open>A byte of a chunk by the full stripe, the element and the place in it.\<close>

lemma stripe_address:
  assumes "covers c l"
  shows "offset_in c l = stripe_row c p l * (data_width p (nstripes c) * slen c) +
      offset_in c l div slen c mod data_width p (nstripes c) * slen c + stripe_within c l"
proof -
  let ?o = "offset_in c l" and ?w = "data_width p (nstripes c)"
  have "?o div slen c = stripe_row c p l * ?w + ?o div slen c mod ?w"
    unfolding stripe_row_def by (rule div_mult_mod_eq [symmetric])
  then have "?o div slen c * slen c = stripe_row c p l * (?w * slen c) + ?o div slen c mod ?w * slen c"
    by (metis add_mult_distrib mult.assoc)
  then show ?thesis
    using div_mult_mod_eq [of ?o "slen c"] by (simp add: stripe_within_def)
qed

lemma stripe_start_at:
  assumes wf: "wf_chunk c" and p: "chunk_profile_of c = Ok p" and cov: "covers c at"
    and full: "unat full = data_width p (nstripes c) * slen c"
  shows "unat (stripe_start c full at) = unat (ch_logical c) + stripe_row c p at * unat full"
    and "covers c (stripe_start c full at)" and "stripe_within c (stripe_start c full at) = 0"
    and "stripe_row c p (stripe_start c full at) = stripe_row c p at"
    and "stripe_start c full at \<le> at"
proof -
  have pos: "0 < data_width p (nstripes c)" "0 < slen c"
    using data_width_pos [OF wf_chunk_stripes [OF wf p]] wf_chunk_facts(2) [OF wf] by auto
  then have f0: "full \<noteq> 0" using full by auto
  have lo: "ch_logical c \<le> at" using cov by (simp add: covers_def word_le_nat_alt)
  note b = stripe_start_bounds [OF lo f0]
  have row: "(unat at - unat (ch_logical c)) div unat full = stripe_row c p at"
    by (simp add: stripe_row_def offset_in_def full mult.commute div_mult2_eq)
  show s: "unat (stripe_start c full at) = unat (ch_logical c) + stripe_row c p at * unat full"
    using b(1) row by simp
  show cv: "covers c (stripe_start c full at)"
    using b(2) s cov by (simp add: covers_def)
  have off: "offset_in c (stripe_start c full at) = stripe_row c p at * data_width p (nstripes c) * slen c"
    using s by (simp add: offset_in_def full)
  show "stripe_within c (stripe_start c full at) = 0" by (simp add: stripe_within_def off)
  show "stripe_row c p (stripe_start c full at) = stripe_row c p at"
    using pos unfolding stripe_row_def [of c p "stripe_start c full at"] off by simp
  show "stripe_start c full at \<le> at" using b(2) by (simp add: word_le_nat_alt)
qed

lemma in_stripe:
  assumes wf: "wf_chunk c" and p: "chunk_profile_of c = Ok p" and cov: "covers c at" "covers c x"
    and full: "unat full = data_width p (nstripes c) * slen c"
  shows "stripe_row c p x = stripe_row c p at \<longleftrightarrow>
      unat (stripe_start c full at) \<le> unat x \<and> unat x < unat (stripe_start c full at) + unat full"
    and "stripe_row c p x = stripe_row c p at \<Longrightarrow> unat x = unat (stripe_start c full at) +
      offset_in c x div slen c mod data_width p (nstripes c) * slen c + stripe_within c x"
proof -
  note s = stripe_start_at(1) [OF wf p cov(1) full]
  have pos: "0 < data_width p (nstripes c)" "0 < slen c"
    using data_width_pos [OF wf_chunk_stripes [OF wf p]] wf_chunk_facts(2) [OF wf] by auto
  have ux: "unat x = unat (ch_logical c) + offset_in c x" using cov(2) by (simp add: covers_def offset_in_def)
  have row: "stripe_row c p x = offset_in c x div unat full"
    by (simp add: stripe_row_def full mult.commute div_mult2_eq)
  have f: "0 < unat full" using pos full by simp
  have "offset_in c x div unat full = stripe_row c p at \<longleftrightarrow>
      stripe_row c p at * unat full \<le> offset_in c x \<and> offset_in c x < stripe_row c p at * unat full + unat full"
    using f by (metis add.commute div_nat_eqI div_times_less_eq_dividend dividend_less_div_times mult.commute mult_Suc_right)
  then show "stripe_row c p x = stripe_row c p at \<longleftrightarrow>
      unat (stripe_start c full at) \<le> unat x \<and> unat x < unat (stripe_start c full at) + unat full"
    by (simp add: row s ux)
  show "unat x = unat (stripe_start c full at) +
      offset_in c x div slen c mod data_width p (nstripes c) * slen c + stripe_within c x"
    if "stripe_row c p x = stripe_row c p at"
    using stripe_address [OF cov(2), of p] that by (simp add: s ux full)
qed

lemma parity_chunk_mirror:
  assumes "wf_chunk c" and "chunk_profile_of c = Ok p" and "p \<in> {Raid5, Raid6}" and "chunk_map_mirror c x m = Ok r"
  shows "m = 0" and "parity_fits p c" and "covers c x"
proof -
  obtain q where "chunk_profile_of c = Ok q" "covers c x" "m < mirrors_of q" "parity_fits q c"
    by (rule chunk_map_mirror_dom [OF assms(1,4)])
  then show "m = 0" and "parity_fits p c" and "covers c x" using assms(2,3) by (auto simp: mirrors_of_def)
qed

lemma elements_nth:
  "i < length (pr_data pr) \<Longrightarrow> elements pr ! i = pr_data pr ! i"
  "elements pr ! length (pr_data pr) = pr_p pr"
  "pr_q pr = Some y \<Longrightarrow> elements pr ! Suc (length (pr_data pr)) = y"
  by (simp_all add: elements_def nth_append optlist_def)

lemma stripe_round:
  assumes v: "volume_ok disk cs img" and lay: "layout_ok cs" and c: "c \<in> set cs"
    and p: "chunk_profile_of c = Ok p" "p \<in> {Raid5, Raid6}"
    and full: "unat full = data_width p (nstripes c) * slen c"
    and start: "start = stripe_start c full at" "covers c at"
    and at: "logical \<le> at" "unat stop \<le> unat start + unat full" "unat stop \<le> unat logical + length buf"
      "unat stop \<le> unat (ch_logical c) + clen c"
    and lib: "wf_block_lib B cont" and disk: "disk = pool_disk cont gone w"
    and ok: "stripe_writes B w c logical buf start stop at = Ok writes"
  shows "volume_ok (fold put_disk writes disk) cs (put_range img logical buf (unat at) (unat stop)) \<and>
    (fst \<circ> fst) ` set writes \<subseteq> map_devices cs"
proof -
  let ?disk = "fold put_disk writes disk" and ?img = "put_range img logical buf (unat at) (unat stop)"
  have inv: "cm_inv cs" and img: "image_ok disk cs img" and par: "parity_ok disk cs"
    and fits: "\<And>c. c \<in> set cs \<Longrightarrow> chunk_fits c" using v by (auto simp: volume_ok_def)
  have wf: "wf_chunk c" and wfs: "\<And>d. d \<in> set cs \<Longrightarrow> wf_chunk d" using inv c by (auto simp: cm_inv_def)
  have apart: "stripes_apart c p" using lay c p(1) by (simp add: layout_ok_def)
  note s = stripe_start_at [OF wf p(1) start(2) full, folded start(1)]
  note row = in_stripe [OF wf p(1) start(2) _ full, folded start(1)]
  obtain plan data pp qq where plan: "chunk_parity_read c start = Ok plan"
    and data: "length data = length (pr_data plan)" "\<forall>d \<in> set data. length d = unat (pr_len plan)"
    and pq: "parity data (pr_q plan \<noteq> None) = (pp, qq)"
    and ws: "set writes \<subseteq> set (laid plan data pp qq)"
      "\<forall>z \<in> set (laid plan data pp qq). z \<in> set writes \<or> snd z = run_at disk (unat (pr_len plan)) (fst z)"
    and val: "\<forall>i < length data. \<forall>j < unat (pr_len plan). data ! i ! j =
       (if unat at \<le> unat start + i * slen c + j \<and> unat start + i * slen c + j < unat stop
        then buf ! (unat start + i * slen c + j - unat logical)
        else disk (fst (pr_data plan ! i)) (unat (snd (pr_data plan ! i)) + j))"
    by (rule stripe_writes_Ok [OF wf lib ok s(5) at(1,3), of gone, folded disk])
  let ?bs = "data @ [pp] @ optlist qq"
  have pl: "length (pr_data plan) = data_width p (nstripes c)" "pr_q plan = None \<longleftrightarrow> p = Raid5"
    "length (elements plan) = nstripes c"
    "unat (pr_len plan) = min (slen c) (clen c - offset_in c start)"
    by (rule parity_elements [OF wf plan p(1)], simp add: s(3))+
  have ne: "data \<noteq> []"
    using data(1) pl(1) data_width_pos [OF wf_chunk_stripes [OF wf p(1)]] by auto
  note pcol = parity_col [OF pq data(2) ne]
  have bs: "length ?bs = nstripes c" "\<forall>b \<in> set ?bs. length b = unat (pr_len plan)"
  proof -
    show "length ?bs = nstripes c"
      using pl(3) data(1) parity_q_iff [OF pq] by (cases "pr_q plan"; cases qq) (auto simp: elements_def optlist_def)
    show "\<forall>b \<in> set ?bs. length b = unat (pr_len plan)"
      using data(2) pcol(1,3) parity_q_iff [OF pq] by (auto simp: optlist_def split: option.splits)
  qed
  note written = stripe_written [OF wf p(1) apart plan s(3) bs ws(1,2) [unfolded laid_def]]
  note misses = stripe_misses [OF lay c wf p(1) plan s(3) bs ws(1) [unfolded laid_def]]
  have short: "stripe_within c x < unat (pr_len plan)" if x: "covers c x" "stripe_row c p x = stripe_row c p start" for x
  proof -
    have "stripe_within c x < slen c" using wf_chunk_facts(2) [OF wf] by (simp add: stripe_within_def)
    moreover have "unat start + stripe_within c x \<le> unat x" using row(2) [OF x(1)] x(2) s(4) by simp
    ultimately show ?thesis using x(1) s(2) by (auto simp: pl(4) covers_def offset_in_def)
  qed
  have image: "?disk (mp_devid r) (unat (mp_physical r)) = ?img x" if r: "map_mirror cs x m = Ok r" for x m r
  proof -
    obtain d where d: "d \<in> set cs" "covers d x" "chunk_map_mirror d x m = Ok r"
      using r by (auto simp: map_mirror_Ok [OF inv])
    have old: "disk (mp_devid r) (unat (mp_physical r)) = img x" using img r by (simp add: image_ok_def)
    show ?thesis
    proof (cases "d = c")
      case False
      then have "\<not> covers c x" using chunk_for_iff [OF inv, of x] d(1,2) c by (metis option.inject)
      then have "?img x = img x"
        using s(5) start(2) at(4) by (auto simp: put_range_def covers_def word_le_nat_alt)
      obtain q where q: "chunk_profile_of d = Ok q" using wf_chunk_profile [OF wfs [OF d(1)]] by blast
      obtain st where "st \<in> set (ch_stripes d)" "mp_devid r = st_devid st"
        "unat (st_offset st) \<le> unat (mp_physical r)" "unat (mp_physical r) < unat (st_offset st) + span d q"
        using map_in_stripe [OF wfs [OF d(1)] d(3) q] by blast
      then have "?disk (mp_devid r) (unat (mp_physical r)) = disk (mp_devid r) (unat (mp_physical r))"
        using misses [OF d(1) False q] by simp
      then show ?thesis using old \<open>?img x = img x\<close> by simp
    next
      case True
      note pc = parity_chunk_mirror [OF wf p d(3) [unfolded True]]
      obtain pr where pr: "chunk_parity_read c x = Ok pr"
        using parity_read_total [OF wf p fits [OF c] pc(2,3)] by blast
      note t = parity_read_target [OF wf pr]
      let ?i = "pr_want pr"
      have i: "?i = offset_in c x div slen c mod data_width p (nstripes c)" "?i < nstripes c" "length (pr_data pr) = data_width p (nstripes c)"
      proof -
        show "?i = offset_in c x div slen c mod data_width p (nstripes c)" "length (pr_data pr) = data_width p (nstripes c)"
          by (rule parity_elements [OF wf pr p(1)], simp)+
        have "length (elements pr) = nstripes c" by (rule parity_elements [OF wf pr p(1)])
        then show "?i < nstripes c" using t by (simp add: elements_def)
      qed
      have at_i: "mp_devid r = fst (elements pr ! ?i)" "mp_physical r = snd (elements pr ! ?i)"
        using t d(3) pc(1) True by (auto simp: elements_nth)
      show ?thesis
      proof (cases "stripe_row c p x = stripe_row c p start")
        case same: True
        have ud: "?i < length data" using t i(3) pl(1) data(1) by simp
        have ux: "unat x = unat start + ?i * slen c + stripe_within c x"
          using row(2) [OF pc(3)] same s(4) i(1) by simp
        have "?disk (mp_devid r) (unat (mp_physical r)) = data ! ?i ! stripe_within c x"
          using written(1) [OF pr i(2) same short [OF pc(3) same]] ud by (simp add: at_i nth_append)
        also have "\<dots> = (if unat at \<le> unat x \<and> unat x < unat stop then buf ! (unat x - unat logical)
            else disk (fst (pr_data plan ! ?i)) (unat (snd (pr_data plan ! ?i)) + stripe_within c x))"
          using val [rule_format, OF ud short [OF pc(3) same]] by (simp add: ux)
        also have "disk (fst (pr_data plan ! ?i)) (unat (snd (pr_data plan ! ?i)) + stripe_within c x) = img x"
          using same_stripe_elements [OF wf p(1) plan pr same s(3) i(2)] old ud data(1)
          by (simp add: at_i elements_nth(1))
        finally show ?thesis by (simp only: put_range_def)
      next
        case other: False
        have "\<not> (unat at \<le> unat x \<and> unat x < unat stop)"
          using row(1) [OF pc(3)] other s(4,5) at(2) by (auto simp: word_le_nat_alt)
        then have "?img x = img x" by (auto simp: put_range_def)
        then show ?thesis using written(2) [OF pr i(2) other] old by (simp add: at_i)
      qed
    qed
  qed
  have "parity_ok ?disk cs"
    unfolding parity_ok_def
  proof (intro ballI allI impI)
    fix d x pr
    assume d: "d \<in> set cs" and pr: "chunk_parity_read d x = Ok pr"
    let ?eq = "\<lambda>disk. parity (map (\<lambda>x. [byte_at disk x]) (pr_data pr)) (pr_q pr \<noteq> None) =
        ([byte_at disk (pr_p pr)], map_option (\<lambda>q. [byte_at disk q]) (pr_q pr))"
    have keep: "?eq ?disk" if same: "\<And>y. y \<in> set (elements pr) \<Longrightarrow> byte_at ?disk y = byte_at disk y"
    proof -
      note cong = parity_bytes_cong [of pr ?disk disk, OF same [unfolded elements_def]]
      have "?eq disk" using par d pr unfolding parity_ok_def by blast
      then show ?thesis by (simp only: cong)
    qed
    show "?eq ?disk"
    proof (cases "d = c")
      case False
      obtain q where q: "chunk_profile_of d = Ok q" using wf_chunk_profile [OF wfs [OF d]] by blast
      show ?thesis
      proof (rule keep)
        fix y
        assume y: "y \<in> set (elements pr)"
        obtain st where "st \<in> set (ch_stripes d)" "fst y = st_devid st"
          "unat (st_offset st) \<le> unat (snd y)" "unat (snd y) < unat (st_offset st) + span d q"
          using parity_in_extent [OF wfs [OF d] pr y [unfolded elements_def] q] by blast
        then show "byte_at ?disk y = byte_at disk y"
          using misses [OF d False q] by (simp add: byte_at_def)
      qed
    next
      case True
      note pr = pr [unfolded True]
      have le: "length (elements pr) = nstripes c" "length (pr_data pr) = data_width p (nstripes c)" "pr_q pr = None \<longleftrightarrow> p = Raid5"
        by (rule parity_elements [OF wf pr p(1)], simp)+
      have cov: "covers c x" by (rule parity_covers [OF wf pr])
      show ?thesis
      proof (cases "stripe_row c p x = stripe_row c p start")
        case same: True
        let ?w = "stripe_within c x" and ?k = "length data"
        have byte: "byte_at ?disk (elements pr ! e) = ?bs ! e ! ?w" if "e < nstripes c" for e
          using written(1) [OF pr that same short [OF cov same]] by (simp add: byte_at_def)
        have k: "length (pr_data pr) = ?k" using le(2) pl(1) data(1) by simp
        have "map (\<lambda>x. [byte_at ?disk x]) (pr_data pr) = map (\<lambda>d. [d ! ?w]) data"
        proof (rule nth_equalityI)
          fix i
          assume "i < length (map (\<lambda>x. [byte_at ?disk x]) (pr_data pr))"
          then have "i < ?k" using k by simp
          moreover have "?k < nstripes c" using bs(1) by simp
          ultimately show "map (\<lambda>x. [byte_at ?disk x]) (pr_data pr) ! i = map (\<lambda>d. [d ! ?w]) data ! i"
            using byte [of i] k by (simp add: elements_nth(1) nth_append)
        qed (use k in simp)
        moreover have "byte_at ?disk (pr_p pr) = pp ! ?w"
          using byte [of ?k] bs(1) k elements_nth(2) [of pr] by (simp add: nth_append)
        moreover have "map_option (\<lambda>q. [byte_at ?disk q]) (pr_q pr) = map_option (\<lambda>q. [q ! ?w]) qq"
        proof (cases "pr_q pr")
          case None
          then show ?thesis using le(3) pl(2) parity_q_iff [OF pq] by simp
        next
          case (Some y)
          then obtain u where u: "qq = Some u" using le(3) pl(2) parity_q_iff [OF pq] by auto
          then show ?thesis
            using byte [of "Suc ?k"] bs(1) k elements_nth(3) [OF Some] Some
            by (simp add: nth_append optlist_def)
        qed
        moreover have "(pr_q pr \<noteq> None) = (pr_q plan \<noteq> None)" using le(3) pl(2) by simp
        ultimately show ?thesis
          using parity_column [OF pq data(2) ne short [OF cov same]] by simp
      next
        case other: False
        show ?thesis
        proof (rule keep)
          fix y
          assume "y \<in> set (elements pr)"
          then obtain e where "e < nstripes c" "y = elements pr ! e" using le(1) by (metis in_set_conv_nth)
          then show "byte_at ?disk y = byte_at disk y"
            using written(2) [OF pr _ other] by (simp add: byte_at_def)
        qed
      qed
    qed
  qed
  moreover have "(fst \<circ> fst) ` set writes \<subseteq> map_devices cs"
  proof
    fix y
    assume "y \<in> (fst \<circ> fst) ` set writes"
    then obtain z where z: "z \<in> set (zip (elements plan) ?bs)" "y = fst (fst z)"
      using ws(1) by (auto simp: laid_def)
    then have "fst z \<in> set (elements plan)" by (metis prod.collapse set_zip_leftD)
    from parity_in_extent [OF wf plan this [unfolded elements_def] p(1)]
    show "y \<in> map_devices cs" using c z(2) by (auto simp: map_devices_def)
  qed
  ultimately show ?thesis
    using inv fits image by (auto simp: volume_ok_def image_ok_def)
qed

section \<open>A write keeps the volume\<close>

lemma put_range_join:
  "a \<le> b \<Longrightarrow> b \<le> d \<Longrightarrow> put_range (put_range img logical buf a b) logical buf b d = put_range img logical buf a d"
  by (auto simp: put_range_def)

lemma write_stripes_image:
  assumes lib: "wf_block_lib B cont" and lay: "layout_ok cs" and c: "c \<in> set cs"
    and p: "chunk_profile_of c = Ok p" "p \<in> {Raid5, Raid6}"
    and full: "unat full = data_width p (nstripes c) * slen c"
    and fin: "unat finish \<le> unat logical + length buf" "unat finish \<le> unat (ch_logical c) + clen c"
    and lo: "ch_logical c \<le> logical"
  shows "write_stripes B c full logical buf finish at w = (Ok (), w') \<Longrightarrow>
    volume_ok (pool_disk cont gone w) cs img \<Longrightarrow> devices_known w (map_devices cs) \<Longrightarrow>
    logical \<le> at \<Longrightarrow> at \<le> finish \<Longrightarrow>
    volume_ok (pool_disk cont gone w') cs (put_range img logical buf (unat at) (unat finish))"
proof (induction "unat (finish - at)" arbitrary: at w img rule: less_induct)
  case less
  note ok = less.prems(1) [unfolded write_stripes.simps [of B c full logical buf finish at w]]
  show ?case
  proof (cases "at < finish")
    case False
    then have "w' = w" using ok by simp
    moreover have "put_range img logical buf (unat at) (unat finish) = img"
      using False by (auto simp: put_range_def fun_eq_iff word_less_nat_alt)
    ultimately show ?thesis using less.prems(2) by simp
  next
    case True
    have f0: "full \<noteq> 0" and g: "\<not> (at < ch_logical c \<or> checked_add (stripe_start c full at) full = None)"
      using ok True by (auto split: if_splits)
    define start where "start = stripe_start c full at"
    define stop where "stop = min (start + full) finish"
    obtain writes v where ws: "stripe_writes B w c logical buf start stop at = Ok writes"
      and v: "write_elements B writes w = (Ok (), v)"
      and rest: "write_stripes B c full logical buf finish stop v = (Ok (), w')"
      using ok True f0 g by (auto simp: start_def stop_def Let_def split: sum.splits prod.splits)
    have inv: "cm_inv cs" using less.prems(2) by (simp add: volume_ok_def)
    have wf: "wf_chunk c" using inv c by (simp add: cm_inv_def)
    have cov: "covers c at"
      using True lo less.prems(4) fin(2) by (auto simp: covers_def word_le_nat_alt word_less_nat_alt)
    have prog: "at < stop" unfolding stop_def start_def by (rule stripe_progress [OF True f0 g])
    have sf: "stop \<le> finish" by (simp add: stop_def)
    have "unat stop \<le> unat start + unat full"
    proof -
      have "unat (start + full) = unat start + unat full"
        using g by (auto simp: checked_add_def start_def unat_add_small split: if_splits)
      then show ?thesis by (simp add: stop_def unat_min)
    qed
    note round = stripe_round [OF less.prems(2) lay c p full start_def cov less.prems(4) this _ _ lib refl ws]
    have r: "volume_ok (fold put_disk writes (pool_disk cont gone w)) cs (put_range img logical buf (unat at) (unat stop))"
      "(fst \<circ> fst) ` set writes \<subseteq> map_devices cs"
      using round sf fin by (auto simp: word_le_nat_alt)
    note dv = write_elements_disk [OF lib v r(2) less.prems(3), of gone]
    have "volume_ok (pool_disk cont gone v) cs (put_range img logical buf (unat at) (unat stop))"
      by (rule volume_ok_cong [OF r(1)]) (use dv in blast)
    moreover have "logical \<le> stop" using less.prems(4) prog by simp
    ultimately have "volume_ok (pool_disk cont gone w') cs
      (put_range (put_range img logical buf (unat at) (unat stop)) logical buf (unat stop) (unat finish))"
      using less.hyps [OF distance_less [OF prog sf] rest] dv sf by blast
    then show ?thesis
      using prog sf by (simp add: put_range_join word_le_nat_alt word_less_nat_alt)
  qed
qed

lemma write_image:
  assumes lib: "wf_block_lib B cont" and v: "volume_ok (pool_disk cont gone w) cs img" and lay: "layout_ok cs"
    and c: "c \<in> set cs" "in_chunk c l (length buf)"
    and dev: "devices_known w (map_devices cs)"
    and ok: "write_logical_all_mirrors B cs l buf w = (Ok (), w')"
  shows "volume_ok (pool_disk cont gone w') cs (put_image img l buf)"
proof (cases "parity_count c")
  case None
  then show ?thesis by (rule write_copies_image [OF lib v lay c _ dev ok])
next
  case (Some np)
  have inv: "cm_inv cs" using v by (simp add: volume_ok_def)
  have wf: "wf_chunk c" using inv c(1) by (simp add: cm_inv_def)
  have cov: "covers c l" using c(2) by (simp add: in_chunk_def)
  have ch: "chunk_for cs l = Some c" using c(1) cov chunk_for_iff [OF inv] by blast
  obtain p where p: "chunk_profile_of c = Ok p" using wf_chunk_profile [OF wf] by blast
  note pp = parity_count_profile [OF p Some]
  have w: "write_parity B c l buf w = (Ok (), w')" using ok by (simp add: write_logical_all_mirrors_def ch Some)
  obtain full finish where np: "\<not> unat (ch_num_stripes c) < np"
    and full: "checked_mul (ucast (ch_num_stripes c) - of_nat np) (ch_stripe_len c) = Some full"
    and finish: "checked_add l (of_nat (length buf)) = Some finish"
    and st: "write_stripes B c full l buf finish l w = (Ok (), w')"
    using w by (auto simp: write_parity_def Some split: option.splits if_splits)
  have b: "unat l + length buf < 2 ^ 64"
    using c(2) wf_chunk_facts(3) [OF wf] by (simp add: in_chunk_def)
  have uf: "unat finish = unat l + length buf"
  proof -
    have "length buf < 2 ^ 64" using b by linarith
    then have "unat (of_nat (length buf) :: u64) = length buf" by (simp add: unat_of_nat_u64)
    then show ?thesis using finish b by (auto simp: checked_add_Some unat_add_small)
  qed
  have k: "unat full = data_width p (nstripes c) * slen c"
  proof -
    have "unat ((ucast (ch_num_stripes c) :: u64) - of_nat np) = nstripes c - np"
      using np by (intro unat_stripes_sub) (simp add: nstripes_def)
    moreover have "data_width p (nstripes c) = nstripes c - np"
      using pp by (auto simp: data_width_def parity_np_def)
    ultimately show ?thesis
      using full by (auto simp: checked_mul_Some unat_mult_small slen_def)
  qed
  have "volume_ok (pool_disk cont gone w') cs (put_range img l buf (unat l) (unat finish))"
  proof (rule write_stripes_image [OF lib lay c(1) p _ k _ _ _ st v dev])
    show "p \<in> {Raid5, Raid6}" using pp by simp
    show "ch_logical c \<le> l" using cov by (simp add: covers_def word_le_nat_alt)
    show "l \<le> finish" by (simp add: word_le_nat_alt uf)
  qed (use uf c(2) in \<open>simp_all add: in_chunk_def\<close>)
  moreover have "put_range img l buf (unat l) (unat finish) = put_image img l buf"
    by (auto simp: put_range_def put_image_def uf fun_eq_iff)
  ultimately show ?thesis by simp
qed

lemma bytes_of_put_image:
  assumes "wf_chunk c" and "in_chunk c l (length buf)"
  shows "bytes_of (put_image img l buf) l (length buf) = buf"
proof (rule nth_equalityI)
  fix i
  assume "i < length (bytes_of (put_image img l buf) l (length buf))"
  then have i: "i < length buf" by simp
  then show "bytes_of (put_image img l buf) l (length buf) ! i = buf ! i"
    using in_chunk_at(1) [OF assms i] by (simp add: bytes_of_def put_image_def)
qed simp

text \<open>
  C1. What is written is what is read. On a consistent volume whose device extents do not overlap, a
  write of a range within a chunk, of any profile, that succeeds leaves a consistent volume: every
  copy and every full stripe's parity agree with the logical image in which exactly the written
  bytes changed. Every later read of the range that returns, from any copy, through a rebuild, and
  without some of the devices, returns the bytes written.
\<close>

theorem write_read_back:
  assumes "wf_block_lib B cont" and "volume_ok (pool_disk cont gone w) cs img" and "layout_ok cs"
    and "c \<in> set cs" and "in_chunk c l (length buf)" and "devices_known w (map_devices cs)"
    and "write_logical_all_mirrors B cs l buf w = (Ok (), w')"
  shows "volume_ok (pool_disk cont gone w') cs (put_image img l buf) \<and>
    (\<forall>dev devs attempt b. pool_reads (pool_disk cont gone w') dev devs \<longrightarrow>
       read_logical_pool_mirror dev devs cs attempt l (length buf) = Ok b \<longrightarrow> b = buf)"
proof -
  have v: "volume_ok (pool_disk cont gone w') cs (put_image img l buf)"
    by (rule write_image [OF assms])
  have "wf_chunk c" using assms(2,4) by (auto simp: volume_ok_def cm_inv_def)
  then show ?thesis
    using v read_pool_image [OF v] bytes_of_put_image [OF _ assms(5)] by metis
qed

text \<open>A device that is the bytes on it.\<close>

definition demo_lib :: "(nat \<Rightarrow> u8) block_lib" where
  "demo_lib = \<lparr>bl_size = (\<lambda>_. 2 ^ 32), bl_read = (\<lambda>d p n. Ok (map (\<lambda>i. d (unat p + i)) [0..<n])),
     bl_write = (\<lambda>d p b. Ok (overwrite (unat p) b d)), bl_flush = Ok\<rparr>"

lemma demo_lib_wf: "wf_block_lib demo_lib (\<lambda>d. d)"
  by (simp add: wf_block_lib_def demo_lib_def)

lemma demo_raid10_maps:
  "m < 2 \<Longrightarrow> chunk_map_mirror (demo_chunk BG_RAID10 4 2) 1048576 m =
     Ok \<lparr>mp_devid = of_nat m + 1, mp_physical = 1048576, mp_len = 65536\<rparr>"
  by (auto simp: less_2_cases_iff chunk_map_mirror_def demo_profile num_mirrors_of [OF demo_raid10] mirrors_of_def)
    (simp_all add: demo_simps logical_end_def saturating_add_def stripe_index_def place_physical_def
      checked_mul_def checked_add_def is_striped_def)

theorem write_read_back_witness:
  "\<exists>w'. write_logical_all_mirrors demo_lib [demo_chunk BG_RAID10 4 2] 1048576 [7, 8]
      \<lparr>wp_single = None, wp_pool = [(1, \<lambda>_. 0), (2, \<lambda>_. 0), (3, \<lambda>_. 0), (4, \<lambda>_. 0)]\<rparr> = (Ok (), w') \<and>
    volume_ok (pool_disk (\<lambda>d. d) (\<lambda>_ _. 0) w') [demo_chunk BG_RAID10 4 2]
      (put_image (\<lambda>_. 0) 1048576 [7, 8])"
proof -
  let ?c = "demo_chunk BG_RAID10 4 2"
  let ?w = "\<lparr>wp_single = None, wp_pool = [(1, \<lambda>_. 0), (2, \<lambda>_. 0), (3, \<lambda>_. 0), (4, \<lambda>_. 0)]\<rparr> :: (nat \<Rightarrow> u8) write_pool"
  have inv: "cm_inv [?c]" using demo_wf by (simp add: cm_inv_def)
  have lay: "layout_ok [?c]" using demo_profile demo_apart by (simp add: layout_ok_def)
  have fits: "chunk_fits ?c"
    by (simp add: chunk_fits_def demo_profile span_def data_width_def nstripes_def clen_def slen_def)
      (simp add: demo_chunk_def)
  have z: "pool_disk (\<lambda>d. d) (\<lambda>_ _. 0) ?w = (\<lambda>_ _. 0)"
    by (auto simp: pool_disk_def write_device_def fun_eq_iff ok_or_def split: option.splits if_splits)
  have v: "volume_ok (pool_disk (\<lambda>d. d) (\<lambda>_ _. 0) ?w) [?c] (\<lambda>_. 0)"
    unfolding z using zero_volume [OF inv] fits by simp
  have inc: "in_chunk ?c 1048576 (length [7, 8])" by (simp add: in_chunk_def covers_def demo_chunk_def clen_def)
  have cov: "covers ?c 1048576" by (simp add: covers_def demo_chunk_def clen_def)
  have ch: "chunk_for [?c] 1048576 = Some ?c" using chunk_for_iff [OF inv, of 1048576 ?c] cov by simp
  have dev: "devices_known ?w (map_devices [?c])" by (simp add: devices_known_def)
  have mm: "map_mirror [?c] 1048576 m = Ok \<lparr>mp_devid = of_nat m + 1, mp_physical = 1048576, mp_len = 65536\<rparr>" if "m < 2" for m
    using demo_raid10_maps [OF that] cov by (simp add: map_mirror_Ok [OF inv])
  have run: "mirror_run demo_lib ?w [?c] 1048576 m 2 0 = Ok [(of_nat m + 1, 1048576, 0, 2)]" if "m < 2" for m
    using that
    by (subst mirror_run.simps)
      (auto simp: mm mirror_run.simps [of _ _ _ _ _ 2 "Suc (Suc 0)"] write_device_def writable_span_def checked_add_def demo_lib_def
        less_2_cases_iff)
  have "mirror_spans demo_lib ?w [?c] 1048576 (length [7 :: u8, 8]) = Ok [(1, 1048576, 0, 2), (2, 1048576, 0, 2)]"
    using run [of 0] run [of 1]
    by (simp add: mirror_spans_def mirrors_at_def ch num_mirrors_of [OF demo_raid10] mirrors_of_def numeral_2_eq_2 upt_conv_Cons)
  then obtain w' where w': "write_logical_all_mirrors demo_lib [?c] 1048576 [7, 8] ?w = (Ok (), w')"
    by (simp add: write_logical_all_mirrors_def ch parity_count_def demo_profile write_at_def write_device_def
        demo_lib_def set_device_def)
  then show ?thesis
    using write_read_back [OF demo_lib_wf v lay _ inc dev] by auto
qed

end
