(* ===== verification/Degraded.thy ===== *)
theory Degraded
  imports StripeWrite
begin

text \<open>
  \<open>src/src/fs.rs\<close>, mounting without some of the devices: \<open>refuse_unreadable_without_missing\<close> is the
  test a degraded mount has to pass. The lemmas show that it is enough: on a pool that passes it
  every read of the volume succeeds, from another copy or through a rebuild where the device
  asked for is missing, and returns the volume's bytes.
\<close>

definition survives :: "u64 set \<Rightarrow> chunk \<Rightarrow> chunk_profile \<Rightarrow> bool" where
  "survives present c p =
     (let lost = set (filter (\<lambda>d. d \<notin> present) (map st_devid (ch_stripes c)))
      in case p of
           Single \<Rightarrow> False | Raid0 \<Rightarrow> False | Dup \<Rightarrow> False
         | Raid1 \<Rightarrow> (\<exists>s \<in> set (ch_stripes c). st_devid s \<in> present)
         | Raid1c3 \<Rightarrow> (\<exists>s \<in> set (ch_stripes c). st_devid s \<in> present)
         | Raid1c4 \<Rightarrow> (\<exists>s \<in> set (ch_stripes c). st_devid s \<in> present)
         | Raid10 \<Rightarrow> (\<forall>g \<in> set (chunks_of (unat (max (ch_sub_stripes c) 1)) (ch_stripes c)).
                       \<exists>s \<in> set g. st_devid s \<in> present)
         | Raid5 \<Rightarrow> card lost \<le> 1
         | Raid6 \<Rightarrow> card lost \<le> 2)"

fun refuse_unreadable_without_missing :: "chunk_table \<Rightarrow> u64 set \<Rightarrow> unit result" where
  "refuse_unreadable_without_missing [] present = Ok ()"
| "refuse_unreadable_without_missing (c # cs) present =
     (if filter (\<lambda>d. d \<notin> present) (map st_devid (ch_stripes c)) = [] then
        refuse_unreadable_without_missing cs present
      else
        try_in (chunk_profile_of c) (\<lambda>p.
        if survives present c p then refuse_unreadable_without_missing cs present
        else Err (UnsupportedFeature ''a chunk has stripes on devices which were not given'')))"

lemma refuse_unreadable_Ok:
  assumes "refuse_unreadable_without_missing cs present = Ok ()" and "c \<in> set cs"
    and "chunk_profile_of c = Ok p" and "st \<in> set (ch_stripes c)" and "st_devid st \<notin> present"
  shows "survives present c p"
  using assms
proof (induction cs)
  case (Cons d cs)
  show ?case
  proof (cases "d = c")
    case True
    then have "filter (\<lambda>d. d \<notin> present) (map st_devid (ch_stripes d)) \<noteq> []"
      using Cons.prems(4,5) by (auto simp: filter_empty_conv)
    then show ?thesis using Cons.prems(1,3) True by (auto simp: try_in_eq_Ok split: if_splits)
  next
    case False
    then show ?thesis using Cons by (auto simp: try_in_eq_Ok split: if_splits)
  qed
qed simp

lemma chunks_of_group:
  assumes "0 < n" and "n dvd length xs" and "g < length xs div n"
  shows "take n (drop (g * n) xs) \<in> set (chunks_of n xs)"
  using assms(2,3)
proof (induction g arbitrary: xs)
  case 0
  then have "xs \<noteq> []" by auto
  then show ?case using assms(1) by (subst chunks_of.simps) simp
next
  case (Suc g)
  then have "xs \<noteq> []" by auto
  have n: "n \<le> length xs" using Suc.prems by (metis div_less not_less0 not_le)
  have "take n (drop (g * n) (drop n xs)) \<in> set (chunks_of n (drop n xs))"
  proof (rule Suc.IH)
    show "n dvd length (drop n xs)" using Suc.prems(1) n by (simp add: dvd_diff_nat)
    have "length xs div n = Suc (length (drop n xs) div n)"
      using n assms(1) by (simp add: le_div_geq)
    then show "g < length (drop n xs) div n" using Suc.prems(2) by simp
  qed
  then show ?case
    using \<open>xs \<noteq> []\<close> assms(1) by (subst chunks_of.simps) (simp add: add.commute)
qed

section \<open>The devices that are left answer\<close>

definition present_devices :: "(u64 \<times> block_read) list \<Rightarrow> u64 set" where
  "present_devices devs = fst ` set devs"

text \<open>A device answers the reads inside the stripes the chunk map gives it.\<close>

definition answers :: "chunk_table \<Rightarrow> u64 \<Rightarrow> block_read \<Rightarrow> bool" where
  "answers cs devid d \<longleftrightarrow>
     (\<forall>c q st p n. c \<in> set cs \<longrightarrow> chunk_profile_of c = Ok q \<longrightarrow> st \<in> set (ch_stripes c) \<longrightarrow> st_devid st = devid \<longrightarrow>
        unat (st_offset st) \<le> unat p \<longrightarrow> unat p + n \<le> unat (st_offset st) + span c q \<longrightarrow> is_ok (d p n))"

text \<open>What a chunk promises of itself: a parity chunk has a device for each of its stripes.\<close>

definition usable :: "chunk \<Rightarrow> bool" where
  "usable c \<longleftrightarrow> (\<forall>p. chunk_profile_of c = Ok p \<longrightarrow> p \<in> {Raid5, Raid6} \<longrightarrow>
     nstripes c \<le> 256 \<and> distinct (map st_devid (ch_stripes c)))"

lemma map_total:
  assumes wf: "wf_chunk c" and cov: "covers c l" and p: "chunk_profile_of c = Ok p" "m < mirrors_of p"
    and fits: "parity_fits p c" "chunk_fits c"
  shows "\<exists>r. chunk_map_mirror c l m = Ok r"
proof (rule chunk_map_mirror_fits [OF wf cov p fits(1)])
  have off: "offset_in c l < clen c" using cov by (auto simp: covers_def offset_in_def)
  have "stripe_of c p (offset_in c l) m < nstripes c"
    unfolding stripe_of_def by (rule place_of_bound(1) [OF wf_chunk_stripes [OF wf p(1)] p(2)])
  then have "unat (st_offset (ch_stripes c ! stripe_of c p (offset_in c l) m)) + span c p \<le> 2 ^ 64"
    using fits(2) p(1) wf_chunk_facts(5) [OF wf] by (simp add: chunk_fits_def)
  then show "unat (st_offset (ch_stripes c ! stripe_of c p (offset_in c l) m)) +
      within_stripe c p (offset_in c l) m < 2 ^ 64"
    using within_span [OF wf off, of p m] by linarith
qed

lemma run_answers:
  assumes wf: "wf_chunk c" and c: "c \<in> set cs" and r: "chunk_map_mirror c l m = Ok r"
    and d: "answers cs (mp_devid r) d" and n: "0 < n" "n \<le> unat (mp_len r)"
  shows "is_ok (d (mp_physical r) n)"
proof -
  obtain p where p: "chunk_profile_of c = Ok p" "covers c l" "m < mirrors_of p" "parity_fits p c"
    by (rule chunk_map_mirror_dom [OF wf r])
  note at = chunk_map_mirror_Ok [OF wf p(2,1,3,4) r]
  let ?i = "stripe_of c p (offset_in c l) m" and ?o = "offset_in c l"
  have off: "?o < clen c" using p(2) by (auto simp: covers_def offset_in_def)
  have "?o + (n - 1) < clen c" using n at(3) run_of_bound [OF off, of p] by linarith
  then have "within_stripe c p (?o + (n - 1)) m < span c p" by (rule within_span [OF wf])
  moreover have "within_stripe c p (?o + (n - 1)) m = within_stripe c p ?o m + (n - 1)"
    using n at(3) by (intro within_run(2) [OF _ off]) linarith
  ultimately have "within_stripe c p ?o m + n \<le> span c p" using n(1) by linarith
  moreover have "?i < nstripes c"
    unfolding stripe_of_def by (rule place_of_bound(1) [OF wf_chunk_stripes [OF wf p(1)] p(3)])
  then have "ch_stripes c ! ?i \<in> set (ch_stripes c)" using wf_chunk_facts(5) [OF wf] by simp
  ultimately show ?thesis
    using d c p(1) at(1,2) unfolding answers_def by fastforce
qed

lemma element_answers:
  assumes wf: "wf_chunk c" and c: "c \<in> set cs" and p: "chunk_profile_of c = Ok p"
    and pr: "chunk_parity_read c l = Ok pr" and e: "x \<in> set (elements pr)"
    and d: "answers cs (fst x) d" and n: "0 < n" "n \<le> unat (pr_len pr)"
  shows "is_ok (d (snd x) n)"
proof -
  obtain pl where pl: "p \<in> {Raid5, Raid6}" "placement (nstripes c) (parity_np p) (of_nat (stripe_row c p l)) = Ok pl"
    "length (elements pr) = nstripes c" "length (place_all pl) = nstripes c"
    and at: "\<forall>e < nstripes c. fst (elements pr ! e) = st_devid (ch_stripes c ! (place_all pl ! e)) \<and>
      unat (snd (elements pr ! e)) = unat (st_offset (ch_stripes c ! (place_all pl ! e))) +
        stripe_row c p l * slen c + stripe_within c l"
    and len: "unat (pr_len pr) = min (slen c - stripe_within c l) (clen c - offset_in c l)"
    by (rule parity_elements [OF wf pr p])
  obtain e where e: "e < nstripes c" "x = elements pr ! e"
    using e pl(3) by (metis in_set_conv_nth)
  have np: "parity_np p = 1 \<or> parity_np p = 2" by (simp add: parity_np_def)
  have "place_all pl ! e < nstripes c"
    using placement_Ok(5) [OF pl(2) np] e(1) pl(4) nth_mem by (metis lessThan_iff)
  then have st: "ch_stripes c ! (place_all pl ! e) \<in> set (ch_stripes c)"
    using wf_chunk_facts(5) [OF wf] by simp
  have "stripe_within c l + (n - 1) < slen c" using n len by linarith
  from stripe_place_bound [OF parity_covers [OF wf pr] this, of p]
  have "stripe_row c p l * slen c + stripe_within c l + n \<le> span c p" using n(1) by linarith
  then show ?thesis
    using d c p st at [rule_format, OF e(1)] unfolding answers_def e(2) by fastforce
qed

section \<open>Some attempt reads what is missing\<close>

lemma read_rebuilt_reads:
  assumes par: "parity_ok disk cs" and c: "c \<in> set cs" and wf: "wf_chunk c" and fits: "chunk_fits c"
    and plan: "chunk_parity_read c l = Ok plan" and n: "0 < n" "n \<le> unat (pr_len plan)"
    and m: "for_attempt a (pr_want plan) (length (pr_data plan)) (pr_q plan \<noteq> None) = Some way"
    and data: "\<And>i. i < length (pr_data plan) \<Longrightarrow> \<not> lost way (pr_want plan) i \<Longrightarrow>
      rd (fst (pr_data plan ! i)) (snd (pr_data plan ! i)) n = Ok (run_at disk n (pr_data plan ! i))"
    and p: "way \<noteq> RebuildQ \<Longrightarrow> rd (fst (pr_p plan)) (snd (pr_p plan)) n = Ok (run_at disk n (pr_p plan))"
    and q: "\<And>y. way \<noteq> RebuildP \<Longrightarrow> pr_q plan = Some y \<Longrightarrow> rd (fst y) (snd y) n = Ok (run_at disk n y)"
  shows "read_rebuilt c a l n rd = Ok (run_at disk n (pr_data plan ! pr_want plan))"
proof -
  let ?xs = "pr_data plan" and ?want = "pr_want plan"
  let ?data = "erase (lost way ?want) 0 (map (run_at disk n) ?xs)"
  have lost: "(i = ?want \<or> way = RebuildPQ i) = lost way ?want i" for i
    by (auto simp: lost_def split: rebuild_method.split)
  have d: "collect_results (\<lambda>x. if lost way ?want (fst x) then Ok None
      else try_in (rd (fst (snd x)) (snd (snd x)) n) (\<lambda>b. Ok (Some b))) (enumerate 0 ?xs) = Ok ?data"
    unfolding collect_results_eq_Ok list_all2_conv_all_nth
    using data by (auto simp: erase_def nth_enumerate_eq)
  have rb: "rebuild way ?want ?data (if way = RebuildQ then None else Some (run_at disk n (pr_p plan)))
      (if way = RebuildP then None else map_option (run_at disk n) (pr_q plan)) = Ok (run_at disk n (?xs ! ?want))"
    using rebuild_of_runs [OF par c wf fits plan n(2) m]
      rebuild_ignores(1) [of ?want ?data "Some (run_at disk n (pr_p plan))" None "map_option (run_at disk n) (pr_q plan)"]
      rebuild_ignores(2) [of ?want ?data None "map_option (run_at disk n) (pr_q plan)" "Some (run_at disk n (pr_p plan))"]
    by (cases way) auto
  have mn: "min (unat (pr_len plan)) n = n" using n(2) by simp
  have n0: "(n = 0) = False" using n(1) by simp
  show ?thesis
    unfolding read_rebuilt_def plan try_in_Ok Let_def m ok_or_simps mn n0 if_False case_prod_unfold lost d
    using p q rb by (cases way; cases "pr_q plan") simp_all
qed

lemma three_lost:
  assumes "distinct xs" and "i < length xs" "j < length xs" "k < length xs" and "i \<noteq> j" "i \<noteq> k" "j \<noteq> k"
    and "{xs ! i, xs ! j, xs ! k} \<subseteq> L" and "finite L"
  shows "3 \<le> card L"
proof -
  have "card {xs ! i, xs ! j, xs ! k} = 3" using assms(1-7) by (simp add: nth_eq_iff_index_eq)
  then show ?thesis using card_mono [OF assms(9,8)] by simp
qed

lemma attempt_chosen:
  assumes wf: "wf_chunk c" and us: "usable c" and p: "chunk_profile_of c = Ok p" "p \<in> {Raid5, Raid6}"
    and pr: "chunk_parity_read c l = Ok pr" and s: "survives present c p"
    and gone: "fst (pr_data pr ! pr_want pr) \<notin> present"
  shows "\<exists>a way. 1 \<le> a \<and> a < read_attempts c \<and>
    for_attempt a (pr_want pr) (length (pr_data pr)) (pr_q pr \<noteq> None) = Some way \<and>
    (\<forall>i < length (pr_data pr). \<not> lost way (pr_want pr) i \<longrightarrow> fst (pr_data pr ! i) \<in> present) \<and>
    (way \<noteq> RebuildQ \<longrightarrow> fst (pr_p pr) \<in> present) \<and>
    (way \<noteq> RebuildP \<longrightarrow> (\<forall>y. pr_q pr = Some y \<longrightarrow> fst y \<in> present))"
proof -
  let ?w = "pr_want pr" and ?k = "length (pr_data pr)" and ?D = "map fst (elements pr)"
  define L where "L = set (filter (\<lambda>d. d \<notin> present) (map st_devid (ch_stripes c)))"
  have el: "?k = data_width p (nstripes c)" "pr_q pr = None \<longleftrightarrow> p = Raid5" "length (elements pr) = nstripes c"
    by (rule parity_elements [OF wf pr p(1)], simp)+
  have t: "?w < ?k" "mset ?D = mset (map st_devid (ch_stripes c))"
    using parity_read_target [OF wf pr] by (simp_all add: elements_def)
  have dis: "distinct ?D"
    using us p t(2) unfolding usable_def by (metis mset_eq_imp_distinct_iff)
  have DL: "?D ! e \<in> L" if "e < length ?D" "?D ! e \<notin> present" for e
  proof -
    have "?D ! e \<in> set (map st_devid (ch_stripes c))" using that(1) t(2) mset_eq_setD nth_mem by metis
    then show ?thesis using that(2) by (auto simp: L_def)
  qed
  have at: "?D ! i = fst (pr_data pr ! i)" if "i < ?k" for i
    using that by (simp add: elements_def nth_append)
  have atp: "?D ! ?k = fst (pr_p pr)" "?k < length ?D" by (simp_all add: elements_def nth_append)
  have atq: "?D ! Suc ?k = fst y" "Suc ?k < length ?D" if "pr_q pr = Some y" for y
    using that by (simp_all add: elements_def nth_append optlist_def)
  have fin: "finite L" by (simp add: L_def)
  have wk: "?w < length ?D" using t(1) atp(2) by simp
  have w: "?D ! ?w \<in> L" using DL [OF wk] gone at [OF t(1)] by simp
  have att: "read_attempts c = (if p = Raid6 then 3 + (?k - 1) else 2)"
    using p(2) el(1) unat_u16 [of "ch_num_stripes c"]
    by (auto simp: read_attempts_def parity_count_def p(1) attempts_def data_width_def nstripes_def)
  show ?thesis
  proof (cases "p = Raid5")
    case True
    have L1: "card L \<le> 1" using s by (simp add: survives_def True L_def)
    have one: "?D ! e \<in> present" if "e < length ?D" "e \<noteq> ?w" for e
    proof (rule ccontr)
      assume "?D ! e \<notin> present"
      then have "?D ! e = ?D ! ?w"
        using DL [OF that(1)] w L1 card_le_Suc0_iff_eq [OF fin] by auto
      then show False using nth_eq_iff_index_eq [OF dis that(1) wk] that(2) by blast
    qed
    have "fst (pr_data pr ! i) \<in> present" if "i < ?k" "i \<noteq> ?w" for i
      using one [of i] at [OF that(1)] that atp(2) by simp
    moreover have "fst (pr_p pr) \<in> present" using one [of ?k] atp t(1) by simp
    ultimately show ?thesis
      using True el(2) att
      by (intro exI [of _ 1] exI [of _ RebuildP]) (auto simp: for_attempt_def lost_def)
  next
    case False
    then have p6: "p = Raid6" using p(2) by simp
    then obtain y where y: "pr_q pr = Some y" using el(2) by auto
    have L2: "card L \<le> 2" using s by (simp add: survives_def p6 L_def)
    have two: "?D ! f \<in> present" if e: "e < length ?D" "e \<noteq> ?w" "?D ! e \<notin> present" and f: "f < length ?D" "f \<noteq> ?w" "f \<noteq> e" for e f
    proof (rule ccontr)
      assume nf: "?D ! f \<notin> present"
      have "3 \<le> card L"
        by (rule three_lost [OF dis wk e(1) f(1) _ _ _ _ fin]) (use e f w DL [OF e(1,3)] DL [OF f(1) nf] in auto)
      then show False using L2 by simp
    qed
    show ?thesis
    proof (cases "\<forall>i < ?k. i \<noteq> ?w \<longrightarrow> ?D ! i \<in> present")
      case others: True
      have others': "fst (pr_data pr ! i) \<in> present" if "i < ?k" "i \<noteq> ?w" for i
        using others that unfolding at [OF that(1), symmetric] by blast
      show ?thesis
      proof (cases "fst (pr_p pr) \<in> present")
        case True
        then show ?thesis
          using others' p6 att by (intro exI [of _ 1] exI [of _ RebuildP]) (auto simp: for_attempt_def lost_def)
      next
        case False
        have "fst y \<in> present"
          using two [of ?k "Suc ?k"] False atp atq [OF y] t(1) by simp
        then show ?thesis
          using others' p6 att y
          by (intro exI [of _ 2] exI [of _ RebuildQ]) (auto simp: for_attempt_def lost_def)
      qed
    next
      case False
      then obtain i where i: "i < ?k" "i \<noteq> ?w" "?D ! i \<notin> present" by blast
      let ?os = "filter (\<lambda>i. i \<noteq> ?w) [0..<?k]"
      have "i \<in> set ?os" using i by simp
      then obtain n where n: "n < length ?os" "?os ! n = i" by (metis in_set_conv_nth)
      have il: "i < length ?D" using i(1) atp(2) by simp
      note rest = two [OF il i(2,3)]
      have "for_attempt (3 + n) ?w ?k True = Some (RebuildPQ i)"
        using n by (simp add: for_attempt_def Let_def)
      moreover have "3 + n < read_attempts c"
        using n(1) others_length [OF t(1)] att p6 by simp
      moreover have "fst (pr_p pr) \<in> present" using rest [of ?k] atp t(1) i(1) by simp
      moreover have "fst y \<in> present" using rest [of "Suc ?k"] atq [OF y] t(1) i(1) by simp
      moreover have "fst (pr_data pr ! j) \<in> present" if "j < ?k" "j \<noteq> ?w" "j \<noteq> i" for j
        using rest [of j] at [OF that(1)] that atp(2) by simp
      ultimately show ?thesis
        using y by (intro exI [of _ "3 + n"] exI [of _ "RebuildPQ i"]) (auto simp: lost_def)
    qed
  qed
qed

section \<open>A degraded pool that is accepted can be read\<close>

definition pool_answers :: "chunk_table \<Rightarrow> (u64 \<times> block_read) list \<Rightarrow> bool" where
  "pool_answers cs devs \<longleftrightarrow> (\<forall>devid d. map_of devs devid = Some d \<longrightarrow> answers cs devid d)"

lemma present_device: "devid \<in> present_devices devs \<longleftrightarrow> (\<exists>d. map_of devs devid = Some d)"
  by (simp add: present_devices_def flip: dom_map_of_conv_image_fst) (auto simp: dom_def)

text \<open>One run of a mapping on an attempt whose device is there, and one rebuilt run.\<close>

lemma attempt_direct:
  assumes "devs \<noteq> []" and "0 < n" and "rebuilt_from_parity cs a l = None" and "map_mirror cs l a = Ok r"
    and "n \<le> unat (mp_len r)" and "map_of devs (mp_devid r) = Some d" and "d (mp_physical r) n = Ok b"
  shows "read_logical_pool_mirror dev devs cs a l n = Ok b"
  using assms by (simp add: read_logical_pool_mirror.simps [of dev devs cs a l n] Let_def
      read_logical_pool_mirror.simps [of dev devs cs a "l + of_nat n" 0])

lemma attempt_rebuilt:
  assumes "devs \<noteq> []" and "0 < n" and "rebuilt_from_parity cs a l = Some c"
    and "read_rebuilt c a l n (\<lambda>devid p k. try_in (device_for devs devid) (\<lambda>d. d p k)) = Ok b" and "length b = n"
  shows "read_logical_pool_mirror dev devs cs a l n = Ok b"
  using assms by (simp add: read_logical_pool_mirror.simps [of dev devs cs a l n]
      read_logical_pool_mirror.simps [of dev devs cs a "l + of_nat n" 0])

lemma first_ok_exists: "x \<in> set xs \<Longrightarrow> f x = Ok y \<Longrightarrow> \<exists>z. first_ok f xs = Some z"
  using first_ok_None [of f xs] by (cases "first_ok f xs") auto

lemma mirror_present:
  assumes wf: "wf_chunk c" and p: "chunk_profile_of c = Ok p" "p \<notin> {Raid5, Raid6}" and s: "survives present c p"
  shows "\<exists>m < mirrors_of p. st_devid (ch_stripes c ! stripe_of c p off m) \<in> present"
proof -
  have len: "length (ch_stripes c) = nstripes c" by (rule wf_chunk_facts(5) [OF wf])
  note sm = wf_chunk_stripes [OF wf p(1)]
  show ?thesis
  proof (cases "p = Raid10")
    case True
    let ?g = "off div slen c mod (nstripes c div 2)"
    have n: "even (nstripes c)" "2 \<le> nstripes c" "ch_sub_stripes c = 2" using sm True by (auto simp: stripes_match_def)
    have "take 2 (drop (?g * 2) (ch_stripes c)) \<in> set (chunks_of 2 (ch_stripes c))"
      by (rule chunks_of_group) (use n len in auto)
    then obtain x where x: "x \<in> set (take 2 (drop (?g * 2) (ch_stripes c)))" "st_devid x \<in> present"
      using s n(3) by (auto simp: survives_def True max_def word_le_nat_alt)
    then obtain m where "m < 2" "x = ch_stripes c ! (?g * 2 + m)"
      by (auto simp: in_set_conv_nth)
    then show ?thesis
      using x(2) by (intro exI [of _ m]) (simp add: True mirrors_of_def stripe_of_def place_of_def)
  next
    case False
    have "\<exists>x \<in> set (ch_stripes c). st_devid x \<in> present" "nstripes c = mirrors_of p" "\<And>m. stripe_of c p off m = m"
      using False p(2) s sm
      by (cases p; simp add: survives_def mirrors_of_def stripes_match_def stripe_of_def place_of_def)+
    then show ?thesis using len by (metis in_set_conv_nth)
  qed
qed

lemma missing_read:
  assumes v: "volume_ok disk cs img" and pool: "pool_reads disk dev devs" "pool_answers cs devs" "devs \<noteq> []"
    and us: "\<forall>c \<in> set cs. usable c" and ref: "refuse_unreadable_without_missing cs (present_devices devs) = Ok ()"
    and c: "c \<in> set cs" "covers c l" and r: "chunk_map_mirror c l 0 = Ok r" and n: "0 < n" "n \<le> unat (mp_len r)"
    and miss: "map_of devs (mp_devid r) = None"
  shows "\<exists>a b. 1 \<le> a \<and> a < read_attempts c \<and> read_logical_pool_mirror dev devs cs a l n = Ok b"
proof -
  let ?P = "present_devices devs"
  have inv: "cm_inv cs" and par: "parity_ok disk cs" and fits: "chunk_fits c"
    using v c(1) by (auto simp: volume_ok_def)
  have wf: "wf_chunk c" using inv c(1) by (simp add: cm_inv_def)
  obtain p where p: "chunk_profile_of c = Ok p" "parity_fits p c"
    by (rule chunk_map_mirror_dom [OF wf r])
  have ch: "chunk_for cs l = Some c" using c chunk_for_iff [OF inv] by blast
  note at = chunk_map_mirror_Ok [OF wf c(2) p(1) _ p(2)]
  have m0: "0 < mirrors_of p" by (cases p) (simp_all add: mirrors_of_def)
  have gone: "mp_devid r \<notin> ?P" using miss present_device by simp
  let ?i = "stripe_of c p (offset_in c l)"
  have ib: "?i m < nstripes c" if "m < mirrors_of p" for m
    unfolding stripe_of_def by (rule place_of_bound(1) [OF wf_chunk_stripes [OF wf p(1)] that])
  have len: "length (ch_stripes c) = nstripes c" by (rule wf_chunk_facts(5) [OF wf])
  have st0: "ch_stripes c ! ?i 0 \<in> set (ch_stripes c)" using ib [OF m0] len by simp
  have surv: "survives ?P c p"
    by (rule refuse_unreadable_Ok [OF ref c(1) p(1) st0]) (use at(1) [OF m0 r] gone in simp)
  show ?thesis
  proof (cases "p \<in> {Raid5, Raid6}")
    case True
    obtain pr where pr: "chunk_parity_read c l = Ok pr"
      using parity_read_total [OF wf p(1) True fits p(2) c(2)] by blast
    have t: "pr_want pr < length (pr_data pr)" "mp_devid r = fst (pr_data pr ! pr_want pr)" "mp_len r = pr_len pr"
      using parity_read_target [OF wf pr] r by auto
    obtain a m where a: "1 \<le> a" "a < read_attempts c"
      and m: "for_attempt a (pr_want pr) (length (pr_data pr)) (pr_q pr \<noteq> None) = Some m"
      and there: "\<forall>i < length (pr_data pr). \<not> lost m (pr_want pr) i \<longrightarrow> fst (pr_data pr ! i) \<in> ?P"
        "m \<noteq> RebuildQ \<longrightarrow> fst (pr_p pr) \<in> ?P" "m \<noteq> RebuildP \<longrightarrow> (\<forall>y. pr_q pr = Some y \<longrightarrow> fst y \<in> ?P)"
      using attempt_chosen [OF wf _ p(1) True pr surv] us c(1) gone t(2) by metis
    define rd where "rd = (\<lambda>devid p k. try_in (device_for devs devid) (\<lambda>d :: block_read. d p k))"
    have rd: "rd (fst x) (snd x) n = Ok (run_at disk n x)" if x: "x \<in> set (elements pr)" "fst x \<in> ?P" for x
    proof -
      obtain d where d: "map_of devs (fst x) = Some d" using x(2) present_device by blast
      have "is_ok (d (snd x) n)"
        using element_answers [OF wf c(1) p(1) pr x(1) _ n(1)] d pool(2) n(2) t(3) by (simp add: pool_answers_def)
      moreover have "reads_as (disk (fst x)) d" using pool(1,3) d by (simp add: pool_reads_def)
      ultimately show ?thesis
        by (auto simp: rd_def device_for_def d is_ok_iff reads_as_def run_at_def)
    qed
    have "read_rebuilt c a l n rd = Ok (run_at disk n (pr_data pr ! pr_want pr))"
    proof (rule read_rebuilt_reads [OF par c(1) wf fits pr n(1) _ m])
      show "n \<le> unat (pr_len pr)" using n(2) t(3) by simp
    qed (use there rd in \<open>simp_all add: elements_def optlist_def\<close>)
    moreover have "rebuilt_from_parity cs a l = Some c"
      using a(1) True p(1) by (auto simp: rebuilt_from_parity_def ch parity_count_def)
    ultimately have "read_logical_pool_mirror dev devs cs a l n = Ok (run_at disk n (pr_data pr ! pr_want pr))"
      by (intro attempt_rebuilt [OF pool(3) n(1)]) (simp_all add: rd_def)
    then show ?thesis using a by blast
  next
    case False
    have par: "parity_count c = None" using False p(1) by (cases p) (auto simp: parity_count_def)
    have "\<exists>m < mirrors_of p. st_devid (ch_stripes c ! ?i m) \<in> ?P"
      by (rule mirror_present [OF wf p(1) _ surv]) (use False in simp)
    then obtain m where m: "m < mirrors_of p" "st_devid (ch_stripes c ! ?i m) \<in> ?P" by blast
    obtain q where q: "chunk_map_mirror c l m = Ok q"
      using map_total [OF wf c(2) p(1) m(1) p(2) fits] by blast
    note aq = at [OF m(1) q]
    obtain d where d: "map_of devs (mp_devid q) = Some d" using m(2) aq(1) present_device by auto
    have nq: "n \<le> unat (mp_len q)" using n(2) at(3) [OF m0 r] aq(3) by simp
    have m1: "m \<noteq> 0" using m(2) gone at(1) [OF m0 r] by (cases m) auto
    have "is_ok (d (mp_physical q) n)"
      using run_answers [OF wf c(1) q _ n(1) nq] d pool(2) by (simp add: pool_answers_def)
    then obtain b where b: "d (mp_physical q) n = Ok b" by (auto simp: is_ok_iff)
    have "rebuilt_from_parity cs m l = None" by (simp add: rebuilt_from_parity_def ch par)
    moreover have "map_mirror cs l m = Ok q" using q c map_mirror_Ok [OF inv] by blast
    ultimately have "read_logical_pool_mirror dev devs cs m l n = Ok b"
      using attempt_direct [OF pool(3) n(1) _ _ nq d b] by blast
    moreover have "m < read_attempts c"
      using m(1) num_mirrors_of [OF wf p(1)] by (simp add: read_attempts_def par)
    ultimately show ?thesis using m1 by (intro exI [of _ m] exI [of _ b]) simp
  qed
qed

lemma mapping_run_pos: "wf_chunk c \<Longrightarrow> chunk_map_mirror c l m = Ok r \<Longrightarrow> 0 < unat (mp_len r)"
proof -
  assume wf: "wf_chunk c" and r: "chunk_map_mirror c l m = Ok r"
  obtain p where p: "chunk_profile_of c = Ok p" "covers c l" "m < mirrors_of p" "parity_fits p c"
    by (rule chunk_map_mirror_dom [OF wf r])
  show "0 < unat (mp_len r)"
    using chunk_map_mirror_Ok(3) [OF wf p(2,1,3,4) r] wf_chunk_facts(2) [OF wf] p(2)
    by (auto simp: run_of_def covers_def offset_in_def)
qed

text \<open>A range of which every byte is some chunk's.\<close>

definition mapped :: "chunk_table \<Rightarrow> u64 \<Rightarrow> nat \<Rightarrow> bool" where
  "mapped cs l n \<longleftrightarrow> unat l + n < 2 ^ 64 \<and> (\<forall>i < n. \<exists>c \<in> set cs. covers c (l + of_nat i))"

lemma mapped_part: "mapped cs l n \<Longrightarrow> i + k \<le> n \<Longrightarrow> mapped cs (l + of_nat i) k"
proof -
  assume m: "mapped cs l n" and k: "i + k \<le> n"
  have "unat l + i < 18446744073709551616" using m k by (simp add: mapped_def)
  then have "unat (l + of_nat i) = unat l + i" by (simp add: unat_add_small unat_of_nat_u64)
  moreover have "\<exists>c \<in> set cs. covers c (l + of_nat i + of_nat j)" if "j < k" for j
    using m k that by (auto simp: mapped_def add.assoc simp flip: of_nat_add)
  ultimately show ?thesis using m k by (simp add: mapped_def)
qed

lemma mapped_tail: "mapped cs l n \<Longrightarrow> k \<le> n \<Longrightarrow> mapped cs (l + of_nat k) (n - k)"
  using mapped_part [of cs l n k "n - k"] by simp

lemma in_chunk_mapped:
  assumes "cm_inv cs" and "c \<in> set cs" and "in_chunk c l n"
  shows "mapped cs l n"
proof -
  have wf: "wf_chunk c" using assms(1,2) by (simp add: cm_inv_def)
  have "covers c (l + of_nat i)" if "i < n" for i by (rule in_chunk_at(2) [OF wf assms(3) that])
  moreover have "unat l + n < 2 ^ 64"
    using assms(3) wf_chunk_facts(3) [OF wf] by (simp add: in_chunk_def covers_def)
  ultimately show ?thesis using assms(2) by (auto simp: mapped_def)
qed

lemma degraded_read_returns:
  assumes v: "volume_ok disk cs img" and pool: "pool_reads disk dev devs" "pool_answers cs devs" "devs \<noteq> []"
    and us: "\<forall>c \<in> set cs. usable c" and ref: "refuse_unreadable_without_missing cs (present_devices devs) = Ok ()"
  shows "mapped cs l n \<Longrightarrow> \<exists>b. read_logical_pool_mirror dev devs cs 0 l n = Ok b"
proof (induction n arbitrary: l rule: less_induct)
  case (less n)
  have inv: "cm_inv cs" using v by (auto simp: volume_ok_def)
  show ?case
  proof (cases "n = 0")
    case True
    then show ?thesis using pool(3) by (simp add: read_logical_pool_mirror.simps [of dev devs cs 0 l 0])
  next
    case False
    obtain c where c: "c \<in> set cs" and cov: "covers c l"
      using less.prems False by (force simp: mapped_def)
    have fits: "chunk_fits c" using v c by (auto simp: volume_ok_def)
    have wf: "wf_chunk c" using inv c by (simp add: cm_inv_def)
    have ch: "chunk_for cs l = Some c" using c cov chunk_for_iff [OF inv] by blast
    obtain p where p: "chunk_profile_of c = Ok p" using wf_chunk_profile [OF wf] by blast
    have pf: "parity_fits p c" using us c p by (auto simp: usable_def parity_fits_def)
    have "0 < mirrors_of p" by (cases p) (simp_all add: mirrors_of_def)
    then obtain r where r: "chunk_map_mirror c l 0 = Ok r" using map_total [OF wf cov p _ pf fits] by blast
    define k where "k = min (unat (mp_len r)) n"
    have k: "0 < k" "k \<le> unat (mp_len r)" "k \<le> n"
      using mapping_run_pos [OF wf r] False by (auto simp: k_def)
    have mm: "map_mirror cs l 0 = Ok r" using r c cov map_mirror_Ok [OF inv] by blast
    have rb: "rebuilt_from_parity cs 0 l = None" by (simp add: rebuilt_from_parity_def)
    have "mapped cs (l + of_nat k) (n - k)"
      by (rule mapped_tail [OF less.prems k(3)])
    then obtain rest where rest: "read_logical_pool_mirror dev devs cs 0 (l + of_nat k) (n - k) = Ok rest"
      using less.IH [of "n - k" "l + of_nat k"] k False by auto
    show ?thesis
    proof (cases "map_of devs (mp_devid r)")
      case (Some d)
      have "is_ok (d (mp_physical r) k)"
        using run_answers [OF wf c r _ k(1,2)] Some pool(2) by (simp add: pool_answers_def)
      then obtain b where "d (mp_physical r) k = Ok b" by (auto simp: is_ok_iff)
      then show ?thesis
        using pool(3) False rb mm Some k(1) rest
        by (simp add: read_logical_pool_mirror.simps [of dev devs cs 0 l n] Let_def flip: k_def)
    next
      case None
      obtain a b where a: "1 \<le> a" "a < read_attempts c" "read_logical_pool_mirror dev devs cs a l k = Ok b"
        using missing_read [OF v pool us ref c cov r k(1,2) None] by blast
      then obtain out where out: "first_ok (\<lambda>attempt. read_logical_pool_mirror dev devs cs attempt l k) [1..<read_attempts c] = Some out"
        using first_ok_exists [of a "[1..<read_attempts c]" "\<lambda>attempt. read_logical_pool_mirror dev devs cs attempt l k" b] by auto
      have "read_attempts_at cs l = Ok (read_attempts c)" by (simp add: read_attempts_at_def ch)
      then show ?thesis
        using pool(3) False rb mm None k(1) rest out
        by (simp add: read_logical_pool_mirror.simps [of dev devs cs 0 l n] Let_def flip: k_def)
    qed
  qed
qed

text \<open>
  C2. A degraded mount that is accepted can read everything. When the devices that were given pass
  the test of a degraded mount and answer reads of their own stripes, a read of any range the
  chunks cover succeeds and returns the volume's bytes: a missing device is made up for by another
  copy, by P, by Q or by both.
\<close>

theorem degraded_mount_reads:
  assumes "volume_ok disk cs img" and "pool_reads disk dev devs" and "pool_answers cs devs" and "devs \<noteq> []"
    and "\<forall>c \<in> set cs. usable c" and "refuse_unreadable_without_missing cs (present_devices devs) = Ok ()"
    and "mapped cs l n"
  shows "read_logical_pool dev devs cs l n = Ok (bytes_of img l n)"
proof -
  obtain b where b: "read_logical_pool_mirror dev devs cs 0 l n = Ok b"
    using degraded_read_returns [OF assms] by blast
  then show ?thesis
    using read_pool_image [OF assms(1,2) b] by (simp add: read_logical_pool_def)
qed

lemma zero_dev_answers: "answers [demo_chunk BG_RAID5 3 0] devid zero_dev"
proof -
  have sp: "span (demo_chunk BG_RAID5 3 0) q \<le> 262144 + 65536" for q
  proof -
    have "3 div w \<le> (3 :: nat)" for w by (rule div_le_dividend)
    then have "(3 div w + 1) * 65536 \<le> (262144 + 65536 :: nat)" for w by (simp add: le_trans [of _ 3])
    then show ?thesis by (simp add: span_def clen_def slen_def demo_chunk_def)
  qed
  have off: "st \<in> set (ch_stripes (demo_chunk BG_RAID5 3 0)) \<Longrightarrow> unat (st_offset st) = 1048576" for st
    by (auto simp: demo_chunk_def)
  show ?thesis
    unfolding answers_def
  proof (intro allI impI)
    fix c q st and p :: u64 and n
    assume a: "c \<in> set [demo_chunk BG_RAID5 3 0]" "st \<in> set (ch_stripes c)" "unat p + n \<le> unat (st_offset st) + span c q"
    have "span c q \<le> 262144 + 65536" "unat (st_offset st) = 1048576" using a(1,2) sp off by simp_all
    then have "unat p + n \<le> 2 ^ 32" using a(3) by simp
    then show "is_ok (zero_dev p n)" by (simp add: zero_dev_def)
  qed
qed

theorem degraded_mount_reads_witness:
  "read_logical_pool (\<lambda>_ _. Err ReadOnly) [(1, zero_dev), (2, zero_dev)] [demo_chunk BG_RAID5 3 0] 1100000 100000 =
     Ok (bytes_of (\<lambda>_. 0) 1100000 100000)"
proof -
  let ?c = "demo_chunk BG_RAID5 3 0" and ?devs = "[(1, zero_dev), (2, zero_dev)] :: (u64 \<times> block_read) list"
  have inv: "cm_inv [?c]" using demo_wf by (simp add: cm_inv_def)
  have v: "volume_ok (\<lambda>_ _. 0) [?c] (\<lambda>_. 0)"
    using zero_volume [OF inv] demo_raid5_fits by simp
  have pool: "pool_reads (\<lambda>_ _. 0) (\<lambda>_ _. Err ReadOnly) ?devs" "pool_answers [?c] ?devs"
    using zero_dev_reads zero_dev_answers by (auto simp: pool_reads_def pool_answers_def split: if_splits)
  have us: "\<forall>c \<in> set [?c]. usable c"
    by (simp add: usable_def nstripes_def demo_chunk_def upt_conv_Cons)
  have ref: "refuse_unreadable_without_missing [?c] (present_devices ?devs) = Ok ()"
  proof -
    have "filter (\<lambda>d. d \<notin> {1, 2}) (map st_devid (ch_stripes ?c)) = [3]"
      by (simp add: demo_chunk_def upt_conv_Cons)
    then show ?thesis by (simp add: present_devices_def demo_profile survives_def)
  qed
  show ?thesis
    by (rule degraded_mount_reads [OF v pool _ us ref in_chunk_mapped [OF inv, of ?c]])
      (simp_all add: in_chunk_def covers_def demo_chunk_def clen_def)
qed

end
