(* ===== verification/Filesystem.thy ===== *)
theory Filesystem
  imports Degraded TreeWrite
begin

text \<open>
  \<open>src/src/fs.rs\<close>, a mounted filesystem: the readers of its trees, the items of the filesystem tree
  and what directories, attributes and paths are made of. Every operation reads blocks through
  the node cache, so it is a function of the cache's state; \<open>yields\<close> says that an operation returns
  a given result whatever the cache holds, as long as it is coherent, and keeps it coherent.
\<close>

section \<open>The filesystem and its trees\<close>

text \<open>
  The fields of \<open>Filesystem\<close> that reading and placing use. A device of the write pool stands here
  for whether it can be written; the node cache is passed beside the record.
\<close>

record filesystem =
  fs_hash :: hash_lib
  fs_device :: block_read
  fs_devices :: "(u64 \<times> block_read) list"
  fs_write_pool :: "(u64 \<times> bool) list"
  fs_seeds :: "bytes list"
  fs_sb :: superblock
  fs_map :: chunk_table
  fs_tree_root :: u64
  fs_csum_root :: "u64 option"
  fs_emptying :: "u64 option"
  fs_leaving :: "u64 option"

abbreviation (input) ROOT_ITEM_KEY :: u8 where "ROOT_ITEM_KEY \<equiv> 132"
abbreviation (input) ROOT_ITEM_BYTENR :: nat where "ROOT_ITEM_BYTENR \<equiv> 176"

definition fs_read :: "filesystem \<Rightarrow> u64 \<Rightarrow> nat \<Rightarrow> bytes result" where
  "fs_read fs = read_logical_pool (fs_device fs) (fs_devices fs) (fs_map fs)"

definition fs_read_mirror :: "filesystem \<Rightarrow> u64 \<Rightarrow> nat \<Rightarrow> nat \<Rightarrow> bytes result" where
  "fs_read_mirror fs logical mirror = read_logical_pool_mirror (fs_device fs) (fs_devices fs) (fs_map fs) mirror logical"

definition pool_tree :: "filesystem \<Rightarrow> 'c tree" where
  "pool_tree fs =
     with_seed_fsids (fs_seeds fs)
       (with_redundancy (read_attempts_at (fs_map fs)) (fs_read_mirror fs)
         (tree_new (fs_hash fs) (geometry_from_superblock (fs_sb fs)) (fs_read fs)))"

definition fs_tree :: "filesystem \<Rightarrow> node_cache tree" where
  "fs_tree fs =
     with_seed_fsids (fs_seeds fs)
       (with_cache node_cache_get node_cache_put
         (with_redundancy (read_attempts_at (fs_map fs)) (fs_read_mirror fs)
           (tree_new (fs_hash fs) (geometry_from_superblock (fs_sb fs)) (fs_read fs))))"

lemma fs_tree_cached: "fs_tree fs = cached_tree (pool_tree fs)"
  by (simp add: fs_tree_def pool_tree_def with_seed_fsids_def with_cache_def)

text \<open>A walk that keeps no cache has nothing to carry but the visitor's state.\<close>

definition scan :: "unit tree \<Rightarrow> u64 \<Rightarrow> 'v visitor \<Rightarrow> 'v \<Rightarrow> 'v result" where
  "scan T root visit v = (let (r, _, v) = for_each T root visit () v in try_in r (\<lambda>_. Ok v))"

definition root_item_visit :: "u64 \<Rightarrow> u64 option visitor" where
  "root_item_visit oid key data root =
     (if objectid key = oid \<and> key_type key = ROOT_ITEM_KEY \<and> ROOT_ITEM_BYTENR + 8 \<le> length data
      then (Ok False, Some (le64 data ROOT_ITEM_BYTENR))
      else (Ok True, root))"

definition root_item_target :: "unit tree \<Rightarrow> u64 \<Rightarrow> u64 \<Rightarrow> u64 option result" where
  "root_item_target T root_tree oid = scan T root_tree (root_item_visit oid) None"

definition required_root_item_target :: "unit tree \<Rightarrow> u64 \<Rightarrow> u64 \<Rightarrow> u64 result" where
  "required_root_item_target T root_tree oid =
     try_in (root_item_target T root_tree oid)
       (ok_or (BadSuperblock ''the root tree holds no ROOT_ITEM for the tree''))"

definition fs_and_csum_tree_roots :: "unit tree \<Rightarrow> u64 \<Rightarrow> (u64 \<times> u64 option) result" where
  "fs_and_csum_tree_roots T root_tree =
     try_in (required_root_item_target T root_tree 5) (\<lambda>fs.
     try_in (root_item_target T root_tree 7) (\<lambda>csum. Ok (fs, csum)))"

definition tree_root :: "filesystem \<Rightarrow> u64 \<Rightarrow> u64 result" where
  "tree_root fs oid = required_root_item_target (pool_tree fs) (sb_root (fs_sb fs)) oid"

definition root_tree_items :: "filesystem \<Rightarrow> (disk_key \<times> bytes) list result" where
  "root_tree_items fs = scan (pool_tree fs) (sb_root (fs_sb fs)) (\<lambda>key data out. (Ok True, out @ [(key, data)])) []"

definition read_tree_block :: "filesystem \<Rightarrow> u64 \<Rightarrow> tree_block result" where
  "read_tree_block fs logical = fst (read_block (pool_tree fs :: unit tree) logical ())"

section \<open>Operations on the filesystem tree\<close>

type_synonym 'a fs_op = "node_cache \<Rightarrow> 'a result \<times> node_cache"

definition fs_return :: "'a result \<Rightarrow> 'a fs_op" where
  "fs_return r c = (r, c)"

definition fs_bind :: "'a fs_op \<Rightarrow> ('a \<Rightarrow> 'b fs_op) \<Rightarrow> 'b fs_op" where
  "fs_bind m f c = (case m c of (Inl e, c) \<Rightarrow> (Err e, c) | (Inr x, c) \<Rightarrow> f x c)"

definition fs_item :: "filesystem \<Rightarrow> disk_key \<Rightarrow> bytes option fs_op" where
  "fs_item fs key =
     fs_bind (search (fs_tree fs) (fs_tree_root fs) key) (\<lambda>found. fs_return (Ok (map_option snd found)))"

definition item_run :: "filesystem \<Rightarrow> u64 \<Rightarrow> u8 \<Rightarrow> leaf_item list fs_op" where
  "item_run fs oid kt = find_all (fs_tree fs) (fs_tree_root fs) oid kt"

definition read_inode :: "filesystem \<Rightarrow> u64 \<Rightarrow> inode fs_op" where
  "read_inode fs ino =
     fs_bind (fs_item fs (DiskKey ino INODE_ITEM_KEY 0)) (\<lambda>data.
     fs_return (try_in (ok_or NotFound data) (\<lambda>data. inode_parse data ino)))"

definition root_inode :: "filesystem \<Rightarrow> inode fs_op" where
  "root_inode fs = read_inode fs FIRST_FREE_OBJECTID"

abbreviation (input) DOT :: bytes where "DOT \<equiv> [46]"
abbreviation (input) DOT_DOT :: bytes where "DOT_DOT \<equiv> [46, 46]"

definition dir_entries :: "u64 \<Rightarrow> leaf_item list \<Rightarrow> dir_entry list result" where
  "dir_entries ino items =
     try_in (collect_results (\<lambda>(_, data). parse_dir_items data)
               (takeWhile (\<lambda>(key, _). objectid key = ino \<and> key_type key = DIR_INDEX_KEY) items)) (\<lambda>found.
     Ok (filter (\<lambda>e. de_name e \<noteq> DOT \<and> de_name e \<noteq> DOT_DOT) (concat found)))"

definition read_dir :: "filesystem \<Rightarrow> u64 \<Rightarrow> dir_entry list fs_op" where
  "read_dir fs ino =
     fs_bind (read_inode fs ino) (\<lambda>inode.
     if \<not> is_dir inode then fs_return (Err NotADirectory)
     else fs_bind (item_run fs ino DIR_INDEX_KEY) (\<lambda>items. fs_return (dir_entries ino items)))"

definition lookup_entry :: "filesystem \<Rightarrow> u64 \<Rightarrow> bytes \<Rightarrow> dir_entry fs_op" where
  "lookup_entry fs dir_ino name =
     fs_bind (read_inode fs dir_ino) (\<lambda>inode.
     if \<not> is_dir inode then fs_return (Err NotADirectory)
     else if name = DOT \<or> name = DOT_DOT then fs_return (Err NotFound)
     else
       fs_bind (fs_item fs (DiskKey dir_ino DIR_ITEM_KEY (name_hash (fs_hash fs) name))) (\<lambda>data.
       fs_return
         (try_in (ok_or NotFound data) (\<lambda>data.
          try_in (parse_dir_items data) (\<lambda>entries.
          ok_or NotFound (find (\<lambda>e. de_name e = name) entries))))))"

definition fs_lookup :: "filesystem \<Rightarrow> u64 \<Rightarrow> bytes \<Rightarrow> inode fs_op" where
  "fs_lookup fs dir_ino name =
     fs_bind (lookup_entry fs dir_ino name) (\<lambda>hit.
     if \<not> is_inode hit then fs_return (Err (UnsupportedFeature ''the name is a subvolume''))
     else read_inode fs (de_ino hit))"

definition xattr_entries :: "u64 \<Rightarrow> leaf_item list \<Rightarrow> xattr_entry list result" where
  "xattr_entries ino items =
     try_in (collect_results (\<lambda>(_, data). parse_xattr_items data)
               (takeWhile (\<lambda>(key, _). objectid key = ino \<and> key_type key = XATTR_ITEM_KEY) items)) (\<lambda>found.
     Ok (concat found))"

definition list_xattrs :: "filesystem \<Rightarrow> u64 \<Rightarrow> xattr_entry list fs_op" where
  "list_xattrs fs ino =
     fs_bind (read_inode fs ino) (\<lambda>_.
     fs_bind (item_run fs ino XATTR_ITEM_KEY) (\<lambda>items. fs_return (xattr_entries ino items)))"

definition get_xattr :: "filesystem \<Rightarrow> u64 \<Rightarrow> bytes \<Rightarrow> bytes option fs_op" where
  "get_xattr fs ino name =
     fs_bind (read_inode fs ino) (\<lambda>_.
     fs_bind (fs_item fs (DiskKey ino XATTR_ITEM_KEY (name_hash (fs_hash fs) name))) (\<lambda>data.
     fs_return
       (case data of
          None \<Rightarrow> Ok None
        | Some data \<Rightarrow>
            try_in (parse_xattr_items data) (\<lambda>entries.
            Ok (map_option xe_value (find (\<lambda>e. xe_name e = name) entries))))))"

text \<open>The components of a path: what stands between slashes and is not empty or a dot.\<close>

fun split_bytes :: "u8 \<Rightarrow> bytes \<Rightarrow> bytes list" where
  "split_bytes sep [] = [[]]"
| "split_bytes sep (b # bs) =
     (if b = sep then [] # split_bytes sep bs
      else case split_bytes sep bs of w # ws \<Rightarrow> (b # w) # ws | [] \<Rightarrow> [[b]])"

definition path_components :: "bytes \<Rightarrow> bytes list" where
  "path_components path = filter (\<lambda>w. w \<noteq> [] \<and> w \<noteq> DOT) (split_bytes 47 path)"

text \<open>\<open>walked\<close> is kept with its last element first; it is never empty.\<close>

fun walk_path :: "filesystem \<Rightarrow> bytes list \<Rightarrow> inode list \<Rightarrow> inode fs_op" where
  "walk_path fs [] walked =
     fs_return (case walked of here # _ \<Rightarrow> Ok here | [] \<Rightarrow> Err (Panic ''the top is never popped''))"
| "walk_path fs (component # rest) walked =
     (case walked of
        [] \<Rightarrow> fs_return (Err (Panic ''the top is never popped''))
      | here # up \<Rightarrow>
          if \<not> is_dir here then fs_return (Err NotADirectory)
          else if component = DOT_DOT then walk_path fs rest (if up = [] then walked else up)
          else fs_bind (fs_lookup fs (in_ino here) component) (\<lambda>next. walk_path fs rest (next # walked)))"

definition lookup_path_bytes :: "filesystem \<Rightarrow> bytes \<Rightarrow> inode fs_op" where
  "lookup_path_bytes fs path =
     fs_bind (root_inode fs) (\<lambda>start. walk_path fs (path_components path) [start])"

section \<open>What an operation yields\<close>

text \<open>The tree the filesystem tree's root holds.\<close>

definition fs_holds :: "filesystem \<Rightarrow> atree \<Rightarrow> bool" where
  "fs_holds fs t \<longleftrightarrow>
     copies_agree (fs_tree fs) \<and> addr t = fs_tree_root fs \<and> sorted_tree t \<and>
     (\<exists>lvl. stored (read_uncached (fs_tree fs)) None lvl t)"

definition fs_cache_ok :: "filesystem \<Rightarrow> node_cache \<Rightarrow> bool" where
  "fs_cache_ok fs c \<longleftrightarrow> cache_ok (fs_tree fs) c"

definition yields :: "filesystem \<Rightarrow> 'a fs_op \<Rightarrow> 'a result \<Rightarrow> bool" where
  "yields fs m r \<longleftrightarrow> (\<forall>c. fs_cache_ok fs c \<longrightarrow> (\<exists>c'. m c = (r, c') \<and> fs_cache_ok fs c'))"

named_theorems yields_intro

lemma yields_return [yields_intro]: "yields fs (fs_return r) r"
  by (simp add: yields_def fs_return_def)

lemma yields_bind:
  assumes "yields fs m r" and "\<And>x. r = Ok x \<Longrightarrow> yields fs (f x) (g x)"
  shows "yields fs (fs_bind m f) (try_in r g)"
  unfolding yields_def
proof (intro allI impI)
  fix c
  assume "fs_cache_ok fs c"
  then obtain c' where c': "m c = (r, c')" "fs_cache_ok fs c'" using assms(1) by (auto simp: yields_def)
  show "\<exists>c'. fs_bind m f c = (try_in r g, c') \<and> fs_cache_ok fs c'"
  proof (cases r)
    case (Inl e)
    then show ?thesis using c' by (simp add: fs_bind_def)
  next
    case (Inr x)
    then show ?thesis using c' assms(2) [OF Inr] by (simp add: fs_bind_def yields_def)
  qed
qed

lemma yields_if:
  "(P \<Longrightarrow> yields fs a r) \<Longrightarrow> (\<not> P \<Longrightarrow> yields fs b s) \<Longrightarrow> yields fs (if P then a else b) (if P then r else s)"
  by simp

lemma yields_search:
  assumes "fs_holds fs t"
  shows "yields fs (search (fs_tree fs) (fs_tree_root fs) key) (Ok (map_option (Pair key) (map_of (inorder t) key)))"
  using assms cached.search_stored [of "pool_tree fs" _ t _ key]
  by (auto simp: yields_def fs_holds_def fs_cache_ok_def fs_tree_cached sorted_tree_def)

lemma yields_item:
  assumes "fs_holds fs t"
  shows "yields fs (fs_item fs key) (Ok (map_of (inorder t) key))"
proof -
  have "yields fs (fs_item fs key) (try_in (Ok (map_option (Pair key) (map_of (inorder t) key)))
      (\<lambda>found. Ok (map_option snd found)))"
    unfolding fs_item_def by (intro yields_bind yields_search [OF assms] yields_return)
  then show ?thesis by (simp add: option.map_comp comp_def option.map_ident)
qed

lemma yields_item_run:
  assumes "fs_holds fs t"
  shows "yields fs (item_run fs oid kt) (Ok (filter (in_run oid kt) (inorder t)))"
  using assms cached.find_all_stored [of "pool_tree fs" _ t _ oid kt]
  by (auto simp: yields_def fs_holds_def fs_cache_ok_def fs_tree_cached item_run_def)

section \<open>The same on the items of the tree\<close>

definition inode_in :: "leaf_item list \<Rightarrow> u64 \<Rightarrow> inode result" where
  "inode_in kvs ino = try_in (ok_or NotFound (map_of kvs (DiskKey ino INODE_ITEM_KEY 0))) (\<lambda>data. inode_parse data ino)"

definition run_in :: "leaf_item list \<Rightarrow> u64 \<Rightarrow> u8 \<Rightarrow> bytes list" where
  "run_in kvs oid kt = map snd (filter (in_run oid kt) kvs)"

definition entries_in :: "leaf_item list \<Rightarrow> u64 \<Rightarrow> dir_entry list result" where
  "entries_in kvs ino =
     try_in (inode_in kvs ino) (\<lambda>inode.
     if \<not> is_dir inode then Err NotADirectory
     else try_in (collect_results parse_dir_items (run_in kvs ino DIR_INDEX_KEY)) (\<lambda>found.
       Ok (filter (\<lambda>e. de_name e \<noteq> DOT \<and> de_name e \<noteq> DOT_DOT) (concat found))))"

definition entry_in :: "hash_lib \<Rightarrow> leaf_item list \<Rightarrow> u64 \<Rightarrow> bytes \<Rightarrow> dir_entry result" where
  "entry_in H kvs ino name =
     try_in (inode_in kvs ino) (\<lambda>inode.
     if \<not> is_dir inode then Err NotADirectory
     else if name = DOT \<or> name = DOT_DOT then Err NotFound
     else
       try_in (ok_or NotFound (map_of kvs (DiskKey ino DIR_ITEM_KEY (name_hash H name)))) (\<lambda>data.
       try_in (parse_dir_items data) (\<lambda>entries. ok_or NotFound (find (\<lambda>e. de_name e = name) entries))))"

definition named_in :: "hash_lib \<Rightarrow> leaf_item list \<Rightarrow> u64 \<Rightarrow> bytes \<Rightarrow> inode result" where
  "named_in H kvs ino name =
     try_in (entry_in H kvs ino name) (\<lambda>hit.
     if \<not> is_inode hit then Err (UnsupportedFeature ''the name is a subvolume'')
     else inode_in kvs (de_ino hit))"

lemma yields_read_inode: "fs_holds fs t \<Longrightarrow> yields fs (read_inode fs ino) (inode_in (inorder t) ino)"
  using yields_bind [OF yields_item yields_return]
  unfolding read_inode_def inode_in_def by fastforce

lemma takeWhile_run:
  "takeWhile (\<lambda>(key, _). objectid key = oid \<and> key_type key = kt) (filter (in_run oid kt) kvs) = filter (in_run oid kt) kvs"
  by (induction kvs) (auto simp: in_run_def)

lemma collect_snd: "collect_results (\<lambda>(_, d). f d) kvs = collect_results f (map snd kvs)"
  by (induction kvs) auto

lemma yields_read_dir: "fs_holds fs t \<Longrightarrow> yields fs (read_dir fs ino) (entries_in (inorder t) ino)"
  unfolding read_dir_def entries_in_def
proof (intro yields_bind yields_if yields_return yields_read_inode)
  assume t: "fs_holds fs t"
  show "yields fs (fs_bind (item_run fs ino DIR_INDEX_KEY) (\<lambda>items. fs_return (dir_entries ino items)))
     (try_in (collect_results parse_dir_items (run_in (inorder t) ino DIR_INDEX_KEY)) (\<lambda>found.
       Ok (filter (\<lambda>e. de_name e \<noteq> DOT \<and> de_name e \<noteq> DOT_DOT) (concat found))))"
    using yields_bind [OF yields_item_run [OF t] yields_return, of ino DIR_INDEX_KEY "\<lambda>items. dir_entries ino items"]
    by (simp add: dir_entries_def takeWhile_run collect_snd run_in_def)
qed

lemma yields_lookup_entry:
  "fs_holds fs t \<Longrightarrow> yields fs (lookup_entry fs ino name) (entry_in (fs_hash fs) (inorder t) ino name)"
  unfolding lookup_entry_def entry_in_def
proof (intro yields_bind yields_if yields_return yields_read_inode)
  assume t: "fs_holds fs t"
  show "yields fs (fs_bind (fs_item fs (DiskKey ino DIR_ITEM_KEY (name_hash (fs_hash fs) name))) (\<lambda>data.
       fs_return (try_in (ok_or NotFound data) (\<lambda>data.
          try_in (parse_dir_items data) (\<lambda>entries. ok_or NotFound (find (\<lambda>e. de_name e = name) entries))))))
     (try_in (ok_or NotFound (map_of (inorder t) (DiskKey ino DIR_ITEM_KEY (name_hash (fs_hash fs) name)))) (\<lambda>data.
       try_in (parse_dir_items data) (\<lambda>entries. ok_or NotFound (find (\<lambda>e. de_name e = name) entries))))"
    using yields_bind [OF yields_item [OF t] yields_return] by fastforce
qed

lemma yields_lookup:
  "fs_holds fs t \<Longrightarrow> yields fs (fs_lookup fs ino name) (named_in (fs_hash fs) (inorder t) ino name)"
  unfolding fs_lookup_def named_in_def
  by (intro yields_bind yields_if yields_return yields_lookup_entry yields_read_inode)

section \<open>The image a volume holds\<close>

lemma copies_agree_fs:
  assumes v: "volume_ok disk (fs_map fs) img" and p: "pool_reads disk (fs_device fs) (fs_devices fs)"
  shows "copies_agree (fs_tree fs)"
proof -
  have "b = bytes_of img l n" if "fs_read_mirror fs l m n = Ok b" for l m n b
    using read_pool_image [OF v p] that by (simp add: fs_read_mirror_def)
  moreover have "b = bytes_of img l n" if "fs_read fs l n = Ok b" for l n b
    using read_pool_image [OF v p] that by (simp add: fs_read_def read_logical_pool_def)
  ultimately have c: "copy_at (fs_tree fs) l None m = Ok b \<Longrightarrow>
      parse_generation (fs_tree fs) l None (bytes_of img l (node_bytes (fs_tree fs))) = Ok b" for l m b
    by (auto simp: copy_at_def try_in_eq_Ok fs_tree_def with_seed_fsids_def with_redundancy_def with_cache_def
        tree_new_def split: if_splits)
  show ?thesis
    unfolding copies_agree_def using c by (metis sum.inject(2))
qed

lemma visit_root_item:
  "visit_list (root_item_visit oid) kvs None =
     (let hit = find (\<lambda>(k, d). objectid k = oid \<and> key_type k = ROOT_ITEM_KEY \<and> ROOT_ITEM_BYTENR + 8 \<le> length d) kvs
      in (Ok (hit = None), map_option (\<lambda>(k, d). le64 d ROOT_ITEM_BYTENR) hit))"
proof (induction kvs)
  case (Cons kv kvs)
  obtain k d where kv: "kv = (k, d)" by fastforce
  show ?case
  proof (cases "objectid k = oid \<and> key_type k = ROOT_ITEM_KEY \<and> ROOT_ITEM_BYTENR + 8 \<le> length d")
    case True
    then show ?thesis by (simp add: kv root_item_visit_def)
  next
    case False
    then have "root_item_visit oid k d None = (Ok True, None)" unfolding root_item_visit_def by (simp only: if_False)
    then show ?thesis using Cons False unfolding kv by auto
  qed
qed (simp add: Let_def)

lemma pool_tree_uncached: "pool_tree fs = (pool_tree fs)\<lparr>tr_cache := None\<rparr>"
  by (simp add: pool_tree_def with_seed_fsids_def with_redundancy_def tree_new_def)

text \<open>
  C28. Where a tree begins: the address \<open>tree_root\<close> reports for a tree is the one the first of its root
  items that is long enough records, in the order of the root tree; without one it is an error.
\<close>

theorem tree_root_recorded:
  assumes "stored (read_uncached (pool_tree fs :: unit tree)) None lvl t" and "sorted_tree t"
    and "addr t = sb_root (fs_sb fs)"
  shows "tree_root fs oid =
     (case find (\<lambda>(k, d). objectid k = oid \<and> key_type k = 132 \<and> 184 \<le> length d) (inorder t) of
        Some (k, d) \<Rightarrow> Ok (le64 d 176)
      | None \<Rightarrow> Err (BadSuperblock ''the root tree holds no ROOT_ITEM for the tree''))"
proof -
  note walk = uncached.run_walk_stored [of "pool_tree fs :: unit tree", folded pool_tree_uncached, OF assms(1)]
  have "run_walk (pool_tree fs :: unit tree) (addr t) None (root_item_visit oid) () None =
    (map_sum id (\<lambda>_. ()) (fst (visit_list (root_item_visit oid) (from_key None (inorder t)) None)), (),
     snd (visit_list (root_item_visit oid) (from_key None (inorder t)) None))"
    using walk [where start = None and visit = "root_item_visit oid" and v = None] assms(2) by (simp add: sorted_tree_def)
  then show ?thesis
    by (auto simp: tree_root_def required_root_item_target_def root_item_target_def scan_def for_each_def assms(3)
        from_key_def visit_root_item Let_def split: option.split)
qed

section \<open>Listing and looking up\<close>

lemma entries_inD:
  "entries_in kvs ino = Ok es \<Longrightarrow> e \<in> set es \<Longrightarrow> de_name e \<noteq> DOT \<and> de_name e \<noteq> DOT_DOT"
  by (auto simp: entries_in_def try_in_eq_Ok split: if_splits)

text \<open>
  A directory whose two kinds of item say the same: its index lists every name once, and the
  item under a hash holds the entries of the index with that hash.
\<close>

definition dir_consistent :: "hash_lib \<Rightarrow> leaf_item list \<Rightarrow> u64 \<Rightarrow> bool" where
  "dir_consistent H kvs ino \<longleftrightarrow>
     (\<exists>inode found. inode_in kvs ino = Ok inode \<and> is_dir inode \<and>
        collect_results parse_dir_items (run_in kvs ino DIR_INDEX_KEY) = Ok found \<and>
        distinct (map de_name (concat found)) \<and>
        (\<forall>h. case map_of kvs (DiskKey ino DIR_ITEM_KEY h) of
           None \<Rightarrow> \<not> (\<exists>e \<in> set (concat found). name_hash H (de_name e) = h)
         | Some data \<Rightarrow> (\<exists>es. parse_dir_items data = Ok es \<and>
             set es = {e \<in> set (concat found). name_hash H (de_name e) = h})))"

lemma find_unique:
  assumes "distinct (map f xs)" and "\<And>y. y \<in> set ys \<and> f y = a \<longleftrightarrow> y \<in> set xs \<and> f y = a"
  shows "find (\<lambda>x. f x = a) ys = find (\<lambda>x. f x = a) xs"
proof (cases "find (\<lambda>x. f x = a) xs")
  case None
  moreover have "find (\<lambda>x. f x = a) ys = None"
    using None assms(2) by (auto simp: find_None_iff)
  ultimately show ?thesis by simp
next
  case (Some x)
  then have x: "x \<in> set xs" "f x = a" by (auto simp: find_Some_iff)
  then obtain y where y: "find (\<lambda>x. f x = a) ys = Some y" "y \<in> set ys" "f y = a"
    using assms(2) by (cases "find (\<lambda>x. f x = a) ys") (auto simp: find_None_iff find_Some_iff)
  then have "y \<in> set xs" using assms(2) by blast
  then have "y = x" using assms(1) x y(3) by (auto simp: distinct_map inj_on_def)
  then show ?thesis using y(1) Some by simp
qed

lemma entry_in_listing:
  assumes "dir_consistent H kvs ino"
  obtains es where "entries_in kvs ino = Ok es" and "distinct (map de_name es)"
    and "\<And>name. entry_in H kvs ino name = ok_or NotFound (find (\<lambda>e. de_name e = name) es)"
proof -
  obtain inode found where d: "inode_in kvs ino = Ok inode" "is_dir inode"
    "collect_results parse_dir_items (run_in kvs ino DIR_INDEX_KEY) = Ok found"
    "distinct (map de_name (concat found))"
    and items: "\<And>h. case map_of kvs (DiskKey ino DIR_ITEM_KEY h) of
           None \<Rightarrow> \<not> (\<exists>e \<in> set (concat found). name_hash H (de_name e) = h)
         | Some data \<Rightarrow> (\<exists>es. parse_dir_items data = Ok es \<and>
             set es = {e \<in> set (concat found). name_hash H (de_name e) = h})"
    using assms unfolding dir_consistent_def by blast
  define es where "es = filter (\<lambda>e. de_name e \<noteq> DOT \<and> de_name e \<noteq> DOT_DOT) (concat found)"
  have dist: "distinct (map de_name es)"
    using d(4) unfolding es_def by (simp add: distinct_map_filter)
  have ent: "entry_in H kvs ino name = ok_or NotFound (find (\<lambda>e. de_name e = name) es)" for name
  proof (cases "name = DOT \<or> name = DOT_DOT")
    case True
    then have "find (\<lambda>e. de_name e = name) es = None" by (auto simp: find_None_iff es_def)
    then show ?thesis using True d by (simp add: entry_in_def)
  next
    case False
    show ?thesis
    proof (cases "map_of kvs (DiskKey ino DIR_ITEM_KEY (name_hash H name))")
      case None
      then have "find (\<lambda>e. de_name e = name) es = None"
        using items [of "name_hash H name"] by (auto simp: find_None_iff es_def)
      then show ?thesis using None False d by (simp add: entry_in_def)
    next
      case (Some data)
      then obtain fs where f: "parse_dir_items data = Ok fs"
        "set fs = {e \<in> set (concat found). name_hash H (de_name e) = name_hash H name}"
        using items [of "name_hash H name"] by auto
      have "find (\<lambda>e. de_name e = name) fs = find (\<lambda>e. de_name e = name) es"
        by (rule find_unique [OF dist]) (use f(2) False in \<open>auto simp: es_def\<close>)
      then show ?thesis using Some f(1) False d by (simp add: entry_in_def)
    qed
  qed
  show thesis
    using that [of es, OF _ dist ent] d by (simp add: entries_in_def es_def)
qed

text \<open>
  C26. Looking a name up in a directory is finding it in the directory's listing: by hash the driver
  reads one item, and what it answers is what a search through the whole listing answers, also
  for colliding names, absent names and the two dots.
\<close>

theorem lookup_is_find_in_listing:
  assumes "fs_holds fs t" and "dir_consistent (fs_hash fs) (inorder t) ino"
  shows "\<exists>es. yields fs (read_dir fs ino) (Ok es) \<and> distinct (map de_name es) \<and>
    (\<forall>name. yields fs (lookup_entry fs ino name) (ok_or NotFound (find (\<lambda>e. de_name e = name) es)))"
proof -
  obtain es where es: "entries_in (inorder t) ino = Ok es" "distinct (map de_name es)"
    "\<And>name. entry_in (fs_hash fs) (inorder t) ino name = ok_or NotFound (find (\<lambda>e. de_name e = name) es)"
    using entry_in_listing [OF assms(2)] by blast
  then show ?thesis
    using yields_read_dir [OF assms(1), of ino] yields_lookup_entry [OF assms(1), of ino] by auto
qed

section \<open>Paths\<close>

fun stack_in :: "hash_lib \<Rightarrow> leaf_item list \<Rightarrow> bytes list \<Rightarrow> inode list \<Rightarrow> inode list result" where
  "stack_in H kvs [] walked = Ok walked"
| "stack_in H kvs (component # rest) walked =
     (case walked of
        [] \<Rightarrow> Err (Panic ''the top is never popped'')
      | here # up \<Rightarrow>
          if \<not> is_dir here then Err NotADirectory
          else if component = DOT_DOT then stack_in H kvs rest (if up = [] then walked else up)
          else try_in (named_in H kvs (in_ino here) component) (\<lambda>next. stack_in H kvs rest (next # walked)))"

definition path_in :: "hash_lib \<Rightarrow> leaf_item list \<Rightarrow> bytes \<Rightarrow> inode list result" where
  "path_in H kvs path =
     try_in (inode_in kvs FIRST_FREE_OBJECTID) (\<lambda>start. stack_in H kvs (path_components path) [start])"

lemma stack_in_append: "stack_in H kvs (a @ b) w = try_in (stack_in H kvs a w) (stack_in H kvs b)"
proof (induction a arbitrary: w)
  case (Cons c a)
  have IH: "stack_in H kvs (a @ b) = (\<lambda>w. try_in (stack_in H kvs a w) (stack_in H kvs b))"
    using Cons by (rule ext)
  show ?case
    by (cases w) (auto simp: IH try_in_def split: sum.split)
qed simp

lemma stack_in_nonempty: "stack_in H kvs cs w = Ok w' \<Longrightarrow> w \<noteq> [] \<Longrightarrow> w' \<noteq> []"
  by (induction cs arbitrary: w) (auto simp: try_in_eq_Ok split: list.splits if_splits)

definition tip :: "inode list \<Rightarrow> inode result" where
  "tip walked = (case walked of here # _ \<Rightarrow> Ok here | [] \<Rightarrow> Err (Panic ''the top is never popped''))"

lemma yields_walk_path:
  "fs_holds fs t \<Longrightarrow> yields fs (walk_path fs cs w) (try_in (stack_in (fs_hash fs) (inorder t) cs w) tip)"
proof (induction cs arbitrary: w)
  case Nil
  show ?case by (auto simp: tip_def intro: yields_return)
next
  case (Cons c cs)
  show ?case
  proof (cases w)
    case Nil
    then show ?thesis by (auto intro: yields_return)
  next
    case (Cons here up)
    note IH = Cons.IH [OF Cons.prems]
    have a: "try_in (try_in r f) g = try_in r (\<lambda>x. try_in (f x) g)" for r :: "'x result" and f :: "'x \<Rightarrow> 'y result"
      and g :: "'y \<Rightarrow> 'z result"
      by (cases r) auto
    show ?thesis
      using Cons yields_bind [OF yields_lookup [OF Cons.prems] IH] IH
      by (auto simp: a intro: yields_return)
  qed
qed

lemma split_bytes_append: "split_bytes sep (p @ sep # q) = split_bytes sep p @ split_bytes sep q"
proof (induction p)
  case (Cons b p)
  have "split_bytes sep p \<noteq> []" for p by (cases p) (auto split: list.split)
  then obtain w ws where "split_bytes sep p = w # ws" by (meson neq_Nil_conv)
  then show ?case using Cons by simp
qed simp

lemma split_bytes_word: "sep \<notin> set w \<Longrightarrow> split_bytes sep w = [w]"
  by (induction w) auto

lemma path_components_append: "path_components (p @ 47 # q) = path_components p @ path_components q"
  by (simp add: path_components_def split_bytes_append)

lemma path_components_word: "47 \<notin> set w \<Longrightarrow> w \<noteq> [] \<Longrightarrow> w \<noteq> DOT \<Longrightarrow> path_components w = [w]"
  by (simp add: path_components_def split_bytes_word)

lemma try_in_assoc: "try_in (try_in r f) g = try_in r (\<lambda>x. try_in (f x) g)"
  by (cases r) auto

lemma yields_path:
  "fs_holds fs t \<Longrightarrow> yields fs (lookup_path_bytes fs path) (try_in (path_in (fs_hash fs) (inorder t) path) tip)"
  unfolding lookup_path_bytes_def path_in_def try_in_assoc root_inode_def
  by (intro yields_bind yields_walk_path yields_read_inode)

lemma path_in_step:
  assumes "path_in H kvs path = Ok (here # up)" and "is_dir here"
    and "47 \<notin> set w" and "w \<noteq> []" and "w \<noteq> DOT" and "w \<noteq> DOT_DOT"
  shows "try_in (path_in H kvs (path @ 47 # w)) tip = named_in H kvs (in_ino here) w"
  using assms
  by (cases "named_in H kvs (in_ino here) w")
    (auto simp: path_in_def path_components_append path_components_word stack_in_append try_in_assoc tip_def
      try_in_eq_Ok)

text \<open>There is a coherent cache to start from: the empty one.\<close>

lemma fresh_cache_ok: "fs_holds fs t \<Longrightarrow> fs_cache_ok fs (node_cache_new n)"
  by (auto simp: fs_cache_ok_def fs_holds_def cache_ok_def nc.coherent_def nc_inv_def nc_held_def node_cache_new_def)

lemma yields_unique: "fs_holds fs t \<Longrightarrow> yields fs m r \<Longrightarrow> yields fs m s \<Longrightarrow> r = s"
  using fresh_cache_ok [of fs t 0] by (force simp: yields_def)

text \<open>
  C27. A name a listing hands out resolves when it is handed back: when a path leads to a directory,
  the path followed by a slash and the name of any inode the directory lists is the path
  of that inode, whatever bytes the name is made of, the slash apart.
\<close>

theorem listing_resolves:
  assumes t: "fs_holds fs t" and path: "yields fs (lookup_path_bytes fs path) (Ok here)"
    and d: "dir_consistent (fs_hash fs) (inorder t) (in_ino here)" and dir: "is_dir here"
    and ls: "yields fs (read_dir fs (in_ino here)) (Ok es)" "e \<in> set es"
    and e: "is_inode e" "47 \<notin> set (de_name e)" "de_name e \<noteq> []"
  shows "\<exists>r. yields fs (read_inode fs (de_ino e)) r \<and> yields fs (lookup_path_bytes fs (path @ 47 # de_name e)) r"
proof -
  let ?H = "fs_hash fs" and ?kvs = "inorder t"
  have "try_in (path_in ?H ?kvs path) tip = Ok here"
    using yields_unique [OF t yields_path [OF t] path] .
  then obtain w where w: "path_in ?H ?kvs path = Ok w" "tip w = Ok here" by (auto simp: try_in_eq_Ok)
  then obtain up where p: "path_in ?H ?kvs path = Ok (here # up)" by (cases w) (auto simp: tip_def)
  obtain es' where es': "entries_in ?kvs (in_ino here) = Ok es'" "distinct (map de_name es')"
    "\<And>name. entry_in ?H ?kvs (in_ino here) name = ok_or NotFound (find (\<lambda>e. de_name e = name) es')"
    using entry_in_listing [OF d] by blast
  have "es' = es"
    using yields_unique [OF t yields_read_dir [OF t] ls(1)] es'(1) by simp
  then have "find (\<lambda>x. de_name x = de_name e) es' = Some e"
    using es'(2) ls(2) by (auto simp: find_Some_iff distinct_conv_nth in_set_conv_nth)
  then have "named_in ?H ?kvs (in_ino here) (de_name e) = inode_in ?kvs (de_ino e)"
    using e(1) by (simp add: named_in_def es'(3))
  moreover have "de_name e \<noteq> DOT" "de_name e \<noteq> DOT_DOT"
    using entries_inD [OF es'(1)] ls(2) \<open>es' = es\<close> by auto
  ultimately show ?thesis
    using path_in_step [OF p dir e(2,3)] yields_path [OF t, of "path @ 47 # de_name e"] yields_read_inode [OF t] by metis
qed

section \<open>A filesystem of one leaf\<close>

definition demo_at :: block_identity where
  "demo_at = (demo_ident 0)\<lparr>bi_bytenr := 1048576\<rparr>"

definition demo_fs :: "bytes \<Rightarrow> filesystem" where
  "demo_fs block =
     \<lparr>fs_hash = zero_hash, fs_device = (\<lambda>p n. if p = 1048576 \<and> n = length block then Ok block else Err NotFound),
      fs_devices = [], fs_write_pool = [], fs_seeds = [], fs_sb = demo_super\<lparr>sb_root := 1048576\<rparr>,
      fs_map = [demo_chunk 0 (Suc 0) 0], fs_tree_root = 1048576, fs_csum_root = None, fs_emptying = None, fs_leaving = None\<rparr>"

lemma demo_single:
  "chunk_profile_of (demo_chunk 0 (Suc 0) 0) = Ok Single"
  by (simp add: chunk_profile_of_def profile_from_type_def demo_chunk_def BG_TYPE_MASK_def
      BG_PROFILE_MASK_def Let_def count_ones_def)

lemma demo_single_wf: "wf_chunk (demo_chunk 0 (Suc 0) 0)"
  by (simp add: wf_chunk_def chunk_validate_def demo_single)
    (simp add: demo_simps eval_bits checked_add_def expect_exact_def expect_at_least_def)

lemma demo_fs_read:
  assumes "length block = 4096"
  shows "fs_read (demo_fs block) 1048576 4096 = Ok block"
proof -
  have inv: "cm_inv [demo_chunk 0 (Suc 0) 0]" using demo_single_wf by (simp add: cm_inv_def)
  have cov: "covers (demo_chunk 0 (Suc 0) 0) 1048576" by (simp add: covers_def demo_chunk_def clen_def)
  have ch: "chunk_for [demo_chunk 0 (Suc 0) 0] 1048576 = Some (demo_chunk 0 (Suc 0) 0)"
    using chunk_for_iff [OF inv, of 1048576] cov by simp
  have "chunk_map_mirror (demo_chunk 0 (Suc 0) 0) 1048576 0 = Ok \<lparr>mp_devid = 1, mp_physical = 1048576, mp_len = 262144\<rparr>"
    by (simp add: chunk_map_mirror_def demo_single num_mirrors_def)
      (simp add: demo_simps logical_end_def saturating_add_def stripe_index_def is_striped_def place_physical_def
        checked_mul_def checked_add_def)
  then have m: "map_mirror [demo_chunk 0 (Suc 0) 0] 1048576 0 = Ok \<lparr>mp_devid = 1, mp_physical = 1048576, mp_len = 262144\<rparr>"
    by (simp add: map_mirror_def ch)
  have rb: "rebuilt_from_parity [demo_chunk 0 (Suc 0) 0] 0 l = None" for l by (simp add: rebuilt_from_parity_def)
  show ?thesis
    using rb m by (simp add: fs_read_def demo_fs_def read_logical_pool_def read_logical_pool_mirror.simps
        read_logical_on_mirror.simps assms)
qed

text \<open>A filesystem whose map is that one chunk and which reads a leaf where its tree root is.\<close>

definition one_leaf_fs :: "filesystem \<Rightarrow> bytes \<Rightarrow> bool" where
  "one_leaf_fs fs block \<longleftrightarrow>
     fs_hash fs = zero_hash \<and> fs_sb fs = demo_super\<lparr>sb_root := 1048576\<rparr> \<and> fs_seeds fs = [] \<and>
     fs_tree_root fs = 1048576 \<and> fs_map fs = [demo_chunk 0 (Suc 0) 0] \<and> fs_read fs 1048576 4096 = Ok block"

lemma one_leaf_copies:
  assumes "one_leaf_fs fs block"
  shows "copy_count (fs_tree fs :: node_cache tree) l = 1" and "copy_count (pool_tree fs :: unit tree) l = 1"
proof -
  have "read_attempts (demo_chunk 0 (Suc 0) 0) = 1"
    by (simp add: read_attempts_def parity_count_def num_mirrors_def demo_single)
  then have "read_attempts_at [demo_chunk 0 (Suc 0) 0] l = Ok n \<Longrightarrow> n = 1" for n
    by (auto simp: read_attempts_at_def try_in_eq_Ok chunk_for_def before_def get_def ok_or_eq_Ok bind_eq_Some_conv split: if_splits option.splits)
  then show "copy_count (fs_tree fs :: node_cache tree) l = 1" and "copy_count (pool_tree fs :: unit tree) l = 1"
    using assms by (auto simp: copy_count_def fs_tree_def pool_tree_def with_seed_fsids_def with_redundancy_def with_cache_def
        tree_new_def one_leaf_fs_def split: sum.split)
qed

lemma one_leaf_stored:
  assumes ok: "build_leaf zero_hash demo_super demo_at items = Ok block"
    and s: "strictly_sorted (map fst items)" and fs: "one_leaf_fs fs block"
  shows "fs_holds fs (ALeaf 1048576 items)"
    and "stored (read_uncached (pool_tree fs :: unit tree)) None 0 (ALeaf 1048576 items)"
proof -
  have id: "wf_ident demo_super demo_at"
    using demo_ident_wf [of 0] by (simp add: wf_ident_def demo_at_def)
  obtain b its where b: "tree_block_parse zero_hash block 1048576 (geometry_from_superblock demo_super) = Ok b"
    "tb_body b = LeafBody its" "leaf_items b its = items" "hd_level (tb_header b) = 0"
    using conjunct2 [OF build_leaf_written [OF zero_hash_wf id ok]] by (auto simp: demo_at_def)
  have pa: "parse_accepting zero_hash block 1048576 (geometry_from_superblock demo_super) [] = Ok b"
    using b(1) by (simp add: tree_block_parse_def)
  have g: "geometry_from_superblock (demo_super\<lparr>sb_root := x\<rparr>) = geometry_from_superblock demo_super" for x
    by (simp add: geometry_from_superblock_def node_uuid_def)
  have ns: "unat (tg_nodesize (geometry_from_superblock demo_super)) = 4096"
    by (simp add: geometry_from_superblock_def demo_super_def)
  note hs = fs [unfolded one_leaf_fs_def]
  have r: "read_uncached (fs_tree fs) 1048576 None = Ok b"
    "read_uncached (pool_tree fs :: unit tree) 1048576 None = Ok b"
    using hs by (simp_all add: read_uncached_def fs_tree_def pool_tree_def with_seed_fsids_def with_redundancy_def
        with_cache_def tree_new_def node_bytes_def parse_generation_def g ns pa)
  have st: "blk 1048576 None = Ok b \<Longrightarrow> stored blk None 0 (ALeaf 1048576 items)" for blk
    using stored_leaf [of blk 1048576 None b its 0] b(2-4) by simp
  show "stored (read_uncached (pool_tree fs :: unit tree)) None 0 (ALeaf 1048576 items)"
    by (rule st) (rule r(2))
  have "copies_agree (fs_tree fs)"
    by (simp add: copies_agree_def one_leaf_copies [OF fs])
  then show "fs_holds fs (ALeaf 1048576 items)"
    using st [of "read_uncached (fs_tree fs)", OF r(1)] s hs by (auto simp: fs_holds_def sorted_tree_def)
qed

lemma demo_leaf_length:
  assumes "build_leaf zero_hash demo_super demo_at items = Ok block"
  shows "length block = 4096"
proof -
  have id: "wf_ident demo_super demo_at"
    using demo_ident_wf [of 0] by (simp add: wf_ident_def demo_at_def)
  show ?thesis
    using conjunct1 [OF build_leaf_written [OF zero_hash_wf id assms]] by (simp add: demo_super_def)
qed

lemma demo_fs_stored:
  assumes "build_leaf zero_hash demo_super demo_at items = Ok block" and "strictly_sorted (map fst items)"
  shows "fs_holds (demo_fs block) (ALeaf 1048576 items)"
    and "stored (read_uncached (pool_tree (demo_fs block) :: unit tree)) None 0 (ALeaf 1048576 items)"
proof -
  have "one_leaf_fs (demo_fs block) block"
    unfolding one_leaf_fs_def using demo_fs_read [OF demo_leaf_length [OF assms(1)]]
    by (intro conjI) (simp_all add: demo_fs_def)
  then show "fs_holds (demo_fs block) (ALeaf 1048576 items)"
    and "stored (read_uncached (pool_tree (demo_fs block) :: unit tree)) None 0 (ALeaf 1048576 items)"
    by (rule one_leaf_stored [OF assms])+
qed

definition demo_inode :: "u32 \<Rightarrow> bytes" where
  "demo_inode mode =
     new_inode \<lparr>ni_generation = 7, ni_size = 0, ni_mode = mode, ni_uid = 0, ni_gid = 0, ni_flags = 0, ni_now = (0, 0)\<rparr>"

definition demo_entry :: bytes where
  "demo_entry = dir_entry_bytes 257 7 FT_REG_FILE [97]"

definition demo_items :: "leaf_item list" where
  "demo_items =
     [(DiskKey 256 INODE_ITEM_KEY 0, demo_inode 0x41ED), (DiskKey 256 DIR_ITEM_KEY (name_hash zero_hash [97]), demo_entry),
      (DiskKey 256 DIR_INDEX_KEY 2, demo_entry), (DiskKey 257 INODE_ITEM_KEY 0, demo_inode 0x81A4)]"

lemma demo_inode_parse:
  "\<exists>i. inode_parse (demo_inode mode) ino = Ok i \<and> in_ino i = ino \<and> in_mode i = mode"
proof -
  obtain t where t: "\<And>at. at \<in> time_slots \<Longrightarrow> timestamp_parse (demo_inode mode) at = Ok t"
    using new_inode_times by (auto simp: demo_inode_def timestamp_parse_def Let_def)
  show ?thesis
    unfolding demo_inode_def
    by (simp add: inode_parse_def new_inode_reads inode_core_reads t [unfolded demo_inode_def] time_slots_def)
qed

lemma demo_entry_parse:
  "parse_dir_items demo_entry =
     Ok [\<lparr>de_name = [97], de_ino = 257, de_ftype = Some Regular, de_location_type = INODE_ITEM_KEY, de_transid = 7\<rparr>]"
  by (simp add: demo_entry_def dir_entry_bytes_raw parse_dir_items_def parse_items_def
      parse_items_step [of _ "[]", simplified] parse_items_nil wf_raw_def ftype_from_raw_def)

lemma demo_items_block:
  obtains block where "build_leaf zero_hash demo_super demo_at demo_items = Ok block"
    and "strictly_sorted (map fst demo_items)"
proof -
  have l: "length (demo_inode m) = 160" "length demo_entry = 31" for m
    by (simp_all add: demo_inode_def new_inode_reads demo_entry_def dir_entry_bytes_raw)
  have s: "strictly_sorted (map fst demo_items)"
    by (simp add: demo_items_def less_disk_key_def key_before_def)
  then show thesis
    using that by (simp add: build_leaf_def windows_ordered_iff demo_at_def demo_ident_def demo_super_def
        space_needed_def item_space_def demo_items_def l Let_def)
qed

lemma demo_dir_consistent: "dir_consistent zero_hash demo_items 256"
proof -
  obtain i where i: "inode_parse (demo_inode 0x41ED) 256 = Ok i" "in_mode i = 0x41ED"
    using demo_inode_parse [of "0x41ED" 256] by blast
  have "inode_in demo_items 256 = Ok i" "is_dir i"
    using i by (simp_all add: inode_in_def demo_items_def is_dir_def inode_file_type_def file_type_from_mode_def)
  moreover have "run_in demo_items 256 DIR_INDEX_KEY = [demo_entry]"
    by (simp add: run_in_def demo_items_def in_run_def)
  ultimately show ?thesis
    by (auto simp: dir_consistent_def demo_entry_parse demo_items_def split: option.split)
qed

theorem tree_root_recorded_witness:
  "\<exists>block. build_leaf zero_hash demo_super demo_at demo_items = Ok block \<and>
     tree_root (demo_fs block) 5 = Err (BadSuperblock ''the root tree holds no ROOT_ITEM for the tree'')"
proof -
  obtain block where b: "build_leaf zero_hash demo_super demo_at demo_items = Ok block"
    "strictly_sorted (map fst demo_items)" by (rule demo_items_block)
  show ?thesis
    using tree_root_recorded [OF demo_fs_stored(2) [OF b], of 5] b
    by (simp add: sorted_tree_def demo_fs_def) (simp add: demo_items_def)
qed

theorem lookup_is_find_in_listing_witness:
  "\<exists>block. build_leaf zero_hash demo_super demo_at demo_items = Ok block \<and>
     (\<exists>es. yields (demo_fs block) (read_dir (demo_fs block) 256) (Ok es) \<and>
        (\<forall>name. yields (demo_fs block) (lookup_entry (demo_fs block) 256 name)
           (ok_or NotFound (find (\<lambda>e. de_name e = name) es))))"
proof -
  obtain block where b: "build_leaf zero_hash demo_super demo_at demo_items = Ok block"
    "strictly_sorted (map fst demo_items)" by (rule demo_items_block)
  have "fs_hash (demo_fs block) = zero_hash" by (simp add: demo_fs_def)
  then show ?thesis
    using lookup_is_find_in_listing [OF demo_fs_stored(1) [OF b], of 256] demo_dir_consistent b by auto
qed

theorem listing_resolves_witness:
  "\<exists>block r. build_leaf zero_hash demo_super demo_at demo_items = Ok block \<and>
     yields (demo_fs block) (read_inode (demo_fs block) 257) r \<and>
     yields (demo_fs block) (lookup_path_bytes (demo_fs block) [47, 97]) r"
proof -
  obtain block where b: "build_leaf zero_hash demo_super demo_at demo_items = Ok block"
    "strictly_sorted (map fst demo_items)" by (rule demo_items_block)
  let ?fs = "demo_fs block"
  note t = demo_fs_stored(1) [OF b]
  have h: "fs_hash ?fs = zero_hash" by (simp add: demo_fs_def)
  obtain i where i: "inode_parse (demo_inode 0x41ED) 256 = Ok i" "in_mode i = 0x41ED" "in_ino i = 256"
    using demo_inode_parse [of "0x41ED" 256] by blast
  have root: "inode_in demo_items 256 = Ok i" and dir: "is_dir i"
    using i by (simp_all add: inode_in_def demo_items_def is_dir_def inode_file_type_def file_type_from_mode_def)
  have path: "yields ?fs (lookup_path_bytes ?fs []) (Ok i)"
    using yields_path [OF t, of "[]"] by (simp add: path_in_def path_components_def root tip_def)
  let ?e = "\<lparr>de_name = [97], de_ino = 257, de_ftype = Some Regular, de_location_type = INODE_ITEM_KEY, de_transid = 7\<rparr>"
  have "run_in demo_items 256 DIR_INDEX_KEY = [demo_entry]"
    by (simp add: run_in_def demo_items_def in_run_def)
  then have ls: "yields ?fs (read_dir ?fs (in_ino i)) (Ok [?e])"
    using yields_read_dir [OF t, of 256] by (simp add: i(3) entries_in_def root dir demo_entry_parse)
  have d: "dir_consistent (fs_hash ?fs) (inorder (ALeaf 1048576 demo_items)) (in_ino i)"
    by (simp add: h i(3) demo_dir_consistent)
  show ?thesis
    using listing_resolves [OF t path d dir ls, of ?e] b by (auto simp: is_inode_def)
qed

end
