(* ===== verification/BlockGroup.thy ===== *)
theory BlockGroup
  imports Filesystem
begin

text \<open>
  \<open>src/src/block_group.rs\<close>: the block groups, what is free in them and where new extents and tree
  blocks go. The runs of a group are what its items leave uncovered; the search for room places
  aligned extents in them, clear of the superblock copies. A search loop whose address would
  wrap need not end in the release profile; it carries a count of rounds, which starts at the
  number of values its only variable can take, so running out of rounds is not ending. The lemmas
  say that the runs are exact, that what is placed is free, aligned, disjoint and clear of the
  copies, and that the loops end.
\<close>

section \<open>Groups and runs\<close>

record block_group =
  bg_start :: u64
  bg_length :: u64
  bg_used :: u64
  bg_flags :: u64

definition bg_end :: "block_group \<Rightarrow> u64" where
  "bg_end g = saturating_add (bg_start g) (bg_length g)"

definition holds_metadata :: "block_group \<Rightarrow> bool" where
  "holds_metadata g \<longleftrightarrow> bg_flags g AND BG_METADATA \<noteq> 0"

definition holds_data :: "block_group \<Rightarrow> bool" where
  "holds_data g \<longleftrightarrow> bg_flags g AND BG_DATA \<noteq> 0"

definition bg_contains :: "block_group \<Rightarrow> u64 \<Rightarrow> bool" where
  "bg_contains g at \<longleftrightarrow> bg_start g \<le> at \<and> at < bg_end g"

definition bg_free :: "block_group \<Rightarrow> u64" where
  "bg_free g = saturating_sub (bg_length g) (bg_used g)"

datatype free_extent = FreeExtent (fe_start: u64) (fe_len: u64)

definition fe_end :: "free_extent \<Rightarrow> u64" where
  "fe_end e = saturating_add (fe_start e) (fe_len e)"

text \<open>The derived order: by start, then by length.\<close>

instantiation free_extent :: linorder
begin

definition less_free_extent :: "free_extent \<Rightarrow> free_extent \<Rightarrow> bool" where
  "less_free_extent a b \<longleftrightarrow> fe_start a < fe_start b \<or> fe_start a = fe_start b \<and> fe_len a < fe_len b"

definition less_eq_free_extent :: "free_extent \<Rightarrow> free_extent \<Rightarrow> bool" where
  "less_eq_free_extent a b \<longleftrightarrow> fe_start a < fe_start b \<or> fe_start a = fe_start b \<and> fe_len a \<le> fe_len b"

instance
  by standard (auto simp: less_free_extent_def less_eq_free_extent_def free_extent.expand)

end

abbreviation (input) EXTENT_ITEM :: u8 where "EXTENT_ITEM \<equiv> 168"
abbreviation (input) METADATA_ITEM :: u8 where "METADATA_ITEM \<equiv> 169"
abbreviation (input) BLOCK_GROUP_ITEM :: u8 where "BLOCK_GROUP_ITEM \<equiv> 192"
abbreviation (input) FREE_SPACE_INFO :: u8 where "FREE_SPACE_INFO \<equiv> 198"
abbreviation (input) FREE_SPACE_EXTENT :: u8 where "FREE_SPACE_EXTENT \<equiv> 199"
abbreviation (input) FREE_SPACE_BITMAP :: u8 where "FREE_SPACE_BITMAP \<equiv> 200"
abbreviation (input) EXTENT_TREE :: u64 where "EXTENT_TREE \<equiv> 2"
abbreviation (input) FREE_SPACE_TREE :: u64 where "FREE_SPACE_TREE \<equiv> 10"
abbreviation (input) BLOCK_GROUP_TREE :: u64 where "BLOCK_GROUP_TREE \<equiv> 11"

definition block_group_tree_id :: "filesystem \<Rightarrow> u64" where
  "block_group_tree_id fs = (if has_block_group_tree (fs_sb fs) then BLOCK_GROUP_TREE else EXTENT_TREE)"

definition block_group_visit :: "block_group list visitor" where
  "block_group_visit key data out =
     (if key_type key = BLOCK_GROUP_ITEM \<and> 24 \<le> length data then
        if checked_add (objectid key) (key_offset key) = None then
          (Err (BadSuperblock ''the block group ends past the address space''), out)
        else
          (Ok True, out @ [\<lparr>bg_start = objectid key, bg_length = key_offset key, bg_used = le64 data 0,
                            bg_flags = le64 data 16\<rparr>])
      else (Ok True, out))"

definition block_groups :: "filesystem \<Rightarrow> block_group list result" where
  "block_groups fs =
     try_in (tree_root fs (block_group_tree_id fs)) (\<lambda>root.
     try_in (scan (pool_tree fs) root block_group_visit []) (\<lambda>out. Ok (sort_key bg_start out)))"

text \<open>\<open>pos\<close> is the loop's variable and \<open>free\<close> what it has collected.\<close>

fun gaps_loop :: "block_group \<Rightarrow> free_extent list \<Rightarrow> u64 \<Rightarrow> free_extent list \<Rightarrow> free_extent list result" where
  "gaps_loop g [] pos free =
     Ok (if pos < bg_end g then free @ [FreeExtent pos (bg_end g - pos)] else free)"
| "gaps_loop g (e # taken) pos free =
     (if fe_start e < pos then
        Err (UnsupportedFeature ''the extent tree has an allocated run that overlaps another'')
      else
        gaps_loop g taken (fe_end e)
          (if pos < fe_start e then free @ [FreeExtent pos (fe_start e - pos)] else free))"

definition gaps :: "block_group \<Rightarrow> free_extent list \<Rightarrow> free_extent list result" where
  "gaps g taken = gaps_loop g taken (bg_start g) []"

text \<open>The length of the allocation a key describes: none for a back reference.\<close>

definition allocation_len :: "u64 \<Rightarrow> disk_key \<Rightarrow> u64 option" where
  "allocation_len nodesize key =
     (if key_type key = EXTENT_ITEM then Some (key_offset key)
      else if key_type key = METADATA_ITEM then Some nodesize
      else None)"

definition position :: "('a \<Rightarrow> bool) \<Rightarrow> 'a list \<Rightarrow> nat option" where
  "position P xs = find (\<lambda>i. P (xs ! i)) [0..<length xs]"

definition allocated_visit :: "block_group list \<Rightarrow> u64 \<Rightarrow> free_extent list list visitor" where
  "allocated_visit groups nodesize key data out =
     (case allocation_len nodesize key of
        None \<Rightarrow> (Ok True, out)
      | Some len \<Rightarrow>
          (case position (\<lambda>g. bg_start g \<le> objectid key \<and> objectid key < bg_end g) groups of
             None \<Rightarrow> (Ok True, out)
           | Some i \<Rightarrow>
               if checked_add (objectid key) len = None then
                 (Err (BadSuperblock ''the allocated run ends past the address space''), out)
               else (Ok True, out[i := out ! i @ [FreeExtent (objectid key) len]])))"

definition sb_node_bytes :: "filesystem \<Rightarrow> u64" where
  "sb_node_bytes fs = ucast (sb_nodesize (fs_sb fs))"

definition allocated_by_group :: "filesystem \<Rightarrow> block_group list \<Rightarrow> free_extent list list result" where
  "allocated_by_group fs groups =
     try_in (tree_root fs EXTENT_TREE) (\<lambda>root.
     scan (pool_tree fs) root (allocated_visit groups (sb_node_bytes fs)) (replicate (length groups) []))"

definition allocated_extents :: "filesystem \<Rightarrow> block_group \<Rightarrow> free_extent list result" where
  "allocated_extents fs g =
     try_in (allocated_by_group fs [g]) (\<lambda>out. Ok (if out = [] then [] else last out))"

definition free_extents :: "filesystem \<Rightarrow> block_group \<Rightarrow> free_extent list result" where
  "free_extents fs g = try_in (allocated_extents fs g) (\<lambda>taken. gaps g (sort_key fe_start taken))"

definition free_extents_by_group :: "filesystem \<Rightarrow> block_group list \<Rightarrow> free_extent list list result" where
  "free_extents_by_group fs groups =
     try_in (allocated_by_group fs groups) (\<lambda>taken.
     collect_results (\<lambda>(g, runs). gaps g (sort_key fe_start runs)) (zip groups taken))"

section \<open>The cache of free space\<close>

text \<open>
  One free-space bitmap: the loop over its sectors, with the run that is open and what is found so far.
\<close>

fun bitmap_runs :: "u64 \<Rightarrow> u64 \<Rightarrow> bytes \<Rightarrow> nat list \<Rightarrow> u64 option \<Rightarrow> free_extent list \<Rightarrow> u64 option \<times> free_extent list" where
  "bitmap_runs base sector data [] run out = (run, out)"
| "bitmap_runs base sector data (i # rest) run out =
     (let free = (data ! (i div 8)) AND push_bit (i mod 8) 1 \<noteq> 0;
          at = base + of_nat i * sector
      in case (free, run) of
           (True, None) \<Rightarrow> bitmap_runs base sector data rest (Some at) out
         | (False, Some from_at) \<Rightarrow> bitmap_runs base sector data rest None (out @ [FreeExtent from_at (at - from_at)])
         | _ \<Rightarrow> bitmap_runs base sector data rest run out)"

record space_scan =
  ss_info :: "(u32 \<times> u32) option"
  ss_out :: "free_extent list"
  ss_bad :: bool

definition bitmap_visit :: "u64 \<Rightarrow> disk_key \<Rightarrow> bytes \<Rightarrow> space_scan \<Rightarrow> bool result \<times> space_scan" where
  "bitmap_visit sector key data s =
     (if sector = 0 then (Err div_by_zero, s)
      else
        let sectors = unat (key_offset key div sector) in
        if length data * 8 < sectors then (Ok False, s\<lparr>ss_bad := True\<rparr>)
        else
          let (run, out) = bitmap_runs (objectid key) sector data [0..<sectors] None (ss_out s);
              out = (case run of
                       Some from_at \<Rightarrow> out @ [FreeExtent from_at (objectid key + key_offset key - from_at)]
                     | None \<Rightarrow> out)
          in (Ok True, s\<lparr>ss_out := out\<rparr>))"

definition free_space_visit :: "block_group \<Rightarrow> u64 \<Rightarrow> space_scan visitor" where
  "free_space_visit g sector key data s =
     (if objectid key < bg_start g \<or> bg_end g \<le> objectid key then (Ok True, s)
      else if key_type key = FREE_SPACE_INFO \<and> 8 \<le> length data then
        (Ok True, s\<lparr>ss_info := Some (le32 data 0, le32 data 4)\<rparr>)
      else if key_type key = FREE_SPACE_EXTENT then
        (Ok True, s\<lparr>ss_out := ss_out s @ [FreeExtent (objectid key) (key_offset key)]\<rparr>)
      else if key_type key = FREE_SPACE_BITMAP then bitmap_visit sector key data s
      else (Ok True, s))"

text \<open>\<open>out\<close> is kept with its last run first.\<close>

fun merge_loop :: "free_extent list \<Rightarrow> free_extent list \<Rightarrow> free_extent list" where
  "merge_loop [] out = rev out"
| "merge_loop (run # runs) out =
     (case out of
        prev # earlier \<Rightarrow>
          if fe_end prev = fe_start run
          then merge_loop runs (FreeExtent (fe_start prev) (fe_len prev + fe_len run) # earlier)
          else merge_loop runs (run # out)
      | [] \<Rightarrow> merge_loop runs (run # out))"

definition merge_adjacent :: "free_extent list \<Rightarrow> free_extent list" where
  "merge_adjacent runs = merge_loop runs []"

definition cached_free_extents :: "filesystem \<Rightarrow> block_group \<Rightarrow> free_extent list option result" where
  "cached_free_extents fs g =
     (case tree_root fs FREE_SPACE_TREE of
        Inl _ \<Rightarrow> Ok None
      | Inr root \<Rightarrow>
          try_in (scan (pool_tree fs) root (free_space_visit g (ucast (sb_sectorsize (fs_sb fs))))
                   \<lparr>ss_info = None, ss_out = [], ss_bad = False\<rparr>) (\<lambda>s.
          if ss_bad s then Err (UnsupportedFeature ''a free-space bitmap holds too few bits'')
          else if ss_info s = None then
            Err (UnsupportedFeature ''the free-space tree holds no info item for the block group'')
          else Ok (Some (merge_adjacent (sort (ss_out s))))))"

section \<open>Superblock copies\<close>

abbreviation (input) ROUNDS :: nat where "ROUNDS \<equiv> 18446744073709551616"

abbreviation (input) never_ends :: error where "never_ends \<equiv> Panic ''the loop does not end''"

fun any_in :: "('a \<Rightarrow> bool result) \<Rightarrow> 'a list \<Rightarrow> bool result" where
  "any_in f [] = Ok False"
| "any_in f (x # xs) = try_in (f x) (\<lambda>hit. if hit then Ok True else any_in f xs)"

text \<open>Whether \<open>len\<close> bytes at the mapped place share a row of the stripe with a copy.\<close>

definition meets_copy :: "u64 \<Rightarrow> mapping \<Rightarrow> u64 \<Rightarrow> stripe \<Rightarrow> bool" where
  "meets_copy row m len st \<longleftrightarrow>
     list_ex (\<lambda>copy. let start = st_offset st + (copy - st_offset st) div row * row
                     in mp_physical m < start + row \<and> start < mp_physical m + len)
       (filter (\<lambda>copy. st_offset st \<le> copy) SUPER_OFFSETS)"

definition row_bytes :: "chunk \<Rightarrow> u64" where
  "row_bytes c = max (ch_stripe_len c) 1"

definition on_superblock_copy :: "filesystem \<Rightarrow> u64 \<Rightarrow> u64 \<Rightarrow> bool result" where
  "on_superblock_copy fs at len =
     try_in (ok_or (UnmappedLogical at) (chunk_for (fs_map fs) at)) (\<lambda>c.
     try_in (mirrors_at (fs_map fs) at) (\<lambda>mirrors.
     any_in (\<lambda>mirror.
       try_in (map_mirror (fs_map fs) at mirror) (\<lambda>m.
       Ok (list_ex (meets_copy (row_bytes c) m len)
             (filter (\<lambda>st. st_devid st = mp_devid m \<and> st_offset st \<le> mp_physical m) (ch_stripes c)))))
       [0..<mirrors]))"

fun row_in_loop :: "filesystem \<Rightarrow> chunk \<Rightarrow> u64 \<Rightarrow> nat \<Rightarrow> u64 \<Rightarrow> u64 option result" where
  "row_in_loop fs c finish n pos =
     (if n = 0 then Err never_ends
      else if pos < finish then
        let row = row_bytes c;
            row_end = min (ch_logical c + (pos - ch_logical c) div row * row + row) finish
        in try_in (on_superblock_copy fs pos (row_end - pos)) (\<lambda>hit.
           if hit then Ok (Some row_end) else row_in_loop fs c finish (n - 1) row_end)
      else Ok None)"

declare row_in_loop.simps [simp del]

definition superblock_row_in :: "filesystem \<Rightarrow> u64 \<Rightarrow> u64 \<Rightarrow> u64 option result" where
  "superblock_row_in fs at len =
     try_in (ok_or (UnmappedLogical at) (chunk_for (fs_map fs) at)) (\<lambda>c.
     row_in_loop fs c (saturating_add at len) ROUNDS at)"

section \<open>Finding room\<close>

definition block_group_is_writable :: "filesystem \<Rightarrow> block_group \<Rightarrow> bool" where
  "block_group_is_writable fs g =
     (case chunk_for (fs_map fs) (bg_start g) of
        None \<Rightarrow> False
      | Some c \<Rightarrow>
          list_all (\<lambda>st. fs_write_pool fs = [] \<or> map_of (fs_write_pool fs) (st_devid st) = Some True) (ch_stripes c))"

definition on_leaving_device :: "filesystem \<Rightarrow> block_group \<Rightarrow> bool" where
  "on_leaving_device fs g =
     (case fs_leaving fs of
        None \<Rightarrow> False
      | Some devid \<Rightarrow>
          (case chunk_for (fs_map fs) (bg_start g) of
             None \<Rightarrow> False
           | Some c \<Rightarrow> list_ex (\<lambda>st. st_devid st = devid) (ch_stripes c)))"

definition usable_in :: "free_extent \<Rightarrow> u64 \<Rightarrow> u64" where
  "usable_in run nodesize = saturating_sub (fe_end run) (next_multiple_of (fe_start run) nodesize)"

definition place_in_run :: "free_extent \<Rightarrow> u64 \<Rightarrow> u64 option" where
  "place_in_run run nodesize =
     (let start = next_multiple_of (fe_start run) nodesize in
      if nodesize \<le> saturating_sub (fe_end run) start then Some start else None)"

text \<open>The loop that steps a block at a time through a run.\<close>

fun block_in_run :: "filesystem \<Rightarrow> u64 \<Rightarrow> u64 \<Rightarrow> nat \<Rightarrow> u64 \<Rightarrow> u64 option result" where
  "block_in_run fs nodesize finish n at =
     (if n = 0 then Err never_ends
      else if at + nodesize \<le> finish then
        try_in (on_superblock_copy fs at nodesize) (\<lambda>hit.
        if \<not> hit then Ok (Some at) else block_in_run fs nodesize finish (n - 1) (at + nodesize))
      else Ok None)"

declare block_in_run.simps [simp del]

text \<open>The longest usable run is only named in the final message, so it is not carried along.\<close>

fun block_in_runs :: "filesystem \<Rightarrow> u64 \<Rightarrow> free_extent list \<Rightarrow> u64 result" where
  "block_in_runs fs nodesize [] = Err (UnsupportedFeature ''no metadata block group has room for a tree block'')"
| "block_in_runs fs nodesize (run # runs) =
     (case place_in_run run nodesize of
        None \<Rightarrow> block_in_runs fs nodesize runs
      | Some at \<Rightarrow>
          try_in (block_in_run fs nodesize (fe_end run) ROUNDS at) (\<lambda>found.
          case found of Some at \<Rightarrow> Ok at | None \<Rightarrow> block_in_runs fs nodesize runs))"

definition metadata_groups :: "filesystem \<Rightarrow> block_group list \<Rightarrow> block_group list" where
  "metadata_groups fs groups =
     sort_key (on_leaving_device fs)
       (filter (\<lambda>g. holds_metadata g \<and> fs_emptying fs \<noteq> Some (bg_start g) \<and> block_group_is_writable fs g) groups)"

definition find_metadata_block :: "filesystem \<Rightarrow> u64 result" where
  "find_metadata_block fs =
     try_in (block_groups fs) (\<lambda>groups.
     try_in (free_extents_by_group fs (metadata_groups fs groups)) (\<lambda>runs.
     block_in_runs fs (sb_node_bytes fs) (concat runs)))"

fun extent_in_run :: "filesystem \<Rightarrow> u64 \<Rightarrow> u64 \<Rightarrow> u64 \<Rightarrow> nat \<Rightarrow> u64 \<Rightarrow> u64 option result" where
  "extent_in_run fs sector len finish n at =
     (if n = 0 then Err never_ends
      else if (case checked_add at len of Some e \<Rightarrow> e \<le> finish | None \<Rightarrow> False) then
        try_in (superblock_row_in fs at len) (\<lambda>hit.
        case hit of
          Some row_end \<Rightarrow> extent_in_run fs sector len finish (n - 1) (next_multiple_of row_end sector)
        | None \<Rightarrow> Ok (Some at))
      else Ok None)"

declare extent_in_run.simps [simp del]

text \<open>The loop over the runs; a run that is used is replaced by what is left either side.\<close>

fun extent_in_runs :: "filesystem \<Rightarrow> u64 \<Rightarrow> u64 \<Rightarrow> free_extent list \<Rightarrow> (u64 \<times> free_extent list) option result" where
  "extent_in_runs fs sector len [] = Ok None"
| "extent_in_runs fs sector len (run # runs) =
     try_in (extent_in_run fs sector len (fe_end run) ROUNDS (next_multiple_of (fe_start run) sector)) (\<lambda>found.
     case found of
       Some at \<Rightarrow>
         Ok (Some (at, FreeExtent (fe_start run) (at - fe_start run) #
                       FreeExtent (at + len) (fe_end run - (at + len)) # runs))
     | None \<Rightarrow>
         try_in (extent_in_runs fs sector len runs) (\<lambda>r. Ok (map_option (\<lambda>(at, rest). (at, run # rest)) r)))"

fun place_extents :: "filesystem \<Rightarrow> u64 \<Rightarrow> u64 list \<Rightarrow> free_extent list \<Rightarrow> u64 list result" where
  "place_extents fs sector [] runs = Ok []"
| "place_extents fs sector (len # lens) runs =
     (if len = 0 \<or> len mod sector \<noteq> 0 then
        Err (UnsupportedFeature ''a data extent is not a whole number of sectors'')
      else
        try_in (extent_in_runs fs sector len runs) (\<lambda>found.
        case found of
          None \<Rightarrow> Err (UnsupportedFeature ''no data block group has enough contiguous free bytes'')
        | Some (at, runs) \<Rightarrow> try_in (place_extents fs sector lens runs) (\<lambda>out. Ok (at # out))))"

definition find_extents_in :: "filesystem \<Rightarrow> block_group list \<Rightarrow> u64 list \<Rightarrow> u64 list result" where
  "find_extents_in fs groups lens =
     try_in (free_extents_by_group fs (filter (block_group_is_writable fs) groups)) (\<lambda>runs.
     place_extents fs (max (ucast (sb_sectorsize (fs_sb fs))) 1) lens (concat runs))"

definition find_data_extents :: "filesystem \<Rightarrow> u64 list \<Rightarrow> u64 list result" where
  "find_data_extents fs lens =
     try_in (block_groups fs) (\<lambda>groups.
     find_extents_in fs (filter (\<lambda>g. holds_data g \<and> \<not> holds_metadata g) groups) lens)"


section \<open>The bytes of runs\<close>

definition run_bytes :: "free_extent \<Rightarrow> nat set" where
  "run_bytes e = {unat (fe_start e) ..< unat (fe_start e) + unat (fe_len e)}"

definition cells :: "free_extent list \<Rightarrow> nat set" where
  "cells rs = (\<Union>e \<in> set rs. run_bytes e)"

definition wf_run :: "free_extent \<Rightarrow> bool" where
  "wf_run e \<longleftrightarrow> unat (fe_start e) + unat (fe_len e) < 2 ^ 64"

definition group_bytes :: "block_group \<Rightarrow> nat set" where
  "group_bytes g = {unat (bg_start g) ..< unat (bg_end g)}"

definition runs_apart :: "free_extent list \<Rightarrow> bool" where
  "runs_apart rs \<longleftrightarrow> sorted_wrt (\<lambda>a b. run_bytes a \<inter> run_bytes b = {}) rs"

lemma cells_simps [simp]: "cells [] = {}" "cells (e # rs) = run_bytes e \<union> cells rs"
  "cells (rs @ qs) = cells rs \<union> cells qs"
  by (auto simp: cells_def)

lemma runs_apart_Cons: "runs_apart (e # rs) \<longleftrightarrow> run_bytes e \<inter> cells rs = {} \<and> runs_apart rs"
  by (auto simp: runs_apart_def cells_def)

lemma unat_fe_end: "wf_run e \<Longrightarrow> unat (fe_end e) = unat (fe_start e) + unat (fe_len e)"
  by (simp add: wf_run_def fe_end_def unat_saturating_add)

lemma run_between:
  assumes "a \<le> b"
  shows "run_bytes (FreeExtent a (b - a)) = {unat a ..< unat b}" and "wf_run (FreeExtent a (b - a))"
    and "fe_end (FreeExtent a (b - a)) = b"
proof -
  have s: "unat a + unat (b - a) = unat b"
    using assms by (simp add: unat_sub_le word_le_nat_alt)
  show w: "wf_run (FreeExtent a (b - a))" using s unat_u64 [of b] by (simp add: wf_run_def)
  show "run_bytes (FreeExtent a (b - a)) = {unat a ..< unat b}" by (simp add: run_bytes_def s)
  show "fe_end (FreeExtent a (b - a)) = b"
    using unat_fe_end [OF w] s by (simp add: word_unat_eq_iff)
qed

text \<open>What a loop over taken runs has added when it succeeds.\<close>

lemma gaps_loop_Ok:
  assumes "gaps_loop g taken pos free = Ok out"
    and "\<forall>e \<in> set taken. wf_run e \<and> fe_start e < bg_end g"
  shows "\<exists>new. out = free @ new \<and> cells new = {unat pos ..< unat (bg_end g)} - cells taken \<and> runs_apart new \<and>
    (\<forall>r \<in> set new. wf_run r \<and> 0 < unat (fe_len r) \<and> pos \<le> fe_start r \<and> fe_end r \<le> bg_end g) \<and>
    (\<forall>e \<in> set taken. pos \<le> fe_start e)"
  using assms
proof (induction g taken pos free rule: gaps_loop.induct)
  case (1 g pos free)
  show ?case
  proof (cases "pos < bg_end g")
    case True
    then have "pos \<le> bg_end g" by simp
    note r = run_between [OF this]
    have "0 < unat (bg_end g - pos)" using True by (simp add: unat_gt_0)
    then show ?thesis
      using 1 True r by (auto simp: runs_apart_def)
  next
    case False
    then have "unat (bg_end g) \<le> unat pos" by (simp add: word_le_nat_alt not_less)
    then show ?thesis using 1 False by (auto simp: runs_apart_def)
  qed
next
  case (2 g e taken pos free)
  have pe: "pos \<le> fe_start e" and e: "wf_run e" "fe_start e < bg_end g"
    using 2(2,3) by (auto split: if_splits)
  let ?free = "if pos < fe_start e then free @ [FreeExtent pos (fe_start e - pos)] else free"
  have rec: "gaps_loop g taken (fe_end e) ?free = Ok out"
    using 2(2) pe by (simp add: not_less [symmetric] del: not_less)
  obtain new where new: "out = ?free @ new" "cells new = {unat (fe_end e) ..< unat (bg_end g)} - cells taken"
    "runs_apart new" "\<forall>r \<in> set new. wf_run r \<and> 0 < unat (fe_len r) \<and> fe_end e \<le> fe_start r \<and> fe_end r \<le> bg_end g"
    "\<forall>x \<in> set taken. fe_end e \<le> fe_start x"
    using 2(1) [OF _ rec] pe 2(3) by (auto simp: not_less)
  have ee: "unat (fe_end e) = unat (fe_start e) + unat (fe_len e)" using unat_fe_end [OF e(1)] .
  then have le: "fe_start e \<le> fe_end e" by (simp add: word_le_nat_alt)
  have low: "\<forall>x \<in> cells taken. unat (fe_end e) \<le> x"
    using new(5) by (auto simp: cells_def run_bytes_def word_le_nat_alt intro: order_trans)
  have re: "run_bytes e = {unat (fe_start e) ..< unat (fe_end e)}" by (simp add: run_bytes_def ee)
  have se: "unat (fe_start e) < unat (bg_end g)" using e(2) by (simp add: word_less_nat_alt)
  have pn: "unat pos \<le> unat (fe_start e)" using pe by (simp add: word_le_nat_alt)
  have split: "{unat pos ..< unat (bg_end g)} - (run_bytes e \<union> cells taken) =
      {unat pos ..< unat (fe_start e)} \<union> ({unat (fe_end e) ..< unat (bg_end g)} - cells taken)"
    using low se pn ee by (auto simp: re)
  show ?case
  proof (cases "pos < fe_start e")
    case True
    let ?r = "FreeExtent pos (fe_start e - pos)"
    note r = run_between [OF pe]
    have l: "0 < unat (fe_start e - pos)" using True by (simp add: unat_gt_0)
    have "run_bytes ?r \<inter> cells new = {}"
      using new(2) ee by (auto simp: r(1))
    then have "runs_apart (?r # new)" using new(3) by (simp add: runs_apart_Cons)
    moreover have "cells (?r # new) = {unat pos ..< unat (bg_end g)} - cells (e # taken)"
      using split new(2) by (simp add: r(1))
    moreover have "\<forall>x \<in> set (?r # new). wf_run x \<and> 0 < unat (fe_len x) \<and> pos \<le> fe_start x \<and> fe_end x \<le> bg_end g"
      using new(4) r(2,3) l e(2) pe le by (auto intro: order_trans less_imp_le)
    ultimately show ?thesis
      using new(1,5) True pe le by (intro exI [of _ "?r # new"]) (auto intro: order_trans)
  next
    case False
    then have "pos = fe_start e" using pe by simp
    moreover have "cells new = {unat pos ..< unat (bg_end g)} - cells (e # taken)"
      using split new(2) \<open>pos = fe_start e\<close> by simp
    ultimately show ?thesis
      using new le False pe by (intro exI [of _ new]) (auto intro: order_trans)
  qed
qed

lemma gaps_Ok:
  assumes "gaps g taken = Ok out" and "\<forall>e \<in> set taken. wf_run e \<and> fe_start e < bg_end g"
  shows "cells out = group_bytes g - cells taken" and "runs_apart out"
    and "\<forall>r \<in> set out. wf_run r \<and> 0 < unat (fe_len r) \<and> bg_start g \<le> fe_start r \<and> fe_end r \<le> bg_end g"
    and "\<forall>e \<in> set taken. bg_start g \<le> fe_start e"
  using gaps_loop_Ok [OF assms(1) [unfolded gaps_def] assms(2)] by (auto simp: group_bytes_def)

lemma gaps_loop_is_ok:
  assumes "\<forall>e \<in> set taken. wf_run e"
  shows "is_ok (gaps_loop g taken pos free) \<longleftrightarrow>
     sorted_wrt (\<lambda>a b. fe_end a \<le> fe_start b) taken \<and> (\<forall>e \<in> set taken. pos \<le> fe_start e)"
  using assms
proof (induction g taken pos free rule: gaps_loop.induct)
  case (2 g e taken pos free)
  have "fe_start e \<le> fe_end e"
    using 2 unat_fe_end [of e] by (simp add: word_le_nat_alt)
  then show ?case
    using 2 by (auto simp: not_less intro: order_trans)
qed simp

lemma gaps_is_ok:
  "\<forall>e \<in> set taken. wf_run e \<Longrightarrow>
   is_ok (gaps g taken) \<longleftrightarrow>
     sorted_wrt (\<lambda>a b. fe_end a \<le> fe_start b) taken \<and> (\<forall>e \<in> set taken. bg_start g \<le> fe_start e)"
  unfolding gaps_def by (rule gaps_loop_is_ok)

section \<open>What the items of the extent tree leave free\<close>

text \<open>The bytes that the items filed inside a group allocate, and what is left of the group.\<close>

definition allocated_bytes :: "leaf_item list \<Rightarrow> u64 \<Rightarrow> block_group \<Rightarrow> nat set" where
  "allocated_bytes kvs nodesize g =
     {x. \<exists>(k, d) \<in> set kvs. unat (objectid k) \<in> group_bytes g \<and>
        (case allocation_len nodesize k of
           None \<Rightarrow> False
         | Some len \<Rightarrow> x \<in> {unat (objectid k) ..< unat (objectid k) + unat len})}"

definition free_bytes :: "leaf_item list \<Rightarrow> u64 \<Rightarrow> block_group \<Rightarrow> nat set" where
  "free_bytes kvs nodesize g = group_bytes g - allocated_bytes kvs nodesize g"

definition groups_apart :: "block_group list \<Rightarrow> bool" where
  "groups_apart groups \<longleftrightarrow> sorted_wrt (\<lambda>a b. group_bytes a \<inter> group_bytes b = {}) groups"

lemma groups_apart_nth:
  "groups_apart groups \<Longrightarrow> i < length groups \<Longrightarrow> j < length groups \<Longrightarrow> i \<noteq> j \<Longrightarrow>
   group_bytes (groups ! i) \<inter> group_bytes (groups ! j) = {}"
  by (auto simp: groups_apart_def sorted_wrt_iff_nth_less) (metis disjoint_iff linorder_neqE_nat)

lemma in_group: "unat at \<in> group_bytes g \<longleftrightarrow> bg_start g \<le> at \<and> at < bg_end g"
  by (simp add: group_bytes_def word_le_nat_alt word_less_nat_alt)

lemma position_Some:
  "position P xs = Some i \<longleftrightarrow> i < length xs \<and> P (xs ! i) \<and> (\<forall>j < i. \<not> P (xs ! j))"
  by (auto simp: position_def find_Some_iff)

lemma position_None: "position P xs = None \<longleftrightarrow> (\<forall>i < length xs. \<not> P (xs ! i))"
  by (auto simp: position_def find_None_iff)

lemma position_group:
  assumes "groups_apart groups" and "i < length groups"
  shows "position (\<lambda>g. bg_start g \<le> at \<and> at < bg_end g) groups = Some i \<longleftrightarrow> unat at \<in> group_bytes (groups ! i)"
proof -
  have "\<not> unat at \<in> group_bytes (groups ! j)" if "unat at \<in> group_bytes (groups ! i)" "j < i" for j
    using groups_apart_nth [OF assms(1), of i j] that assms(2) by auto
  then show ?thesis
    using assms(2) by (auto simp: position_Some in_group)
qed

definition allocs_of :: "leaf_item list \<Rightarrow> u64 \<Rightarrow> block_group \<Rightarrow> free_extent list" where
  "allocs_of kvs nodesize g =
     concat (map (\<lambda>(k, d). case allocation_len nodesize k of
         Some len \<Rightarrow> if unat (objectid k) \<in> group_bytes g then [FreeExtent (objectid k) len] else []
       | None \<Rightarrow> []) kvs)"

lemma allocs_of_cells: "cells (allocs_of kvs ns g) = allocated_bytes kvs ns g"
proof (induction kvs)
  case (Cons kv kvs)
  obtain k d where kv: "kv = (k, d)" by fastforce
  have "allocated_bytes (kv # kvs) ns g = allocated_bytes [kv] ns g \<union> allocated_bytes kvs ns g"
    by (auto simp: allocated_bytes_def)
  moreover have "cells (allocs_of [kv] ns g) = allocated_bytes [kv] ns g"
    by (auto simp: kv allocs_of_def allocated_bytes_def run_bytes_def split: option.splits)
  moreover have "allocs_of (kv # kvs) ns g = allocs_of [kv] ns g @ allocs_of kvs ns g"
    by (simp add: allocs_of_def)
  ultimately show ?case using Cons by simp
qed (simp add: allocs_of_def allocated_bytes_def)

lemma allocs_of_start: "e \<in> set (allocs_of kvs ns g) \<Longrightarrow> unat (fe_start e) \<in> group_bytes g"
  by (auto simp: allocs_of_def split: option.splits if_splits)

lemma checked_None: "checked_add a b \<noteq> None \<longleftrightarrow> wf_run (FreeExtent a b)"
  by (auto simp: checked_add_def wf_run_def)

lemma visit_allocated:
  assumes "groups_apart groups" and "length out0 = length groups"
    and "visit_list (allocated_visit groups ns) kvs out0 = (r, out)" and "is_ok r"
  shows "r = Ok True \<and> length out = length groups \<and>
    (\<forall>i < length groups. out ! i = out0 ! i @ allocs_of kvs ns (groups ! i) \<and>
       (\<forall>e \<in> set (allocs_of kvs ns (groups ! i)). wf_run e))"
  using assms(2-4)
proof (induction kvs arbitrary: out0)
  case Nil
  then show ?case by (auto simp: allocs_of_def)
next
  case (Cons kv kvs)
  obtain k d where kv: "kv = (k, d)" by fastforce
  let ?P = "\<lambda>g. bg_start g \<le> objectid k \<and> objectid k < bg_end g"
  show ?case
  proof (cases "allocation_len ns k")
    case None
    then have "allocated_visit groups ns k d out0 = (Ok True, out0)" by (simp add: allocated_visit_def)
    then show ?thesis
      using Cons None by (simp add: kv allocs_of_def)
  next
    case (Some len)
    note al = Some
    show ?thesis
    proof (cases "position ?P groups")
      case None
      then have "unat (objectid k) \<notin> group_bytes (groups ! i)" if "i < length groups" for i
        using that by (simp add: position_None in_group)
      moreover have "allocated_visit groups ns k d out0 = (Ok True, out0)" using al None by (simp add: allocated_visit_def)
      ultimately show ?thesis
        using Cons al by (simp add: kv allocs_of_def)
    next
      case (Some i)
      have i: "i < length groups" using Some by (simp add: position_Some)
      have at: "unat (objectid k) \<in> group_bytes (groups ! j) \<longleftrightarrow> j = i" if "j < length groups" for j
        using position_group [OF assms(1) that, of "objectid k"] Some by auto
      let ?out = "out0[i := out0 ! i @ [FreeExtent (objectid k) len]]"
      have step: "allocated_visit groups ns k d out0 =
          (if checked_add (objectid k) len = None
           then (Err (BadSuperblock ''the allocated run ends past the address space''), out0) else (Ok True, ?out))"
        using al Some by (simp add: allocated_visit_def)
      have ok: "checked_add (objectid k) len \<noteq> None"
        using Cons.prems(2,3) step by (auto simp: kv split: if_splits)
      have "visit_list (allocated_visit groups ns) kvs ?out = (r, out)"
        using Cons.prems(2) step ok by (simp add: kv)
      then have IH: "r = Ok True \<and> length out = length groups \<and>
          (\<forall>j < length groups. out ! j = ?out ! j @ allocs_of kvs ns (groups ! j) \<and>
             (\<forall>e \<in> set (allocs_of kvs ns (groups ! j)). wf_run e))"
        using Cons.IH [of ?out] Cons.prems by simp
      have "allocs_of ((k, d) # kvs) ns (groups ! j) =
          (if j = i then [FreeExtent (objectid k) len] else []) @ allocs_of kvs ns (groups ! j)" if "j < length groups" for j
        using at [OF that] al by (simp add: allocs_of_def)
      then show ?thesis
        using IH i Cons.prems(1) checked_None [of "objectid k" len] ok by (auto simp: kv nth_list_update)
    qed
  qed
qed

text \<open>The extent tree of a filesystem: its root item leads to a stored tree.\<close>

definition extent_tree_holds :: "filesystem \<Rightarrow> atree \<Rightarrow> bool" where
  "extent_tree_holds fs t \<longleftrightarrow>
     tree_root fs EXTENT_TREE = Ok (addr t) \<and> sorted_tree t \<and>
     (\<exists>lvl. stored (read_uncached (pool_tree fs :: unit tree)) None lvl t)"

lemma scan_stored:
  assumes "stored (read_uncached (pool_tree fs :: unit tree)) None lvl t" and "sorted_tree t"
  shows "scan (pool_tree fs) (addr t) visit v =
    (let (r, v') = visit_list visit (inorder t) v in try_in r (\<lambda>_. Ok v'))"
proof -
  note walk = uncached.run_walk_stored [of "pool_tree fs :: unit tree", folded pool_tree_uncached, OF assms(1)]
  have "run_walk (pool_tree fs :: unit tree) (addr t) None visit () v =
    (map_sum id (\<lambda>_. ()) (fst (visit_list visit (from_key None (inorder t)) v)), (),
     snd (visit_list visit (from_key None (inorder t)) v))"
    using walk [where start = None and visit = visit and v = v] assms(2) by (simp add: sorted_tree_def)
  then show ?thesis
    by (cases "visit_list visit (inorder t) v"; cases "fst (visit_list visit (inorder t) v)")
      (auto simp: scan_def for_each_def from_key_def)
qed

lemma allocated_by_group_Ok:
  assumes "extent_tree_holds fs t" and "groups_apart groups" and "allocated_by_group fs groups = Ok out"
  shows "length out = length groups \<and>
    (\<forall>i < length groups. out ! i = allocs_of (inorder t) (sb_node_bytes fs) (groups ! i) \<and>
       (\<forall>e \<in> set (out ! i). wf_run e \<and> fe_start e < bg_end (groups ! i)))"
proof -
  let ?v = "visit_list (allocated_visit groups (sb_node_bytes fs)) (inorder t) (replicate (length groups) [])"
  obtain lvl where t: "tree_root fs EXTENT_TREE = Ok (addr t)" "sorted_tree t"
    "stored (read_uncached (pool_tree fs :: unit tree)) None lvl t"
    using assms(1) by (auto simp: extent_tree_holds_def)
  obtain r where r: "?v = (r, out)" "is_ok r"
    using assms(3) t(1) by (auto simp: allocated_by_group_def scan_stored [OF t(3,2)] try_in_eq_Ok is_ok_iff
        split: prod.splits)
  show ?thesis
    using visit_allocated [OF assms(2) _ r] allocs_of_start by (fastforce simp: in_group)
qed

lemma free_by_group_Ok:
  assumes "extent_tree_holds fs t" and "groups_apart groups" and "free_extents_by_group fs groups = Ok frees"
  shows "length frees = length groups \<and>
    (\<forall>i < length groups. cells (frees ! i) = free_bytes (inorder t) (sb_node_bytes fs) (groups ! i) \<and>
       runs_apart (frees ! i) \<and>
       (\<forall>r \<in> set (frees ! i). wf_run r \<and> 0 < unat (fe_len r) \<and> fe_end r \<le> bg_end (groups ! i)))"
proof -
  obtain taken where tk: "allocated_by_group fs groups = Ok taken"
    "list_all2 (\<lambda>x f. (case x of (g, runs) \<Rightarrow> gaps g (sort_key fe_start runs)) = Ok f) (zip groups taken) frees"
    using assms(3) unfolding free_extents_by_group_def try_in_eq_Ok collect_results_eq_Ok by blast
  note al = allocated_by_group_Ok [OF assms(1,2) tk(1)]
  have len: "length frees = length groups"
    using list_all2_lengthD [OF tk(2)] al by simp
  show ?thesis
  proof (intro conjI allI impI)
    show "length frees = length groups" by (rule len)
    fix i
    assume i: "i < length groups"
    have g: "gaps (groups ! i) (sort_key fe_start (taken ! i)) = Ok (frees ! i)"
      using list_all2_nthD2 [OF tk(2), of i] i len al by simp
    have w: "\<forall>e \<in> set (sort_key fe_start (taken ! i)). wf_run e \<and> fe_start e < bg_end (groups ! i)"
      using al i by simp
    have "cells (sort_key fe_start (taken ! i)) = cells (taken ! i)" by (simp add: cells_def)
    then show "cells (frees ! i) = free_bytes (inorder t) (sb_node_bytes fs) (groups ! i)"
      using gaps_Ok(1) [OF g w] al i allocs_of_cells by (simp add: free_bytes_def)
    show "runs_apart (frees ! i)" by (rule gaps_Ok(2) [OF g w])
    show "\<forall>r \<in> set (frees ! i). wf_run r \<and> 0 < unat (fe_len r) \<and> fe_end r \<le> bg_end (groups ! i)"
      using gaps_Ok(3) [OF g w] by blast
  qed
qed

text \<open>
  C31. The free runs are exact: when the walk over the extent tree succeeds, what is reported free in each
  group is every byte of the group that no extent or tree block filed in it covers, and nothing
  else, as runs that are not empty and do not overlap.
\<close>

theorem free_extents_exact:
  assumes "extent_tree_holds fs t" and "groups_apart groups" and "free_extents_by_group fs groups = Ok frees"
    and "i < length groups"
  shows "cells (frees ! i) = free_bytes (inorder t) (sb_node_bytes fs) (groups ! i) \<and>
    runs_apart (frees ! i) \<and> (\<forall>r \<in> set (frees ! i). 0 < unat (fe_len r))"
  using free_by_group_Ok [OF assms(1-3)] assms(4) by blast


section \<open>Clear of the superblock copies\<close>

text \<open>
  Chunks as \<open>mkfs\<close> and the kernel lay them out: addresses in the lower half of the address space, and
  stripes and rows that are whole numbers of 4096-byte blocks, the size of a superblock.
\<close>

definition laid_out :: "chunk \<Rightarrow> bool" where
  "laid_out c \<longleftrightarrow>
     unat (ch_logical c) + clen c \<le> 2 ^ 63 \<and> slen c \<le> 2 ^ 62 \<and> 4096 dvd slen c \<and>
     (\<forall>st \<in> set (ch_stripes c). 4096 dvd unat (st_offset st) \<and>
        (\<forall>p. chunk_profile_of c = Ok p \<longrightarrow> unat (st_offset st) + span c p \<le> 2 ^ 63))"

definition map_laid_out :: "chunk_table \<Rightarrow> bool" where
  "map_laid_out cs \<longleftrightarrow> cm_inv cs \<and> (\<forall>c \<in> set cs. laid_out c)"

definition clear_of_copies :: "chunk_table \<Rightarrow> nat \<Rightarrow> bool" where
  "clear_of_copies cs x \<longleftrightarrow>
     (\<forall>m r copy. map_mirror cs (of_nat x) m = Ok r \<longrightarrow> copy \<in> set SUPER_OFFSETS \<longrightarrow>
        \<not> (unat copy \<le> unat (mp_physical r) \<and> unat (mp_physical r) < unat copy + 4096))"

lemma any_in_False: "any_in f xs = Ok False \<longleftrightarrow> (\<forall>x \<in> set xs. f x = Ok False)"
  by (induction xs) (auto simp: try_in_eq_Ok split: if_splits)

lemma on_superblock_copy_False:
  assumes "on_superblock_copy fs at len = Ok False" and "map_mirror (fs_map fs) at m = Ok r"
    and "cm_inv (fs_map fs)" and "chunk_for (fs_map fs) at = Some c"
  shows "\<forall>st \<in> set (ch_stripes c). st_devid st = mp_devid r \<longrightarrow> st_offset st \<le> mp_physical r \<longrightarrow>
     \<not> meets_copy (row_bytes c) r len st"
proof -
  have c: "wf_chunk c" using assms(3,4) by (auto simp: chunk_for_iff cm_inv_def)
  have "chunk_map_mirror c at m = Ok r" using assms(2,4) by (simp add: map_mirror_def)
  then have "m < num_mirrors c"
    using num_mirrors_of [OF c] by (metis chunk_map_mirror_dom [OF c])
  then have "try_in (map_mirror (fs_map fs) at m) (\<lambda>r. Ok (list_ex (meets_copy (row_bytes c) r len)
      (filter (\<lambda>st. st_devid st = mp_devid r \<and> st_offset st \<le> mp_physical r) (ch_stripes c)))) = Ok False"
    using assms(1,4) by (auto simp: on_superblock_copy_def mirrors_at_def any_in_False)
  then show ?thesis
    using assms(2) by (auto simp: list_ex_iff)
qed

lemma row_of_copy:
  fixes copy row off :: u64
  assumes "off \<le> copy" and "0 < unat row" and "unat copy + unat row < 2 ^ 64"
    and "4096 dvd unat off" and "4096 dvd unat copy" and "4096 dvd unat row"
  defines "start \<equiv> off + (copy - off) div row * row"
  shows "unat start \<le> unat copy" and "unat copy + 4096 \<le> unat start + unat row"
    and "unat (start + row) = unat start + unat row"
proof -
  let ?d = "unat copy - unat off"
  let ?q = "?d div unat row * unat row"
  have oc: "unat off \<le> unat copy" using assms(1) by (simp add: word_le_nat_alt)
  have q: "unat ((copy - off) div row) = ?d div unat row"
    by (simp add: unat_div_word unat_sub_le assms(1))
  have qd: "?q \<le> ?d" by simp
  have c64: "unat copy < 2 ^ 64" using unat_u64 [of copy] by simp
  have oq: "unat off + ?q \<le> unat copy" using qd oc by linarith
  have m: "unat ((copy - off) div row * row) = ?q"
    using order.strict_trans1 [OF qd, of "2 ^ 64"] c64 by (subst unat_mult_small) (simp_all add: q)
  have s: "unat start = unat off + ?q"
    using order.strict_trans1 [OF oq, of "2 ^ 64"] c64 unfolding start_def by (subst unat_add_small) (simp_all add: m)
  show "unat start \<le> unat copy" using s qd oc by linarith
  have r: "?d = ?q + ?d mod unat row" by simp
  have d4: "4096 dvd ?d" using assms(4,5) oc by (simp add: dvd_diff_nat)
  have "4096 dvd ?d mod unat row" using d4 assms(6) by (simp add: dvd_mod)
  moreover have "?d mod unat row < unat row" using assms(2) by simp
  ultimately have "?d mod unat row + 4096 \<le> unat row"
    using assms(6) by (auto elim!: dvdE)
  then show "unat copy + 4096 \<le> unat start + unat row" using s r oc by linarith
  have "unat start + unat row < 2 ^ 64" using s oq assms(3) by linarith
  then show "unat (start + row) = unat start + unat row" by (simp add: unat_add_small)
qed

lemma super_offsets: "copy \<in> set SUPER_OFFSETS \<Longrightarrow> 4096 dvd unat copy \<and> unat copy \<le> 2 ^ 38"
  by (auto simp: SUPER_OFFSETS_def)

text \<open>What is asked at the first byte of a range inside one stripe row holds for every byte of it.\<close>

lemma not_on_copy_clear:
  assumes ml: "map_laid_out (fs_map fs)" and hit: "on_superblock_copy fs at len = Ok False"
    and c: "chunk_for (fs_map fs) at = Some c" and d: "d < unat len"
    and row: "offset_in c at mod slen c + unat len \<le> slen c" and inside: "offset_in c at + unat len \<le> clen c"
  shows "clear_of_copies (fs_map fs) (unat at + d)"
  unfolding clear_of_copies_def
proof (intro allI impI notI)
  fix m r copy
  assume mm: "map_mirror (fs_map fs) (of_nat (unat at + d)) m = Ok r" and copy: "copy \<in> set SUPER_OFFSETS"
    and on: "unat copy \<le> unat (mp_physical r) \<and> unat (mp_physical r) < unat copy + 4096"
  have inv: "cm_inv (fs_map fs)" using ml by (simp add: map_laid_out_def)
  have cc: "c \<in> set (fs_map fs)" "covers c at" using c inv by (auto simp: chunk_for_iff)
  have wf: "wf_chunk c" using inv cc(1) by (simp add: cm_inv_def)
  have lo: "laid_out c" using ml cc(1) by (simp add: map_laid_out_def)
  note facts = wf_chunk_facts [OF wf]
  let ?x = "at + of_nat d"
  have at: "unat at = unat (ch_logical c) + offset_in c at" using cc(2) by (auto simp: covers_def offset_in_def)
  have b: "unat at + d < unat (ch_logical c) + clen c" using at d inside by linarith
  have ud: "unat (of_nat d :: u64) = d" using b facts(3) by (simp add: unat_of_nat_u64)
  have x: "unat ?x = unat at + d" using b facts(3) by (subst unat_add_small) (simp_all add: ud)
  have xw: "of_nat (unat at + d) = ?x" by simp
  have covx: "covers c ?x" and offx: "offset_in c ?x = offset_in c at + d"
    using b cc(2) by (auto simp: covers_def offset_in_def x)
  have okx: "chunk_map_mirror c ?x m = Ok r"
  proof -
    have "chunk_for (fs_map fs) ?x = Some c" using inv cc(1) covx by (simp add: chunk_for_iff)
    then show ?thesis using mm unfolding xw by (simp add: map_mirror_def)
  qed
  obtain p where dom: "chunk_profile_of c = Ok p" "m < mirrors_of p" "parity_fits p c"
    using chunk_map_mirror_dom [OF wf okx] .
  note rx = chunk_map_mirror_Ok [OF wf covx dom okx]
  let ?i = "stripe_of c p (offset_in c at) m" and ?w = "within_stripe c p (offset_in c at) m"
  let ?st = "ch_stripes c ! ?i"
  have off: "offset_in c at < clen c" using inside d by linarith
  have dr: "d < run_of c p (offset_in c at)" using row inside d by (auto simp: run_of_def)
  note w = within_run(1) [OF dr off, of m] within_run(2) [OF dr off, of m]
  have i: "?i < nstripes c"
    using place_of_bound(1) [OF wf_chunk_stripes [OF wf dom(1)] dom(2)] by (simp add: stripe_of_def)
  have st: "?st \<in> set (ch_stripes c)" using i facts(5) by simp
  have px: "unat (mp_physical r) = unat (st_offset ?st) + ?w + d" by (simp add: rx(2) offx w)
  have fit: "unat (st_offset ?st) + span c p \<le> 2 ^ 63" using lo st dom(1) by (simp add: laid_out_def)
  have wd: "?w + d < span c p"
    using within_span [OF wf, of "offset_in c at + d" p m] offx covx w
    by (auto simp: covers_def offset_in_def)
  obtain r0 where r0: "chunk_map_mirror c at m = Ok r0"
    using chunk_map_mirror_fits [OF wf cc(2) dom] fit wd by fastforce
  note ra = chunk_map_mirror_Ok [OF wf cc(2) dom r0]
  have "st_devid ?st = mp_devid r0" "st_offset ?st \<le> mp_physical r0"
    by (simp_all add: ra word_le_nat_alt)
  then have no: "\<not> meets_copy (row_bytes c) r0 len ?st"
    using on_superblock_copy_False [OF hit _ inv c] r0 c st by (simp add: map_mirror_def)
  have sr: "row_bytes c = ch_stripe_len c" "0 < unat (ch_stripe_len c)"
    using facts(2) by (auto simp: row_bytes_def slen_def max_def word_le_nat_alt word_unat_eq_iff)
  note so = super_offsets [OF copy]
  have rl: "4096 dvd unat (ch_stripe_len c)" "unat (ch_stripe_len c) \<le> 2 ^ 62" "4096 dvd unat (st_offset ?st)"
    using lo st by (auto simp: laid_out_def slen_def)
  show False
  proof (cases "st_offset ?st \<le> copy")
    case True
    let ?s = "st_offset ?st + (copy - st_offset ?st) div ch_stripe_len c * ch_stripe_len c"
    have "unat copy + unat (ch_stripe_len c) < 2 ^ 64" using so rl(2) by simp
    note rc = row_of_copy [OF True sr(2) this rl(3) conjunct1 [OF so] rl(1)]
    have "unat (mp_physical r0 + len) = unat (mp_physical r0) + unat len"
    proof -
      have "unat len \<le> slen c" using row by linarith
      moreover have "slen c \<le> 2 ^ 62" using lo by (simp add: laid_out_def)
      moreover have "unat (mp_physical r0) < 2 ^ 63" using ra(2) wd fit by linarith
      ultimately show ?thesis by (subst unat_add_small) auto
    qed
    then have "mp_physical r0 < ?s + ch_stripe_len c" "?s < mp_physical r0 + len"
      using rc on px ra(2) d by (auto simp: word_less_nat_alt)
    then have "meets_copy (row_bytes c) r0 len ?st"
      using True copy by (auto simp: meets_copy_def sr list_ex_iff Let_def intro!: bexI [of _ copy])
    then show False using no by blast
  next
    case False
    then have "unat copy < unat (st_offset ?st)" by (simp add: word_less_nat_alt not_le)
    then have "unat copy + 4096 \<le> unat (st_offset ?st)"
      using so rl(3) by (auto elim!: dvdE)
    then show False using on px by linarith
  qed
qed

lemma map_mirror_benign: "cm_inv cs \<Longrightarrow> benign (map_mirror cs l m)"
proof (cases "chunk_for cs l")
  case (Some c)
  assume "cm_inv cs"
  then have "wf_chunk c" using Some by (auto simp: chunk_for_iff cm_inv_def)
  then show ?thesis using chunk_map_outcome wf_chunk_profile Some by (fastforce simp: map_mirror_def)
qed (simp add: map_mirror_def)

lemma any_in_benign: "(\<And>x. x \<in> set xs \<Longrightarrow> benign (f x)) \<Longrightarrow> benign (any_in f xs)"
  by (induction xs) (auto intro!: benign_try_in)

lemma on_superblock_copy_benign: "cm_inv (fs_map fs) \<Longrightarrow> benign (on_superblock_copy fs at len)"
  unfolding on_superblock_copy_def mirrors_at_def
  by (intro benign_try_in any_in_benign map_mirror_benign) (auto simp: ok_or_def split: option.split)

text \<open>Where the row of an address ends, cut at the end of the range.\<close>

lemma row_end_spec:
  fixes finish pos :: u64
  assumes lo: "laid_out c" and wf: "wf_chunk c" and pos: "ch_logical c \<le> pos" "pos < finish"
    and fin: "unat finish \<le> unat (ch_logical c) + clen c"
  defines "e \<equiv> min (ch_logical c + (pos - ch_logical c) div row_bytes c * row_bytes c + row_bytes c) finish"
  shows "pos < e" and "e \<le> finish"
    and "offset_in c pos mod slen c + unat (e - pos) \<le> slen c"
    and "offset_in c pos + unat (e - pos) \<le> clen c"
proof -
  let ?L = "unat (ch_logical c)" and ?o = "offset_in c pos"
  let ?q = "?o div slen c * slen c"
  note facts = wf_chunk_facts [OF wf]
  have s: "row_bytes c = ch_stripe_len c" "0 < slen c"
    using facts(2) by (auto simp: row_bytes_def slen_def max_def word_le_nat_alt word_unat_eq_iff)
  have lp: "?L \<le> unat pos" "unat pos < unat finish" using pos by (simp_all add: word_le_nat_alt word_less_nat_alt)
  have o: "unat (pos - ch_logical c) = ?o" using pos(1) by (simp add: offset_in_def unat_sub_le)
  have qo: "?q \<le> ?o" by simp
  have b: "?L + clen c \<le> 9223372036854775808" "slen c \<le> 4611686018427387904" using lo by (simp_all add: laid_out_def)
  have ob: "?o < clen c" using lp fin by (simp add: offset_in_def)
  have q64: "?q < 2 ^ 64" using le_less_trans [OF qo ob] b by simp
  have lq: "?L + ?q < ?L + clen c" using le_less_trans [OF qo ob] by simp
  have m: "unat ((pos - ch_logical c) div ch_stripe_len c * ch_stripe_len c) = ?q"
    using q64 by (subst unat_mult_small) (simp_all add: unat_div_word o slen_def)
  have "?L + ?q < 2 ^ 64" using lq b by simp
  then have a: "unat (ch_logical c + (pos - ch_logical c) div ch_stripe_len c * ch_stripe_len c) = ?L + ?q"
    by (simp add: unat_add_small m)
  have "?L + ?q + slen c < 2 ^ 64" using lq b by simp
  then have r: "unat (ch_logical c + (pos - ch_logical c) div ch_stripe_len c * ch_stripe_len c + ch_stripe_len c) =
      ?L + ?q + slen c"
    by (simp add: unat_add_small a slen_def)
  have e: "unat e = min (?L + ?q + slen c) (unat finish)"
    by (simp add: e_def s(1) unat_min r)
  have om: "?o = ?q + ?o mod slen c" "?o mod slen c < slen c" using s(2) by simp_all
  have po: "unat pos = ?L + ?o" using lp by (simp add: offset_in_def)
  have pe: "unat pos < unat e" using e po om lp by linarith
  show "pos < e" using pe by (simp add: word_less_nat_alt)
  show "e \<le> finish" by (simp add: e_def)
  have d: "unat (e - pos) = unat e - unat pos" using pe by (simp add: unat_sub_le word_le_nat_alt)
  show "?o mod slen c + unat (e - pos) \<le> slen c" using d e po om by linarith
  show "?o + unat (e - pos) \<le> clen c" using d e po fin pe by linarith
qed

lemma row_in_loop_spec:
  assumes ml: "map_laid_out (fs_map fs)" and c: "c \<in> set (fs_map fs)"
    and pos: "ch_logical c \<le> pos" "pos \<le> finish" and fin: "unat finish \<le> unat (ch_logical c) + clen c"
    and n: "unat finish - unat pos < n"
  shows "case row_in_loop fs c finish n pos of
      Inl e \<Rightarrow> e \<noteq> never_ends
    | Inr (Some e) \<Rightarrow> pos < e \<and> e \<le> finish
    | Inr None \<Rightarrow> (\<forall>x \<in> {unat pos ..< unat finish}. clear_of_copies (fs_map fs) x)"
  using pos n
proof (induction n arbitrary: pos)
  case (Suc n)
  have inv: "cm_inv (fs_map fs)" and lo: "laid_out c" using ml c by (simp_all add: map_laid_out_def)
  have wf: "wf_chunk c" using inv c by (simp add: cm_inv_def)
  show ?case
  proof (cases "pos < finish")
    case True
    define e where "e = min (ch_logical c + (pos - ch_logical c) div row_bytes c * row_bytes c + row_bytes c) finish"
    note re = row_end_spec [OF lo wf Suc.prems(1) True fin, folded e_def]
    have step: "row_in_loop fs c finish (Suc n) pos =
        try_in (on_superblock_copy fs pos (e - pos)) (\<lambda>hit. if hit then Ok (Some e) else row_in_loop fs c finish n e)"
      unfolding row_in_loop.simps [of fs c finish "Suc n" pos] Let_def e_def [symmetric] diff_Suc_1 using True by simp
    show ?thesis
    proof (cases "on_superblock_copy fs pos (e - pos)")
      case (Inl x)
      have "benign (on_superblock_copy fs pos (e - pos))" by (rule on_superblock_copy_benign [OF inv])
      then show ?thesis using Inl by (auto simp: step benign_def)
    next
      case (Inr hit)
      show ?thesis
      proof (cases hit)
        case False
        have pe: "unat pos < unat e" "unat e \<le> unat finish"
          using re(1,2) by (simp_all add: word_less_nat_alt word_le_nat_alt)
        have IH: "case row_in_loop fs c finish n e of Inl e \<Rightarrow> e \<noteq> never_ends
            | Inr (Some e') \<Rightarrow> e < e' \<and> e' \<le> finish
            | Inr None \<Rightarrow> (\<forall>x \<in> {unat e ..< unat finish}. clear_of_copies (fs_map fs) x)"
          using Suc.IH [of e] re(1,2) Suc.prems pe by (auto intro: order_trans less_imp_le)
        have cov: "covers c pos"
          using Suc.prems(1) True fin by (simp add: covers_def word_le_nat_alt word_less_nat_alt)
        then have ch: "chunk_for (fs_map fs) pos = Some c" using inv c by (simp add: chunk_for_iff)
        have clr: "clear_of_copies (fs_map fs) x" if "x \<in> {unat pos ..< unat e}" for x
        proof -
          have "x - unat pos < unat (e - pos)" using that unat_sub_le [OF less_imp_le [OF re(1)]] diff_less_mono [of x "unat e" "unat pos"] by simp
          then have "clear_of_copies (fs_map fs) (unat pos + (x - unat pos))"
            using not_on_copy_clear [OF ml _ ch _ re(3,4)] Inr False by auto
          then show ?thesis using that by simp
        qed
        show ?thesis
          using IH clr re(1) pe by (fastforce simp: step Inr False split: sum.splits option.splits)
      qed (use re in \<open>simp add: step Inr\<close>)
    qed
  next
    case False
    then show ?thesis by (simp add: row_in_loop.simps [of _ _ _ "Suc n"] word_less_nat_alt)
  qed
qed simp

lemma superblock_row_in_spec:
  assumes ml: "map_laid_out (fs_map fs)" and c: "c \<in> set (fs_map fs)"
    and at: "ch_logical c \<le> at" and len: "0 < unat len" "unat at + unat len \<le> unat (ch_logical c) + clen c"
  shows "case superblock_row_in fs at len of
      Inl e \<Rightarrow> e \<noteq> never_ends
    | Inr (Some e) \<Rightarrow> unat at < unat e \<and> unat e \<le> unat at + unat len
    | Inr None \<Rightarrow> (\<forall>x \<in> {unat at ..< unat at + unat len}. clear_of_copies (fs_map fs) x)"
proof -
  have inv: "cm_inv (fs_map fs)" and lo: "laid_out c" using ml c by (simp_all add: map_laid_out_def)
  have cov: "covers c at" using at len by (auto simp: covers_def word_le_nat_alt)
  then have ch: "chunk_for (fs_map fs) at = Some c" using inv c by (simp add: chunk_for_iff)
  have "unat at + unat len \<le> 2 ^ 63" using len(2) lo by (auto simp: laid_out_def)
  then have f: "unat (saturating_add at len) = unat at + unat len" by (simp add: unat_saturating_add)
  have le: "at \<le> saturating_add at len" by (simp add: word_le_nat_alt f)
  have fin: "unat (saturating_add at len) \<le> unat (ch_logical c) + clen c" using len(2) f by simp
  have n: "unat (saturating_add at len) - unat at < ROUNDS" using unat_u64 [of len] f by simp
  have e: "superblock_row_in fs at len = row_in_loop fs c (saturating_add at len) ROUNDS at"
    by (simp add: superblock_row_in_def ch)
  show ?thesis
    using row_in_loop_spec [OF ml c at le fin n] unfolding e f
    by (auto simp: word_less_nat_alt word_le_nat_alt f split: sum.splits option.splits)
qed

section \<open>What is placed\<close>

text \<open>
  What the search relies on: the map is laid out as above, the sector is at most a 32-bit size, and a run
  lies inside one chunk.
\<close>

definition run_in_chunk :: "chunk_table \<Rightarrow> free_extent \<Rightarrow> bool" where
  "run_in_chunk cs r \<longleftrightarrow> wf_run r \<and>
     (\<exists>c \<in> set cs. unat (ch_logical c) \<le> unat (fe_start r) \<and>
        unat (fe_start r) + unat (fe_len r) \<le> unat (ch_logical c) + clen c)"

lemma next_multiple_small:
  fixes a b :: u64
  assumes "0 < unat b" and "unat b < 2 ^ 32" and "unat a \<le> 2 ^ 63"
  shows "unat a \<le> unat (next_multiple_of a b)" and "unat b dvd unat (next_multiple_of a b)"
    and "unat (next_multiple_of a b) < unat a + unat b"
proof -
  have "unat a + unat b \<le> 2 ^ LENGTH(64)" using assms by simp
  note n = unat_next_multiple_of [OF assms(1) this]
  show "unat a \<le> unat (next_multiple_of a b)" "unat b dvd unat (next_multiple_of a b)"
    "unat (next_multiple_of a b) < unat a + unat b" by (fact n)+
qed

lemma extent_in_run_spec:
  assumes ml: "map_laid_out (fs_map fs)" and c: "c \<in> set (fs_map fs)"
    and fin: "unat finish \<le> unat (ch_logical c) + clen c"
    and sec: "0 < unat sector" "unat sector < 2 ^ 32" and len: "0 < unat len"
    and at: "ch_logical c \<le> at" "unat sector dvd unat at" and n: "unat finish - unat at < n"
  shows "case extent_in_run fs sector len finish n at of
      Inl e \<Rightarrow> e \<noteq> never_ends
    | Inr None \<Rightarrow> True
    | Inr (Some p) \<Rightarrow> unat at \<le> unat p \<and> unat p + unat len \<le> unat finish \<and> unat sector dvd unat p \<and>
        (\<forall>x \<in> {unat p ..< unat p + unat len}. clear_of_copies (fs_map fs) x)"
  using at n
proof (induction n arbitrary: at)
  case (Suc n)
  have lo: "laid_out c" using ml c by (simp add: map_laid_out_def)
  show ?case
  proof (cases "case checked_add at len of Some e \<Rightarrow> e \<le> finish | None \<Rightarrow> False")
    case True
    then have ae: "unat at + unat len \<le> unat finish"
      by (auto simp: checked_add_Some word_le_nat_alt unat_add_small split: option.splits)
    have inside: "unat at + unat len \<le> unat (ch_logical c) + clen c" using ae fin by linarith
    note row = superblock_row_in_spec [OF ml c Suc.prems(1) len inside]
    have step: "extent_in_run fs sector len finish (Suc n) at =
        try_in (superblock_row_in fs at len) (\<lambda>hit. case hit of
            Some row_end \<Rightarrow> extent_in_run fs sector len finish n (next_multiple_of row_end sector)
          | None \<Rightarrow> Ok (Some at))"
      unfolding extent_in_run.simps [of fs sector len finish "Suc n" at] diff_Suc_1 using True by simp
    show ?thesis
    proof (cases "superblock_row_in fs at len")
      case (Inl e)
      then show ?thesis using row by (simp add: step)
    next
      case (Inr hit)
      show ?thesis
      proof (cases hit)
        case None
        then show ?thesis using row Inr ae Suc.prems(2) by (simp add: step)
      next
        case (Some e)
        let ?next = "next_multiple_of e sector"
        have e: "unat at < unat e" "unat e \<le> unat finish" using row Inr Some ae by auto
        have "unat e \<le> 2 ^ 63" using e(2) fin lo by (simp add: laid_out_def)
        note nm = next_multiple_small [OF sec this]
        have le: "ch_logical c \<le> ?next"
          using Suc.prems(1) e(1) nm(1) by (simp add: word_le_nat_alt)
        have "unat finish - unat ?next < n" using Suc.prems(3) e(1,2) nm(1) by linarith
        then have IH: "case extent_in_run fs sector len finish n ?next of
            Inl e \<Rightarrow> e \<noteq> never_ends
          | Inr None \<Rightarrow> True
          | Inr (Some p) \<Rightarrow> unat ?next \<le> unat p \<and> unat p + unat len \<le> unat finish \<and> unat sector dvd unat p \<and>
              (\<forall>x \<in> {unat p ..< unat p + unat len}. clear_of_copies (fs_map fs) x)"
          by (rule Suc.IH [OF le nm(2)])
        have "unat at \<le> unat ?next" using e(1) nm(1) by linarith
        then show ?thesis
          using IH by (auto simp: step Inr Some split: sum.splits option.splits)
      qed
    qed
  next
    case False
    then show ?thesis unfolding extent_in_run.simps [of fs sector len finish "Suc n" at] by simp
  qed
qed simp

text \<open>What one placement does to the runs.\<close>

definition placed_in :: "filesystem \<Rightarrow> u64 \<Rightarrow> u64 \<Rightarrow> free_extent list \<Rightarrow> u64 \<Rightarrow> bool" where
  "placed_in fs sector len runs at \<longleftrightarrow>
     unat sector dvd unat at \<and> (\<exists>r \<in> set runs. {unat at ..< unat at + unat len} \<subseteq> run_bytes r) \<and>
     (\<forall>x \<in> {unat at ..< unat at + unat len}. clear_of_copies (fs_map fs) x)"

definition cut_from :: "free_extent list \<Rightarrow> nat set \<Rightarrow> free_extent list \<Rightarrow> bool" where
  "cut_from runs taken runs' \<longleftrightarrow>
     cells runs' = cells runs - taken \<and> (\<forall>r' \<in> set runs'. \<exists>r \<in> set runs. run_bytes r' \<subseteq> run_bytes r)"

lemma split_run:
  assumes w: "wf_run run" and p: "unat (fe_start run) \<le> unat at" "unat at + unat len \<le> unat (fe_end run)"
  shows "run_bytes (FreeExtent (fe_start run) (at - fe_start run)) = {unat (fe_start run) ..< unat at}"
    and "run_bytes (FreeExtent (at + len) (fe_end run - (at + len))) = {unat at + unat len ..< unat (fe_end run)}"
    and "wf_run (FreeExtent (fe_start run) (at - fe_start run))"
    and "wf_run (FreeExtent (at + len) (fe_end run - (at + len)))"
    and "run_bytes run = {unat (fe_start run) ..< unat (fe_end run)}"
    and "unat (at + len) = unat at + unat len"
proof -
  have a: "unat (at + len) = unat at + unat len"
    using p(2) unat_u64 [of "fe_end run"] by (intro unat_add_small) simp
  have "fe_start run \<le> at" "at + len \<le> fe_end run" using p by (simp_all add: word_le_nat_alt a)
  note r = run_between [OF this(1)] run_between [OF this(2)]
  show "run_bytes (FreeExtent (fe_start run) (at - fe_start run)) = {unat (fe_start run) ..< unat at}"
    "run_bytes (FreeExtent (at + len) (fe_end run - (at + len))) = {unat at + unat len ..< unat (fe_end run)}"
    "wf_run (FreeExtent (fe_start run) (at - fe_start run))" "wf_run (FreeExtent (at + len) (fe_end run - (at + len)))"
    using r a by simp_all
  show "run_bytes run = {unat (fe_start run) ..< unat (fe_end run)}" using unat_fe_end [OF w] by (simp add: run_bytes_def)
  show "unat (at + len) = unat at + unat len" by (rule a)
qed

lemma extent_in_runs_spec:
  assumes ml: "map_laid_out (fs_map fs)" and sec: "0 < unat sector" "unat sector < 2 ^ 32" and len: "0 < unat len"
    and runs: "\<forall>r \<in> set runs. run_in_chunk (fs_map fs) r" "runs_apart runs"
  shows "case extent_in_runs fs sector len runs of
      Inl e \<Rightarrow> e \<noteq> never_ends
    | Inr None \<Rightarrow> True
    | Inr (Some (p, runs')) \<Rightarrow> placed_in fs sector len runs p \<and>
        cut_from runs {unat p ..< unat p + unat len} runs' \<and>
        runs_apart runs' \<and> (\<forall>r \<in> set runs'. run_in_chunk (fs_map fs) r)"
  using runs
proof (induction runs)
  case (Cons run runs)
  obtain c where c: "c \<in> set (fs_map fs)" "unat (ch_logical c) \<le> unat (fe_start run)"
    "unat (fe_start run) + unat (fe_len run) \<le> unat (ch_logical c) + clen c" and w: "wf_run run"
    using Cons.prems(1) by (auto simp: run_in_chunk_def)
  have lo: "laid_out c" using ml c(1) by (simp add: map_laid_out_def)
  have fe: "unat (fe_end run) = unat (fe_start run) + unat (fe_len run)" by (rule unat_fe_end [OF w])
  have "unat (fe_start run) \<le> 2 ^ 63" using c(3) lo by (simp add: laid_out_def)
  note nm = next_multiple_small [OF sec this]
  let ?at = "next_multiple_of (fe_start run) sector"
  have le: "ch_logical c \<le> ?at" using c(2) nm(1) by (simp add: word_le_nat_alt)
  have fin: "unat (fe_end run) \<le> unat (ch_logical c) + clen c" using c(3) fe by simp
  have n: "unat (fe_end run) - unat ?at < ROUNDS" using unat_u64 [of "fe_end run"] by simp
  note here = extent_in_run_spec [OF ml c(1) fin sec len le nm(2) n]
  have rest: "\<forall>r \<in> set runs. run_in_chunk (fs_map fs) r" "runs_apart runs" "run_bytes run \<inter> cells runs = {}"
    using Cons.prems by (auto simp: runs_apart_Cons)
  note IH = Cons.IH [OF rest(1,2)]
  show ?case
  proof (cases "extent_in_run fs sector len (fe_end run) ROUNDS ?at")
    case (Inl e)
    then show ?thesis using here by simp
  next
    case (Inr found)
    show ?thesis
    proof (cases found)
      case (Some p)
      let ?a = "FreeExtent (fe_start run) (p - fe_start run)" and ?b = "FreeExtent (p + len) (fe_end run - (p + len))"
      have p: "unat (fe_start run) \<le> unat p" "unat p + unat len \<le> unat (fe_end run)" "unat sector dvd unat p"
        "\<forall>x \<in> {unat p ..< unat p + unat len}. clear_of_copies (fs_map fs) x"
        using here nm(1) by (auto simp: Inr Some)
      note sp = split_run [OF w p(1,2)]
      have "extent_in_runs fs sector len (run # runs) = Ok (Some (p, ?a # ?b # runs))"
        by (simp add: Inr Some)
      moreover have "placed_in fs sector len (run # runs) p"
        using p sp(5) by (auto simp: placed_in_def)
      moreover have "cut_from (run # runs) {unat p ..< unat p + unat len} (?a # ?b # runs)"
        using p(1,2) sp(1,2,5) rest(3) by (auto simp: cut_from_def)
      moreover have "runs_apart (?a # ?b # runs)"
        using sp(1,2,5) p(1,2) rest(2,3) by (auto simp: runs_apart_Cons)
      moreover have "run_in_chunk (fs_map fs) ?a" "run_in_chunk (fs_map fs) ?b"
      proof -
        have "unat (p - fe_start run) = unat p - unat (fe_start run)"
          using p(1) by (simp add: unat_sub_le word_le_nat_alt)
        then show "run_in_chunk (fs_map fs) ?a"
          unfolding run_in_chunk_def using sp(3) c fe p by (intro conjI bexI [of _ c]) simp_all
        have "unat (fe_end run - (p + len)) = unat (fe_end run) - (unat p + unat len)"
          using p(2) sp(6) by (simp add: unat_sub_le word_le_nat_alt)
        then show "run_in_chunk (fs_map fs) ?b"
          unfolding run_in_chunk_def using sp(4,6) c fe p by (intro conjI bexI [of _ c]) simp_all
      qed
      ultimately show ?thesis using rest(1) by simp
    next
      case None
      show ?thesis
      proof (cases "extent_in_runs fs sector len runs")
        case (Inl e)
        then show ?thesis using IH by (simp add: Inr None)
      next
        case i2: (Inr r)
        show ?thesis
        proof (cases r)
          case None
          then show ?thesis by (simp add: Inr \<open>found = None\<close> i2)
        next
          case (Some x)
          obtain p runs' where x: "x = (p, runs')" by fastforce
          have p: "placed_in fs sector len runs p" "cut_from runs {unat p ..< unat p + unat len} runs'"
            "runs_apart runs'" "\<forall>r \<in> set runs'. run_in_chunk (fs_map fs) r"
            using IH by (simp_all add: i2 Some x)
          have "{unat p ..< unat p + unat len} \<subseteq> cells runs" using p(1) by (auto simp: placed_in_def cells_def)
          then have "cut_from (run # runs) {unat p ..< unat p + unat len} (run # runs')"
            using p(2) rest(3) by (auto simp: cut_from_def)
          moreover have "runs_apart (run # runs')"
            using p(2,3) rest(3) by (auto simp: runs_apart_Cons cut_from_def)
          moreover have "placed_in fs sector len (run # runs) p" using p(1) by (auto simp: placed_in_def)
          ultimately show ?thesis
            using p(4) Cons.prems(1) by (simp add: Inr \<open>found = None\<close> i2 Some x)
        qed
      qed
    qed
  qed
qed simp

lemma place_extents_spec:
  assumes ml: "map_laid_out (fs_map fs)" and sec: "0 < unat sector" "unat sector < 2 ^ 32"
    and runs: "\<forall>r \<in> set runs. run_in_chunk (fs_map fs) r" "runs_apart runs"
  shows "case place_extents fs sector lens runs of
      Inl e \<Rightarrow> e \<noteq> never_ends
    | Inr ats \<Rightarrow> list_all2 (\<lambda>len at. placed_in fs sector len runs at) lens ats \<and>
        runs_apart (map2 FreeExtent ats lens) \<and> cells (map2 FreeExtent ats lens) \<subseteq> cells runs"
  using runs
proof (induction lens arbitrary: runs)
  case Nil
  show ?case by (simp add: runs_apart_def)
next
  case (Cons len lens)
  show ?case
  proof (cases "len = 0 \<or> len mod sector \<noteq> 0")
    case False
    then have "0 < unat len" by (simp add: unat_gt_0)
    note here = extent_in_runs_spec [OF ml sec this Cons.prems]
    show ?thesis
    proof (cases "extent_in_runs fs sector len runs")
      case (Inl e)
      then show ?thesis using here False by simp
    next
      case (Inr found)
      show ?thesis
      proof (cases found)
        case None
        then show ?thesis using Inr False by simp
      next
        case (Some x)
        obtain p runs' where x: "x = (p, runs')" by fastforce
        have p: "placed_in fs sector len runs p" "cut_from runs {unat p ..< unat p + unat len} runs'"
          "runs_apart runs'" "\<forall>r \<in> set runs'. run_in_chunk (fs_map fs) r"
          using here by (simp_all add: Inr Some x)
        note IH = Cons.IH [OF p(4,3)]
        have lift: "placed_in fs sector l runs' q \<Longrightarrow> placed_in fs sector l runs q" for l q
          using p(2) by (auto simp: placed_in_def cut_from_def) (meson order_trans)
        have step: "place_extents fs sector (len # lens) runs =
            try_in (place_extents fs sector lens runs') (\<lambda>out. Ok (p # out))"
          using False by (simp add: Inr Some x)
        have sub: "run_bytes (FreeExtent p len) \<subseteq> cells runs"
          using p(1) by (auto simp: placed_in_def cells_def run_bytes_def)
        show ?thesis
        proof (cases "place_extents fs sector lens runs'")
          case (Inr ats)
          then have "list_all2 (\<lambda>len at. placed_in fs sector len runs' at) lens ats"
            "runs_apart (map2 FreeExtent ats lens)" "cells (map2 FreeExtent ats lens) \<subseteq> cells runs'"
            using IH by simp_all
          moreover have "run_bytes (FreeExtent p len) \<inter> cells runs' = {}"
            using p(2) by (auto simp: cut_from_def run_bytes_def)
          ultimately show ?thesis
            using p(1,2) lift sub unfolding step Inr
            by (auto simp: runs_apart_Cons cut_from_def elim!: list_all2_mono)
        next
          case (Inl e)
          then show ?thesis using IH unfolding step Inl by simp
        qed
      qed
    qed
  qed simp
qed

definition groups_backed :: "filesystem \<Rightarrow> block_group list \<Rightarrow> bool" where
  "groups_backed fs groups \<longleftrightarrow>
     (\<forall>g \<in> set groups. \<exists>c \<in> set (fs_map fs). bg_start g = ch_logical c \<and> bg_length g = ch_length c)"

lemma free_runs_in_chunk:
  assumes t: "extent_tree_holds fs t" and apart: "groups_apart groups" and ok: "free_extents_by_group fs groups = Ok frees"
    and ml: "map_laid_out (fs_map fs)" and backed: "groups_backed fs groups"
  shows "\<forall>r \<in> set (concat frees). run_in_chunk (fs_map fs) r" and "runs_apart (concat frees)"
    and "r \<in> set (concat frees) \<Longrightarrow> \<exists>g \<in> set groups. run_bytes r \<subseteq> free_bytes (inorder t) (sb_node_bytes fs) g"
proof -
  note fr = free_by_group_Ok [OF t apart ok]
  have len: "length frees = length groups" using fr by simp
  have ge: "group_bytes g = {unat (ch_logical c) ..< unat (ch_logical c) + clen c} \<and> unat (bg_end g) = unat (ch_logical c) + clen c"
    if "bg_start g = ch_logical c" "bg_length g = ch_length c" "c \<in> set (fs_map fs)" for g c
  proof -
    have "unat (ch_logical c) + clen c \<le> 2 ^ 63" using ml that by (auto simp: map_laid_out_def laid_out_def)
    then have "unat (bg_end g) = unat (ch_logical c) + clen c"
      using that by (simp add: bg_end_def unat_saturating_add clen_def)
    then show ?thesis using that by (simp add: group_bytes_def)
  qed
  have one: "run_in_chunk (fs_map fs) r \<and> run_bytes r \<subseteq> free_bytes (inorder t) (sb_node_bytes fs) (groups ! i)"
    if i: "i < length groups" "r \<in> set (frees ! i)" for i r
  proof -
    have w: "wf_run r" "0 < unat (fe_len r)" "fe_end r \<le> bg_end (groups ! i)"
      and s: "run_bytes r \<subseteq> free_bytes (inorder t) (sb_node_bytes fs) (groups ! i)"
      using fr i by (auto simp: cells_def)
    have "groups ! i \<in> set groups" using i by simp
    then obtain c where c: "c \<in> set (fs_map fs)" "bg_start (groups ! i) = ch_logical c" "bg_length (groups ! i) = ch_length c"
      using backed unfolding groups_backed_def by blast
    note g = ge [OF c(2,3,1)]
    have "unat (fe_start r) \<in> run_bytes r" using w(2) by (simp add: run_bytes_def)
    then have "unat (fe_start r) \<in> group_bytes (groups ! i)" using s by (auto simp: free_bytes_def)
    then have "unat (ch_logical c) \<le> unat (fe_start r)" using g by simp
    moreover have "unat (fe_start r) + unat (fe_len r) \<le> unat (ch_logical c) + clen c"
      using w(1,3) g by (simp add: word_le_nat_alt unat_fe_end)
    ultimately show ?thesis using w(1) c(1) s by (auto simp: run_in_chunk_def)
  qed
  show "\<forall>r \<in> set (concat frees). run_in_chunk (fs_map fs) r"
    using one len by (fastforce simp: in_set_conv_nth)
  show "\<exists>g \<in> set groups. run_bytes r \<subseteq> free_bytes (inorder t) (sb_node_bytes fs) g" if "r \<in> set (concat frees)"
    using one len that by (auto simp: in_set_conv_nth) (metis nth_mem)
  have conc: "runs_apart (concat xs)"
    if "\<forall>x \<in> set xs. runs_apart x" "sorted_wrt (\<lambda>a b. cells a \<inter> cells b = {}) xs" for xs
    using that
  proof (induction xs)
    case (Cons x xs)
    have "cells (concat xs) = (\<Union>y \<in> set xs. cells y)" by (auto simp: cells_def)
    then have "cells x \<inter> cells (concat xs) = {}" using Cons.prems(2) by auto
    moreover have "runs_apart (concat xs)" using Cons by simp
    ultimately show ?case
      using Cons.prems(1) by (auto simp: runs_apart_def sorted_wrt_append cells_def)
  qed (simp add: runs_apart_def)
  have "sorted_wrt (\<lambda>a b. cells a \<inter> cells b = {}) frees"
    unfolding sorted_wrt_iff_nth_less
  proof (intro allI impI)
    fix i j
    assume ij: "i < j" "j < length frees"
    have "cells (frees ! i) \<subseteq> group_bytes (groups ! i)" "cells (frees ! j) \<subseteq> group_bytes (groups ! j)"
      using fr ij len by (auto simp: free_bytes_def)
    then show "cells (frees ! i) \<inter> cells (frees ! j) = {}"
      using groups_apart_nth [OF apart, of i j] ij len by auto
  qed
  then show "runs_apart (concat frees)"
    using fr len by (intro conc) (auto simp: in_set_conv_nth)
qed

text \<open>
  C29. Room for data is really free: the extents the allocator hands out, one for each length asked for,
  are aligned to the sector, do not overlap each other, lie in bytes of a writable group that
  no extent item covers, and none of their bytes, on any copy, is at a place where a
  superblock copy is kept.
\<close>

theorem find_extents_safe:
  assumes t: "extent_tree_holds fs t" and groups: "groups_apart groups" "groups_backed fs groups"
    and ml: "map_laid_out (fs_map fs)" and ok: "find_extents_in fs groups lens = Ok ats"
  shows "runs_apart (map2 FreeExtent ats lens) \<and>
    list_all2 (\<lambda>len at. max 1 (unat (sb_sectorsize (fs_sb fs))) dvd unat at \<and>
      (\<exists>g \<in> set groups. block_group_is_writable fs g \<and>
         {unat at ..< unat at + unat len} \<subseteq> free_bytes (inorder t) (sb_node_bytes fs) g) \<and>
      (\<forall>x \<in> {unat at ..< unat at + unat len}. clear_of_copies (fs_map fs) x)) lens ats"
proof -
  let ?gs = "filter (block_group_is_writable fs) groups" and ?sec = "max (ucast (sb_sectorsize (fs_sb fs))) 1 :: u64"
  have gs: "groups_apart ?gs" "groups_backed fs ?gs"
    using groups by (auto simp: groups_apart_def groups_backed_def intro: sorted_wrt_filter)
  obtain frees where fr: "free_extents_by_group fs ?gs = Ok frees" "place_extents fs ?sec lens (concat frees) = Ok ats"
    using ok by (auto simp: find_extents_in_def try_in_eq_Ok)
  note runs = free_runs_in_chunk [OF t gs(1) fr(1) ml gs(2)]
  have u: "unat (ucast (sb_sectorsize (fs_sb fs)) :: u64) = unat (sb_sectorsize (fs_sb fs))"
    by (rule unat_ucast_32_64)
  have se: "unat ?sec = max 1 (unat (sb_sectorsize (fs_sb fs)))"
    using u by (simp add: max_def word_le_nat_alt)
  then have sec: "0 < unat ?sec" "unat ?sec < 2 ^ 32"
    using unat_u32 [of "sb_sectorsize (fs_sb fs)"] by simp_all
  have "list_all2 (\<lambda>len at. placed_in fs ?sec len (concat frees) at) lens ats" "runs_apart (map2 FreeExtent ats lens)"
    using place_extents_spec [OF ml sec runs(1,2), of lens] by (simp_all add: fr(2))
  moreover have "max 1 (unat (sb_sectorsize (fs_sb fs))) dvd unat at \<and>
      (\<exists>g \<in> set groups. block_group_is_writable fs g \<and>
         {unat at ..< unat at + unat len} \<subseteq> free_bytes (inorder t) (sb_node_bytes fs) g) \<and>
      (\<forall>x \<in> {unat at ..< unat at + unat len}. clear_of_copies (fs_map fs) x)"
    if p: "placed_in fs ?sec len (concat frees) at" for len at
  proof -
    obtain r where "r \<in> set (concat frees)" "{unat at ..< unat at + unat len} \<subseteq> run_bytes r"
      using p unfolding placed_in_def by blast
    moreover obtain g where "g \<in> set ?gs" "run_bytes r \<subseteq> free_bytes (inorder t) (sb_node_bytes fs) g"
      using runs(3) [OF \<open>r \<in> _\<close>] by blast
    ultimately show ?thesis using p by (auto simp: placed_in_def se)
  qed
  ultimately show ?thesis by (auto elim!: list_all2_mono)
qed

section \<open>Tree blocks\<close>

text \<open>Chunks and stripe rows that are whole numbers of tree blocks.\<close>

definition whole_blocks :: "chunk_table \<Rightarrow> u64 \<Rightarrow> bool" where
  "whole_blocks cs nodesize \<longleftrightarrow>
     (\<forall>c \<in> set cs. unat nodesize dvd unat (ch_logical c) \<and> unat nodesize dvd slen c)"

lemma block_in_row:
  assumes "n dvd off" and "n dvd s" and "0 < s"
  shows "off mod s + n \<le> (s :: nat)"
proof -
  have "n dvd off mod s" using assms by (simp add: dvd_mod)
  moreover have "off mod s < s" using assms(3) by simp
  moreover obtain k where "s = n * k" using assms(2) by blast
  ultimately obtain j where "off mod s = n * j" "n * j < n * k" by (metis dvdE)
  then show ?thesis using mult_le_mono2 [of "Suc j" k n] \<open>s = n * k\<close> by simp
qed

lemma block_in_run_spec:
  assumes ml: "map_laid_out (fs_map fs)" and c: "c \<in> set (fs_map fs)"
    and fin: "unat finish \<le> unat (ch_logical c) + clen c"
    and node: "0 < unat nodesize" "unat nodesize < 2 ^ 32"
    and at: "ch_logical c \<le> at" "unat nodesize dvd unat at" "unat at \<le> 2 ^ 63 + 2 ^ 32"
    and n: "unat finish - unat at < n"
  shows "case block_in_run fs nodesize finish n at of
      Inl e \<Rightarrow> e \<noteq> never_ends
    | Inr None \<Rightarrow> True
    | Inr (Some p) \<Rightarrow> unat at \<le> unat p \<and> unat p + unat nodesize \<le> unat finish \<and> unat nodesize dvd unat p \<and>
        (whole_blocks (fs_map fs) nodesize \<longrightarrow>
           (\<forall>x \<in> {unat p ..< unat p + unat nodesize}. clear_of_copies (fs_map fs) x))"
  using at n
proof (induction n arbitrary: at)
  case (Suc n)
  have inv: "cm_inv (fs_map fs)" and lo: "laid_out c" using ml c by (simp_all add: map_laid_out_def)
  have wf: "wf_chunk c" using inv c by (simp add: cm_inv_def)
  have an: "unat (at + nodesize) = unat at + unat nodesize"
    using Suc.prems(3) node(2) by (intro unat_add_small) simp
  have step: "block_in_run fs nodesize finish (Suc n) at =
      (if at + nodesize \<le> finish then
         try_in (on_superblock_copy fs at nodesize) (\<lambda>hit.
         if \<not> hit then Ok (Some at) else block_in_run fs nodesize finish n (at + nodesize))
       else Ok None)"
    unfolding block_in_run.simps [of fs nodesize finish "Suc n" at] diff_Suc_1 by simp
  show ?case
  proof (cases "at + nodesize \<le> finish")
    case True
    then have le: "unat at + unat nodesize \<le> unat finish" by (simp add: word_le_nat_alt an)
    have cov: "covers c at"
      using le fin node(1) Suc.prems(1) by (simp add: covers_def word_le_nat_alt)
    then have ch: "chunk_for (fs_map fs) at = Some c" using inv c by (simp add: chunk_for_iff)
    show ?thesis
    proof (cases "on_superblock_copy fs at nodesize")
      case (Inl e)
      then show ?thesis
        using on_superblock_copy_benign [OF inv, of at nodesize] True by (auto simp: step benign_def)
    next
      case (Inr hit)
      show ?thesis
      proof (cases hit)
        case True2: True
        have "unat (at + nodesize) \<le> 2 ^ 63 + 2 ^ 32"
          using le fin lo an by (simp add: laid_out_def)
        moreover have "ch_logical c \<le> at + nodesize" using Suc.prems(1) by (simp add: word_le_nat_alt an)
        moreover have "unat nodesize dvd unat (at + nodesize)" using Suc.prems(2) an by simp
        moreover have "unat finish - unat (at + nodesize) < n" using Suc.prems(4) node(1) le an by linarith
        ultimately show ?thesis
          using Suc.IH [of "at + nodesize"] True True2 Inr an
          by (auto simp: step split: sum.splits option.splits)
      next
        case False
        have "clear_of_copies (fs_map fs) x"
          if "whole_blocks (fs_map fs) nodesize" "x \<in> {unat at ..< unat at + unat nodesize}" for x
        proof -
          have d: "unat nodesize dvd offset_in c at" "unat nodesize dvd slen c"
            using that(1) c Suc.prems(2) by (auto simp: whole_blocks_def offset_in_def)
          have "offset_in c at mod slen c + unat nodesize \<le> slen c"
            by (rule block_in_row [OF d wf_chunk_facts(2) [OF wf]])
          moreover have "offset_in c at + unat nodesize \<le> clen c"
            using le fin cov by (auto simp: offset_in_def covers_def)
          moreover have "x - unat at < unat nodesize" using that(2) by auto
          ultimately have "clear_of_copies (fs_map fs) (unat at + (x - unat at))"
            using not_on_copy_clear [OF ml _ ch] Inr False by auto
          then show ?thesis using that(2) by simp
        qed
        then show ?thesis using True False Inr le Suc.prems(2) by (simp add: step)
      qed
    qed
  qed (simp add: step)
qed simp

lemma block_in_runs_spec:
  assumes ml: "map_laid_out (fs_map fs)" and node: "0 < unat nodesize" "unat nodesize < 2 ^ 32"
    and runs: "\<forall>r \<in> set runs. run_in_chunk (fs_map fs) r"
  shows "case block_in_runs fs nodesize runs of
      Inl e \<Rightarrow> e \<noteq> never_ends
    | Inr p \<Rightarrow> unat nodesize dvd unat p \<and> (\<exists>r \<in> set runs. {unat p ..< unat p + unat nodesize} \<subseteq> run_bytes r) \<and>
        (whole_blocks (fs_map fs) nodesize \<longrightarrow>
           (\<forall>x \<in> {unat p ..< unat p + unat nodesize}. clear_of_copies (fs_map fs) x))"
  using runs
proof (induction runs)
  case (Cons run runs)
  have IH: "case block_in_runs fs nodesize runs of
      Inl e \<Rightarrow> e \<noteq> never_ends
    | Inr p \<Rightarrow> unat nodesize dvd unat p \<and> (\<exists>r \<in> set (run # runs). {unat p ..< unat p + unat nodesize} \<subseteq> run_bytes r) \<and>
        (whole_blocks (fs_map fs) nodesize \<longrightarrow>
           (\<forall>x \<in> {unat p ..< unat p + unat nodesize}. clear_of_copies (fs_map fs) x))"
    using Cons by (auto split: sum.splits)
  show ?case
  proof (cases "place_in_run run nodesize")
    case None
    then show ?thesis using IH by simp
  next
    case (Some at)
    have at: "at = next_multiple_of (fe_start run) nodesize"
      using Some by (simp add: place_in_run_def Let_def split: if_splits)
    obtain c where c: "c \<in> set (fs_map fs)" "unat (ch_logical c) \<le> unat (fe_start run)"
      "unat (fe_start run) + unat (fe_len run) \<le> unat (ch_logical c) + clen c" and w: "wf_run run"
      using Cons.prems by (auto simp: run_in_chunk_def)
    have lo: "laid_out c" using ml c(1) by (simp add: map_laid_out_def)
    have fe: "unat (fe_end run) = unat (fe_start run) + unat (fe_len run)" by (rule unat_fe_end [OF w])
    have s63: "unat (fe_start run) \<le> 2 ^ 63" using c(3) lo by (simp add: laid_out_def)
    note nm = next_multiple_small [OF node s63, folded at]
    have le: "ch_logical c \<le> at" using c(2) nm(1) by (simp add: word_le_nat_alt)
    have fin: "unat (fe_end run) \<le> unat (ch_logical c) + clen c" using c(3) fe by simp
    have n: "unat (fe_end run) - unat at < ROUNDS" using unat_u64 [of "fe_end run"] by simp
    have a63: "unat at \<le> 2 ^ 63 + 2 ^ 32" using nm(3) s63 node(2) by linarith
    note here = block_in_run_spec [OF ml c(1) fin node le nm(2) a63 n]
    show ?thesis
    proof (cases "block_in_run fs nodesize (fe_end run) ROUNDS at")
      case (Inl e)
      then show ?thesis using here Some by simp
    next
      case (Inr found)
      show ?thesis
      proof (cases found)
        case None
        then show ?thesis using IH Some Inr by simp
      next
        case found: (Some p)
        have "unat at \<le> unat p" "unat p + unat nodesize \<le> unat (fe_end run)" using here by (auto simp: Inr found)
        then have "{unat p ..< unat p + unat nodesize} \<subseteq> run_bytes run"
          using nm(1) fe by (auto simp: run_bytes_def)
        then show ?thesis using here Some by (auto simp: Inr found)
      qed
    qed
  qed
qed simp

text \<open>
  C30. Room for a tree block is really free: the address the allocator returns is aligned to the block, the
  block lies in bytes that no extent item covers, of a writable metadata group that is not being
  emptied, and none of its bytes, on any copy, is where a superblock copy is kept.
\<close>

theorem find_metadata_block_safe:
  assumes t: "extent_tree_holds fs t" and gs: "block_groups fs = Ok groups"
    and groups: "groups_apart (metadata_groups fs groups)" "groups_backed fs groups"
    and ml: "map_laid_out (fs_map fs)" "whole_blocks (fs_map fs) (sb_node_bytes fs)" and node: "sb_nodesize (fs_sb fs) \<noteq> 0"
    and ok: "find_metadata_block fs = Ok at"
  shows "unat (sb_nodesize (fs_sb fs)) dvd unat at \<and>
    (\<exists>g \<in> set groups. holds_metadata g \<and> fs_emptying fs \<noteq> Some (bg_start g) \<and> block_group_is_writable fs g \<and>
       {unat at ..< unat at + unat (sb_nodesize (fs_sb fs))} \<subseteq> free_bytes (inorder t) (sb_node_bytes fs) g) \<and>
    (\<forall>x \<in> {unat at ..< unat at + unat (sb_nodesize (fs_sb fs))}. clear_of_copies (fs_map fs) x)"
proof -
  let ?gs = "metadata_groups fs groups" and ?n = "sb_node_bytes fs"
  have n: "unat ?n = unat (sb_nodesize (fs_sb fs))" by (simp add: sb_node_bytes_def unat_ucast_32_64)
  have nb: "0 < unat ?n" "unat ?n < 2 ^ 32" using node unat_u32 [of "sb_nodesize (fs_sb fs)"] by (simp_all add: n unat_gt_0)
  have backed: "groups_backed fs ?gs" using groups(2) by (auto simp: groups_backed_def metadata_groups_def)
  obtain frees where fr: "free_extents_by_group fs ?gs = Ok frees" "block_in_runs fs ?n (concat frees) = Ok at"
    using ok gs by (auto simp: find_metadata_block_def try_in_eq_Ok)
  note runs = free_runs_in_chunk [OF t groups(1) fr(1) ml(1) backed]
  obtain r where r: "r \<in> set (concat frees)" "{unat at ..< unat at + unat ?n} \<subseteq> run_bytes r"
    and at: "unat ?n dvd unat at" "\<forall>x \<in> {unat at ..< unat at + unat ?n}. clear_of_copies (fs_map fs) x"
    using block_in_runs_spec [OF ml(1) nb runs(1)] ml(2) unfolding fr(2) by auto
  obtain g where g: "g \<in> set ?gs" "run_bytes r \<subseteq> free_bytes (inorder t) ?n g"
    using runs(3) [OF r(1)] by blast
  then have "g \<in> set groups \<and> holds_metadata g \<and> fs_emptying fs \<noteq> Some (bg_start g) \<and> block_group_is_writable fs g"
    by (auto simp: metadata_groups_def)
  then show ?thesis using r(2) g(2) at unfolding n by blast
qed

text \<open>
  C32. The searches for room end: on a map laid out in the lower half of the address space, neither the
  loop over stripe rows, nor the loop that steps past a superblock row, nor the loop over the blocks
  of a run goes round for ever, whatever runs inside chunks they are given.
\<close>

theorem search_for_room_ends:
  assumes "map_laid_out (fs_map fs)" and "0 < unat sector" "unat sector < 2 ^ 32"
    and "\<forall>r \<in> set runs. run_in_chunk (fs_map fs) r" "runs_apart runs"
  shows "place_extents fs sector lens runs \<noteq> Err never_ends \<and> block_in_runs fs sector runs \<noteq> Err never_ends"
  using place_extents_spec [OF assms, of lens] block_in_runs_spec [OF assms(1-4)] by (auto split: sum.splits)

section \<open>Joining runs\<close>

lemma joined_run:
  assumes "wf_run a" and "wf_run b" and "fe_end a = fe_start b"
  shows "run_bytes (FreeExtent (fe_start a) (fe_len a + fe_len b)) = run_bytes a \<union> run_bytes b"
    and "wf_run (FreeExtent (fe_start a) (fe_len a + fe_len b))"
proof -
  have e: "unat (fe_start b) = unat (fe_start a) + unat (fe_len a)" using unat_fe_end [OF assms(1)] assms(3) by simp
  have "unat (fe_len a + fe_len b) = unat (fe_len a) + unat (fe_len b)"
    using assms(2) e by (intro unat_add_small) (simp add: wf_run_def)
  then show "run_bytes (FreeExtent (fe_start a) (fe_len a + fe_len b)) = run_bytes a \<union> run_bytes b"
    "wf_run (FreeExtent (fe_start a) (fe_len a + fe_len b))"
    using e assms(2) by (auto simp: run_bytes_def wf_run_def)
qed

lemma merge_loop_cells:
  "\<forall>r \<in> set runs \<union> set out. wf_run r \<Longrightarrow> cells (merge_loop runs out) = cells runs \<union> cells out"
proof (induction runs out rule: merge_loop.induct)
  case (2 run runs out)
  show ?case
  proof (cases out)
    case (Cons prev earlier)
    then show ?thesis using 2 joined_run [of prev run] by (auto simp: Cons)
  qed (use 2 in auto)
qed (auto simp: cells_def)

lemma merge_adjacent_cells: "\<forall>r \<in> set runs. wf_run r \<Longrightarrow> cells (merge_adjacent runs) = cells runs"
  using merge_loop_cells [of runs "[]"] by (simp add: merge_adjacent_def)


section \<open>A concrete volume\<close>

definition space_items :: "leaf_item list" where
  "space_items =
     [(DiskKey 2 ROOT_ITEM_KEY 0, replicate 176 0 @ u64_bytes 1048576),
      (DiskKey 1048576 METADATA_ITEM 0, []),
      (DiskKey 1048576 BLOCK_GROUP_ITEM 262144, u64_bytes 4096 @ u64_bytes 256 @ u64_bytes (BG_DATA OR BG_METADATA))]"

definition space_group :: block_group where
  "space_group = \<lparr>bg_start = 1048576, bg_length = 262144, bg_used = 4096, bg_flags = BG_DATA OR BG_METADATA\<rparr>"

lemma space_block:
  obtains block where "build_leaf zero_hash demo_super demo_at space_items = Ok block"
    and "strictly_sorted (map fst space_items)"
proof -
  have s: "strictly_sorted (map fst space_items)"
    by (simp add: space_items_def less_disk_key_def key_before_def)
  then show thesis
    using that by (simp add: build_leaf_def windows_ordered_iff demo_at_def demo_ident_def demo_super_def
        space_needed_def item_space_def space_items_def Let_def)
qed

lemma space_root_item: "le64 (replicate 176 0 @ u64_bytes 1048576) 176 = 1048576"
  using le_append_same(1) [of "replicate 176 0" 176 1048576 "[]"] by simp

lemma space_scan:
  assumes "build_leaf zero_hash demo_super demo_at space_items = Ok block" and "strictly_sorted (map fst space_items)"
  shows "scan (pool_tree (demo_fs block)) 1048576 visit v =
    (let (r, v') = visit_list visit space_items v in try_in r (\<lambda>_. Ok v'))"
  using scan_stored [OF demo_fs_stored(2) [OF assms], of visit v] assms(2) by (simp add: sorted_tree_def)

lemma space_tree:
  assumes "build_leaf zero_hash demo_super demo_at space_items = Ok block" and "strictly_sorted (map fst space_items)"
  shows "tree_root (demo_fs block) EXTENT_TREE = Ok 1048576"
    and "extent_tree_holds (demo_fs block) (ALeaf 1048576 space_items)"
proof -
  have "sb_root (fs_sb (demo_fs block)) = 1048576" by (simp add: demo_fs_def)
  then show r: "tree_root (demo_fs block) EXTENT_TREE = Ok 1048576"
    by (simp add: tree_root_def required_root_item_target_def root_item_target_def space_scan [OF assms] visit_root_item Let_def)
      (simp add: space_items_def space_root_item)
  show "extent_tree_holds (demo_fs block) (ALeaf 1048576 space_items)"
    using r demo_fs_stored(2) [OF assms] assms(2) by (auto simp: extent_tree_holds_def sorted_tree_def)
qed

lemma space_nodesize: "sb_node_bytes (demo_fs block) = 4096" "sb_sectorsize (fs_sb (demo_fs block)) = 4096"
  by (simp_all add: sb_node_bytes_def demo_fs_def demo_super_def)

lemma space_free:
  assumes "build_leaf zero_hash demo_super demo_at space_items = Ok block" and "strictly_sorted (map fst space_items)"
  shows "free_extents_by_group (demo_fs block) [space_group] = Ok [[FreeExtent 1052672 258048]]"
  by (simp add: free_extents_by_group_def allocated_by_group_def space_tree(1) [OF assms] space_scan [OF assms] space_nodesize)
    (simp add: space_items_def allocated_visit_def allocation_len_def position_def space_group_def bg_end_def
      saturating_add_def checked_add_def gaps_def fe_end_def)

abbreviation (input) single_chunk :: chunk where "single_chunk \<equiv> demo_chunk 0 (Suc 0) 0"

lemma single_map: "cm_inv [single_chunk]" "covers single_chunk l \<longleftrightarrow> unat l \<in> {1048576 ..< 1310720}"
  using demo_single_wf by (simp_all add: cm_inv_def covers_def demo_chunk_def clen_def)

lemma single_for: "unat l \<in> {1048576 ..< 1310720} \<Longrightarrow> chunk_for [single_chunk] l = Some single_chunk"
  using chunk_for_iff [OF single_map(1), of l single_chunk] single_map(2) by simp

lemma single_laid_out: "map_laid_out [single_chunk]" "whole_blocks [single_chunk] 4096"
  by (simp_all add: map_laid_out_def single_map(1) laid_out_def whole_blocks_def demo_single span_def data_width_def
      nstripes_def clen_def slen_def) (simp_all add: demo_chunk_def)

lemma single_maps:
  assumes "unat l \<in> {1048576 ..< 1310720}"
  shows "\<exists>r. map_mirror [single_chunk] l 0 = Ok r \<and> mp_physical r = l \<and> mp_devid r = 1"
proof -
  let ?c = single_chunk
  have cov: "covers ?c l" using single_map(2) assms by simp
  have m: "0 < mirrors_of Single" "parity_fits Single ?c" by (simp_all add: mirrors_of_def parity_fits_def)
  have s: "stripe_of ?c Single off 0 = 0" "within_stripe ?c Single off 0 = off" for off
    by (simp_all add: stripe_of_def within_stripe_def place_of_def)
  have st: "ch_stripes ?c ! 0 = \<lparr>st_devid = 1, st_offset = 1048576, st_dev_uuid = []\<rparr>"
    by (simp add: demo_chunk_def)
  have off: "offset_in ?c l = unat l - 1048576" by (simp add: offset_in_def demo_chunk_def)
  have "unat (st_offset (ch_stripes ?c ! stripe_of ?c Single (offset_in ?c l) 0)) +
      within_stripe ?c Single (offset_in ?c l) 0 < 2 ^ 64"
    using assms by (simp add: s st off)
  then obtain r where r: "chunk_map_mirror ?c l 0 = Ok r"
    using chunk_map_mirror_fits [OF demo_single_wf cov demo_single m] by blast
  note ok = chunk_map_mirror_Ok [OF demo_single_wf cov demo_single m r]
  have "unat (mp_physical r) = unat l" using ok(2) assms by (simp add: s st off)
  then have "mp_physical r = l" "mp_devid r = 1" using ok(1) by (simp_all add: s st word_unat_eq_iff)
  then show ?thesis using r single_for [OF assms] by (simp add: map_mirror_def)
qed

lemma space_clear:
  assumes "unat at \<in> {1048576 ..< 1310720}" and "unat at + unat len \<le> 1310720"
  shows "on_superblock_copy (demo_fs block) at len = Ok False"
proof -
  obtain r where r: "map_mirror [single_chunk] at 0 = Ok r" "mp_physical r = at" "mp_devid r = 1"
    using single_maps [OF assms(1)] by blast
  have n: "num_mirrors single_chunk = 1" by (simp add: num_mirrors_def demo_single)
  have "unat (at + len) = unat at + unat len" using assms(2) by (intro unat_add_small) simp
  then have "\<not> 67108864 < at + len" "\<not> 274877906944 < at + len" using assms(2) by (simp_all add: word_less_nat_alt)
  then have "\<not> list_ex (meets_copy (row_bytes single_chunk) r len) (ch_stripes single_chunk)"
    by (simp add: meets_copy_def SUPER_OFFSETS_def row_bytes_def r(2) demo_chunk_def Let_def)
  moreover have "filter (\<lambda>st. st_devid st = 1 \<and> st_offset st \<le> at) (ch_stripes single_chunk) = ch_stripes single_chunk"
    using assms(1) by (simp add: demo_chunk_def word_le_nat_alt)
  ultimately show ?thesis
    using r single_for [OF assms(1)] n
    by (simp add: on_superblock_copy_def mirrors_at_def demo_fs_def)
qed

lemma space_row:
  assumes "unat at \<in> {1048576 ..< 1310720}" and "unat at + unat len \<le> 1310720" and "0 < unat len"
  shows "superblock_row_in (demo_fs block) at len = Ok None"
proof -
  have lo: "laid_out single_chunk" using single_laid_out by (simp add: map_laid_out_def)
  have ch: "chunk_for (fs_map (demo_fs block)) at = Some single_chunk" using single_for [OF assms(1)] by (simp add: demo_fs_def)
  have f: "unat (saturating_add at len) = unat at + unat len" using assms(2) by (simp add: unat_saturating_add)
  have cl: "unat (ch_logical single_chunk) + clen single_chunk = 1310720" "unat (ch_logical single_chunk) = 1048576"
    by (simp_all add: clen_def demo_chunk_def)
  have loop: "row_in_loop (demo_fs block) single_chunk finish n pos = Ok None"
    if "unat finish \<le> 1310720" "ch_logical single_chunk \<le> pos" "unat finish - unat pos < n" for finish n pos
    using that(2,3)
  proof (induction n arbitrary: pos)
    case (Suc n)
    show ?case
    proof (cases "pos < finish")
      case True
      have fin: "unat finish \<le> unat (ch_logical single_chunk) + clen single_chunk" using that(1) cl by simp
      define e where "e = min (ch_logical single_chunk + (pos - ch_logical single_chunk) div row_bytes single_chunk *
          row_bytes single_chunk + row_bytes single_chunk) finish"
      note re = row_end_spec [OF lo demo_single_wf Suc.prems(1) True fin, folded e_def]
      have pe: "unat pos < unat e" "unat e \<le> unat finish" using re(1,2) by (simp_all add: word_less_nat_alt word_le_nat_alt)
      have "on_superblock_copy (demo_fs block) pos (e - pos) = Ok False"
        using pe that(1) Suc.prems(1) re(1) cl by (intro space_clear) (auto simp: unat_sub_le word_le_nat_alt)
      moreover have "row_in_loop (demo_fs block) single_chunk finish n e = Ok None"
        using Suc.IH [of e] pe Suc.prems re(1) by (auto intro: order_trans less_imp_le)
      ultimately show ?thesis
        unfolding row_in_loop.simps [of _ _ _ "Suc n" pos] Let_def e_def [symmetric] diff_Suc_1 using True by simp
    qed (simp add: row_in_loop.simps [of _ _ _ "Suc n" pos])
  qed simp
  have "ch_logical single_chunk \<le> at" using assms(1) cl by (simp add: word_le_nat_alt)
  then show ?thesis
    using loop [of "saturating_add at len" at ROUNDS] assms(2) f unat_u64 [of len] by (simp add: superblock_row_in_def ch)
qed

lemma space_data:
  assumes "build_leaf zero_hash demo_super demo_at space_items = Ok block" and "strictly_sorted (map fst space_items)"
  shows "find_extents_in (demo_fs block) [space_group] [8192, 4096] = Ok [1052672, 1060864]"
proof -
  have "block_group_is_writable (demo_fs block) space_group"
    using single_for [of 1048576] by (simp add: block_group_is_writable_def demo_fs_def space_group_def list_all_iff)
  moreover have "place_extents (demo_fs block) 4096 [8192, 4096] [FreeExtent 1052672 258048] = Ok [1052672, 1060864]"
    by (simp add: fe_end_def saturating_add_def extent_in_run.simps [of _ _ _ _ ROUNDS] checked_add_def
        next_multiple_of_def space_row)
  ultimately show ?thesis
    by (simp add: find_extents_in_def space_free [OF assms] space_nodesize)
qed

lemma space_groups:
  assumes "build_leaf zero_hash demo_super demo_at space_items = Ok block" and "strictly_sorted (map fst space_items)"
  shows "block_groups (demo_fs block) = Ok [space_group]"
proof -
  have "le64 (u64_bytes 4096 @ u64_bytes 256 @ u64_bytes (BG_DATA OR BG_METADATA)) 0 = 4096"
    using le_append_same(1) [of "[]" 0 4096] by simp
  moreover have "le64 (u64_bytes 4096 @ u64_bytes 256 @ u64_bytes (BG_DATA OR BG_METADATA)) 16 = BG_DATA OR BG_METADATA"
    using le_append_same(1) [of "u64_bytes 4096 @ u64_bytes 256" 16 "BG_DATA OR BG_METADATA" "[]"] by simp
  moreover have "block_group_tree_id (demo_fs block) = EXTENT_TREE"
    by (simp add: block_group_tree_id_def has_block_group_tree_def demo_fs_def demo_super_def)
  ultimately show ?thesis
    by (simp add: block_groups_def space_tree(1) [OF assms] space_scan [OF assms])
      (simp add: space_items_def block_group_visit_def checked_add_def space_group_def)
qed

lemma space_block_found:
  assumes "build_leaf zero_hash demo_super demo_at space_items = Ok block" and "strictly_sorted (map fst space_items)"
  shows "metadata_groups (demo_fs block) [space_group] = [space_group]" and "find_metadata_block (demo_fs block) = Ok 1052672"
proof -
  have "block_group_is_writable (demo_fs block) space_group"
    using single_for [of 1048576] by (simp add: block_group_is_writable_def demo_fs_def space_group_def list_all_iff)
  then show g: "metadata_groups (demo_fs block) [space_group] = [space_group]"
    by (simp add: metadata_groups_def holds_metadata_def) (simp add: space_group_def demo_fs_def)
  have "block_in_runs (demo_fs block) 4096 [FreeExtent 1052672 258048] = Ok 1052672"
    by (simp add: fe_end_def saturating_add_def saturating_sub_def block_in_run.simps [of _ _ _ ROUNDS]
        place_in_run_def next_multiple_of_def space_clear)
  then show "find_metadata_block (demo_fs block) = Ok 1052672"
    by (simp add: find_metadata_block_def space_groups [OF assms] g space_free [OF assms] space_nodesize)
qed

lemma space_group_ok: "groups_apart [space_group]" "groups_backed (demo_fs block) [space_group]"
  by (simp_all add: groups_apart_def groups_backed_def demo_fs_def space_group_def demo_chunk_def)

theorem free_extents_exact_witness:
  "\<exists>block. cells [FreeExtent 1052672 258048] = free_bytes space_items (sb_node_bytes (demo_fs block)) space_group"
proof -
  obtain block where b: "build_leaf zero_hash demo_super demo_at space_items = Ok block"
    "strictly_sorted (map fst space_items)" by (rule space_block)
  show ?thesis
    using free_extents_exact [OF space_tree(2) [OF b] space_group_ok(1) space_free [OF b], of 0] by auto
qed

theorem find_extents_safe_witness:
  "\<exists>block. find_extents_in (demo_fs block) [space_group] [8192, 4096] = Ok [1052672, 1060864] \<and>
     runs_apart (map2 FreeExtent [1052672, 1060864] [8192, 4096])"
proof -
  obtain block where b: "build_leaf zero_hash demo_super demo_at space_items = Ok block"
    "strictly_sorted (map fst space_items)" by (rule space_block)
  have ml: "map_laid_out (fs_map (demo_fs block))" using single_laid_out(1) by (simp add: demo_fs_def)
  show ?thesis
    using find_extents_safe [OF space_tree(2) [OF b] space_group_ok ml space_data [OF b]] space_data [OF b] by blast
qed

theorem find_metadata_block_safe_witness:
  "\<exists>block. find_metadata_block (demo_fs block) = Ok 1052672 \<and> clear_of_copies (fs_map (demo_fs block)) 1052672"
proof -
  obtain block where b: "build_leaf zero_hash demo_super demo_at space_items = Ok block"
    "strictly_sorted (map fst space_items)" by (rule space_block)
  have ml: "map_laid_out (fs_map (demo_fs block))" "whole_blocks (fs_map (demo_fs block)) (sb_node_bytes (demo_fs block))"
    using single_laid_out by (simp_all add: demo_fs_def sb_node_bytes_def demo_super_def)
  have n: "sb_nodesize (fs_sb (demo_fs block)) = 4096" by (simp add: demo_fs_def demo_super_def)
  show ?thesis
    using find_metadata_block_safe [OF space_tree(2) [OF b] space_groups [OF b], unfolded space_block_found(1) [OF b],
        OF space_group_ok ml _ space_block_found(2) [OF b]] space_block_found(2) [OF b] n by auto
qed

theorem search_for_room_ends_witness:
  "place_extents (demo_fs []) 4096 [8192] [FreeExtent 1052672 258048] \<noteq> Err never_ends"
proof -
  have ml: "map_laid_out (fs_map (demo_fs []))" using single_laid_out(1) by (simp add: demo_fs_def)
  have "run_in_chunk (fs_map (demo_fs [])) (FreeExtent 1052672 258048)"
    by (simp add: run_in_chunk_def wf_run_def demo_fs_def clen_def) (simp add: demo_chunk_def)
  then show ?thesis
    using search_for_room_ends [OF ml, of 4096 "[FreeExtent 1052672 258048]" "[8192]"] by (simp add: runs_apart_def)
qed

section \<open>Parity and the superblock copies\<close>

text \<open>
  The test asks only where an address's own copies are. On a parity chunk the P of its row is written too,
  and may be where a copy is kept: here dev 3's stripe begins at the second copy, the test
  says that the first row is clear, and writing it puts its parity on the copy.
\<close>

definition parity_chunk :: chunk where
  "parity_chunk = (demo_chunk BG_RAID5 3 0)\<lparr>ch_stripes :=
     [\<lparr>st_devid = 1, st_offset = 1048576, st_dev_uuid = []\<rparr>, \<lparr>st_devid = 2, st_offset = 1048576, st_dev_uuid = []\<rparr>,
      \<lparr>st_devid = 3, st_offset = 67108864, st_dev_uuid = []\<rparr>]\<rparr>"

definition parity_fs :: filesystem where
  "parity_fs = (demo_fs [])\<lparr>fs_map := [parity_chunk]\<rparr>"

lemma parity_on_superblock_copy:
  "on_superblock_copy parity_fs 1048576 4096 = Ok False \<and>
   (\<exists>pr. chunk_parity_read parity_chunk 1048576 = Ok pr \<and> pr_p pr = (3, 67108864)) \<and> 67108864 \<in> set SUPER_OFFSETS"
proof -
  have pr: "chunk_profile_of parity_chunk = Ok Raid5"
    using demo_profile(1) by (simp add: chunk_profile_of_def parity_chunk_def)
  have f: "ch_logical parity_chunk = 1048576" "ch_length parity_chunk = 262144" "ch_stripe_len parity_chunk = 65536"
    "ch_num_stripes parity_chunk = 3"
    by (simp_all add: parity_chunk_def demo_chunk_def)
  have s: "ch_stripes parity_chunk =
     [\<lparr>st_devid = 1, st_offset = 1048576, st_dev_uuid = []\<rparr>, \<lparr>st_devid = 2, st_offset = 1048576, st_dev_uuid = []\<rparr>,
      \<lparr>st_devid = 3, st_offset = 67108864, st_dev_uuid = []\<rparr>]"
    by (simp add: parity_chunk_def)
  have ch: "chunk_for [parity_chunk] 1048576 = Some parity_chunk"
    by (simp add: chunk_for_def partition_point_def before_def get_def f logical_end_def saturating_add_def)
  have m: "map_mirror [parity_chunk] 1048576 0 = Ok \<lparr>mp_devid = 1, mp_physical = 1048576, mp_len = 65536\<rparr>"
    by (simp add: map_mirror_def ch chunk_map_mirror_def pr num_mirrors_def f s logical_end_def saturating_add_def
        stripe_index_def placement_def place_physical_def checked_mul_def checked_add_def get_def Let_def)
  have "\<exists>q. chunk_parity_read parity_chunk 1048576 = Ok q \<and> pr_p q = (3, 67108864)"
    by (simp add: chunk_parity_read_def pr parity_count_def f s logical_end_def saturating_add_def stripe_at_def
        placement_def checked_mul_def checked_add_def get_def Let_def upt_conv_Cons)
  moreover have "on_superblock_copy parity_fs 1048576 4096 = Ok False"
    by (simp add: on_superblock_copy_def parity_fs_def ch mirrors_at_def num_mirrors_def pr m s meets_copy_def
        SUPER_OFFSETS_def row_bytes_def f Let_def)
  ultimately show ?thesis by (simp add: SUPER_OFFSETS_def)
qed

end
