(* ===== verification/Compression.thy ===== *)
theory Compression
  imports Chunk
begin

text \<open>
  \<open>src/src/compression.rs\<close>: the compressed extents. The codecs themselves are third-party crates
  and parameters of the model; what is modelled is the driver's own part: the segmented framing of
  LZO, the bounds on what a decoder may return, and the check of a zstd frame's window. The
  lemmas say that what is packed is unpacked, whatever follows it in its last sector.
\<close>

section \<open>The codecs\<close>

text \<open>
  The operations of \<open>miniz_oxide\<close>, \<open>ruzstd\<close> and \<open>lzo1x\<close> that the driver calls. Decoders are given the
  most they may return; the zstd encoder and decoder work on whole frames.
\<close>

record codecs =
  cd_deflate :: "bytes \<Rightarrow> bytes"
  cd_inflate :: "bytes \<Rightarrow> nat \<Rightarrow> bytes result"
  cd_zstd :: "bytes \<Rightarrow> bytes"
  cd_unzstd :: "bytes \<Rightarrow> nat \<Rightarrow> bytes result"
  cd_lzo :: "bytes \<Rightarrow> bytes"
  cd_unlzo :: "bytes \<Rightarrow> nat \<Rightarrow> bytes result"

datatype compression = Plain | Zlib | Lzo | Zstd

definition compression_from_byte :: "u8 \<Rightarrow> compression result" where
  "compression_from_byte v =
     (if v = 0 then Ok Plain else if v = 1 then Ok Zlib else if v = 2 then Ok Lzo else if v = 3 then Ok Zstd
      else Err (UnsupportedFeature ''extent uses a compression type that is not zlib, LZO or zstd''))"

definition is_compressed :: "compression \<Rightarrow> bool" where
  "is_compressed c \<longleftrightarrow> c \<noteq> Plain"

definition compression_to_byte :: "compression \<Rightarrow> u8" where
  "compression_to_byte c = (case c of Plain \<Rightarrow> 0 | Zlib \<Rightarrow> 1 | Lzo \<Rightarrow> 2 | Zstd \<Rightarrow> 3)"

definition ascii :: "string \<Rightarrow> bytes" where
  "ascii s = map of_char s"

definition starts_with :: "bytes \<Rightarrow> bytes \<Rightarrow> bool" where
  "starts_with b prefix = (take (length prefix) b = prefix)"

definition compression_from_property :: "bytes \<Rightarrow> compression option" where
  "compression_from_property v =
     (if v = ascii ''no'' \<or> v = ascii ''none'' then Some Plain
      else if starts_with v (ascii ''zlib'') then Some Zlib
      else if starts_with v (ascii ''lzo'') then Some Lzo
      else if starts_with v (ascii ''zstd'') then Some Zstd
      else None)"

abbreviation (input) MAX_UNCOMPRESSED :: nat where "MAX_UNCOMPRESSED \<equiv> 131072"
abbreviation (input) MAX_COMPRESSED :: u64 where "MAX_COMPRESSED \<equiv> 131072"

datatype short_decode = Pad | Refuse

section \<open>The framing of LZO\<close>

abbreviation (input) LZO_LEN :: nat where "LZO_LEN \<equiv> 4"

definition lzo_max_segment :: "nat \<Rightarrow> nat" where
  "lzo_max_segment sectorsize = sectorsize + sectorsize div 16 + 64 + 3"

definition pad_to_sector :: "nat \<Rightarrow> bytes \<Rightarrow> bytes" where
  "pad_to_sector sectorsize out =
     (let left = (if length out mod sectorsize = 0 then 0 else sectorsize - length out mod sectorsize)
      in if left < LZO_LEN then out @ replicate left 0 else out)"

fun lzo_segments :: "codecs \<Rightarrow> nat \<Rightarrow> bytes list \<Rightarrow> bytes \<Rightarrow> bytes option" where
  "lzo_segments C sectorsize [] out = Some out"
| "lzo_segments C sectorsize (sector # rest) out =
     (let segment = cd_lzo C sector in
      if length segment > lzo_max_segment sectorsize \<or> 2 ^ 32 \<le> length segment then None
      else lzo_segments C sectorsize rest
             (pad_to_sector sectorsize (out @ u32_bytes (of_nat (length segment)) @ segment)))"

definition compress_lzo :: "codecs \<Rightarrow> bytes \<Rightarrow> nat \<Rightarrow> bytes option" where
  "compress_lzo C input sectorsize =
     (if sectorsize < LZO_LEN then None
      else
        Option.bind (lzo_segments C sectorsize (chunks_of sectorsize input) (replicate LZO_LEN 0)) (\<lambda>out.
        if 2 ^ 32 \<le> length out then None
        else Some (put_at 0 (u32_bytes (of_nat (length out))) out)))"

definition read_u32 :: "bytes \<Rightarrow> nat \<Rightarrow> u32 result" where
  "read_u32 b at =
     (if at + 4 \<le> length b then Ok (le32 b at)
      else Err (BadSuperblock ''LZO extent ended with a length prefix expected''))"

function lzo_loop :: "codecs \<Rightarrow> bytes \<Rightarrow> nat \<Rightarrow> nat \<Rightarrow> nat \<Rightarrow> nat \<Rightarrow> bytes \<Rightarrow> bytes result" where
  "lzo_loop C input ram_bytes sectorsize whole at out =
     (if at < whole \<and> length out < ram_bytes then
        if sectorsize = 0 then Err div_by_zero
        else
          let room = sectorsize - at mod sectorsize in
          if room < LZO_LEN then lzo_loop C input ram_bytes sectorsize whole (at + room) out
          else
            (case read_u32 input at of
               Inl e \<Rightarrow> Err e
             | Inr seg \<Rightarrow>
                 let seg_len = unat seg;
                     start = at + LZO_LEN;
                     finish = start + seg_len
                 in if seg_len = 0 then Err (BadSuperblock ''LZO extent contains a zero-length segment'')
                    else if finish > length input then Err (BadSuperblock ''LZO segment runs past the end of the extent'')
                    else
                      (case cd_unlzo C (slice start seg_len input) (min sectorsize (ram_bytes - length out)) of
                         Inl _ \<Rightarrow> Err (BadSuperblock ''LZO segment failed to decode'')
                       | Inr chunk \<Rightarrow> lzo_loop C input ram_bytes sectorsize whole finish (out @ chunk)))
      else Ok out)"
  by pat_completeness auto
termination
proof (relation "measure (\<lambda>(C, input, ram_bytes, sectorsize, whole, at, out). whole - at)", goal_cases)
  case (2 C input ram_bytes sectorsize whole at out x)
  have "at mod sectorsize < sectorsize" using 2 by simp
  then have "0 < x" using 2 by linarith
  moreover have "at < whole" using 2 by blast
  ultimately show ?case by simp
qed auto

declare lzo_loop.simps [simp del]

definition decompress_lzo :: "codecs \<Rightarrow> bytes \<Rightarrow> nat \<Rightarrow> nat \<Rightarrow> bytes result" where
  "decompress_lzo C input ram_bytes sectorsize =
     (if sectorsize < LZO_LEN then Err (BadSuperblock ''sector size is too small to hold an LZO segment header'')
      else if length input < LZO_LEN then Err (BadSuperblock ''LZO extent is too short to hold its length header'')
      else
        try_in (read_u32 input 0) (\<lambda>whole.
        if unat whole > length input then
          Err (BadSuperblock ''LZO extent declares more compressed bytes than are present'')
        else lzo_loop C input ram_bytes sectorsize (unat whole) LZO_LEN []))"

section \<open>The other codecs\<close>

text \<open>\<open>get(i)\<close> and \<open>get(i..i + n)\<close> end the function with \<open>None\<close> when out of range.\<close>

definition get_le :: "bytes \<Rightarrow> nat \<Rightarrow> nat \<Rightarrow> u64 option" where
  "get_le b at n = (if at + n \<le> length b then Some (of_nat (le_nat (slice at n b))) else None)"

definition zstd_window :: "bytes \<Rightarrow> u64 option" where
  "zstd_window frame =
     Option.bind (get_le frame 0 4) (\<lambda>magic.
     if magic \<noteq> 0xFD2FB528 then None
     else
       Option.bind (get_le frame 4 1) (\<lambda>descriptor.
       if descriptor AND 0x20 = 0 then
         Option.bind (get_le frame 5 1) (\<lambda>window.
         let base = push_bit (10 + unat (drop_bit 3 window)) (1 :: u64)
         in Some (base + base div 8 * (window AND 7)))
       else
         let dict_len = [0, 1, 2, 4 :: nat] ! unat (descriptor AND 3);
             at = 5 + dict_len;
             kind = drop_bit 6 descriptor
         in if kind = 0 then get_le frame at 1
            else if kind = 1 then map_option (\<lambda>n. n + 256) (get_le frame at 2)
            else if kind = 2 then get_le frame at 4
            else get_le frame at 8))"

definition compress_zstd :: "codecs \<Rightarrow> bytes \<Rightarrow> bytes option" where
  "compress_zstd C input =
     (let frame = cd_zstd C input in
      Option.bind (zstd_window frame) (\<lambda>w. if w \<le> of_nat MAX_UNCOMPRESSED then Some frame else None))"

definition compress :: "codecs \<Rightarrow> compression \<Rightarrow> bytes \<Rightarrow> nat \<Rightarrow> bytes option" where
  "compress C algo input sectorsize =
     (case algo of
        Plain \<Rightarrow> None
      | Zlib \<Rightarrow> Some (cd_deflate C input)
      | Lzo \<Rightarrow> compress_lzo C input sectorsize
      | Zstd \<Rightarrow> compress_zstd C input)"

definition decompress_zlib :: "codecs \<Rightarrow> bytes \<Rightarrow> nat \<Rightarrow> bytes result" where
  "decompress_zlib C input ram_bytes =
     map_err (\<lambda>_. BadSuperblock ''zlib extent failed to decode'') (cd_inflate C input ram_bytes)"

text \<open>The decoder is a stream that is read to its end or to \<open>ram_bytes\<close>.\<close>

definition decompress_zstd :: "codecs \<Rightarrow> bytes \<Rightarrow> nat \<Rightarrow> bytes result" where
  "decompress_zstd C input ram_bytes =
     map_err (\<lambda>_. BadSuperblock ''zstd extent failed to decode'') (cd_unzstd C input ram_bytes)"

definition resize :: "nat \<Rightarrow> bytes \<Rightarrow> bytes" where
  "resize n b = take n b @ replicate (n - length b) 0"

definition decompress :: "codecs \<Rightarrow> compression \<Rightarrow> bytes \<Rightarrow> nat \<Rightarrow> nat \<Rightarrow> short_decode \<Rightarrow> bytes result" where
  "decompress C algo input ram_bytes sectorsize short =
     (if ram_bytes > MAX_UNCOMPRESSED then
        Err (BadSuperblock ''extent says it decodes to more than a compressed extent can hold'')
      else
        try_in (case algo of
            Plain \<Rightarrow> Ok input
          | Zlib \<Rightarrow> decompress_zlib C input ram_bytes
          | Lzo \<Rightarrow> decompress_lzo C input ram_bytes sectorsize
          | Zstd \<Rightarrow> decompress_zstd C input ram_bytes) (\<lambda>out.
        if length out > ram_bytes then Err (BadSuperblock ''extent decoded to more than it records'')
        else if length out < ram_bytes \<and> short = Refuse then
          Err (BadSuperblock ''extent decoded to less than it records, and it is not the last extent'')
        else Ok (resize ram_bytes out)))"

section \<open>The LZO framing is read back\<close>

text \<open>The bytes from \<open>at\<close> to the next sector boundary.\<close>

definition room_at :: "nat \<Rightarrow> nat \<Rightarrow> nat" where
  "room_at ss at = ss - at mod ss"

lemma room_at_pos: "0 < ss \<Longrightarrow> 0 < room_at ss at"
  using mod_less_divisor [of ss at] by (simp add: room_at_def)

lemma pad_to_sector_cases:
  assumes "LZO_LEN \<le> ss"
  shows "pad_to_sector ss out = out \<and> LZO_LEN \<le> room_at ss (length out) \<or>
         pad_to_sector ss out = out @ replicate (room_at ss (length out)) 0 \<and>
         room_at ss (length out) < LZO_LEN"
  using assms by (auto simp: pad_to_sector_def room_at_def Let_def not_less split: if_splits)

lemma room_after_skip:
  assumes "0 < ss"
  shows "room_at ss (at + room_at ss at) = ss"
proof -
  have "at + (ss - at mod ss) = ss * (at div ss) + ss"
    using mult_div_mod_eq [of ss at] mod_less_divisor [OF assms, of at] by linarith
  then show ?thesis by (simp add: room_at_def)
qed

lemma pad_to_sector_room:
  assumes "LZO_LEN \<le> ss"
  shows "LZO_LEN \<le> room_at ss (length (pad_to_sector ss out))"
  using pad_to_sector_cases [OF assms, of out] assms room_after_skip [of ss "length out"] by auto

lemma pad_to_sector_extends: "\<exists>z. pad_to_sector ss out = out @ z"
  by (auto simp: pad_to_sector_def Let_def)

lemma lzo_segments_extends:
  "lzo_segments C ss segs out = Some out' \<Longrightarrow> \<exists>z. out' = out @ z"
proof (induction segs arbitrary: out)
  case Nil
  then show ?case by simp
next
  case (Cons sector rest)
  obtain z where "pad_to_sector ss (out @ u32_bytes (of_nat (length (cd_lzo C sector))) @ cd_lzo C sector)
      = (out @ u32_bytes (of_nat (length (cd_lzo C sector))) @ cd_lzo C sector) @ z"
    using pad_to_sector_extends by blast
  with Cons show ?case by (fastforce simp: Let_def split: if_splits)
qed

text \<open>A decoder that stands before the padding goes on as one that stands behind it.\<close>

lemma lzo_loop_skips:
  assumes "LZO_LEN \<le> ss" and "length (pad_to_sector ss out) \<le> whole"
  shows "lzo_loop C input ram ss whole (length out) got =
         lzo_loop C input ram ss whole (length (pad_to_sector ss out)) got"
proof (cases "pad_to_sector ss out = out")
  case True
  then show ?thesis by simp
next
  case False
  then have p: "pad_to_sector ss out = out @ replicate (room_at ss (length out)) 0"
    and r: "room_at ss (length out) < LZO_LEN"
    using pad_to_sector_cases [OF assms(1), of out] by auto
  have pos: "0 < room_at ss (length out)" using assms(1) room_at_pos by simp
  have lt: "length out < whole" using assms(2) pos by (simp add: p)
  show ?thesis
  proof (cases "length got < ram")
    case True
    then show ?thesis
      using lt r assms(1) by (subst lzo_loop.simps) (simp add: p room_at_def)
  next
    case False
    then show ?thesis by (simp add: lzo_loop.simps [of C input])
  qed
qed

text \<open>The laws of the codecs: what an encoder wrote is decoded, whatever follows a stream.\<close>

definition lossless_codecs :: "codecs \<Rightarrow> bool" where
  "lossless_codecs C \<longleftrightarrow>
     (\<forall>x n pad. length x \<le> n \<longrightarrow> length x \<le> MAX_UNCOMPRESSED \<longrightarrow>
        cd_inflate C (cd_deflate C x @ pad) n = Ok x \<and> cd_unzstd C (cd_zstd C x @ pad) n = Ok x \<and>
        (x \<noteq> [] \<longrightarrow> cd_lzo C x \<noteq> [] \<and> cd_unlzo C (cd_lzo C x) n = Ok x))"

lemma lzo_loop_reads_segments:
  assumes laws: "lossless_codecs C" and ss: "LZO_LEN \<le> ss" "ss \<le> MAX_UNCOMPRESSED"
    and "lzo_segments C ss segs out = Some out'"
    and "\<And>s. s \<in> set segs \<Longrightarrow> s \<noteq> [] \<and> length s \<le> ss"
    and "drop (length out) input = drop (length out) out' @ pad"
    and "LZO_LEN \<le> room_at ss (length out)"
    and "length got + length (concat segs) \<le> ram"
  shows "lzo_loop C input ram ss (length out') (length out) got = Ok (got @ concat segs)"
  using assms(4-)
proof (induction segs arbitrary: out got)
  case Nil
  then show ?case by (simp add: lzo_loop.simps [of C input])
next
  case (Cons sector rest)
  define seg where "seg = cd_lzo C sector"
  define hd where "hd = u32_bytes (of_nat (length seg))"
  define mid where "mid = out @ hd @ seg"
  have sector: "sector \<noteq> []" "length sector \<le> ss" using Cons.prems(2) by simp_all
  have small: "length seg < 2 ^ 32"
    and rest: "lzo_segments C ss rest (pad_to_sector ss mid) = Some out'"
    using Cons.prems(1) by (auto simp: Let_def seg_def hd_def mid_def split: if_splits)
  obtain z z' where z: "out' = pad_to_sector ss mid @ z" "pad_to_sector ss mid = mid @ z'"
    using lzo_segments_extends [OF rest] pad_to_sector_extends by blast
  have "out' = (mid @ z') @ z" using z(1) unfolding z(2) .
  then have out': "out' = out @ hd @ seg @ z' @ z" by (simp add: mid_def)
  have tail: "drop (length out) input = hd @ seg @ z' @ z @ pad"
    using Cons.prems(3) by (simp add: out')
  have hd4: "length hd = 4" by (simp add: hd_def)
  have li: "length input = length out + 4 + length seg + length z' + length z + length pad"
  proof -
    have "length (drop (length out) input) = 4 + length seg + length z' + length z + length pad"
      by (simp only: tail length_append hd4)
    then show ?thesis using hd4 Cons.prems(1) by (cases "length out \<le> length input") (auto simp: )
  qed
  have len: "unat (of_nat (length seg) :: u32) = length seg"
    using small by (simp add: unat_of_nat)
  have read: "read_u32 input (length out) = Ok (of_nat (length seg))"
  proof -
    have "slice (length out) 4 input = hd" using hd4 by (simp add: slice_def tail)
    then show ?thesis using li by (simp add: read_u32_def le32_def hd_def byte_simps)
  qed
  have body: "slice (length out + 4) (length seg) input = seg"
  proof -
    have "drop (length out + 4) input = drop 4 (drop (length out) input)" by (simp add: add.commute)
    then show ?thesis using hd4 by (simp add: slice_def tail)
  qed
  have lzo: "seg \<noteq> []" "cd_unlzo C seg (min ss (ram - length got)) = Ok sector"
    using laws sector Cons.prems(5) ss(2) by (auto simp: lossless_codecs_def seg_def)
  have step: "lzo_loop C input ram ss (length out') (length out) got =
      lzo_loop C input ram ss (length out') (length mid) (got @ sector)"
  proof -
    have c: "length out < length out'" "length got < ram"
    proof -
      show "length out < length out'" by (simp add: out' hd4)
      have "0 < length sector" using sector(1) by simp
      moreover have "length got + (length sector + length (concat rest)) \<le> ram"
        using Cons.prems(5) by simp
      ultimately show "length got < ram" by linarith
    qed
    have m: "length mid = length out + 4 + length seg" by (simp add: mid_def hd4)
    have f: "length out + 4 + length seg \<le> length input" by (simp add: li)
    show ?thesis
      using c Cons.prems(4) ss(1) lzo f
      by (subst lzo_loop.simps) (simp add: read len body room_at_def m)
  qed
  also have "\<dots> = lzo_loop C input ram ss (length out') (length (pad_to_sector ss mid)) (got @ sector)"
    by (rule lzo_loop_skips) (simp_all add: ss z)
  also have "\<dots> = Ok ((got @ sector) @ concat rest)"
  proof (rule Cons.IH [OF rest])
    show "s \<noteq> [] \<and> length s \<le> ss" if "s \<in> set rest" for s using Cons.prems(2) that by simp
    have "drop (length (pad_to_sector ss mid)) input = drop (4 + length seg + length z') (drop (length out) input)"
      unfolding z(2) by (simp add: mid_def hd4 add.commute add.left_commute)
    then show "drop (length (pad_to_sector ss mid)) input = drop (length (pad_to_sector ss mid)) out' @ pad"
      by (simp add: tail z(1) hd4)
  qed (use ss pad_to_sector_room Cons.prems(5) in auto)
  finally show ?case by simp
qed

lemma lzo_round_trip:
  assumes laws: "lossless_codecs C" and ss: "8 \<le> ss" "ss \<le> MAX_UNCOMPRESSED"
    and packed: "compress_lzo C input ss = Some packed"
  shows "decompress_lzo C (packed @ pad) (length input) ss = Ok input"
proof -
  obtain out where segs: "lzo_segments C ss (chunks_of ss input) (replicate 4 0) = Some out"
    and small: "length out < 2 ^ 32" and p: "packed = put_at 0 (u32_bytes (of_nat (length out))) out"
    using packed ss by (auto simp: compress_lzo_def bind_eq_Some_conv not_le split: if_splits)
  obtain z where z: "out = replicate 4 0 @ z" using lzo_segments_extends [OF segs] by blast
  have pz: "packed = u32_bytes (of_nat (length out)) @ z" by (simp add: p z put_at_def)
  have len: "unat (of_nat (length out) :: u32) = length out" using small by (simp add: unat_of_nat)
  have read: "read_u32 (packed @ pad) 0 = Ok (of_nat (length out))"
    by (simp add: read_u32_def pz le32_def slice_def byte_simps)
  have "lzo_loop C (packed @ pad) (length input) ss (length out) (length (replicate 4 (0::u8))) [] =
      Ok ([] @ concat (chunks_of ss input))"
  proof (rule lzo_loop_reads_segments [OF laws])
    show "s \<noteq> [] \<and> length s \<le> ss" if "s \<in> set (chunks_of ss input)" for s
      using chunks_of_members [OF that] .
    show "4 \<le> room_at ss (length (replicate 4 (0::u8)))" using ss by (simp add: room_at_def)
  qed (use ss segs in \<open>simp_all add: pz z concat_chunks_of\<close>)
  then show ?thesis
    using ss len by (simp add: decompress_lzo_def read concat_chunks_of) (simp add: pz z)
qed

lemma compress_reads_back:
  assumes laws: "lossless_codecs C" and ss: "8 \<le> ss" "ss \<le> MAX_UNCOMPRESSED"
    and short: "length input \<le> MAX_UNCOMPRESSED"
    and packed: "compress C algo input ss = Some packed"
  shows "decompress C algo (packed @ pad) (length input) ss short_decode = Ok input"
proof -
  have "case algo of Plain \<Rightarrow> False | Zlib \<Rightarrow> decompress_zlib C (packed @ pad) (length input) = Ok input
      | Lzo \<Rightarrow> decompress_lzo C (packed @ pad) (length input) ss = Ok input
      | Zstd \<Rightarrow> decompress_zstd C (packed @ pad) (length input) = Ok input"
  proof (cases algo)
    case Lzo
    then show ?thesis using lzo_round_trip [OF laws ss] packed by (simp add: compress_def)
  qed (use laws short packed in \<open>auto simp: compress_def decompress_zlib_def decompress_zstd_def
      compress_zstd_def lossless_codecs_def Let_def bind_eq_Some_conv split: if_splits\<close>)
  then show ?thesis using short by (cases algo) (auto simp: decompress_def resize_def)
qed

text \<open>What a decode returns has the recorded length, whatever the codec gave back.\<close>

lemma decompress_length:
  "decompress C algo input ram ss short = Ok out \<Longrightarrow> length out = ram \<and> ram \<le> MAX_UNCOMPRESSED"
  by (auto simp: decompress_def resize_def res_simps split: if_splits)

text \<open>Codecs that satisfy the laws: a length, then the bytes as they are.\<close>

definition demo_pack :: "bytes \<Rightarrow> bytes" where
  "demo_pack x = u32_bytes (of_nat (length x)) @ x"

definition demo_unpack :: "bytes \<Rightarrow> nat \<Rightarrow> bytes result" where
  "demo_unpack b n =
     (if unat (le32 b 0) \<le> n \<and> 4 + unat (le32 b 0) \<le> length b then Ok (slice 4 (unat (le32 b 0)) b)
      else Err NotFound)"

definition demo_codecs :: codecs where
  "demo_codecs =
     \<lparr>cd_deflate = demo_pack, cd_inflate = demo_unpack,
      cd_zstd = \<lambda>x. [0x28, 0xb5, 0x2f, 0xfd, 0, 0] @ demo_pack x, cd_unzstd = \<lambda>b. demo_unpack (drop 6 b),
      cd_lzo = demo_pack, cd_unlzo = demo_unpack\<rparr>"

lemma demo_unpack_pack:
  assumes "length x \<le> n" and "length x \<le> MAX_UNCOMPRESSED"
  shows "demo_unpack (demo_pack x @ pad) n = Ok x"
proof -
  have "unat (of_nat (length x) :: u32) = length x"
    using assms(2) by (simp add: unat_of_nat)
  moreover have "le32 (demo_pack x @ pad) 0 = of_nat (length x)"
    by (simp add: demo_pack_def le32_def slice_def byte_simps)
  ultimately show ?thesis
    using assms(1) by (simp add: demo_unpack_def) (simp add: demo_pack_def slice_def)
qed

lemma demo_codecs_lossless: "lossless_codecs demo_codecs"
proof -
  have "demo_pack x \<noteq> []" for x by (simp add: demo_pack_def flip: length_0_conv)
  then show ?thesis
    using demo_unpack_pack [of _ _ "[]"] by (simp add: lossless_codecs_def demo_codecs_def demo_unpack_pack)
qed

section \<open>Properties\<close>

text \<open>
  C33. What the driver packs it unpacks. Under the laws of the codecs, whatever \<open>compress\<close> made of
  at most one compression unit, with any of the three algorithms, is decoded by \<open>decompress\<close> to exactly the
  input: with the strict rule on short output or the lenient one, and whatever bytes follow it in
  the last sector of the extent. For LZO this is the agreement of the two sides of the segmented
  framing on where each segment's header lies.
\<close>
theorem compress_round_trip:
  assumes "lossless_codecs C" and "8 \<le> sectorsize" and "sectorsize \<le> MAX_UNCOMPRESSED"
    and "length input \<le> MAX_UNCOMPRESSED"
    and "compress C algo input sectorsize = Some packed"
  shows "decompress C algo (packed @ pad) (length input) sectorsize short = Ok input"
  using assms by (rule compress_reads_back)

definition demo_packed :: bytes where
  "demo_packed = [32, 0, 0, 0] @ [12, 0, 0, 0, 8, 0, 0, 0] @ replicate 8 7 @ [6, 0, 0, 0, 2, 0, 0, 0] @ replicate 2 7 @ replicate 2 0"

lemma u32_bytes_eval:
  "u32_bytes v = [of_nat (unat v), of_nat (unat v div 256), of_nat (unat v div 65536), of_nat (unat v div 16777216)]"
proof -
  have "to_le (Suc (Suc (Suc (Suc 0)))) n = [of_nat n, of_nat (n div 256), of_nat (n div 65536), of_nat (n div 16777216)]"
    for n by (simp flip: div_mult2_eq)
  moreover have "4 = Suc (Suc (Suc (Suc 0)))" by simp
  ultimately show ?thesis by (simp only: u32_bytes_def)
qed

lemma demo_packed_lzo: "compress demo_codecs Lzo (replicate 10 7) 8 = Some demo_packed"
  by (simp add: compress_def compress_lzo_def demo_codecs_def chunks_of.simps [of 8] demo_pack_def
      lzo_max_segment_def pad_to_sector_def u32_bytes_eval put_at_def demo_packed_def)

lemma compress_round_trip_witness:
  "compress demo_codecs Lzo (replicate 10 7) 8 = Some demo_packed \<and>
   decompress demo_codecs Lzo (demo_packed @ [0, 0]) 10 8 Refuse = Ok (replicate 10 7)"
  using compress_round_trip [OF demo_codecs_lossless _ _ _ demo_packed_lzo, of "[0, 0]" Refuse] demo_packed_lzo
  by simp

end
