(* ===== verification/Verity.thy ===== *)
theory Verity
  imports Chunk
begin

text \<open>
  \<open>src/src/verity.rs\<close>: fs-verity. A sealed file carries a descriptor with the root hash of a Merkle
  tree over its blocks, and the tree itself; every read is checked against both. The hash functions
  are a parameter. The lemmas say that checking binds: two reads that pass against one root hash
  agree on every byte they share, whatever the trees said, unless two blocks collide.
\<close>

section \<open>Descriptors\<close>

abbreviation (input) INODE_RO_VERITY :: u64 where "INODE_RO_VERITY \<equiv> 0x100000000"
abbreviation (input) DESCRIPTOR_ITEM_SIZE :: nat where "DESCRIPTOR_ITEM_SIZE \<equiv> 25"
abbreviation (input) DESCRIPTOR_SIZE :: nat where "DESCRIPTOR_SIZE \<equiv> 256"
abbreviation (input) MAX_SALT :: nat where "MAX_SALT \<equiv> 32"
abbreviation (input) DESC_VERSION :: nat where "DESC_VERSION \<equiv> 0"
abbreviation (input) DESC_HASH_ALGORITHM :: nat where "DESC_HASH_ALGORITHM \<equiv> 1"
abbreviation (input) DESC_LOG_BLOCKSIZE :: nat where "DESC_LOG_BLOCKSIZE \<equiv> 2"
abbreviation (input) DESC_SALT_SIZE :: nat where "DESC_SALT_SIZE \<equiv> 3"
abbreviation (input) DESC_SIG_SIZE :: nat where "DESC_SIG_SIZE \<equiv> 4"
abbreviation (input) DESC_DATA_SIZE :: nat where "DESC_DATA_SIZE \<equiv> 8"
abbreviation (input) DESC_ROOT_HASH :: nat where "DESC_ROOT_HASH \<equiv> 16"
abbreviation (input) DESC_SALT :: nat where "DESC_SALT \<equiv> 80"
abbreviation (input) DESC_RESERVED :: nat where "DESC_RESERVED \<equiv> 112"

definition refuse_mutation :: "u64 \<Rightarrow> unit result" where
  "refuse_mutation flags =
     (if flags AND INODE_RO_VERITY \<noteq> 0 then
        Err (UnsupportedFeature ''inode is sealed by fs-verity, so its data and verity items cannot be changed'')
      else Ok ())"

datatype verity_hash = VeritySha256 | VeritySha512

text \<open>The crate \<open>sha2\<close>: the digest of all the parts fed to it, one after the other.\<close>

record sha2_lib =
  sha256_of :: "bytes \<Rightarrow> bytes"
  sha512_of :: "bytes \<Rightarrow> bytes"

definition verity_hash_from_raw :: "u8 \<Rightarrow> verity_hash option" where
  "verity_hash_from_raw raw = (if raw = 1 then Some VeritySha256 else if raw = 2 then Some VeritySha512 else None)"

definition vh_digest_len :: "verity_hash \<Rightarrow> nat" where
  "vh_digest_len h = (case h of VeritySha256 \<Rightarrow> 32 | VeritySha512 \<Rightarrow> 64)"

definition vh_input_block :: "verity_hash \<Rightarrow> nat" where
  "vh_input_block h = (case h of VeritySha256 \<Rightarrow> 64 | VeritySha512 \<Rightarrow> 128)"

definition vh_name :: "verity_hash \<Rightarrow> string" where
  "vh_name h = (case h of VeritySha256 \<Rightarrow> ''sha256'' | VeritySha512 \<Rightarrow> ''sha512'')"

definition vh_hash :: "sha2_lib \<Rightarrow> verity_hash \<Rightarrow> bytes list \<Rightarrow> bytes" where
  "vh_hash L h parts =
     (case h of VeritySha256 \<Rightarrow> sha256_of L (concat parts) | VeritySha512 \<Rightarrow> sha512_of L (concat parts))"

record verity =
  ve_hash :: verity_hash
  ve_log_blocksize :: u8
  ve_data_size :: u64
  ve_salt :: bytes
  ve_root_hash :: bytes
  ve_signature :: bytes
  ve_descriptor :: bytes

definition verity_parse :: "bytes \<Rightarrow> u64 \<Rightarrow> verity result" where
  "verity_parse d file_size =
     (if length d < DESCRIPTOR_SIZE then
        Err (BadSuperblock ''fs-verity descriptor: shorter than the structure needs'')
      else if d ! DESC_VERSION \<noteq> 1 then Err (UnsupportedFeature ''fs-verity descriptor version'')
      else
        try_in (ok_or (UnsupportedFeature ''fs-verity hash algorithm'')
          (verity_hash_from_raw (d ! DESC_HASH_ALGORITHM))) (\<lambda>hash.
        let log_blocksize = d ! DESC_LOG_BLOCKSIZE;
            salt_size = unat (d ! DESC_SALT_SIZE);
            sig_size = unat (le32 d DESC_SIG_SIZE);
            data_size = le64 d DESC_DATA_SIZE
        in if \<not> (10 \<le> log_blocksize \<and> log_blocksize \<le> 16) then
             Err (UnsupportedFeature ''an fs-verity block size out of range'')
           else if salt_size > MAX_SALT then Err (BadSuperblock ''fs-verity descriptor: the salt'')
           else if DESCRIPTOR_SIZE + sig_size \<noteq> length d then
             Err (BadSuperblock ''fs-verity descriptor: the signature is not what follows'')
           else if data_size \<noteq> file_size then
             Err (BadSuperblock ''fs-verity descriptor: it covers another number of bytes'')
           else if (\<exists>b \<in> set (slice DESC_RESERVED (DESCRIPTOR_SIZE - DESC_RESERVED) d). b \<noteq> 0) then
             Err (BadSuperblock ''fs-verity descriptor: reserved bytes are set'')
           else
             Ok \<lparr>ve_hash = hash, ve_log_blocksize = log_blocksize, ve_data_size = data_size,
                 ve_salt = slice DESC_SALT salt_size d,
                 ve_root_hash = slice DESC_ROOT_HASH (vh_digest_len hash) d,
                 ve_signature = drop DESCRIPTOR_SIZE d, ve_descriptor = d\<rparr>))"

definition ve_block_size :: "verity \<Rightarrow> u64" where
  "ve_block_size v = push_bit (unat (ve_log_blocksize v)) 1"

definition verity_digest :: "sha2_lib \<Rightarrow> verity \<Rightarrow> bytes" where
  "verity_digest L v =
     vh_hash L (ve_hash v) [put_at DESC_SIG_SIZE (replicate 4 0) (take DESCRIPTOR_SIZE (ve_descriptor v))]"

section \<open>The stored tree\<close>

definition hashes_per_block :: "verity \<Rightarrow> u64" where
  "hashes_per_block v = ve_block_size v div of_nat (vh_digest_len (ve_hash v))"

text \<open>
  The number of blocks of each level. With fewer than two digests to a block the source divides by
  zero or goes on for ever; the check of the block size in \<open>parse\<close> excludes both.
\<close>

function level_sizes :: "u64 \<Rightarrow> u64 \<Rightarrow> u64 list result" where
  "level_sizes per blocks =
     (if blocks \<le> 1 then Ok []
      else if per < 2 then Err (Panic ''the levels of the tree do not narrow'')
      else try_in (level_sizes per (div_ceil blocks per)) (\<lambda>upper. Ok (div_ceil blocks per # upper)))"
  by pat_completeness auto
termination
proof (relation "measure (\<lambda>(per, blocks). unat blocks)", goal_cases)
  case (2 per blocks)
  then have "2 \<le> unat per" "2 \<le> unat blocks" by (auto simp: word_less_nat_alt word_le_nat_alt)
  moreover from this have "unat blocks + (unat per - 1) < unat blocks * unat per"
  proof -
    have "unat blocks * 2 + (unat per - 2) * 2 \<le> unat blocks * 2 + (unat per - 2) * unat blocks"
      using \<open>2 \<le> unat blocks\<close> by simp
    also have "\<dots> = unat blocks * unat per"
      using \<open>2 \<le> unat per\<close> by (metis add.commute le_add_diff_inverse mult.commute distrib_left)
    finally show ?thesis using \<open>2 \<le> unat blocks\<close> \<open>2 \<le> unat per\<close> by linarith
  qed
  ultimately show ?case
    by (simp add: unat_div_ceil less_mult_imp_div_less)
qed simp

declare level_sizes.simps [simp del]

text \<open>Stored root first: given from the top level down.\<close>

fun level_starts :: "u64 \<Rightarrow> u64 list \<Rightarrow> (u64 \<times> u64) list" where
  "level_starts at [] = []"
| "level_starts at (n # down) = (at, n) # level_starts (at + n) down"

definition verity_levels :: "verity \<Rightarrow> (u64 \<times> u64) list result" where
  "verity_levels v =
     (if hashes_per_block v = 0 \<and> 1 < div_ceil (ve_data_size v) (ve_block_size v) then Err div_by_zero
      else
        try_in (level_sizes (hashes_per_block v) (div_ceil (ve_data_size v) (ve_block_size v))) (\<lambda>sizes.
        Ok (rev (level_starts 0 (rev sizes)))))"

definition tree_size :: "verity \<Rightarrow> u64 result" where
  "tree_size v =
     try_in (verity_levels v) (\<lambda>levels. Ok (fold (\<lambda>(_, n) sum. sum + n) levels 0 * ve_block_size v))"

definition pad_block :: "verity \<Rightarrow> bytes \<Rightarrow> bytes" where
  "pad_block v block =
     (let bs = unat (ve_block_size v) in
      if length block = bs then block else take bs block @ replicate (bs - length block) 0)"

definition padded_salt :: "verity \<Rightarrow> bytes" where
  "padded_salt v =
     (if ve_salt v = [] then []
      else let n = length (ve_salt v); m = vh_input_block (ve_hash v) in
        ve_salt v @ replicate ((if n mod m = 0 then n else n + (m - n mod m)) - n) 0)"

definition hash_block :: "sha2_lib \<Rightarrow> verity \<Rightarrow> bytes \<Rightarrow> bytes" where
  "hash_block L v block = vh_hash L (ve_hash v) [padded_salt v, pad_block v block]"

section \<open>Verification\<close>

text \<open>
  The digests of one level are compared with the entries of the blocks above. The caller's reader of
  the stored tree has a state of its own, which is passed through.
\<close>

fun check_digests :: "verity \<Rightarrow> u64 \<Rightarrow> u64 \<Rightarrow> bytes \<Rightarrow> (u64 \<Rightarrow> u64) \<Rightarrow> u64 \<Rightarrow> bytes list \<Rightarrow> unit result" where
  "check_digests v index lo entries at_level k [] = Ok ()"
| "check_digests v index lo entries at_level k (dg # rest) =
     (let dlen = vh_digest_len (ve_hash v);
          entry = unat (index + k - lo * hashes_per_block v) * dlen
      in if length entries < entry + dlen then Err (Panic ''range end index out of range'')
         else if slice entry dlen entries \<noteq> dg then
           Err (ChecksumMismatch ''a block of an fs-verity file'' (at_level (index + k)))
         else check_digests v index lo entries at_level (k + 1) rest)"

fun verify_levels ::
  "sha2_lib \<Rightarrow> verity \<Rightarrow> (u64 \<Rightarrow> nat \<Rightarrow> 'c \<Rightarrow> bytes result \<times> 'c) \<Rightarrow> (u64 \<times> u64) list \<Rightarrow> u64 \<Rightarrow> bytes list \<Rightarrow>
   (u64 \<Rightarrow> u64) \<Rightarrow> 'c \<Rightarrow> unit result \<times> 'c" where
  "verify_levels L v tree [] index digests at_level c =
     (if digests = [ve_root_hash v] then (Ok (), c)
      else (Err (ChecksumMismatch ''a block of an fs-verity file'' (at_level index)), c))"
| "verify_levels L v tree ((start, blocks) # upper) index digests at_level c =
     (let bs = ve_block_size v;
          per = hashes_per_block v;
          final = index + of_nat (length digests) - 1;
          lo = index div per;
          hi = final div per
      in if hi \<ge> blocks then (Err (BadSuperblock ''fs-verity: a block is past the blocks of its tree level''), c)
         else
           (case tree ((start + lo) * bs) (unat ((hi - lo + 1) * bs)) c of
              (Inl e, c) \<Rightarrow> (Err e, c)
            | (Inr entries, c) \<Rightarrow>
                (case check_digests v index lo entries at_level 0 digests of
                   Inl e \<Rightarrow> (Err e, c)
                 | Inr _ \<Rightarrow>
                     verify_levels L v tree upper lo (map (hash_block L v) (chunks_of (unat bs) entries))
                       (\<lambda>i. (start + i) * bs) c)))"

definition verity_verify ::
  "sha2_lib \<Rightarrow> verity \<Rightarrow> u64 \<Rightarrow> bytes \<Rightarrow> (u64 \<Rightarrow> nat \<Rightarrow> 'c \<Rightarrow> bytes result \<times> 'c) \<Rightarrow> 'c \<Rightarrow> unit result \<times> 'c" where
  "verity_verify L v first data tree c =
     (if data = [] then (Ok (), c)
      else
        (case verity_levels v of
           Inl e \<Rightarrow> (Err e, c)
         | Inr levels \<Rightarrow>
             verify_levels L v tree levels first (map (hash_block L v) (chunks_of (unat (ve_block_size v)) data))
               (\<lambda>i. i * ve_block_size v) c))"

section \<open>Blobs laid out over items\<close>

fun assemble_loop :: "u64 \<Rightarrow> nat \<Rightarrow> u64 \<Rightarrow> (u64 \<times> bytes) list \<Rightarrow> bytes \<Rightarrow> bytes result" where
  "assemble_loop base len end [] out = Ok out"
| "assemble_loop base len end ((offset, b) # items) out =
     (let item_end = saturating_add offset (of_nat (length b)) in
      if item_end \<le> base \<or> end \<le> offset then assemble_loop base len end items out
      else
        let have_to = base + of_nat (length out) in
        if have_to < offset then Err (BadSuperblock ''nothing holds some of the bytes'')
        else
          let skip = unat (have_to - offset);
              len_to = unat (min item_end end - have_to)
          in if skip < length b \<and> length b < skip + len_to then Err (Panic ''range end index out of range'')
             else
               let out = (if skip < length b then out @ slice skip len_to b else out)
               in if length out = len then Ok out else assemble_loop base len end items out)"

definition assemble :: "(u64 \<times> bytes) list \<Rightarrow> u64 \<Rightarrow> nat \<Rightarrow> bytes result" where
  "assemble items base len =
     try_in (assemble_loop base len (base + of_nat len) items []) (\<lambda>out.
     if length out \<noteq> len then Err (BadSuperblock ''not all bytes are stored'') else Ok out)"

section \<open>Geometry\<close>

abbreviation block_bytes :: "verity \<Rightarrow> nat" where
  "block_bytes v \<equiv> unat (ve_block_size v)"

abbreviation digest_bytes :: "verity \<Rightarrow> nat" where
  "digest_bytes v \<equiv> vh_digest_len (ve_hash v)"

definition wf_verity :: "verity \<Rightarrow> bool" where
  "wf_verity v \<longleftrightarrow> 10 \<le> unat (ve_log_blocksize v) \<and> unat (ve_log_blocksize v) \<le> 16"

lemma verity_parse_wf: "verity_parse d n = Ok v \<Longrightarrow> wf_verity v"
  by (auto simp: verity_parse_def wf_verity_def Let_def res_simps word_le_nat_alt split: if_splits)

lemma wf_geometry:
  assumes "wf_verity v"
  shows "block_bytes v = 2 ^ unat (ve_log_blocksize v)" and "1024 \<le> block_bytes v" and "block_bytes v \<le> 65536"
    and "unat (hashes_per_block v) * digest_bytes v = block_bytes v" and "16 \<le> unat (hashes_per_block v)"
    and "0 < digest_bytes v"
proof -
  let ?k = "unat (ve_log_blocksize v)"
  have k: "10 \<le> ?k" "?k \<le> 16" using assms by (simp_all add: wf_verity_def)
  have "unat (2 ^ ?k :: u64) = 2 ^ ?k"
  proof -
    have "(2::nat) ^ ?k < 2 ^ 64" using k by (intro power_strict_increasing) auto
    then have "unat (of_nat (2 ^ ?k) :: u64) = 2 ^ ?k" by (simp only: unat_of_nat) simp
    then show ?thesis by (simp only: of_nat_power of_nat_numeral)
  qed
  then show bs: "block_bytes v = 2 ^ ?k" by (simp add: ve_block_size_def push_bit_eq_mult)
  have "(2::nat) ^ 10 \<le> 2 ^ ?k" "(2::nat) ^ ?k \<le> 2 ^ 16"
    using k by (auto simp del: power_numeral intro!: power_increasing)
  then show b: "1024 \<le> block_bytes v" "block_bytes v \<le> 65536" by (simp_all add: bs)
  have d: "digest_bytes v = 32 \<or> digest_bytes v = 64"
    by (cases "ve_hash v") (simp_all add: vh_digest_len_def)
  then show "0 < digest_bytes v" by auto
  have per: "unat (hashes_per_block v) = block_bytes v div digest_bytes v"
    using d by (auto simp: hashes_per_block_def unat_div_word)
  have "digest_bytes v dvd 2 ^ 10" using d by auto
  moreover have "(2::nat) ^ 10 dvd 2 ^ ?k" by (rule le_imp_power_dvd [OF k(1)])
  ultimately have "digest_bytes v dvd block_bytes v"
    unfolding bs by (rule dvd_trans)
  then show "unat (hashes_per_block v) * digest_bytes v = block_bytes v" by (simp add: per)
  have "1024 div 64 \<le> block_bytes v div 64" using b by (intro div_le_mono)
  moreover have "1024 div 32 \<le> block_bytes v div 32" using b by (intro div_le_mono)
  ultimately show "16 \<le> unat (hashes_per_block v)" using d by (auto simp: per)
qed

lemma length_pad_block: "length (pad_block v b) = block_bytes v"
  by (auto simp: pad_block_def Let_def)

lemma pad_block_full: "length b = block_bytes v \<Longrightarrow> pad_block v b = b"
  by (simp add: pad_block_def)

lemma pad_block_nth: "i < length b \<Longrightarrow> length b \<le> block_bytes v \<Longrightarrow> pad_block v b ! i = b ! i"
  by (auto simp: pad_block_def Let_def nth_append)

section \<open>What a level that passes says\<close>

lemma check_digests_Ok:
  assumes "check_digests v index lo entries at_level k ds = Ok ()" and "j < length ds"
  shows "slice (unat (index + (k + of_nat j) - lo * hashes_per_block v) * digest_bytes v) (digest_bytes v) entries = ds ! j
    \<and> unat (index + (k + of_nat j) - lo * hashes_per_block v) * digest_bytes v + digest_bytes v \<le> length entries"
  using assms
proof (induction v index lo entries at_level k ds arbitrary: j rule: check_digests.induct)
  case (2 v index lo entries at_level k dg rest)
  show ?case
  proof (cases j)
    case 0
    then show ?thesis using 2 by (auto simp: Let_def split: if_splits)
  next
    case (Suc i)
    then show ?thesis
      using 2 by (auto simp: Let_def add.assoc split: if_splits)
  qed
qed simp

lemma div_spread: "0 < p \<Longrightarrow> (x + m) div p \<le> x div p + m" for x m p :: nat
proof (induction m)
  case (Suc m)
  have "Suc (x + m) div p \<le> Suc ((x + m) div p)" by (simp add: div_Suc)
  then show ?case using Suc by simp
qed simp

text \<open>A reader of the stored tree gives the bytes asked for, cut from blocks of the set.\<close>

definition tree_within :: "verity \<Rightarrow> (u64 \<Rightarrow> nat \<Rightarrow> 'c \<Rightarrow> bytes result \<times> 'c) \<Rightarrow> bytes set \<Rightarrow> bool" where
  "tree_within v tree S \<longleftrightarrow>
     (\<forall>off n c b. fst (tree off n c) = Ok b \<longrightarrow> length b = n \<and> set (chunks_of (block_bytes v) b) \<subseteq> S)"

lemma tree_withinD:
  "tree_within v tree S \<Longrightarrow> fst (tree off n c) = Ok b \<Longrightarrow> length b = n \<and> set (chunks_of (block_bytes v) b) \<subseteq> S"
  by (simp add: tree_within_def)

definition in_entries :: "verity \<Rightarrow> bytes \<Rightarrow> u64 \<Rightarrow> bytes list \<Rightarrow> nat \<Rightarrow> bool" where
  "in_entries v entries index ds j \<longleftrightarrow>
     (let per = unat (hashes_per_block v);
          blocks = chunks_of (block_bytes v) entries;
          p = (unat index + j) div per - unat index div per
      in p < length blocks \<and>
         ds ! j = slice ((unat index + j) mod per * digest_bytes v) (digest_bytes v) (blocks ! p))"

lemma level_step:
  assumes wf: "wf_verity v" and ne: "ds \<noteq> []"
    and fits: "unat index + length ds \<le> 2 ^ 64" "length ds * block_bytes v < 2 ^ 64"
    and tree: "tree_within v tree S"
    and ok: "fst (verify_levels L v tree ((start, blocks) # upper) index ds at_level c) = Ok ()"
  shows "\<exists>entries off n at' c c'. fst (tree off n c) = Ok entries \<and>
    fst (verify_levels L v tree upper (index div hashes_per_block v)
      (map (hash_block L v) (chunks_of (block_bytes v) entries)) at' c') = Ok () \<and> entries \<noteq> [] \<and>
    unat (index div hashes_per_block v) + length (chunks_of (block_bytes v) entries) \<le> 2 ^ 64 \<and>
    length (chunks_of (block_bytes v) entries) \<le> length ds \<and>
    (\<forall>b \<in> set (chunks_of (block_bytes v) entries). length b = block_bytes v) \<and>
    (\<forall>j < length ds. in_entries v entries index ds j)"
proof -
  define bs where "bs = block_bytes v"
  define per where "per = unat (hashes_per_block v)"
  define dl where "dl = digest_bytes v"
  define x where "x = unat index"
  define n where "n = length ds"
  note geo = wf_geometry [OF wf, folded bs_def per_def dl_def]
  have n0: "0 < n" using ne by (simp add: n_def)
  define final where "final = index + of_nat (length ds) - 1"
  define lo where "lo = index div hashes_per_block v"
  define hi where "hi = final div hashes_per_block v"
  have final: "unat final = x + n - 1"
  proof -
    have "final = index + of_nat (n - 1)" using ne by (cases ds) (simp_all add: final_def n_def)
    moreover have u: "unat (of_nat (n - 1) :: u64) = n - 1"
      using fits(1) n0 by (simp add: unat_of_nat n_def)
    moreover have "unat index + unat (of_nat (n - 1) :: u64) < 2 ^ LENGTH(64)"
    proof -
      have "x + n \<le> 18446744073709551616" using fits(1) by (simp add: x_def n_def)
      then have "x + (n - 1) < 18446744073709551616" using n0 by linarith
      then show ?thesis unfolding u by (simp add: x_def)
    qed
    ultimately have "unat final = x + (n - 1)"
      by (simp only: unat_add_small x_def)
    then show ?thesis using n0 by linarith
  qed
  have lo: "unat lo = x div per" and hi: "unat hi = (x + n - 1) div per"
    by (simp_all add: lo_def hi_def unat_div_word final x_def per_def)
  have lohi: "unat lo \<le> unat hi"
    unfolding lo hi by (rule div_le_mono) (use n0 in linarith)
  define m where "m = unat hi - unat lo + 1"
  have mn: "m \<le> n"
    using div_spread [of per x "n - 1"] geo(5) n0 lohi by (simp add: m_def lo hi)
  have "n * 1 \<le> n * bs" using geo(2) by (intro mult_le_mono2) simp
  moreover have "n * bs < 2 ^ 64" using fits(2) by (simp only: n_def bs_def)
  ultimately have "m < 2 ^ 64" using mn by linarith
  then have "unat (hi - lo + 1) = m"
    using lohi by (subst unat_add_small) (auto simp: unat_sub_le word_le_nat_alt m_def n_def)
  moreover have "m * bs < 2 ^ 64"
    using fits(2) mn by (metis bs_def le_less_trans mult_le_mono1 n_def)
  ultimately have len: "unat ((hi - lo + 1) * ve_block_size v) = m * bs"
    by (simp add: unat_mult_small bs_def)
  obtain entries c' where e': "tree ((start + lo) * ve_block_size v) (m * bs) c = (Ok entries, c')"
    and chk: "check_digests v index lo entries at_level 0 ds = Ok ()"
    and next_ok: "fst (verify_levels L v tree upper lo (map (hash_block L v) (chunks_of bs entries))
      (\<lambda>i. (start + i) * ve_block_size v) c') = Ok ()"
    using ok by (auto simp: Let_def len simp flip: final_def lo_def hi_def bs_def
        split: if_splits prod.splits sum.splits)
  have e: "fst (tree ((start + lo) * ve_block_size v) (m * bs) c) = Ok entries" by (simp add: e')
  have le: "length entries = m * bs" using tree_withinD [OF tree e] by blast
  have bs0: "0 < bs" using geo(2) by simp
  have lc: "length (chunks_of bs entries) = m"
  proof -
    have "length (chunks_of bs entries) = (m * bs + (bs - 1)) div bs"
      using bs0 le by (simp add: length_chunks_of)
    also have "\<dots> = m" using bs0 by (intro div_nat_eqI) (simp_all add: mult.commute)
    finally show ?thesis .
  qed
  have chunk: "chunks_of bs entries ! i = slice (i * bs) bs entries" if "i < m" for i
    using nth_chunks_of [of i bs entries] bs0 that by (simp add: le)
  have full: "i * bs + bs \<le> m * bs" if "i < m" for i
  proof -
    have "Suc i * bs \<le> m * bs" using that by (intro mult_le_mono1) simp
    then show ?thesis by simp
  qed
  show ?thesis
  proof (intro exI conjI ballI allI impI)
    show "fst (tree ((start + lo) * ve_block_size v) (m * bs) c) = Ok entries" by (rule e)
    show "entries \<noteq> []" using le bs0 m_def by auto
    show "unat (index div hashes_per_block v) + length (chunks_of (block_bytes v) entries) \<le> 2 ^ 64"
      using lohi unat_u64 [of hi] by (simp flip: lo_def bs_def) (simp add: lc m_def)
    show "length (chunks_of (block_bytes v) entries) \<le> length ds"
      using mn by (simp add: lc n_def flip: bs_def)
    show "length b = block_bytes v" if b: "b \<in> set (chunks_of (block_bytes v) entries)" for b
    proof -
      obtain i where "i < m" "b = slice (i * bs) bs entries"
        using b chunk by (auto simp: in_set_conv_nth lc simp flip: bs_def)
      then show ?thesis using full [of i] by (simp add: le bs_def)
    qed
    fix j
    assume j: "j < length ds"
    define q where "q = (x + j) div per"
    have qm: "q - x div per < m" and ql: "x div per \<le> q"
    proof -
      have "q \<le> (x + n - 1) div per" using j by (auto simp: q_def n_def intro!: div_le_mono)
      moreover show "x div per \<le> q" by (simp add: q_def div_le_mono)
      ultimately show "q - x div per < m" using lohi by (simp add: m_def lo hi)
    qed
    have ent: "unat (index + (0 + of_nat j) - lo * hashes_per_block v) = x + j - x div per * per"
    proof -
      have jj: "unat (index + of_nat j) = x + j"
        using fits(1) j by (subst unat_add_small) (auto simp: unat_of_nat x_def)
      have ll: "unat (lo * hashes_per_block v) = x div per * per"
      proof -
        have "x div per * per \<le> x" by simp
        then have "x div per * per < 18446744073709551616"
          using unat_u64 [of index] unfolding x_def by linarith
        then have "unat lo * unat (hashes_per_block v) < 2 ^ 64" by (simp add: lo flip: per_def)
        then show ?thesis by (simp add: unat_mult_small lo flip: per_def)
      qed
      have "x div per * per \<le> x + j" using div_times_less_eq_dividend [of x per] by linarith
      then have "unat (index + of_nat j - lo * hashes_per_block v) = x + j - x div per * per"
        by (subst unat_sub_le) (simp_all add: word_le_nat_alt jj ll)
      then show ?thesis by simp
    qed
    have entry: "(x + j - x div per * per) * dl = (q - x div per) * bs + (x + j) mod per * dl"
    proof -
      have "x + j = q * per + (x + j) mod per" by (simp add: q_def)
      moreover have "x div per * per \<le> q * per" using ql by simp
      ultimately have "x + j - x div per * per = (q - x div per) * per + (x + j) mod per"
        by (simp add: diff_mult_distrib)
      then have "(x + j - x div per * per) * dl = (q - x div per) * (per * dl) + (x + j) mod per * dl"
        by (simp add: distrib_right)
      then show ?thesis by (simp add: geo(4))
    qed
    have inside: "(x + j) mod per * dl + dl \<le> bs"
    proof -
      have "Suc ((x + j) mod per) * dl \<le> per * dl"
        using geo(5) by (intro mult_le_mono1 Suc_leI mod_less_divisor) simp
      then show ?thesis by (simp add: geo(4))
    qed
    have "ds ! j = slice ((q - x div per) * bs + (x + j) mod per * dl) dl entries"
      using check_digests_Ok [OF chk j] unfolding ent by (simp add: entry flip: dl_def)
    also have "\<dots> = slice ((x + j) mod per * dl) dl (chunks_of bs entries ! (q - x div per))"
      using inside by (simp add: chunk [OF qm] slice_slice)
    finally show "in_entries v entries index ds j"
      using qm by (simp add: in_entries_def Let_def lc q_def flip: x_def per_def dl_def bs_def)
  qed (use next_ok in \<open>simp add: lo_def bs_def\<close>)
qed

section \<open>Verification binds\<close>

text \<open>No two blocks of a set have one digest.\<close>

definition no_collision :: "sha2_lib \<Rightarrow> verity \<Rightarrow> bytes set \<Rightarrow> bool" where
  "no_collision L v S \<longleftrightarrow> inj_on (\<lambda>b. vh_hash L (ve_hash v) [padded_salt v, b]) S"

lemma hash_block_inj:
  "no_collision L v S \<Longrightarrow> pad_block v a \<in> S \<Longrightarrow> pad_block v b \<in> S \<Longrightarrow>
   hash_block L v a = hash_block L v b \<Longrightarrow> pad_block v a = pad_block v b"
  by (auto simp: no_collision_def hash_block_def dest: inj_onD)

lemma levels_agree:
  assumes wf: "wf_verity v" and col: "no_collision L v S"
    and tree1: "tree_within v tree1 S" and tree2: "tree_within v tree2 S"
    and "ds1 \<noteq> []" and "ds2 \<noteq> []"
    and "unat index1 + length ds1 \<le> 2 ^ 64" and "length ds1 * block_bytes v < 2 ^ 64"
    and "unat index2 + length ds2 \<le> 2 ^ 64" and "length ds2 * block_bytes v < 2 ^ 64"
    and "fst (verify_levels L v tree1 levels index1 ds1 at1 c1) = Ok ()"
    and "fst (verify_levels L v tree2 levels index2 ds2 at2 c2) = Ok ()"
    and "i < length ds1" and "j < length ds2" and "unat index1 + i = unat index2 + j"
  shows "ds1 ! i = ds2 ! j"
  using assms(5-)
proof (induction levels arbitrary: index1 index2 ds1 ds2 at1 at2 c1 c2 i j)
  case Nil
  then show ?case by (auto split: if_splits)
next
  case (Cons level upper)
  obtain start blocks where lv: "level = (start, blocks)" by fastforce
  let ?per = "unat (hashes_per_block v)" and ?bs = "block_bytes v"
  obtain e1 o1 n1 a1 d1 u1 where
    1: "fst (tree1 o1 n1 d1) = Ok e1" "fst (verify_levels L v tree1 upper (index1 div hashes_per_block v) (map (hash_block L v) (chunks_of ?bs e1)) a1 u1) = Ok ()"
      "e1 \<noteq> []" "unat (index1 div hashes_per_block v) + length (chunks_of ?bs e1) \<le> 2 ^ 64" "length (chunks_of ?bs e1) \<le> length ds1"
      "\<And>b. b \<in> set (chunks_of ?bs e1) \<Longrightarrow> length b = ?bs"
      "\<And>k. k < length ds1 \<Longrightarrow> in_entries v e1 index1 ds1 k"
    using level_step [OF wf Cons.prems(1,3,4) tree1 Cons.prems(7) [unfolded lv]] by blast
  obtain e2 o2 n2 a2 d2 u2 where
    2: "fst (tree2 o2 n2 d2) = Ok e2" "fst (verify_levels L v tree2 upper (index2 div hashes_per_block v) (map (hash_block L v) (chunks_of ?bs e2)) a2 u2) = Ok ()"
      "e2 \<noteq> []" "unat (index2 div hashes_per_block v) + length (chunks_of ?bs e2) \<le> 2 ^ 64" "length (chunks_of ?bs e2) \<le> length ds2"
      "\<And>b. b \<in> set (chunks_of ?bs e2) \<Longrightarrow> length b = ?bs"
      "\<And>k. k < length ds2 \<Longrightarrow> in_entries v e2 index2 ds2 k"
    using level_step [OF wf Cons.prems(2,5,6) tree2 Cons.prems(8) [unfolded lv]] by blast
  note 1 = 1(1-6) 1(7) [OF Cons.prems(9), unfolded in_entries_def Let_def]
    and 2 = 2(1-6) 2(7) [OF Cons.prems(10), unfolded in_entries_def Let_def]
  define p1 where "p1 = (unat index1 + i) div ?per - unat index1 div ?per"
  define p2 where "p2 = (unat index2 + j) div ?per - unat index2 div ?per"
  have bs: "0 < ?bs" using wf_geometry(2) [OF wf] by simp
  have ne: "chunks_of ?bs e1 \<noteq> []" "chunks_of ?bs e2 \<noteq> []"
    using 1(3) 2(3) bs by (simp_all add: chunks_of_step)
  have small: "length (chunks_of ?bs e1) * ?bs < 2 ^ 64" "length (chunks_of ?bs e2) * ?bs < 2 ^ 64"
    using mult_le_mono1 [OF 1(5), of ?bs] mult_le_mono1 [OF 2(5), of ?bs] Cons.prems(4,6) by linarith+
  have same: "unat (index1 div hashes_per_block v) + p1 = unat (index2 div hashes_per_block v) + p2"
    using Cons.prems(11) by (simp add: p1_def p2_def unat_div_word div_le_mono)
  have "map (hash_block L v) (chunks_of ?bs e1) ! p1 = map (hash_block L v) (chunks_of ?bs e2) ! p2"
    using ne small 1(2,4,7) 2(2,4,7) same
    by (intro Cons.IH [where ?index1.0 = "index1 div hashes_per_block v" and ?index2.0 = "index2 div hashes_per_block v"])
      (auto simp: p1_def p2_def)
  then have h: "hash_block L v (chunks_of ?bs e1 ! p1) = hash_block L v (chunks_of ?bs e2 ! p2)"
    using 1(7) 2(7) by (simp add: p1_def p2_def)
  have m1: "chunks_of ?bs e1 ! p1 \<in> set (chunks_of ?bs e1)" and m2: "chunks_of ?bs e2 ! p2 \<in> set (chunks_of ?bs e2)"
    using 1(7) 2(7) by (simp_all add: p1_def p2_def)
  have p: "pad_block v (chunks_of ?bs e1 ! p1) = chunks_of ?bs e1 ! p1"
    "pad_block v (chunks_of ?bs e2 ! p2) = chunks_of ?bs e2 ! p2"
    using 1(6) [OF m1] 2(6) [OF m2] by (simp_all add: pad_block_full)
  have "chunks_of ?bs e1 ! p1 = chunks_of ?bs e2 ! p2"
    using hash_block_inj [OF col _ _ h] p m1 m2 tree_withinD [OF tree1 1(1)] tree_withinD [OF tree2 2(1)]
    by auto
  then show ?case
    using 1(7) 2(7) Cons.prems(11) by (simp add: p1_def p2_def)
qed

text \<open>The blocks a buffer is hashed in.\<close>

definition data_blocks :: "verity \<Rightarrow> bytes \<Rightarrow> bytes set" where
  "data_blocks v data = pad_block v ` set (chunks_of (block_bytes v) data)"

lemma verified_reads_agree:
  assumes wf: "wf_verity v" and col: "no_collision L v S"
    and tree1: "tree_within v tree1 S" and tree2: "tree_within v tree2 S"
    and data1: "data_blocks v data1 \<subseteq> S" and data2: "data_blocks v data2 \<subseteq> S"
    and ok1: "fst (verity_verify L v first1 data1 tree1 c1) = Ok ()" and ok2: "fst (verity_verify L v first2 data2 tree2 c2) = Ok ()"
    and fits1: "unat first1 * block_bytes v + length data1 < 2 ^ 63"
    and fits2: "unat first2 * block_bytes v + length data2 < 2 ^ 63"
    and at1: "unat first1 * block_bytes v \<le> x" "x < unat first1 * block_bytes v + length data1"
    and at2: "unat first2 * block_bytes v \<le> x" "x < unat first2 * block_bytes v + length data2"
  shows "data1 ! (x - unat first1 * block_bytes v) = data2 ! (x - unat first2 * block_bytes v)"
proof -
  define bs where "bs = block_bytes v"
  have bs: "1024 \<le> bs" "bs \<le> 65536" using wf_geometry(2,3) [OF wf] by (simp_all add: bs_def)
  then have bs0: "0 < bs" by simp
  have blocks: "unat first + length (chunks_of bs data) \<le> 2 ^ 64 \<and> length (chunks_of bs data) * bs < 2 ^ 64"
    if "unat first * bs + length data < 2 ^ 63" for first :: u64 and data :: bytes
  proof -
    have l: "length (chunks_of bs data) * bs \<le> length data + (bs - 1)"
      using div_times_less_eq_dividend [of "length data + (bs - 1)" bs] by (simp add: length_chunks_of [OF bs0])
    have "(unat first + length (chunks_of bs data)) * 1 \<le> (unat first + length (chunks_of bs data)) * bs"
      using bs0 by (intro mult_le_mono2) simp
    also have "\<dots> < 2 ^ 64" using that l bs by (simp add: distrib_right)
    finally show ?thesis using that l bs by simp
  qed
  have ne: "data1 \<noteq> []" "data2 \<noteq> []" using at1 at2 by auto
  then obtain levels where lv: "verity_levels v = Ok levels"
    and v1: "fst (verify_levels L v tree1 levels first1 (map (hash_block L v) (chunks_of bs data1)) (\<lambda>i. i * ve_block_size v) c1) = Ok ()"
    and v2: "fst (verify_levels L v tree2 levels first2 (map (hash_block L v) (chunks_of bs data2)) (\<lambda>i. i * ve_block_size v) c2) = Ok ()"
    using ok1 ok2 by (auto simp: verity_verify_def bs_def split: sum.splits)
  have cut: "(x div bs - unat first) * bs < length data \<and> unat first \<le> x div bs \<and>
      x - unat first * bs = (x div bs - unat first) * bs + x mod bs"
    if "unat first * bs \<le> x" "x < unat first * bs + length data" for first :: u64 and data :: bytes
  proof -
    have "unat first \<le> x div bs" using that(1) bs0 by (simp add: less_eq_div_iff_mult_less_eq)
    moreover from this have "unat first * bs \<le> x div bs * bs" by simp
    moreover have "x = x div bs * bs + x mod bs" by simp
    ultimately show ?thesis using that(2) unfolding diff_mult_distrib by linarith
  qed
  define i where "i = x div bs - unat first1"
  define j where "j = x div bs - unat first2"
  have c1: "i * bs < length data1" "unat first1 \<le> x div bs" "x - unat first1 * bs = i * bs + x mod bs"
    and c2: "j * bs < length data2" "unat first2 \<le> x div bs" "x - unat first2 * bs = j * bs + x mod bs"
    using cut [of first1 data1] cut [of first2 data2] at1 at2 by (simp_all add: i_def j_def bs_def)
  have il: "i < length (chunks_of bs data1)" "chunks_of bs data1 ! i = slice (i * bs) bs data1"
    and jl: "j < length (chunks_of bs data2)" "chunks_of bs data2 ! j = slice (j * bs) bs data2"
    using nth_chunks_of [OF c1(1) bs0] nth_chunks_of [OF c2(1) bs0] by auto
  have "map (hash_block L v) (chunks_of bs data1) ! i = map (hash_block L v) (chunks_of bs data2) ! j"
  proof (rule levels_agree [OF wf col tree1 tree2 _ _ _ _ _ _ v1 v2])
    show "unat first1 + i = unat first2 + j" using c1(2) c2(2) by (simp add: i_def j_def)
  qed (use il jl blocks [of first1 data1] blocks [of first2 data2] fits1 fits2 in \<open>auto simp flip: bs_def\<close>)
  then have h: "hash_block L v (chunks_of bs data1 ! i) = hash_block L v (chunks_of bs data2 ! j)"
    using il jl by simp
  have "pad_block v (chunks_of bs data1 ! i) \<in> S" "pad_block v (chunks_of bs data2 ! j) \<in> S"
    using data1 data2 nth_mem [OF il(1)] nth_mem [OF jl(1)] by (auto simp: data_blocks_def simp flip: bs_def)
  then have p: "pad_block v (slice (i * bs) bs data1) = pad_block v (slice (j * bs) bs data2)"
    using hash_block_inj [OF col _ _ h] il(2) jl(2) by simp
  have xm: "x mod bs < bs" using bs0 by simp
  have get: "pad_block v (slice (k * bs) bs data) ! (x mod bs) = data ! (k * bs + x mod bs)"
    if "k * bs + x mod bs < length data" for k and data :: bytes
    using that xm by (subst pad_block_nth) (auto simp: nth_slice bs_def)
  have "data1 ! (i * bs + x mod bs) = data2 ! (j * bs + x mod bs)"
    using arg_cong [OF p, of "\<lambda>b. b ! (x mod bs)"] get [of i data1] get [of j data2] c1(3) c2(3) at1 at2
    by (simp flip: bs_def)
  then show ?thesis using c1(3) c2(3) by (simp flip: bs_def)
qed

section \<open>Properties\<close>

text \<open>
  C34. Verification binds a sealed file's bytes to its root hash. When two reads of a file, at
  whatever places and with whatever stored trees they were checked against, both pass under one
  descriptor, they agree on every byte they share, as long as no two of the blocks hashed on
  the way collide. So neither a changed block nor a changed tree can pass as the file that was sealed.
\<close>
theorem verity_binds:
  assumes "verity_parse d file_size = Ok v" and "no_collision L v S"
    and "tree_within v tree1 S" and "tree_within v tree2 S"
    and "data_blocks v data1 \<subseteq> S" and "data_blocks v data2 \<subseteq> S"
    and "fst (verity_verify L v first1 data1 tree1 c1) = Ok ()" and "fst (verity_verify L v first2 data2 tree2 c2) = Ok ()"
    and "unat first1 * block_bytes v + length data1 < 2 ^ 63"
    and "unat first2 * block_bytes v + length data2 < 2 ^ 63"
    and "unat first1 * block_bytes v \<le> x" and "x < unat first1 * block_bytes v + length data1"
    and "unat first2 * block_bytes v \<le> x" and "x < unat first2 * block_bytes v + length data2"
  shows "data1 ! (x - unat first1 * block_bytes v) = data2 ! (x - unat first2 * block_bytes v)"
  by (rule verified_reads_agree [OF verity_parse_wf [OF assms(1)] assms(2-14)])

text \<open>A file of two blocks under a hash that looks at one byte of each block.\<close>

definition demo_sha2 :: sha2_lib where
  "demo_sha2 = \<lparr>sha256_of = (\<lambda>b. replicate 32 (b ! 100)), sha512_of = (\<lambda>b. replicate 64 (b ! 100))\<rparr>"

definition demo_descriptor :: bytes where
  "demo_descriptor = [1, 1, 10, 0] @ replicate 4 0 @ u64_bytes 2048 @ replicate 240 0"

definition demo_verity :: verity where
  "demo_verity =
     \<lparr>ve_hash = VeritySha256, ve_log_blocksize = 10, ve_data_size = 2048, ve_salt = [],
      ve_root_hash = replicate 32 0, ve_signature = [], ve_descriptor = demo_descriptor\<rparr>"

definition sealed_tree_block :: bytes where
  "sealed_tree_block = replicate 32 1 @ replicate 32 2 @ replicate 960 0"

definition sealed_tree :: "u64 \<Rightarrow> nat \<Rightarrow> unit \<Rightarrow> bytes result \<times> unit" where
  "sealed_tree off n c = (if off = 0 \<and> n = 1024 then Ok sealed_tree_block else Err NotFound, ())"

abbreviation (input) sealed_data :: bytes where
  "sealed_data \<equiv> replicate 1024 1 @ replicate 1024 2"

lemma demo_verity_parse: "verity_parse demo_descriptor 2048 = Ok demo_verity"
proof -
  have "le64 demo_descriptor 8 = 2048" "le32 demo_descriptor 4 = 0"
    by (simp_all add: demo_descriptor_def le64_def le32_def slice_def byte_simps)
      (simp add: numeral_eq_Suc)
  then show ?thesis
    by (simp add: verity_parse_def demo_verity_def verity_hash_from_raw_def vh_digest_len_def)
      (simp add: demo_descriptor_def slice_def vh_digest_len_def)
qed

lemma demo_geometry: "block_bytes demo_verity = 1024" "hashes_per_block demo_verity = 32" "ve_block_size demo_verity = 1024"
  by (simp_all add: demo_verity_def ve_block_size_def hashes_per_block_def vh_digest_len_def)

lemma demo_levels: "verity_levels demo_verity = Ok [(0, 1)]"
  by (simp add: verity_levels_def demo_geometry)
    (simp add: demo_verity_def div_ceil_def level_sizes.simps word_le_nat_alt)

lemma demo_hash:
  "length b = 1024 \<Longrightarrow> hash_block demo_sha2 demo_verity b = replicate 32 (b ! 100)"
  by (simp add: hash_block_def pad_block_def demo_geometry)
    (simp add: vh_hash_def demo_verity_def padded_salt_def demo_sha2_def)

lemma sealed_chunks:
  "chunks_of 1024 sealed_data = [replicate 1024 1, replicate 1024 2]"
  "chunks_of 1024 (replicate 1024 (2 :: u8)) = [replicate 1024 2]"
  "chunks_of 1024 sealed_tree_block = [sealed_tree_block]"
  by (simp_all add: chunks_of.simps sealed_tree_block_def)

lemma sealed_hashes:
  "hash_block demo_sha2 demo_verity (replicate 1024 1) = replicate 32 1"
  "hash_block demo_sha2 demo_verity (replicate 1024 2) = replicate 32 2"
  "hash_block demo_sha2 demo_verity sealed_tree_block = replicate 32 0"
  by (simp_all add: demo_hash sealed_tree_block_def nth_append)

lemma sealed_verifies:
  "fst (verity_verify demo_sha2 demo_verity 0 sealed_data sealed_tree ()) = Ok ()"
  "fst (verity_verify demo_sha2 demo_verity 1 (replicate 1024 2) sealed_tree ()) = Ok ()"
proof -
  have d: "vh_digest_len (ve_hash demo_verity) = 32" "ve_root_hash demo_verity = replicate 32 0"
    by (simp_all add: demo_verity_def vh_digest_len_def)
  have t: "sealed_tree 0 1024 () = (Ok sealed_tree_block, ())" by (simp add: sealed_tree_def)
  have e: "slice 0 32 sealed_tree_block = replicate 32 1" "slice 32 32 sealed_tree_block = replicate 32 2"
    "length sealed_tree_block = 1024"
    by (simp_all add: sealed_tree_block_def slice_def)
  show "fst (verity_verify demo_sha2 demo_verity 0 sealed_data sealed_tree ()) = Ok ()"
    by (simp add: verity_verify_def demo_levels demo_geometry sealed_chunks sealed_hashes t e d)
  show "fst (verity_verify demo_sha2 demo_verity 1 (replicate 1024 2) sealed_tree ()) = Ok ()"
    by (simp add: verity_verify_def demo_levels demo_geometry sealed_chunks sealed_hashes t e d)
qed

definition sealed_blocks :: "bytes set" where
  "sealed_blocks = {replicate 1024 1, replicate 1024 2, sealed_tree_block}"

lemma sealed_no_collision: "no_collision demo_sha2 demo_verity sealed_blocks"
proof -
  have l: "length sealed_tree_block = 1024" by (simp add: sealed_tree_block_def)
  have n: "replicate 32 i \<noteq> (replicate 32 j :: bytes)" if "i \<noteq> j" for i j
    using that by (simp add: replicate_eq_replicate)
  show ?thesis
    unfolding no_collision_def sealed_blocks_def
    using sealed_hashes n [of 1 2] n [of 1 0] n [of 2 0]
    by (intro inj_onI) (auto simp: hash_block_def pad_block_def demo_geometry l)
qed

lemma verity_binds_witness:
  "fst (verity_verify demo_sha2 demo_verity 0 sealed_data sealed_tree ()) = Ok () \<and>
   fst (verity_verify demo_sha2 demo_verity 1 (replicate 1024 2) sealed_tree ()) = Ok () \<and>
   sealed_data ! (1500 - 0) = (replicate 1024 2 :: bytes) ! (1500 - 1024)"
proof -
  have t: "tree_within demo_verity sealed_tree sealed_blocks"
    by (auto simp: tree_within_def sealed_tree_def demo_geometry sealed_chunks sealed_blocks_def)
      (simp add: sealed_tree_block_def)
  have b: "data_blocks demo_verity sealed_data \<subseteq> sealed_blocks" "data_blocks demo_verity (replicate 1024 2) \<subseteq> sealed_blocks"
    by (simp_all add: data_blocks_def demo_geometry sealed_chunks pad_block_def sealed_blocks_def)
  show ?thesis
    using verity_binds [OF demo_verity_parse sealed_no_collision t t b sealed_verifies, of 1500] sealed_verifies
    by (simp add: demo_geometry)
qed

end
