(* ===== verification/Csum.thy ===== *)
theory Csum
  imports Filesystem
begin

text \<open>
  \<open>src/src/csum.rs\<close>: the checksums of data. The checksum tree holds, under keys whose offset is a
  logical address, arrays of digests for the sectors from there on; the digests of a range are those
  of the item that covers its start, found by stepping back from a search, and of the items after it.
  The lemma compares what is found with what the whole tree records.
\<close>

abbreviation (input) EXTENT_CSUM_OBJECTID :: u64 where "EXTENT_CSUM_OBJECTID \<equiv> 0xFFFFFFFFFFFFFFF6"
abbreviation (input) EXTENT_CSUM_KEY :: u8 where "EXTENT_CSUM_KEY \<equiv> 128"

text \<open>\<open>chunks_exact\<close>: the whole pieces of a buffer; what is left over is not given.\<close>

definition chunks_exact :: "nat \<Rightarrow> bytes \<Rightarrow> bytes list" where
  "chunks_exact n b = map (\<lambda>i. slice (i * n) n b) [0 ..< length b div n]"

type_synonym sector_digests = "u64 \<Rightarrow> bytes option"

text \<open>The last checksum item of a leaf that starts at or before \<open>start\<close>, or the key searched for.\<close>

fun covering_item :: "u64 \<Rightarrow> disk_key list \<Rightarrow> disk_key \<Rightarrow> disk_key" where
  "covering_item start [] found = found"
| "covering_item start (key # rest) found =
     (if objectid key \<noteq> EXTENT_CSUM_OBJECTID \<or> key_type key \<noteq> EXTENT_CSUM_KEY \<or> key_offset key > start then
        covering_item start rest found
      else if key_offset key \<ge> key_offset found \<or> key_offset found = start then covering_item start rest key
      else covering_item start rest found)"

fun insert_digests ::
  "u64 \<Rightarrow> u64 \<Rightarrow> u64 \<Rightarrow> u64 \<Rightarrow> u64 \<Rightarrow> bytes list \<Rightarrow> sector_digests \<Rightarrow> sector_digests" where
  "insert_digests sectorsize start finish base i [] out = out"
| "insert_digests sectorsize start finish base i (dg # rest) out =
     (let sector = saturating_add base (i * sectorsize) in
      if sector \<ge> finish then out
      else
        insert_digests sectorsize start finish base (i + 1) rest
          (if sector \<ge> start then out(sector \<mapsto> dg) else out))"

definition digests_visit :: "nat \<Rightarrow> u64 \<Rightarrow> u64 \<Rightarrow> u64 \<Rightarrow> sector_digests visitor" where
  "digests_visit csum_size sectorsize start finish key data out =
     (if objectid key \<noteq> EXTENT_CSUM_OBJECTID \<or> key_type key \<noteq> EXTENT_CSUM_KEY then (Ok False, out)
      else if key_offset key \<ge> finish then (Ok False, out)
      else
        (Ok True,
         insert_digests sectorsize start finish (key_offset key) 0 (chunks_exact csum_size data) out))"

definition digests_for_range ::
  "unit tree \<Rightarrow> u64 \<Rightarrow> nat \<Rightarrow> u64 \<Rightarrow> u64 \<Rightarrow> u64 \<Rightarrow> sector_digests result" where
  "digests_for_range T root csum_size sectorsize start len =
     (if len = 0 \<or> csum_size = 0 \<or> sectorsize = 0 then Ok Map.empty
      else
        let finish = saturating_add start len;
            target = DiskKey EXTENT_CSUM_OBJECTID EXTENT_CSUM_KEY start
        in
          try_in (fst (descend T root target ())) (\<lambda>leaf.
          let at = (case body_items (tb_body leaf) of
                      Some items \<Rightarrow> covering_item start (map it_key items) target
                    | None \<Rightarrow> target);
              (r, _, out) = for_each_from T root at (digests_visit csum_size sectorsize start finish) () Map.empty
          in try_in r (\<lambda>_. Ok out)))"

section \<open>The leaf a descent ends in\<close>

text \<open>
  Every separator is the first key of its child, as every writer of the format keeps it. Only then is
  the last item before a key in the leaf the descent ends in.
\<close>

fun exact_separators :: "atree \<Rightarrow> bool" where
  "exact_separators (ALeaf a kvs) = True"
| "exact_separators (ANode a ks ts) =
     ((\<forall>t \<in> set ts. exact_separators t \<and> inorder t \<noteq> []) \<and> ks = map (\<lambda>t. fst (hd (inorder t))) ts)"

lemma hd_concat_drop: "inorder t \<noteq> [] \<Longrightarrow> hd (inorder t @ xs) = hd (inorder t)"
  by simp

text \<open>The leaf holds a stretch of the tree's items, and what lies before it is before the key.\<close>

definition leaf_at :: "atree \<Rightarrow> disk_key \<Rightarrow> leaf_item list \<Rightarrow> bool" where
  "leaf_at t key kvs \<longleftrightarrow>
     (\<exists>pre post. inorder t = pre @ kvs @ post \<and> (\<forall>kv \<in> set post. key < fst kv) \<and>
        (pre \<noteq> [] \<longrightarrow> kvs \<noteq> [] \<and> fst (hd kvs) \<le> key))"

context verified_reads
begin

lemma descend_loop_leaf:
  "stored blk g lvl t \<Longrightarrow> separated t \<Longrightarrow> exact_separators t \<Longrightarrow> coh c \<Longrightarrow> el = None \<or> el = Some lvl \<Longrightarrow> unat lvl < n \<Longrightarrow>
   \<exists>new b items c'. descend_loop T key n (addr t) el g path c = (Ok (path @ new @ [b]), c') \<and>
     tb_body b = LeafBody items \<and> leaf_at t key (leaf_items b items)"
proof (induction arbitrary: n el path c rule: stored.induct)
  case (stored_leaf a g b items lvl)
  obtain c' where c': "read_verified T a g c = (blk a g, c')" "coh c'"
    using reads_to [OF stored_leaf.prems(3)] by blast
  obtain m where n: "n = Suc m" using stored_leaf.prems(5) by (cases n) auto
  have "descend_loop T key n a el g path c = (Ok (path @ [] @ [b]), c')"
    using c' stored_leaf by (auto simp: n level_differs_def body_key_ptrs_def)
  moreover have "leaf_at (ALeaf a (leaf_items b items)) key (leaf_items b items)"
    unfolding leaf_at_def by (intro exI [of _ "[]"]) simp
  ultimately show ?case
    using stored_leaf.hyps(2) by auto
next
  case (stored_node a g b ptrs lvl ts)
  obtain c' where c': "read_verified T a g c = (blk a g, c')" "coh c'"
    using reads_to [OF stored_node.prems(3)] by blast
  obtain m where n: "n = Suc m" using stored_node.prems(5) by (cases n) auto
  note nd = blk_node [OF stored_node.hyps(1,2)]
  let ?s = "node_slot ptrs key"
  note ns = node_slot_spec [OF nd(2,3), of key]
  have len: "length ts = length ptrs" using stored_node.hyps(4) by (metis length_map)
  have lv: "unat (lvl - 1) < m"
  proof -
    have "lvl \<noteq> 0" using nd(1) stored_node.hyps(3) by simp
    moreover from this have "0 < unat lvl" by (simp add: unat_gt_0)
    ultimately show ?thesis
      using stored_node.prems(5) n by (simp add: unat_level_pred)
  qed
  have t: "ts ! ?s \<in> set ts" using ns(1) len by simp
  have sub: "separated (ts ! ?s)" "exact_separators (ts ! ?s)"
    using stored_node.prems(1,2) t by auto
  have ad: "addr (ts ! ?s) = kp_blockptr (ptrs ! ?s)"
    using stored_node.hyps(4) ns(1) len by (metis nth_map)
  obtain new b' items c'' where r: "descend_loop T key m (addr (ts ! ?s)) (Some (lvl - 1))
      (Some (kp_generation (ptrs ! ?s))) (path @ [b]) c' = (Ok ((path @ [b]) @ new @ [b']), c'')"
    "tb_body b' = LeafBody items" "leaf_at (ts ! ?s) key (leaf_items b' items)"
    using stored_node.IH [OF ns(1) sub c'(2), of "Some (lvl - 1)" m "path @ [b]"] lv by blast
  have "descend_loop T key n a el g path c = (Ok (path @ (b # new) @ [b']), c'')"
    using c' stored_node.hyps(1-3) stored_node.prems(4) ns(1) r(1) ad
    by (auto simp: n level_differs_def body_key_ptrs_def get_def)
  moreover have "leaf_at (ANode a (map kp_key ptrs) ts) key (leaf_items b' items)"
  proof -
    obtain pre post where p: "inorder (ts ! ?s) = pre @ leaf_items b' items @ post"
      "\<forall>kv \<in> set post. key < fst kv" "pre \<noteq> [] \<longrightarrow> leaf_items b' items \<noteq> [] \<and> fst (hd (leaf_items b' items)) \<le> key"
      using r(3) by (auto simp: leaf_at_def)
    let ?left = "concat (map inorder (take ?s ts))" and ?right = "concat (map inorder (drop (Suc ?s) ts))"
    have whole: "inorder (ANode a (map kp_key ptrs) ts) = (?left @ pre) @ leaf_items b' items @ (post @ ?right)"
    proof -
      have "ts = take ?s ts @ ts ! ?s # drop (Suc ?s) ts"
        using ns(1) len by (intro id_take_nth_drop) simp
      from arg_cong [OF this, of "\<lambda>ts. concat (map inorder ts)"] show ?thesis
        by (simp add: p(1))
    qed
    have right: "key < fst kv" if kv: "kv \<in> set ?right" for kv
    proof -
      obtain i where i: "i < length ts - Suc ?s" "kv \<in> set (inorder (ts ! (Suc ?s + i)))"
        using kv by (auto simp: in_set_conv_nth [of _ "drop (Suc ?s) ts"])
      then show ?thesis
        using child_keys_at(2) [OF stored_node.prems(1) nd(2,3) refl len, of "Suc ?s + i" "fst kv" key]
        by (auto simp: keys_of_def)
    qed
    have first: "leaf_items b' items \<noteq> [] \<and> fst (hd (leaf_items b' items)) \<le> key" if left: "?left @ pre \<noteq> []"
    proof (cases "pre = []")
      case True
      then have "0 < ?s" using left by (cases ?s) auto
      then have "kp_key (ptrs ! ?s) \<le> key" by (rule ns(2))
      moreover have "kp_key (ptrs ! ?s) = fst (hd (inorder (ts ! ?s)))"
        using stored_node.prems(2) ns(1) len by (metis (no_types, lifting) exact_separators.simps(2) length_map nth_map)
      moreover have "inorder (ts ! ?s) \<noteq> []" using stored_node.prems(2) t by simp
      ultimately show ?thesis
      proof (cases "leaf_items b' items = []")
        case False
        then show ?thesis
          using \<open>kp_key (ptrs ! ?s) \<le> key\<close> \<open>kp_key (ptrs ! ?s) = fst (hd (inorder (ts ! ?s)))\<close> p(1) True by simp
      next
        case empty: True
        then have "inorder (ts ! ?s) = post" using p(1) True by simp
        then have "key < fst (hd (inorder (ts ! ?s)))"
          using p(2) \<open>inorder (ts ! ?s) \<noteq> []\<close> by simp
        then show ?thesis
          using \<open>kp_key (ptrs ! ?s) \<le> key\<close> \<open>kp_key (ptrs ! ?s) = fst (hd (inorder (ts ! ?s)))\<close> by simp
      qed
    next
      case False
      then show ?thesis using p(3) by blast
    qed
    show ?thesis
      unfolding leaf_at_def
      by (intro exI [of _ "?left @ pre"] exI [of _ "post @ ?right"])
        (use whole right p(2) first in auto)
  qed
  ultimately show ?case
    using r(2) by auto
qed

lemma descend_leaf:
  assumes "stored blk None lvl t" and "separated t" and "exact_separators t" and "coh c"
  shows "\<exists>b items c'. descend T (addr t) key c = (Ok b, c') \<and> tb_body b = LeafBody items \<and>
    leaf_at t key (leaf_items b items)"
proof -
  obtain new b items c' where r: "descend_loop T key 8 (addr t) None None [] c = (Ok ([] @ new @ [b]), c')"
    "tb_body b = LeafBody items" "leaf_at t key (leaf_items b items)"
    using descend_loop_leaf [OF assms, of None 8 key "[]"] stored_level [OF assms(1)] by blast
  then show ?thesis
    by (simp add: descend_def descend_path_def)
qed

end

section \<open>What the tree records\<close>

definition csum_item :: "leaf_item \<Rightarrow> bool" where
  "csum_item kv \<longleftrightarrow> objectid (fst kv) = EXTENT_CSUM_OBJECTID \<and> key_type (fst kv) = EXTENT_CSUM_KEY"

fun number_digests :: "u64 \<Rightarrow> u64 \<Rightarrow> u64 \<Rightarrow> bytes list \<Rightarrow> (u64 \<times> bytes) list" where
  "number_digests ss base i [] = []"
| "number_digests ss base i (dg # rest) = (base + i * ss, dg) # number_digests ss base (i + 1) rest"

definition recorded_digests :: "nat \<Rightarrow> u64 \<Rightarrow> leaf_item list \<Rightarrow> (u64 \<times> bytes) list" where
  "recorded_digests csz ss kvs =
     concat (map (\<lambda>(k, d). number_digests ss (key_offset k) 0 (chunks_exact csz d)) (filter csum_item kvs))"

definition csum_end :: "nat \<Rightarrow> u64 \<Rightarrow> leaf_item \<Rightarrow> nat" where
  "csum_end csz ss kv = unat (key_offset (fst kv)) + (length (snd kv) div csz) * unat ss"

text \<open>The items' sectors do not overlap and end inside the address space.\<close>

definition csums_apart :: "nat \<Rightarrow> u64 \<Rightarrow> leaf_item list \<Rightarrow> bool" where
  "csums_apart csz ss kvs \<longleftrightarrow>
     sorted_wrt (\<lambda>a b. csum_end csz ss a \<le> unat (key_offset (fst b))) (filter csum_item kvs) \<and>
     (\<forall>kv \<in> set (filter csum_item kvs). csum_end csz ss kv < 2 ^ 64)"

lemma length_chunks_exact [simp]: "length (chunks_exact n b) = length b div n"
  by (simp add: chunks_exact_def)

lemma index_step:
  assumes "unat base + (unat i + Suc n) * unat ss < 2 ^ 64" and "0 < (ss :: u64)"
  shows "unat (i + 1 :: u64) = unat i + 1" and "unat (i * ss) = unat i * unat ss"
    and "unat (base + i * ss :: u64) = unat base + unat i * unat ss"
    and "unat base + unat (i * ss) < 2 ^ 64"
proof -
  have ss: "0 < unat ss" using assms(2) by (simp add: word_less_nat_alt)
  have "(unat i + 1) * unat ss \<le> (unat i + Suc n) * unat ss" by (intro mult_le_mono1) simp
  from le_less_trans [OF add_left_mono [OF this, of "unat base"] assms(1)]
  have b: "unat base + (unat i + 1) * unat ss < 18446744073709551616" by simp
  have "(unat i + 1) * 1 \<le> (unat i + 1) * unat ss" by (rule mult_le_mono2) (use ss in simp)
  then show "unat (i + 1) = unat i + 1" using b by (subst unat_add_small) auto
  show m: "unat (i * ss) = unat i * unat ss" using b by (subst unat_mult_small) auto
  then show "unat (base + i * ss) = unat base + unat i * unat ss"
    using b by (subst unat_add_small) auto
  show "unat base + unat (i * ss) < 2 ^ 64" using b m by simp
qed

lemma number_at:
  assumes "(s, dg) \<in> set (number_digests ss base i dgs)"
    and "unat base + (unat i + length dgs) * unat ss < 2 ^ 64" and "0 < ss"
  shows "unat base + unat i * unat ss \<le> unat s \<and> unat s < unat base + (unat i + length dgs) * unat ss"
  using assms
proof (induction ss base i dgs rule: number_digests.induct)
  case (2 ss base i d rest)
  have ss: "0 < unat ss" using 2(4) by (simp add: word_less_nat_alt)
  note st = index_step [OF _ 2(4), of base i "length rest"]
  have pre: "unat base + (unat i + Suc (length rest)) * unat ss < 2 ^ 64" using 2(3) by simp
  note i1 = st(1) [OF pre] and a = st(3) [OF pre]
  consider "s = base + i * ss" | "(s, dg) \<in> set (number_digests ss base (i + 1) rest)"
    using 2(2) by auto
  then show ?case
  proof cases
    case 1
    then show ?thesis using a ss by (simp add: distrib_right)
  next
    case 2
    from "2.IH" [OF 2] show ?thesis using "2.prems"(2,3) by (simp add: i1)
  qed
qed simp

lemma insert_digests_map:
  assumes "unat base + (unat i + length dgs) * unat ss < 2 ^ 64" and "0 < ss"
  shows "insert_digests ss start finish base i dgs out =
    out ++ (map_of (number_digests ss base i dgs) |` {s. start \<le> s \<and> s < finish})"
  using assms
proof (induction ss start finish base i dgs out rule: insert_digests.induct)
  case (2 ss start finish base i dg rest out)
  let ?R = "{s. start \<le> s \<and> s < finish}" and ?s = "base + i * ss"
  have ss: "0 < unat ss" using 2(3) by (simp add: word_less_nat_alt)
  have pre: "unat base + (unat i + Suc (length rest)) * unat ss < 2 ^ 64" using 2(2) by simp
  note st = index_step [OF pre 2(3)]
  note i1 = st(1) and a = st(3)
  have sat: "saturating_add base (i * ss) = ?s" using st(4) by (simp add: saturating_add_def)
  have rest: "unat base + (unat (i + 1) + length rest) * unat ss < 2 ^ 64"
    using 2(2) by (simp add: i1)
  have later: "?s < s" if "(s, d) \<in> set (number_digests ss base (i + 1) rest)" for s d
    using number_at [OF that rest 2(3)] ss a by (simp add: i1 word_less_nat_alt)
  then have none: "map_of (number_digests ss base (i + 1) rest) ?s = None"
    by (force simp: map_of_eq_None_iff)
  show ?case
  proof (cases "finish \<le> ?s")
    case True
    have "map_of (number_digests ss base i (dg # rest)) s = None" if "s < finish" for s
      using True that later by (force simp: map_of_eq_None_iff)
    then have "map_of (number_digests ss base i (dg # rest)) |` ?R = Map.empty"
      by (auto simp: restrict_map_def simp del: number_digests.simps)
    then show ?thesis using True by (simp add: sat Let_def del: number_digests.simps)
  next
    case False
    have IH: "insert_digests ss start finish base (i + 1) rest o' =
        o' ++ (map_of (number_digests ss base (i + 1) rest) |` ?R)"
      if "o' = (if start \<le> ?s then out(?s \<mapsto> dg) else out)" for o'
      using "2.IH" [OF refl _ rest 2(3)] False that unfolding sat by simp
    have "insert_digests ss start finish base i (dg # rest) out =
        (if start \<le> ?s then out(?s \<mapsto> dg) else out) ++ (map_of (number_digests ss base (i + 1) rest) |` ?R)"
      using False IH [OF refl] by (simp add: sat Let_def)
    also have "\<dots> = out ++ (map_of (number_digests ss base i (dg # rest)) |` ?R)"
      using False none by (auto simp: fun_eq_iff map_add_def restrict_map_def not_le split: option.split)
    finally show ?thesis .
  qed
qed simp

section \<open>The digests of a range\<close>

definition in_range :: "u64 \<Rightarrow> u64 \<Rightarrow> u64 set" where
  "in_range start finish = {s. start \<le> s \<and> s < finish}"

definition item_digests :: "nat \<Rightarrow> u64 \<Rightarrow> leaf_item \<Rightarrow> (u64 \<times> bytes) list" where
  "item_digests csz ss kv = number_digests ss (key_offset (fst kv)) 0 (chunks_exact csz (snd kv))"

lemma recorded_Cons:
  "recorded_digests csz ss (kv # kvs) =
     (if csum_item kv then item_digests csz ss kv else []) @ recorded_digests csz ss kvs"
  by (cases kv) (simp add: recorded_digests_def item_digests_def)

lemma recorded_append:
  "recorded_digests csz ss (a @ b) = recorded_digests csz ss a @ recorded_digests csz ss b"
  by (simp add: recorded_digests_def)

lemma item_digests_at:
  assumes "(s, dg) \<in> set (item_digests csz ss kv)" and "csum_end csz ss kv < 2 ^ 64" and "0 < ss"
  shows "unat (key_offset (fst kv)) \<le> unat s \<and> unat s < csum_end csz ss kv"
  using number_at [of s dg ss "key_offset (fst kv)" 0 "chunks_exact csz (snd kv)"] assms
  by (simp add: item_digests_def csum_end_def)

lemma recorded_after:
  assumes "\<forall>kv \<in> set (filter csum_item kvs). csum_end csz ss kv < 2 ^ 64" and "0 < ss"
    and "(s, dg) \<in> set (recorded_digests csz ss kvs)"
  shows "\<exists>kv \<in> set (filter csum_item kvs). unat (key_offset (fst kv)) \<le> unat s \<and> unat s < csum_end csz ss kv"
  using assms(1,3)
proof (induction kvs)
  case (Cons kv kvs)
  then show ?case
    using item_digests_at [OF _ _ assms(2), of s dg csz kv] by (auto simp: recorded_Cons split: if_splits)
qed (simp add: recorded_digests_def)

lemma csums_apart_Cons:
  "csums_apart csz ss (kv # kvs) \<longleftrightarrow>
     csums_apart csz ss kvs \<and>
     (csum_item kv \<longrightarrow> csum_end csz ss kv < 2 ^ 64 \<and>
        (\<forall>x \<in> set (filter csum_item kvs). csum_end csz ss kv \<le> unat (key_offset (fst x))))"
  by (auto simp: csums_apart_def)

text \<open>No address of one item is recorded by a later one.\<close>

lemma recorded_disjoint:
  assumes "csums_apart csz ss (kv # kvs)" and "csum_item kv" and "0 < ss"
  shows "dom (map_of (item_digests csz ss kv)) \<inter> dom (map_of (recorded_digests csz ss kvs)) = {}"
proof -
  have "False" if "(s, d) \<in> set (item_digests csz ss kv)" "(s, e) \<in> set (recorded_digests csz ss kvs)" for s d e
  proof -
    have end1: "csum_end csz ss kv < 2 ^ 64" and later: "\<forall>x \<in> set (filter csum_item kvs). csum_end csz ss kv \<le> unat (key_offset (fst x))"
      and ends: "\<forall>kv \<in> set (filter csum_item kvs). csum_end csz ss kv < 2 ^ 64"
      using assms(1,2) by (auto simp: csums_apart_Cons csums_apart_def)
    show False
      using item_digests_at [OF that(1) end1 assms(3)] recorded_after [OF ends assms(3) that(2)] later by fastforce
  qed
  then show ?thesis by (auto simp: dom_map_of_conv_image_fst)
qed

definition csum_key :: "disk_key \<Rightarrow> bool" where
  "csum_key k \<longleftrightarrow> objectid k = EXTENT_CSUM_OBJECTID \<and> key_type k = EXTENT_CSUM_KEY"

lemma csum_key_between:
  "csum_key a \<Longrightarrow> csum_key b \<Longrightarrow> a \<le> k \<Longrightarrow> k \<le> b \<Longrightarrow> csum_key k"
  by (cases a; cases b; cases k)
    (auto simp: csum_key_def less_eq_disk_key_def key_before_def)

lemma csum_key_le: "csum_key a \<Longrightarrow> csum_key b \<Longrightarrow> a \<le> b \<longleftrightarrow> key_offset a \<le> key_offset b"
  by (cases a; cases b) (auto simp: csum_key_def less_eq_disk_key_def key_before_def)

lemma visit_digests:
  assumes "csums_apart csz ss kvs" and "strictly_sorted (map fst kvs)" and "0 < ss"
    and "csum_key low" and "\<forall>kv \<in> set kvs. low \<le> fst kv"
  shows "\<exists>go. visit_list (digests_visit csz ss start finish) kvs out =
    (Ok go, out ++ (map_of (recorded_digests csz ss kvs) |` in_range start finish))"
  using assms
proof (induction kvs arbitrary: out)
  case Nil
  show ?case by (intro exI [of _ True]) (simp add: recorded_digests_def)
next
  case (Cons kv kvs)
  obtain k d where kv: "kv = (k, d)" by fastforce
  have ck: "csum_item kv \<longleftrightarrow> csum_key k" by (simp add: csum_item_def csum_key_def kv)
  have later: "k < fst x" if "x \<in> set kvs" for x using Cons.prems(2) that by (auto simp: kv)
  have ends: "\<forall>kv \<in> set (filter csum_item kvs). csum_end csz ss kv < 2 ^ 64"
    using Cons.prems(1) by (auto simp: csums_apart_def)
  show ?case
  proof (cases "csum_key k")
    case False
    have "\<not> csum_item x" if "x \<in> set kvs" for x
      using csum_key_between [of low "fst x" k] Cons.prems(4,5) less_imp_le [OF later [OF that]] False
      by (auto simp: csum_item_def csum_key_def kv)
    then have "recorded_digests csz ss (kv # kvs) = []"
      using False ck by (auto simp: recorded_digests_def filter_empty_conv)
    then show ?thesis
      using False by (intro exI [of _ False]) (auto simp: kv digests_visit_def csum_key_def)
  next
    case True
    show ?thesis
    proof (cases "finish \<le> key_offset k")
      case far: True
      have "s \<notin> in_range start finish" if s: "(s, e) \<in> set (recorded_digests csz ss (kv # kvs))" for s e
      proof -
        have "\<forall>kv \<in> set (filter csum_item (kv # kvs)). csum_end csz ss kv < 2 ^ 64"
          using Cons.prems(1) by (simp add: csums_apart_def)
        from recorded_after [OF this Cons.prems(3) s]
        obtain x where x: "x \<in> set (kv # kvs)" "csum_item x" "key_offset (fst x) \<le> s"
          by (metis (no_types, lifting) mem_Collect_eq set_filter word_le_nat_alt)
        have "k \<le> fst x" using x(1) later [of x] by (auto simp: kv intro: less_imp_le)
        then have "key_offset k \<le> key_offset (fst x)"
          using csum_key_le True x(2) by (simp add: csum_item_def csum_key_def)
        then show ?thesis using far x(3) by (simp add: in_range_def not_less order_trans)
      qed
      then have "map_of (recorded_digests csz ss (kv # kvs)) |` in_range start finish = Map.empty"
        by (auto simp: restrict_map_def fun_eq_iff map_of_eq_None_iff)
      then show ?thesis
        using far True by (intro exI [of _ False]) (simp add: kv digests_visit_def csum_key_def)
    next
      case near: False
      let ?m = "map_of (item_digests csz ss kv)" and ?R = "in_range start finish"
      have "insert_digests ss start finish (key_offset k) 0 (chunks_exact csz d) out = out ++ (?m |` ?R)"
        using Cons.prems(1,3) True ck
        by (subst insert_digests_map) (auto simp: csums_apart_Cons csum_end_def kv item_digests_def in_range_def)
      then have v: "digests_visit csz ss start finish k d out = (Ok True, out ++ (?m |` ?R))"
        using True near by (simp add: digests_visit_def csum_key_def)
      obtain go where go: "visit_list (digests_visit csz ss start finish) kvs (out ++ (?m |` ?R)) =
          (Ok go, (out ++ (?m |` ?R)) ++ (map_of (recorded_digests csz ss kvs) |` ?R))"
        using Cons.IH [of "out ++ (?m |` ?R)"] Cons.prems by (auto simp: csums_apart_Cons)
      have "(out ++ (?m |` ?R)) ++ (map_of (recorded_digests csz ss kvs) |` ?R) =
          out ++ (map_of (recorded_digests csz ss (kv # kvs)) |` ?R)"
      proof -
        have "map_of (recorded_digests csz ss (kv # kvs)) = ?m ++ map_of (recorded_digests csz ss kvs)"
          using True ck recorded_disjoint [OF Cons.prems(1) _ Cons.prems(3)]
            map_add_comm [OF recorded_disjoint [OF Cons.prems(1) _ Cons.prems(3)]]
          by (simp add: recorded_Cons)
        then show ?thesis
          by (auto simp: fun_eq_iff map_add_def restrict_map_def split: option.split)
      qed
      then show ?thesis using v go by (simp add: kv)
    qed
  qed
qed

lemma covering_item_last:
  assumes "strictly_sorted keys" and "key_offset found \<le> start"
    and "key_offset found = start \<or> (csum_key found \<and> (\<forall>k \<in> set keys. found < k))"
  shows "covering_item start keys found =
    (case filter (\<lambda>k. csum_key k \<and> key_offset k \<le> start) keys of [] \<Rightarrow> found | k # ks \<Rightarrow> last (k # ks))"
  using assms
proof (induction start keys found rule: covering_item.induct)
  case (2 start key rest found)
  show ?case
  proof (cases "csum_key key \<and> key_offset key \<le> start")
    case False
    then have "covering_item start (key # rest) found = covering_item start rest found"
      by (auto simp: csum_key_def not_le)
    then show ?thesis using 2 False by (auto simp: csum_key_def not_le)
  next
    case True
    have "key_offset key \<ge> key_offset found \<or> key_offset found = start"
      using 2(6) csum_key_le [of found key] True by (auto simp: less_imp_le)
    then have "covering_item start (key # rest) found = covering_item start rest key"
      using True by (auto simp: csum_key_def not_less)
    moreover have "covering_item start rest key =
        (case filter (\<lambda>k. csum_key k \<and> key_offset k \<le> start) rest of [] \<Rightarrow> key | k # ks \<Rightarrow> last (k # ks))"
      using 2(4) True \<open>key_offset key \<ge> key_offset found \<or> key_offset found = start\<close>
      by (intro "2.IH"(2)) (auto simp: csum_key_def not_less)
    ultimately show ?thesis using True by (auto split: list.split)
  qed
qed simp

lemma recorded_from_cover:
  assumes leaf: "leaf_at t (DiskKey EXTENT_CSUM_OBJECTID EXTENT_CSUM_KEY start) kvs"
    and srt: "strictly_sorted (map fst (inorder t))" and apart: "csums_apart csz ss (inorder t)" and ss: "0 < ss"
    and at: "at = covering_item start (map fst kvs) (DiskKey EXTENT_CSUM_OBJECTID EXTENT_CSUM_KEY start)"
  shows "csum_key at"
    and "map_of (recorded_digests csz ss (filter (\<lambda>kv. at \<le> fst kv) (inorder t))) |` in_range start finish =
      map_of (recorded_digests csz ss (inorder t)) |` in_range start finish"
proof -
  let ?target = "DiskKey EXTENT_CSUM_OBJECTID EXTENT_CSUM_KEY start"
  obtain pre post where t: "inorder t = pre @ kvs @ post" and post: "\<forall>kv \<in> set post. ?target < fst kv"
    and pre: "pre \<noteq> [] \<longrightarrow> kvs \<noteq> [] \<and> fst (hd kvs) \<le> ?target"
    using leaf by (auto simp: leaf_at_def)
  have tk: "csum_key ?target" by (simp add: csum_key_def)
  have skvs: "strictly_sorted (map fst kvs)" using srt by (simp add: t sorted_wrt_append)
  let ?low = "filter (\<lambda>k. csum_key k \<and> key_offset k \<le> start) (map fst kvs)"
  have at': "at = (case ?low of [] \<Rightarrow> ?target | k # ks \<Rightarrow> last (k # ks))"
    unfolding at by (rule covering_item_last [OF skvs]) simp_all
  have last_in: "at \<in> set ?low" if "?low \<noteq> []"
    using at' that last_in_set [OF that] by (cases ?low) simp_all
  show "csum_key at"
    using at' tk last_in by (cases "?low = []") auto
  have gone: "s \<notin> in_range start finish" if "kv \<in> set (inorder t)" "csum_item kv" "\<not> at \<le> fst kv"
      "(s, d) \<in> set (item_digests csz ss kv)" for kv s d
  proof -
    have "csum_end csz ss kv < 2 ^ 64" using apart that(1,2) by (auto simp: csums_apart_def simp del: split_paired_All)
    from item_digests_at [OF that(4) this ss] have s: "unat s < csum_end csz ss kv" by simp
    have "csum_end csz ss kv \<le> unat start"
    proof (cases "?low = []")
      case False
      then obtain d' where d': "(at, d') \<in> set kvs" "csum_key at" "key_offset at \<le> start"
        using last_in by auto
      then obtain a b where ab: "inorder t = a @ (at, d') # b"
        by (metis split_list t in_set_conv_decomp append.assoc append_Cons)
      have "kv \<in> set a"
        using that(1,3) srt by (auto simp: ab sorted_wrt_append)
      then have "csum_end csz ss kv \<le> unat (key_offset at)"
        using apart that(2) d'(2)
        by (auto simp: ab csums_apart_def sorted_wrt_append csum_item_def csum_key_def simp del: split_paired_All)
      then show ?thesis using d'(3) by (simp add: word_le_nat_alt)
    next
      case True
      then have at: "at = ?target" using at' by simp
      have lt: "fst kv < ?target" using that(3) at by simp
      then have "key_offset (fst kv) \<le> start"
        using csum_key_le [of "fst kv" ?target] that(2) tk by (simp add: csum_item_def csum_key_def less_imp_le)
      moreover have "kv \<in> set pre"
      proof -
        have "kv \<notin> set kvs"
          using True that(2) \<open>key_offset (fst kv) \<le> start\<close> by (auto simp: filter_empty_conv csum_item_def csum_key_def)
        moreover have "kv \<notin> set post" using post lt by auto
        ultimately show ?thesis using that(1) by (auto simp: t)
      qed
      then have "kvs \<noteq> []" "fst (hd kvs) \<le> ?target" using pre by auto
      moreover have "fst kv < fst (hd kvs)"
        using srt \<open>kv \<in> set pre\<close> \<open>kvs \<noteq> []\<close> by (cases kvs) (auto simp: t sorted_wrt_append)
      ultimately have "csum_key (fst (hd kvs))" "key_offset (fst (hd kvs)) \<le> start"
        using csum_key_between [of "fst kv" ?target "fst (hd kvs)"] csum_key_le [of "fst (hd kvs)" ?target] that(2) tk
        by (auto simp: csum_item_def csum_key_def less_imp_le)
      then have "fst (hd kvs) \<in> set ?low" using \<open>kvs \<noteq> []\<close> by (cases kvs) auto
      then show ?thesis using True by simp
    qed
    then show ?thesis using s by (simp add: in_range_def word_le_nat_alt)
  qed
  have drop_gone: "map_of (recorded_digests csz ss (filter (\<lambda>kv. at \<le> fst kv) xs)) |` in_range start finish =
      map_of (recorded_digests csz ss xs) |` in_range start finish"
    if "set xs \<subseteq> set (inorder t)" for xs
    using that
  proof (induction xs)
    case (Cons kv xs)
    then have IH: "map_of (recorded_digests csz ss (filter (\<lambda>kv. at \<le> fst kv) xs)) |` in_range start finish =
        map_of (recorded_digests csz ss xs) |` in_range start finish" by simp
    have none: "map_of (item_digests csz ss kv) s = None" if "csum_item kv" "\<not> at \<le> fst kv" "s \<in> in_range start finish" for s
      using gone [of kv s] that Cons.prems by (auto simp: map_of_eq_None_iff)
    show ?case
    proof (rule ext)
      fix s
      show "(map_of (recorded_digests csz ss (filter (\<lambda>kv. at \<le> fst kv) (kv # xs))) |` in_range start finish) s =
          (map_of (recorded_digests csz ss (kv # xs)) |` in_range start finish) s"
        using fun_cong [OF IH, of s] none [of s]
        by (auto simp: recorded_Cons restrict_map_def map_add_def split: option.split if_splits)
    qed
  qed simp
  show "map_of (recorded_digests csz ss (filter (\<lambda>kv. at \<le> fst kv) (inorder t))) |` in_range start finish =
      map_of (recorded_digests csz ss (inorder t)) |` in_range start finish"
    by (rule drop_gone) simp
qed

lemma digests_of_tree:
  fixes T :: "unit tree"
  assumes uc: "T = T\<lparr>tr_cache := None\<rparr>" and st: "stored (read_uncached T) None lvl t" and srt: "sorted_tree t"
    and ex: "exact_separators t" and apart: "csums_apart csz ss (inorder t)"
    and pos: "0 < len" "0 < csz" "0 < ss"
  shows "digests_for_range T (addr t) csz ss start len =
    Ok (map_of (recorded_digests csz ss (inorder t)) |` in_range start (saturating_add start len))"
proof -
  let ?target = "DiskKey EXTENT_CSUM_OBJECTID EXTENT_CSUM_KEY start"
  have sp: "separated t" "distinct (addrs t)" and ks: "strictly_sorted (map fst (inorder t))"
    using srt by (simp_all add: sorted_tree_def)
  obtain b items where d: "fst (descend T (addr t) ?target ()) = Ok b" "tb_body b = LeafBody items"
    "leaf_at t ?target (leaf_items b items)"
    using uncached.descend_leaf [of T, folded uc, OF st sp(1) ex, where c = "()" and key = ?target] by force
  define at where "at = covering_item start (map it_key items) ?target"
  have keys: "map it_key items = map fst (leaf_items b items)" by (simp add: leaf_items_def)
  note cov = recorded_from_cover(1) [OF d(3) ks apart pos(3) at_def [unfolded keys]]
    recorded_from_cover(2) [OF d(3) ks apart pos(3) at_def [unfolded keys], where finish = "saturating_add start len"]
  let ?v = "digests_visit csz ss start (saturating_add start len)"
  have sub: "csums_apart csz ss (filter (\<lambda>kv. at \<le> fst kv) (inorder t))"
  proof -
    have "filter csum_item (filter (\<lambda>kv. at \<le> fst kv) xs) = filter (\<lambda>kv. at \<le> fst kv) (filter csum_item xs)" for xs
      by (simp add: conj_commute)
    then show ?thesis
      using apart by (auto simp: csums_apart_def sorted_wrt_filter simp del: filter_filter)
  qed
  have ssub: "strictly_sorted (map fst (filter (\<lambda>kv. at \<le> fst kv) (inorder t)))"
    using ks by (simp add: sorted_wrt_map sorted_wrt_filter)
  obtain go where go: "visit_list ?v (filter (\<lambda>kv. at \<le> fst kv) (inorder t)) Map.empty =
      (Ok go, Map.empty ++ (map_of (recorded_digests csz ss (filter (\<lambda>kv. at \<le> fst kv) (inorder t))) |`
        in_range start (saturating_add start len)))"
    using visit_digests [OF sub ssub pos(3) cov(1), of start "saturating_add start len" Map.empty] by auto
  have "run_walk T (addr t) (Some at) ?v () Map.empty =
    (map_sum id (\<lambda>_. ()) (fst (visit_list ?v (from_key (Some at) (inorder t)) Map.empty)), (),
     snd (visit_list ?v (from_key (Some at) (inorder t)) Map.empty))"
    using uncached.run_walk_stored [of T, folded uc, OF st sp, where c = "()" and start = "Some at" and visit = ?v and v = Map.empty] by simp
  then show ?thesis
    using pos d(1,2) go cov(2)
    by (simp add: digests_for_range_def Let_def body_items_def for_each_from_def from_key_def word_greater_zero_iff
        flip: at_def)
qed

end
