(* ===== verification/FileRead.thy ===== *)
theory FileRead
  imports BlockGroup Compression Verity Csum
begin

text \<open>
  \<open>src/src/fs.rs\<close>, what a file holds: decoding extent items, reading data against its checksums with the
  other copies as a repair, and assembling a range of a file from its extents, through fs-verity
  where a file is sealed; and \<open>extent_item\<close> of \<open>src/src/write.rs\<close>, the length the extent tree
  records. The lemmas say that no sector with a recorded checksum is returned unless it matches, and
  that reading part of a file gives the part of what reading all of it gives.
\<close>

section \<open>Extent items\<close>

abbreviation (input) EXTENT_DATA_KEY :: u8 where "EXTENT_DATA_KEY \<equiv> 108"
abbreviation (input) VERITY_DESC_ITEM_KEY :: u8 where "VERITY_DESC_ITEM_KEY \<equiv> 36"
abbreviation (input) VERITY_MERKLE_ITEM_KEY :: u8 where "VERITY_MERKLE_ITEM_KEY \<equiv> 37"
abbreviation (input) EXTENT_INLINE :: u8 where "EXTENT_INLINE \<equiv> 0"
abbreviation (input) EXTENT_REGULAR :: u8 where "EXTENT_REGULAR \<equiv> 1"
abbreviation (input) EXTENT_PREALLOC :: u8 where "EXTENT_PREALLOC \<equiv> 2"
abbreviation (input) FE_RAM_BYTES :: nat where "FE_RAM_BYTES \<equiv> 8"
abbreviation (input) FE_COMPRESSION :: nat where "FE_COMPRESSION \<equiv> 16"
abbreviation (input) FE_ENCRYPTION :: nat where "FE_ENCRYPTION \<equiv> 17"
abbreviation (input) FE_OTHER_ENCODING :: nat where "FE_OTHER_ENCODING \<equiv> 18"
abbreviation (input) FE_TYPE :: nat where "FE_TYPE \<equiv> 20"
abbreviation (input) FE_INLINE_DATA :: nat where "FE_INLINE_DATA \<equiv> 21"
abbreviation (input) FE_DISK_BYTENR :: nat where "FE_DISK_BYTENR \<equiv> 21"
abbreviation (input) FE_DISK_NUM_BYTES :: nat where "FE_DISK_NUM_BYTES \<equiv> 29"
abbreviation (input) FE_OFFSET :: nat where "FE_OFFSET \<equiv> 37"
abbreviation (input) FE_NUM_BYTES :: nat where "FE_NUM_BYTES \<equiv> 45"
abbreviation (input) FE_REGULAR_SIZE :: nat where "FE_REGULAR_SIZE \<equiv> 53"
abbreviation (input) MAX_WHOLE_FILE_READ :: u64 where "MAX_WHOLE_FILE_READ \<equiv> 0x40000000"
abbreviation (input) MAX_SYMLINK_TARGET :: u64 where "MAX_SYMLINK_TARGET \<equiv> 4096"

text \<open>\<open>Piece::Compressed\<close>: where, its length on disk, decoded length, offset and length of the window.\<close>

datatype piece =
    Inline bytes
  | RegularPiece u64 u64
  | CompressedPiece u64 u64 u64 u64 u64 compression
  | Hole
  | Preallocated u64 u64

definition extent_tree_root :: "filesystem \<Rightarrow> u64 result" where
  "extent_tree_root fs = tree_root fs EXTENT_TREE"

text \<open>The references, the length and the generation of an extent.\<close>

definition extent_item :: "filesystem \<Rightarrow> u64 \<Rightarrow> (u64 \<times> u64 \<times> u64) result" where
  "extent_item fs bytenr =
     try_in (extent_tree_root fs) (\<lambda>root.
     try_in (fst (find_all (pool_tree fs :: unit tree) root bytenr EXTENT_ITEM ())) (\<lambda>items.
     ok_or (UnsupportedFeature ''the extent tree holds no item for the extent'')
       (map_option (\<lambda>(key, data). (le64 data 0, key_offset key, le64 data 8))
         (find (\<lambda>(key, data). 16 \<le> length data) items))))"

definition window_inside_extent :: "u64 \<Rightarrow> u64 \<Rightarrow> u64 \<Rightarrow> u64 \<Rightarrow> bool" where
  "window_inside_extent logical len extent_start extent_len =
     (case (checked_add logical len, checked_add extent_start extent_len) of
        (Some piece_end, Some extent_end) \<Rightarrow> extent_start \<le> logical \<and> piece_end \<le> extent_end
      | _ \<Rightarrow> False)"

definition refuse_window_outside_extent :: "filesystem \<Rightarrow> u64 \<Rightarrow> u64 \<Rightarrow> u64 \<Rightarrow> unit result" where
  "refuse_window_outside_extent fs disk_bytenr offset len =
     (if disk_bytenr = 0 then Ok ()
      else
        try_in (extent_item fs disk_bytenr) (\<lambda>(_, extent_len, _).
        try_in (ok_or (BadSuperblock ''an extent item's offset is past the end of the address space'')
          (checked_add disk_bytenr offset)) (\<lambda>start.
        if \<not> window_inside_extent start len disk_bytenr extent_len then
          Err (BadSuperblock ''an extent item's window is outside the extent the extent tree records'')
        else Ok ())))"

definition decode_extent :: "codecs \<Rightarrow> filesystem \<Rightarrow> bytes \<Rightarrow> piece result" where
  "decode_extent C fs data =
     (if length data < FE_TYPE + 1 then Err (BadSuperblock ''extent item is too short to hold a type'')
      else
        let ram_bytes = le64 data FE_RAM_BYTES;
            kind = data ! FE_TYPE
        in
        try_in (map_err (\<lambda>_. UnsupportedFeature ''inode'') (compression_from_byte (data ! FE_COMPRESSION))) (\<lambda>algo.
        if data ! FE_ENCRYPTION \<noteq> 0 \<or> le16 data FE_OTHER_ENCODING \<noteq> 0 then
          Err (UnsupportedFeature ''extent is encoded'')
        else if kind = EXTENT_INLINE then
          (let raw = drop (min FE_INLINE_DATA (length data)) data in
           if is_compressed algo then
             try_in (decompress C algo raw (unat ram_bytes) (unat (sb_sectorsize (fs_sb fs))) Pad) (\<lambda>out. Ok (Inline out))
           else Ok (Inline raw))
        else if kind = EXTENT_REGULAR \<or> kind = EXTENT_PREALLOC then
          (if length data < FE_REGULAR_SIZE then Err (BadSuperblock ''non-inline extent item is too short'')
           else
             let disk_bytenr = le64 data FE_DISK_BYTENR;
                 disk_len = le64 data FE_DISK_NUM_BYTES;
                 offset = le64 data FE_OFFSET;
                 num_bytes = le64 data FE_NUM_BYTES;
                 sector = ucast (max (sb_sectorsize (fs_sb fs)) 1)
             in
             if (\<exists>value \<in> set [ram_bytes, disk_bytenr, disk_len, offset, num_bytes]. value mod sector \<noteq> 0) then
               Err (BadSuperblock ''an extent item's field is not a multiple of the sector'')
             else if disk_bytenr = 0 then Ok Hole
             else if kind = EXTENT_PREALLOC then Ok (Preallocated disk_bytenr num_bytes)
             else if (case checked_add offset num_bytes of None \<Rightarrow> True | Some end \<Rightarrow> ram_bytes < end) then
               Err (BadSuperblock ''an extent item's window is outside the extent's bytes'')
             else if is_compressed algo then
               (if disk_len > MAX_COMPRESSED then Err (BadSuperblock ''compressed extent occupies too much on disk'')
                else
                  try_in (refuse_window_outside_extent fs disk_bytenr 0 disk_len) (\<lambda>_.
                  Ok (CompressedPiece disk_bytenr disk_len ram_bytes offset num_bytes algo)))
             else
               try_in (refuse_window_outside_extent fs disk_bytenr offset num_bytes) (\<lambda>_.
               try_in (ok_or (BadSuperblock ''extent plus offset leaves the address space'')
                 (checked_add disk_bytenr offset)) (\<lambda>logical.
               Ok (RegularPiece logical num_bytes))))
        else Err (BadSuperblock ''extent type is not a defined value'')))"

record file_extent =
  fx_start :: u64
  fx_len :: u64
  fx_logical :: "u64 option"
  fx_extent_start :: u64
  fx_compressed :: bool
  fx_ref_offset :: u64
  fx_inline :: bool

definition piece_extent :: "u64 \<Rightarrow> bytes \<Rightarrow> piece \<Rightarrow> file_extent list" where
  "piece_extent start data piece =
     (let none = \<lparr>fx_start = start, fx_len = 0, fx_logical = None, fx_extent_start = 0, fx_compressed = False,
                  fx_ref_offset = 0, fx_inline = False\<rparr>;
          bytenr = le64 data FE_DISK_BYTENR
      in case piece of
           Inline b \<Rightarrow> [none\<lparr>fx_len := of_nat (length b), fx_inline := True\<rparr>]
         | Preallocated logical len \<Rightarrow> [none\<lparr>fx_len := len, fx_extent_start := logical\<rparr>]
         | Hole \<Rightarrow> []
         | RegularPiece logical len \<Rightarrow>
             [none\<lparr>fx_len := len, fx_logical := Some logical, fx_extent_start := bytenr, fx_ref_offset := logical - bytenr\<rparr>]
         | CompressedPiece logical disk_len ram_len offset len algo \<Rightarrow>
             [none\<lparr>fx_len := len, fx_extent_start := bytenr, fx_compressed := True, fx_ref_offset := offset\<rparr>])"

fun file_extents_loop :: "codecs \<Rightarrow> filesystem \<Rightarrow> u64 \<Rightarrow> leaf_item list \<Rightarrow> file_extent list result" where
  "file_extents_loop C fs ino [] = Ok []"
| "file_extents_loop C fs ino ((key, data) # items) =
     (if objectid key \<noteq> ino \<or> key_type key \<noteq> EXTENT_DATA_KEY then Ok []
      else
        try_in (decode_extent C fs data) (\<lambda>piece.
        try_in (file_extents_loop C fs ino items) (\<lambda>rest. Ok (piece_extent (key_offset key) data piece @ rest))))"

definition file_extents :: "codecs \<Rightarrow> filesystem \<Rightarrow> u64 \<Rightarrow> file_extent list fs_op" where
  "file_extents C fs ino =
     fs_bind (item_run fs ino EXTENT_DATA_KEY) (\<lambda>items. fs_return (file_extents_loop C fs ino items))"

section \<open>Data and its checksums\<close>

definition sector_aligned_span :: "u64 \<Rightarrow> u64 \<Rightarrow> u64 \<Rightarrow> (u64 \<times> u64) option" where
  "sector_aligned_span logical len sector =
     Option.bind (checked_add logical len) (\<lambda>end.
     Option.bind (checked_mul (div_ceil end sector) sector) (\<lambda>final.
     let first = logical - logical mod sector in
     Option.bind (checked_sub final first) (\<lambda>span. Some (first, span))))"

text \<open>A sector that does not match is looked for on the other copies: \<open>1..read_attempts\<close>.\<close>

fun repair_sector :: "filesystem \<Rightarrow> bytes \<Rightarrow> u64 \<Rightarrow> nat \<Rightarrow> nat list \<Rightarrow> bytes result" where
  "repair_sector fs expected at n [] = Err (ChecksumMismatch ''a data extent'' at)"
| "repair_sector fs expected at n (attempt # rest) =
     (case fs_read_mirror fs at attempt n of
        Inr other \<Rightarrow>
          if checksum_verify (fs_hash fs) (sb_csum_type (fs_sb fs)) other expected then Ok other
          else repair_sector fs expected at n rest
      | Inl _ \<Rightarrow> repair_sector fs expected at n rest)"

fun verify_sectors :: "filesystem \<Rightarrow> sector_digests \<Rightarrow> u64 \<Rightarrow> bytes list \<Rightarrow> bytes list result" where
  "verify_sectors fs digests at [] = Ok []"
| "verify_sectors fs digests at (sector # rest) =
     try_in (case digests at of
          None \<Rightarrow> Ok sector
        | Some expected \<Rightarrow>
            if checksum_verify (fs_hash fs) (sb_csum_type (fs_sb fs)) sector expected then Ok sector
            else
              try_in (read_attempts_at (fs_map fs) at) (\<lambda>attempts.
              repair_sector fs expected at (length sector) [1 ..< attempts])) (\<lambda>checked.
     try_in (verify_sectors fs digests (at + of_nat (length sector)) rest) (\<lambda>rest. Ok (checked # rest)))"

definition read_data_verified :: "filesystem \<Rightarrow> u64 \<Rightarrow> nat \<Rightarrow> bool \<Rightarrow> bytes result" where
  "read_data_verified fs logical n verify =
     (let sector = ucast (sb_sectorsize (fs_sb fs)) :: u64 in
      if \<not> verify \<or> n = 0 then fs_read fs logical n
      else
        case fs_csum_root fs of
          None \<Rightarrow> fs_read fs logical n
        | Some csum_root \<Rightarrow>
            if sector = 0 then fs_read fs logical n
            else
              try_in (ok_or (UnmappedLogical logical) (sector_aligned_span logical (of_nat n) sector)) (\<lambda>(first, span).
              try_in (fs_read fs first (unat span)) (\<lambda>whole.
              try_in (digests_for_range (pool_tree fs) csum_root (digest_len (sb_csum_type (fs_sb fs))) sector first span) (\<lambda>digests.
              try_in (verify_sectors fs digests first (chunks_exact (unat sector) whole)) (\<lambda>sectors.
              Ok (slice (unat (logical - first)) n (concat sectors)))))))"

section \<open>Reading a range\<close>

abbreviation (input) short_extent :: error where
  "short_extent \<equiv> BadSuperblock ''an extent is shorter than the range it covers''"

definition piece_len :: "piece \<Rightarrow> u64 option" where
  "piece_len piece =
     (case piece of
        Inline b \<Rightarrow> Some (of_nat (length b))
      | Hole \<Rightarrow> None
      | Preallocated logical len \<Rightarrow> None
      | RegularPiece logical len \<Rightarrow> Some len
      | CompressedPiece logical disk_len ram_len offset len algo \<Rightarrow> Some len)"

text \<open>\<open>take\<close> bytes of a piece that starts at \<open>at\<close>, from \<open>skip\<close> on.\<close>

definition piece_bytes :: "codecs \<Rightarrow> filesystem \<Rightarrow> u64 \<Rightarrow> bool \<Rightarrow> u64 \<Rightarrow> piece \<Rightarrow> nat \<Rightarrow> nat \<Rightarrow> bytes result" where
  "piece_bytes C fs file_size verify at piece skip len =
     (case piece of
        Inline b \<Rightarrow> if skip + len \<le> length b then Ok (slice skip len b) else Err short_extent
      | Hole \<Rightarrow> Err (Panic ''handled above'')
      | Preallocated logical n \<Rightarrow> Err (Panic ''handled above'')
      | RegularPiece logical n \<Rightarrow>
          try_in (ok_or short_extent (checked_add logical (of_nat skip))) (\<lambda>at_logical.
          read_data_verified fs at_logical len verify)
      | CompressedPiece logical disk_len ram_len within n algo \<Rightarrow>
          try_in (read_data_verified fs logical (unat disk_len) verify) (\<lambda>packed.
          let short = (if saturating_add at ram_len \<ge> file_size then Pad else Refuse) in
          try_in (decompress C algo packed (unat ram_len) (unat (sb_sectorsize (fs_sb fs))) short) (\<lambda>decoded.
          if unat within + skip + len \<le> length decoded then Ok (slice (unat within + skip) len decoded)
          else Err short_extent)))"

fun extents_loop ::
  "codecs \<Rightarrow> filesystem \<Rightarrow> inode \<Rightarrow> u64 \<Rightarrow> u64 \<Rightarrow> bool \<Rightarrow> leaf_item list \<Rightarrow> bytes \<Rightarrow> bytes result" where
  "extents_loop C fs inode start_at want_end verify [] buf = Ok buf"
| "extents_loop C fs inode start_at want_end verify ((key, data) # items) buf =
     (let at = key_offset key in
      if objectid key \<noteq> in_ino inode \<or> key_type key \<noteq> EXTENT_DATA_KEY then Ok buf
      else if at \<ge> want_end then Ok buf
      else
        try_in (decode_extent C fs data) (\<lambda>piece.
        case piece_len piece of
          None \<Rightarrow> extents_loop C fs inode start_at want_end verify items buf
        | Some extent_len \<Rightarrow>
            let start = max at start_at;
                end = min (saturating_add at extent_len) want_end
            in if end \<le> start then extents_loop C fs inode start_at want_end verify items buf
               else
                 try_in (piece_bytes C fs (in_size inode) verify at piece (unat (start - at)) (unat (end - start))) (\<lambda>src.
                 extents_loop C fs inode start_at want_end verify items (put_at (unat (start - start_at)) src buf))))"

definition read_extents :: "codecs \<Rightarrow> filesystem \<Rightarrow> inode \<Rightarrow> u64 \<Rightarrow> nat \<Rightarrow> bytes fs_op" where
  "read_extents C fs inode start_at n =
     (if n = 0 then fs_return (Ok [])
      else
        let verify = (in_flags inode AND (INODE_NODATASUM OR INODE_NODATACOW) = 0);
            want_end = min (saturating_add start_at (of_nat n)) (in_size inode)
        in
          fs_bind (item_run fs (in_ino inode) EXTENT_DATA_KEY) (\<lambda>items.
          fs_return (extents_loop C fs inode start_at want_end verify items (replicate n 0))))"

definition verity_of :: "filesystem \<Rightarrow> inode \<Rightarrow> verity option fs_op" where
  "verity_of fs inode =
     (if in_flags inode AND INODE_RO_VERITY = 0 then fs_return (Ok None)
      else
        fs_bind (item_run fs (in_ino inode) VERITY_DESC_ITEM_KEY) (\<lambda>items.
        let items = map (\<lambda>(key, data). (key_offset key, data))
              (takeWhile (\<lambda>(key, _). objectid key = in_ino inode \<and> key_type key = VERITY_DESC_ITEM_KEY) items)
        in fs_return
          (case items of
             [] \<Rightarrow> Err (BadSuperblock ''an fs-verity file with no descriptor item'')
           | (offset, head) # rest \<Rightarrow>
               if offset \<noteq> 0 \<or> length head < DESCRIPTOR_ITEM_SIZE then
                 Err (BadSuperblock ''an fs-verity file with no descriptor item'')
               else if head ! 24 \<noteq> 0 then Err (UnsupportedFeature ''fs-verity descriptor is encrypted'')
               else if le64 head 0 > 16384 then Err (BadSuperblock ''fs-verity descriptor claims too many bytes'')
               else
                 try_in (assemble rest 1 (unat (le64 head 0))) (\<lambda>blob.
                 map_sum (\<lambda>e. e) Some (verity_parse blob (in_size inode))))))"

definition merkle_visit :: "u64 \<Rightarrow> u64 \<Rightarrow> (u64 \<times> bytes) list visitor" where
  "merkle_visit ino finish key data out =
     (if objectid key \<noteq> ino \<or> key_type key \<noteq> VERITY_MERKLE_ITEM_KEY \<or> key_offset key \<ge> finish then (Ok False, out)
      else (Ok True, out @ [(key_offset key, data)]))"

definition verity_tree_bytes :: "filesystem \<Rightarrow> u64 \<Rightarrow> u64 \<Rightarrow> nat \<Rightarrow> bytes fs_op" where
  "verity_tree_bytes fs ino offset n c =
     (let start = DiskKey ino VERITY_MERKLE_ITEM_KEY (saturating_sub offset (ucast (sb_nodesize (fs_sb fs))));
          finish = saturating_add offset (of_nat n);
          (r, c, items) = for_each_from (fs_tree fs) (fs_tree_root fs) start (merkle_visit ino finish) c []
      in (try_in r (\<lambda>_. assemble items offset n), c))"

definition read_range :: "codecs \<Rightarrow> sha2_lib \<Rightarrow> filesystem \<Rightarrow> inode \<Rightarrow> u64 \<Rightarrow> nat \<Rightarrow> bytes fs_op" where
  "read_range C L fs inode start_at n =
     fs_bind (verity_of fs inode) (\<lambda>sealed.
     case sealed of
       None \<Rightarrow> read_extents C fs inode start_at n
     | Some v \<Rightarrow>
         let end = min (saturating_add start_at (of_nat n)) (in_size inode) in
         if start_at \<ge> end then fs_return (Ok (replicate n 0))
         else
           let bs = ve_block_size v;
               first = start_at div bs;
               wide_from = first * bs;
               rounded = (if unat (div_ceil end bs) * unat bs < 2 ^ 64 then div_ceil end bs * bs else - 1);
               wide_end = min rounded (in_size inode);
               want = unat (end - start_at);
               tree = verity_tree_bytes fs (in_ino inode)
           in if wide_from = start_at \<and> wide_end = end then
                fs_bind (read_extents C fs inode start_at want) (\<lambda>data.
                fs_bind (verity_verify L v first data tree) (\<lambda>_.
                fs_return (Ok (data @ replicate (n - want) 0))))
              else
                fs_bind (read_extents C fs inode wide_from (unat (wide_end - wide_from))) (\<lambda>whole.
                fs_bind (verity_verify L v first whole tree) (\<lambda>_.
                fs_return (Ok (slice (unat (start_at - wide_from)) want whole @ replicate (n - want) 0)))))"

text \<open>What is read, which has the length the source returns; the buffer given has \<open>n\<close> bytes.\<close>

definition fs_read_at :: "codecs \<Rightarrow> sha2_lib \<Rightarrow> filesystem \<Rightarrow> u64 \<Rightarrow> u64 \<Rightarrow> nat \<Rightarrow> bytes fs_op" where
  "fs_read_at C L fs ino offset n =
     fs_bind (read_inode fs ino) (\<lambda>inode.
     if \<not> is_regular_file inode \<and> \<not> is_symlink inode then fs_return (Err NotAFile)
     else if offset \<ge> in_size inode then fs_return (Ok [])
     else read_range C L fs inode offset (min n (unat (in_size inode - offset))))"

definition read_file :: "codecs \<Rightarrow> sha2_lib \<Rightarrow> filesystem \<Rightarrow> u64 \<Rightarrow> bytes fs_op" where
  "read_file C L fs ino =
     fs_bind (read_inode fs ino) (\<lambda>inode.
     if \<not> is_regular_file inode \<and> \<not> is_symlink inode then fs_return (Err NotAFile)
     else if in_size inode > sb_total_bytes (fs_sb fs) then
       fs_return (Err (BadSuperblock ''inode is larger than the filesystem''))
     else if in_size inode > MAX_WHOLE_FILE_READ then
       fs_return (Err (UnsupportedFeature ''more than a whole-file read will hold in memory''))
     else read_range C L fs inode 0 (unat (in_size inode)))"

definition read_link :: "codecs \<Rightarrow> sha2_lib \<Rightarrow> filesystem \<Rightarrow> u64 \<Rightarrow> bytes fs_op" where
  "read_link C L fs ino =
     fs_bind (read_inode fs ino) (\<lambda>inode.
     if \<not> is_symlink inode then fs_return (Err NotAFile)
     else if in_size inode > MAX_SYMLINK_TARGET then
       fs_return (Err (BadSuperblock ''symlink target is longer than any path''))
     else read_file C L fs ino)"

definition verity_item :: "filesystem \<Rightarrow> u64 \<Rightarrow> verity option fs_op" where
  "verity_item fs ino = fs_bind (read_inode fs ino) (verity_of fs)"

definition verity_merkle_tree :: "filesystem \<Rightarrow> u64 \<Rightarrow> bytes fs_op" where
  "verity_merkle_tree fs ino =
     fs_bind (verity_item fs ino) (\<lambda>sealed.
     case sealed of
       None \<Rightarrow> fs_return (Ok [])
     | Some v \<Rightarrow> fs_bind (fs_return (tree_size v)) (\<lambda>n. verity_tree_bytes fs ino 0 (unat n)))"

section \<open>Reads have the length asked for\<close>

definition fills :: "block_read \<Rightarrow> bool" where
  "fills d \<longleftrightarrow> (\<forall>p n b. d p n = Ok b \<longrightarrow> length b = n)"

definition devices_fill :: "filesystem \<Rightarrow> bool" where
  "devices_fill fs \<longleftrightarrow> fills (fs_device fs) \<and> (\<forall>(_, d) \<in> set (fs_devices fs). fills d)"

lemma length_read_on_mirror:
  "fills dev \<Longrightarrow> read_logical_on_mirror dev cs devid a l n = Ok b \<Longrightarrow> length b = n"
proof (induction n arbitrary: l b rule: less_induct)
  case (less n)
  note rec = less.IH [OF _ less.prems(1)]
    and ok = less.prems(2) [unfolded read_logical_on_mirror.simps [of dev cs devid a l n]]
  show ?case
  proof (cases "n = 0")
    case n0: False
    show ?thesis
    proof (cases "rebuilt_from_parity cs a l")
      case (Some c)
      then obtain rd out rest where o: "read_rebuilt c a l n rd = Ok out"
        and r: "read_logical_on_mirror dev cs devid a (l + of_nat (length out)) (n - length out) = Ok rest" "b = out @ rest"
        using ok n0 by (auto simp: try_in_eq_Ok)
      moreover have "n - length out < n" "length out \<le> n" using read_rebuilt_length [OF o] by linarith+
      ultimately show ?thesis using rec [OF _ r(1)] by simp
    next
      case None
      obtain r out rest where m: "map_mirror cs l a = Ok r" and k: "0 < min (unat (mp_len r)) n" "dev (mp_physical r) (min (unat (mp_len r)) n) = Ok out"
        and r: "read_logical_on_mirror dev cs devid a (l + of_nat (min (unat (mp_len r)) n)) (n - min (unat (mp_len r)) n) = Ok rest"
          "b = out @ rest"
        using ok n0 None by (auto simp: try_in_eq_Ok Let_def split: if_splits)
      have "length out = min (unat (mp_len r)) n" using k(2) less.prems(1) by (simp add: fills_def)
      moreover have "length rest = n - min (unat (mp_len r)) n" by (rule rec [OF _ r(1)]) (use k(1) in linarith)
      ultimately show ?thesis using r(2) by simp
    qed
  qed (use ok in simp)
qed

lemma length_read_pool:
  assumes "fills dev" and dv: "\<And>devid d. map_of devs devid = Some d \<Longrightarrow> fills d"
  shows "read_logical_pool_mirror dev devs cs a l n = Ok b \<Longrightarrow> length b = n"
proof (cases "devs = []")
  case True
  assume "read_logical_pool_mirror dev devs cs a l n = Ok b"
  then show ?thesis
    using True length_read_on_mirror [OF assms(1)] by (simp add: read_logical_pool_mirror.simps [of dev "[]" cs a l n])
next
  case False
  assume "read_logical_pool_mirror dev devs cs a l n = Ok b"
  then show ?thesis
  proof (induction "(if a = 0 then 1 else 0 :: nat, n)" arbitrary: a l n b rule: wf_induct_rule [OF wf_lex_prod [OF wf_less_than wf_less_than]])
    case (1 a n l b)
    note rec = "1.hyps" and ok = "1.prems" [unfolded read_logical_pool_mirror.simps [of dev devs cs a l n]]
    show ?case
    proof (cases "n = 0")
      case n0: False
      show ?thesis
      proof (cases "rebuilt_from_parity cs a l")
        case (Some c)
        then obtain rd out rest where o: "read_rebuilt c a l n rd = Ok out"
          and r: "read_logical_pool_mirror dev devs cs a (l + of_nat (length out)) (n - length out) = Ok rest" "b = out @ rest"
          using ok n0 False by (auto simp: try_in_eq_Ok)
        moreover have "n - length out < n" "length out \<le> n" using read_rebuilt_length [OF o] by linarith+
        ultimately show ?thesis using rec [OF _ r(1)] by simp
      next
        case None
        define k where "k r = min (unat (mp_len r)) n" for r :: mapping
        obtain r where m: "map_mirror cs l a = Ok r" and k0: "0 < k r"
          and ok1: "(case map_of devs (mp_devid r) of
                  None \<Rightarrow>
                    (if a = 0 then
                       try_in (read_attempts_at cs l) (\<lambda>tries.
                       case first_ok (\<lambda>attempt. read_logical_pool_mirror dev devs cs attempt l (k r)) [1..<tries] of
                         Some out \<Rightarrow>
                           try_in (read_logical_pool_mirror dev devs cs a (l + of_nat (k r)) (n - k r)) (\<lambda>rest.
                           Ok (out @ rest))
                       | None \<Rightarrow> Err (UnsupportedFeature ''the range lives on a device which was not given''))
                     else Err (UnsupportedFeature ''the range lives on a device which was not given''))
                | Some d \<Rightarrow>
                    try_in (d (mp_physical r) (k r)) (\<lambda>out.
                    try_in (read_logical_pool_mirror dev devs cs a (l + of_nat (k r)) (n - k r)) (\<lambda>rest.
                    Ok (out @ rest)))) = Ok b"
          using ok n0 None False unfolding k_def by (auto simp: try_in_eq_Ok Let_def split: if_splits)
        obtain out rest where out: "length out = k r"
          and re: "read_logical_pool_mirror dev devs cs a (l + of_nat (k r)) (n - k r) = Ok rest" and b: "b = out @ rest"
        proof (cases "map_of devs (mp_devid r)")
          case None
          then obtain tries out rest where a0: "a = 0"
            and f: "first_ok (\<lambda>attempt. read_logical_pool_mirror dev devs cs attempt l (k r)) [1..<tries] = Some out"
            and re: "read_logical_pool_mirror dev devs cs a (l + of_nat (k r)) (n - k r) = Ok rest" "b = out @ rest"
            using ok1 by (auto simp: try_in_eq_Ok split: if_splits option.splits)
          obtain x where x: "x \<noteq> 0" "read_logical_pool_mirror dev devs cs x l (k r) = Ok out"
            using first_ok_Some [OF f] by (auto simp: Suc_le_eq)
          have "length out = k r" using rec [OF _ x(2)] x(1) a0 by simp
          with that re show ?thesis by blast
        next
          case (Some d)
          then obtain out rest where d: "d (mp_physical r) (k r) = Ok out"
            and re: "read_logical_pool_mirror dev devs cs a (l + of_nat (k r)) (n - k r) = Ok rest" "b = out @ rest"
            using ok1 by (auto simp: try_in_eq_Ok)
          have "length out = k r" using dv [OF Some] d by (simp add: fills_def)
          with that re show ?thesis by blast
        qed
        have kn: "k r \<le> n" by (simp add: k_def)
        have "length rest = n - k r" using rec [OF _ re] k0 kn by simp
        then show ?thesis using kn b out by simp
      qed
    qed (use ok False in simp)
  qed
qed

lemma fs_read_length:
  assumes "devices_fill fs"
  shows "fs_read fs l n = Ok b \<Longrightarrow> length b = n" and "fs_read_mirror fs l m n = Ok b \<Longrightarrow> length b = n"
proof -
  have d: "fills (fs_device fs)" "\<And>devid d. map_of (fs_devices fs) devid = Some d \<Longrightarrow> fills d"
    using assms by (auto simp: devices_fill_def dest: map_of_SomeD)
  show "fs_read fs l n = Ok b \<Longrightarrow> length b = n" "fs_read_mirror fs l m n = Ok b \<Longrightarrow> length b = n"
    using length_read_pool [OF d] by (simp_all add: fs_read_def fs_read_mirror_def read_logical_pool_def)
qed

section \<open>No sector is returned that does not match its checksum\<close>

abbreviation matches :: "filesystem \<Rightarrow> bytes \<Rightarrow> bytes \<Rightarrow> bool" where
  "matches fs w dg \<equiv> checksum_verify (fs_hash fs) (sb_csum_type (fs_sb fs)) w dg"

lemma repair_sector_Ok:
  "repair_sector fs dg at n tries = Ok w \<Longrightarrow> matches fs w dg \<and> (\<exists>a. fs_read_mirror fs at a n = Ok w)"
  by (induction fs dg at n tries rule: repair_sector.induct) (auto split: sum.splits if_splits)

lemma verify_sectors_Ok:
  assumes "verify_sectors fs digests at sectors = Ok out" and "devices_fill fs"
    and "\<forall>w \<in> set sectors. length w = ss"
  shows "length out = length sectors \<and> (\<forall>w \<in> set out. length w = ss) \<and>
    (\<forall>i < length out. \<forall>dg. digests (at + of_nat (i * ss)) = Some dg \<longrightarrow> matches fs (out ! i) dg)"
  using assms(1,3)
proof (induction sectors arbitrary: at out)
  case (Cons w rest)
  obtain w' out' where w': "(case digests at of
          None \<Rightarrow> Ok w
        | Some expected \<Rightarrow>
            if matches fs w expected then Ok w
            else try_in (read_attempts_at (fs_map fs) at) (\<lambda>tries.
              repair_sector fs expected at (length w) [1 ..< tries])) = Ok w'"
    and rest: "verify_sectors fs digests (at + of_nat ss) rest = Ok out'" and out: "out = w' # out'"
    using Cons.prems by (auto simp: try_in_eq_Ok)
  have first: "length w' = ss" "digests at = Some dg \<Longrightarrow> matches fs w' dg" for dg
    using w' Cons.prems(2) repair_sector_Ok fs_read_length(2) [OF assms(2)]
    by (auto simp: try_in_eq_Ok split: option.splits if_splits) (metis)+
  have IH: "length out' = length rest \<and> (\<forall>w \<in> set out'. length w = ss) \<and>
    (\<forall>i < length out'. \<forall>dg. digests (at + of_nat ss + of_nat (i * ss)) = Some dg \<longrightarrow> matches fs (out' ! i) dg)"
    using Cons.IH [OF rest] Cons.prems(2) by simp
  show ?case
    using IH first by (auto simp: out nth_Cons distrib_right add.assoc split: nat.split)
qed simp

lemma sector_aligned_span_Some:
  assumes "sector_aligned_span logical n sector = Some (first, width)" and "0 < sector"
  shows "unat first = unat logical div unat sector * unat sector"
    and "unat sector dvd unat width" and "unat first + unat width < 2 ^ 64"
    and "unat first \<le> unat logical" and "unat logical + unat n \<le> unat first + unat width"
    and "unat first + unat width < unat logical + unat n + unat sector"
proof -
  let ?s = "unat sector"
  have s: "0 < ?s" using assms(2) by (simp add: word_less_nat_alt)
  obtain stop final where e: "checked_add logical n = Some stop" and f: "checked_mul (div_ceil stop sector) sector = Some final"
    and first: "first = logical - logical mod sector" and sp: "checked_sub final first = Some width"
    using assms(1) by (auto simp: sector_aligned_span_def bind_eq_Some_conv Let_def)
  have en: "unat stop = unat logical + unat n"
    using e by (auto simp: checked_add_Some unat_add_small)
  have fi: "unat final = unat (div_ceil stop sector) * ?s"
    using f by (auto simp: checked_mul_Some unat_mult_small)
  have fst: "unat first = unat logical - unat logical mod ?s"
    by (simp add: first unat_sub_le word_le_nat_alt unat_mod_word)
  then show first': "unat first = unat logical div ?s * ?s"
    by (simp add: minus_mod_eq_div_mult)
  show "unat first \<le> unat logical" by (simp add: fst)
  have spn: "unat first + unat width = unat final"
    using sp by (auto simp: checked_sub_Some unat_sub_le word_le_nat_alt)
  then show "unat first + unat width < 2 ^ 64" using unat_u64 [of final] by simp
  have "unat width = (unat (div_ceil stop sector) - unat logical div ?s) * ?s"
    using spn fi first' by (simp add: diff_mult_distrib)
  then show "?s dvd unat width" by simp
  have dc: "unat (div_ceil stop sector) = (unat stop + (?s - 1)) div ?s" by (rule unat_div_ceil [OF s])
  have m: "unat stop + (?s - 1) = unat (div_ceil stop sector) * ?s + (unat stop + (?s - 1)) mod ?s"
    unfolding dc by simp
  have "(unat stop + (?s - 1)) mod ?s < ?s" using s by simp
  then show "unat logical + unat n \<le> unat first + unat width" "unat first + unat width < unat logical + unat n + ?s"
    using m s unfolding spn fi en by linarith+
qed

text \<open>The checksum tree a filesystem is mounted with.\<close>

definition csum_tree_holds :: "filesystem \<Rightarrow> atree \<Rightarrow> bool" where
  "csum_tree_holds fs t \<longleftrightarrow>
     fs_csum_root fs = Some (addr t) \<and> sorted_tree t \<and> exact_separators t \<and>
     csums_apart (digest_len (sb_csum_type (fs_sb fs))) (ucast (sb_sectorsize (fs_sb fs))) (inorder t) \<and>
     (\<exists>lvl. stored (read_uncached (pool_tree fs :: unit tree)) None lvl t)"

definition recorded_digest :: "filesystem \<Rightarrow> atree \<Rightarrow> sector_digests" where
  "recorded_digest fs t =
     map_of (recorded_digests (digest_len (sb_csum_type (fs_sb fs))) (ucast (sb_sectorsize (fs_sb fs))) (inorder t))"

lemma slice_concat_equal:
  assumes "\<forall>w \<in> set ws. length w = k" and "i < length ws" and "j < k"
  shows "concat ws ! (i * k + j) = ws ! i ! j"
  using assms
proof (induction ws arbitrary: i)
  case (Cons w ws)
  then show ?case by (cases i) (auto simp: nth_append)
qed simp

lemma length_concat_equal: "\<forall>w \<in> set ws. length w = k \<Longrightarrow> length (concat ws) = length ws * k"
  by (induction ws) auto

lemma read_data_checked:
  assumes fill: "devices_fill fs" and tree: "csum_tree_holds fs t"
    and ss: "0 < sb_sectorsize (fs_sb fs)" and n: "0 < n" "n < 2 ^ 64"
    and ok: "read_data_verified fs logical n True = Ok data"
  shows "length data = n"
    and "recorded_digest fs t s = Some dg \<Longrightarrow> unat (sb_sectorsize (fs_sb fs)) dvd unat s \<Longrightarrow>
      unat s < unat logical + n \<Longrightarrow> unat logical < unat s + unat (sb_sectorsize (fs_sb fs)) \<Longrightarrow>
      \<exists>w. length w = unat (sb_sectorsize (fs_sb fs)) \<and> matches fs w dg \<and>
        (\<forall>x. unat logical \<le> x \<and> x < unat logical + n \<and> unat s \<le> x \<and> x < unat s + unat (sb_sectorsize (fs_sb fs)) \<longrightarrow>
           data ! (x - unat logical) = w ! (x - unat s))"
proof -
  define sec where "sec = (ucast (sb_sectorsize (fs_sb fs)) :: u64)"
  define k where "k = unat (sb_sectorsize (fs_sb fs))"
  have k: "unat sec = k" by (simp add: sec_def k_def unat_ucast_32_64)
  have k0: "0 < k" using ss by (simp add: k_def word_less_nat_alt)
  then have sec0: "0 < sec" by (simp add: word_less_nat_alt k)
  have un: "unat (of_nat n :: u64) = n" using n(2) by (simp add: unat_of_nat)
  have root: "fs_csum_root fs = Some (addr t)" using tree by (simp add: csum_tree_holds_def)
  obtain first width whole digests sectors where
    sp: "sector_aligned_span logical (of_nat n) sec = Some (first, width)"
    and wh: "fs_read fs first (unat width) = Ok whole"
    and dig: "digests_for_range (pool_tree fs) (addr t) (digest_len (sb_csum_type (fs_sb fs))) sec first width = Ok digests"
    and sc: "verify_sectors fs digests first (chunks_exact k whole) = Ok sectors"
    and data: "data = slice (unat (logical - first)) n (concat sectors)"
  proof -
    have "sec \<noteq> 0" using sec0 by auto
    then show thesis
      using that ok n(1) unfolding read_data_verified_def Let_def root sec_def [symmetric]
      by (auto simp: try_in_eq_Ok ok_or_eq_Ok k)
  qed
  note al = sector_aligned_span_Some [OF sp sec0, unfolded un k]
  have lw: "length whole = unat width" by (rule fs_read_length(1) [OF fill wh])
  have cut: "length (chunks_exact k whole) = unat width div k" "\<forall>w \<in> set (chunks_exact k whole). length w = k"
  proof -
    show "length (chunks_exact k whole) = unat width div k" by (simp add: lw)
    show "\<forall>w \<in> set (chunks_exact k whole). length w = k"
    proof
      fix w
      assume "w \<in> set (chunks_exact k whole)"
      then obtain i where i: "i < length whole div k" "w = slice (i * k) k whole" by (auto simp: chunks_exact_def)
      then have "Suc i * k \<le> length whole div k * k" by (intro mult_le_mono1) simp
      also have "\<dots> \<le> length whole" by simp
      finally show "length w = k" using i(2) by simp
    qed
  qed
  note vs = verify_sectors_Ok [OF sc fill cut(2)]
  have ls: "length sectors * k = unat width"
    using vs cut(1) al(2) by simp
  have lc: "length (concat sectors) = unat width"
    using length_concat_equal [of sectors k] vs ls by simp
  have off: "unat (logical - first) = unat logical - unat first"
    using al(4) by (simp add: unat_sub_le word_le_nat_alt)
  show "length data = n"
    using al(4,5) by (simp add: data lc off)
  assume rec: "recorded_digest fs t s = Some dg" and dvd: "unat (sb_sectorsize (fs_sb fs)) dvd unat s"
    and hi: "unat s < unat logical + n" and lo: "unat logical < unat s + unat (sb_sectorsize (fs_sb fs))"
  have span0: "0 < width"
    using al(4,5) n(1) by (simp add: word_less_nat_alt)
  obtain lvl where st: "stored (read_uncached (pool_tree fs :: unit tree)) None lvl t"
    and h: "sorted_tree t" "exact_separators t" "csums_apart (digest_len (sb_csum_type (fs_sb fs))) sec (inorder t)"
    using tree by (auto simp: csum_tree_holds_def sec_def)
  have dg: "digests = recorded_digest fs t |` in_range first (saturating_add first width)"
    using digests_of_tree [OF pool_tree_uncached st h span0 digest_len_pos sec0, of first] dig
    by (simp add: recorded_digest_def sec_def)
  define a where "a = unat s div k"
  define b where "b = unat logical div k"
  have sa: "unat s = a * k" using dvd by (simp add: a_def flip: k_def)
  have fb: "unat first = b * k" using al(1) by (simp add: b_def)
  have ba: "b \<le> a"
  proof -
    have "unat logical < Suc a * k" using lo sa by (simp flip: k_def)
    then have "b < Suc a" unfolding b_def using k0 by (simp add: div_less_iff_less_mult)
    then show ?thesis by simp
  qed
  have inside: "unat s < unat first + unat width"
    using hi al(5) by linarith
  have "in_range first (saturating_add first width) = {s. unat first \<le> unat s \<and> unat s < unat first + unat width}"
    using al(3) by (auto simp: in_range_def saturating_add_def unat_add_small word_le_nat_alt word_less_nat_alt)
  then have ds: "digests s = Some dg"
    using rec inside ba by (simp add: dg restrict_map_def sa fb)
  define i where "i = a - b"
  have il: "i < length sectors"
  proof -
    have "a * k < (b + length sectors) * k" using inside ls by (simp add: sa fb distrib_right)
    then show ?thesis using ba k0 by (simp add: i_def)
  qed
  have "s = first + of_nat (i * k)"
  proof -
    have e: "unat first + i * k = unat s" using ba by (simp add: i_def sa fb diff_mult_distrib)
    from arg_cong [OF e, of "of_nat :: nat \<Rightarrow> u64"] show ?thesis by simp
  qed
  then have "matches fs (sectors ! i) dg"
    using vs il ds by blast
  moreover have "length (sectors ! i) = k" using vs il by simp
  moreover have "data ! (x - unat logical) = sectors ! i ! (x - unat s)"
    if x: "unat logical \<le> x" "x < unat logical + n" "unat s \<le> x" "x < unat s + k" for x
  proof -
    have "data ! (x - unat logical) = concat sectors ! (unat logical - unat first + (x - unat logical))"
      unfolding data off using x al(4,5) lc by (intro nth_slice) auto
    also have "unat logical - unat first + (x - unat logical) = i * k + (x - unat s)"
    proof -
      have "b * k \<le> a * k" using ba by simp
      then show ?thesis using x(1,3) al(4) by (simp add: i_def sa fb diff_mult_distrib)
    qed
    also have "concat sectors ! (i * k + (x - unat s)) = sectors ! i ! (x - unat s)"
      using vs il x(3,4) by (intro slice_concat_equal) auto
    finally show ?thesis .
  qed
  ultimately show "\<exists>w. length w = unat (sb_sectorsize (fs_sb fs)) \<and> matches fs w dg \<and>
        (\<forall>x. unat logical \<le> x \<and> x < unat logical + n \<and> unat s \<le> x \<and> x < unat s + unat (sb_sectorsize (fs_sb fs)) \<longrightarrow>
           data ! (x - unat logical) = w ! (x - unat s))"
    unfolding k_def [symmetric] by blast
qed

text \<open>
  C35. Data that has checksums is returned only when it matches them. Whatever the devices answer,
  when a verified read of any range returns, every sector the range touches and the checksum tree
  holds a digest for is returned as bytes with that digest: as they were read, or from another
  copy or a rebuild when the first read did not match.
\<close>
theorem verified_data_matches:
  assumes "devices_fill fs" and "csum_tree_holds fs t" and "0 < sb_sectorsize (fs_sb fs)"
    and "0 < n" and "n < 2 ^ 64" and "read_data_verified fs logical n True = Ok data"
    and "recorded_digest fs t s = Some dg" and "unat (sb_sectorsize (fs_sb fs)) dvd unat s"
    and "unat s < unat logical + n" and "unat logical < unat s + unat (sb_sectorsize (fs_sb fs))"
  shows "length data = n \<and>
    (\<exists>w. length w = unat (sb_sectorsize (fs_sb fs)) \<and>
       checksum_verify (fs_hash fs) (sb_csum_type (fs_sb fs)) w dg \<and>
       (\<forall>x. unat logical \<le> x \<and> x < unat logical + n \<and> unat s \<le> x \<and> x < unat s + unat (sb_sectorsize (fs_sb fs)) \<longrightarrow>
          data ! (x - unat logical) = w ! (x - unat s)))"
  using read_data_checked [OF assms(1-6)] assms(7-10) by blast

section \<open>A filesystem with a checksum\<close>

definition csum_items :: "leaf_item list" where
  "csum_items = [(DiskKey EXTENT_CSUM_OBJECTID EXTENT_CSUM_KEY 1048576, replicate 4 0)]"

definition csum_fs :: "bytes \<Rightarrow> filesystem" where
  "csum_fs block = (demo_fs block)\<lparr>fs_csum_root := Some 1048576\<rparr>"

lemma csum_block:
  obtains block where "build_leaf zero_hash demo_super demo_at csum_items = Ok block"
    and "strictly_sorted (map fst csum_items)"
proof -
  have s: "strictly_sorted (map fst csum_items)" by (simp add: csum_items_def)
  then show thesis
    using that by (simp add: build_leaf_def windows_ordered_iff demo_at_def demo_ident_def demo_super_def
        space_needed_def item_space_def csum_items_def Let_def)
qed

lemma csum_fs_parts:
  "fs_sb (csum_fs block) = demo_super\<lparr>sb_root := 1048576\<rparr>" "fs_hash (csum_fs block) = zero_hash"
  "sb_sectorsize (fs_sb (csum_fs block)) = 4096" "sb_csum_type (fs_sb (csum_fs block)) = Crc32c"
  "(pool_tree (csum_fs block) :: unit tree) = pool_tree (demo_fs block)" "fs_read (csum_fs block) = fs_read (demo_fs block)"
  "fs_csum_root (csum_fs block) = Some 1048576"
  by (simp_all add: csum_fs_def demo_fs_def demo_super_def pool_tree_def fs_read_def fs_read_mirror_def [abs_def])

lemma zero_matches: "checksum_verify zero_hash Crc32c w (replicate 4 0)"
  using zero_hash_verify [of w] by (simp add: checksum_verify_def)

lemma csum_recorded:
  "recorded_digests 4 4096 csum_items = [(1048576, replicate 4 0)]"
  by (simp add: recorded_digests_def csum_items_def csum_item_def chunks_exact_def slice_def)

lemma csum_apart: "csums_apart 4 4096 csum_items"
  by (simp add: csums_apart_def csum_items_def csum_end_def)

lemma csum_super: "sb_sectorsize demo_super = 4096" "sb_csum_type demo_super = Crc32c"
  by (simp_all add: demo_super_def)

lemma csum_holds:
  assumes b: "build_leaf zero_hash demo_super demo_at csum_items = Ok block" "strictly_sorted (map fst csum_items)"
  shows "csum_tree_holds (csum_fs block) (ALeaf 1048576 csum_items)"
  using demo_fs_stored(2) [OF b] b(2) csum_apart
  by (auto simp: csum_tree_holds_def csum_fs_parts csum_super sorted_tree_def)

theorem verified_data_matches_witness:
  "\<exists>block. build_leaf zero_hash demo_super demo_at csum_items = Ok block \<and>
     read_data_verified (csum_fs block) 1048676 50 True = Ok (slice 100 50 block) \<and>
     length (slice 100 50 block) = 50 \<and>
     (\<exists>w. checksum_verify zero_hash Crc32c w (replicate 4 0) \<and> slice 100 50 block ! 7 = w ! 107)"
proof -
  obtain block where b: "build_leaf zero_hash demo_super demo_at csum_items = Ok block"
    "strictly_sorted (map fst csum_items)" by (rule csum_block)
  let ?fs = "csum_fs block" and ?t = "ALeaf 1048576 csum_items"
  have id: "wf_ident demo_super demo_at"
    using demo_ident_wf [of 0] by (simp add: wf_ident_def demo_at_def)
  have len: "length block = 4096"
    using conjunct1 [OF build_leaf_written [OF zero_hash_wf id b(1)]] by (simp add: demo_super_def)
  have t: "csum_tree_holds ?fs ?t" by (rule csum_holds [OF b])
  have fill: "devices_fill ?fs"
    by (auto simp: devices_fill_def fills_def csum_fs_def demo_fs_def)
  have dig: "digests_for_range (pool_tree ?fs) 1048576 4 4096 1048576 4096 =
      Ok (map_of [(1048576, replicate 4 0)] |` in_range 1048576 (saturating_add 1048576 4096))"
    using digests_of_tree [OF pool_tree_uncached demo_fs_stored(2) [OF b],
        where len = 4096 and csz = 4 and ss = 4096 and start = 1048576] b(2) csum_apart
    by (simp add: sorted_tree_def csum_fs_parts csum_recorded)
  have sp: "sector_aligned_span 1048676 50 4096 = Some (1048576, 4096)"
    by (simp add: sector_aligned_span_def checked_add_def checked_mul_def checked_sub_def div_ceil_def)
  have cut: "chunks_exact 4096 block = [block]" using len by (simp add: chunks_exact_def slice_0_full)
  have r: "read_data_verified ?fs 1048676 50 True = Ok (slice 100 50 block)"
    using demo_fs_read [OF len] dig
    unfolding read_data_verified_def Let_def csum_fs_parts
    by (simp add: csum_fs_parts csum_super sp cut in_range_def restrict_map_def saturating_add_def zero_matches)
  have d: "recorded_digest ?fs ?t 1048576 = Some (replicate 4 0)"
    by (simp add: recorded_digest_def csum_fs_parts csum_super csum_recorded)
  from verified_data_matches [OF fill t _ _ _ r d]
  obtain w where l: "length (slice 100 50 block) = 50" and w: "checksum_verify zero_hash Crc32c w (replicate 4 0)"
    and all: "\<forall>x. 1048676 \<le> x \<and> x < 1048726 \<and> 1048576 \<le> x \<and> x < 1052672 \<longrightarrow> slice 100 50 block ! (x - 1048676) = w ! (x - 1048576)"
    by (auto simp: csum_fs_parts csum_super)
  have "slice 100 50 block ! 7 = w ! 107" using spec [OF all, of 1048683] by simp
  then show ?thesis using b(1) r l w by blast
qed

end
