(* ===== verification/FileRange.thy ===== *)
theory FileRange
  imports FileRead
begin

text \<open>
  Reading parts of files. On a volume that a mount accepted, whose devices answer and whose copies and
  parities agree, reading a range of a file gives that range of what reading the whole file gives,
  through extents, holes, compression, checksums and missing devices. The lemmas carry this from
  the pool of devices over verified data and single pieces to the loop over a file's extents.
\<close>

section \<open>A volume that is served\<close>

definition served :: "filesystem \<Rightarrow> disk \<Rightarrow> (u64 \<Rightarrow> u8) \<Rightarrow> bool" where
  "served fs disk img \<longleftrightarrow>
     volume_ok disk (fs_map fs) img \<and> pool_reads disk (fs_device fs) (fs_devices fs) \<and>
     pool_answers (fs_map fs) (fs_devices fs) \<and> fs_devices fs \<noteq> [] \<and> (\<forall>c \<in> set (fs_map fs). usable c) \<and>
     refuse_unreadable_without_missing (fs_map fs) (present_devices (fs_devices fs)) = Ok ()"

lemma served_read:
  "served fs disk img \<Longrightarrow> mapped (fs_map fs) l n \<Longrightarrow> fs_read fs l n = Ok (bytes_of img l n)"
proof -
  assume s: "served fs disk img" and m: "mapped (fs_map fs) l n"
  obtain b where b: "read_logical_pool_mirror (fs_device fs) (fs_devices fs) (fs_map fs) 0 l n = Ok b"
    using degraded_read_returns [of disk "fs_map fs" img "fs_device fs" "fs_devices fs" l n] s m
    by (auto simp: served_def)
  then show ?thesis
    using read_pool_image [of disk "fs_map fs" img "fs_device fs" "fs_devices fs" 0 l n b] s
    by (simp add: fs_read_def read_logical_pool_def served_def)
qed

lemma served_read_image:
  assumes "served fs disk img"
  shows "fs_read fs l n = Ok b \<Longrightarrow> b = bytes_of img l n" and "fs_read_mirror fs l m n = Ok b \<Longrightarrow> b = bytes_of img l n"
  using assms read_pool_image [of disk "fs_map fs" img "fs_device fs" "fs_devices fs"]
  by (auto simp: served_def fs_read_def fs_read_mirror_def read_logical_pool_def)

lemma mapping_run_inside:
  assumes wf: "wf_chunk c" and r: "chunk_map_mirror c l m = Ok r"
  shows "unat l + unat (mp_len r) \<le> unat (ch_logical c) + clen c"
proof -
  obtain p where p: "chunk_profile_of c = Ok p" "covers c l" "m < mirrors_of p" "parity_fits p c"
    by (rule chunk_map_mirror_dom [OF wf r])
  have "unat (mp_len r) \<le> clen c - offset_in c l"
    using chunk_map_mirror_Ok(3) [OF wf p(2,1,3,4) r] by (simp add: run_of_def split: if_splits)
  then show ?thesis using p(2) by (auto simp: covers_def offset_in_def)
qed

lemma read_pool_mapped:
  assumes inv: "cm_inv cs" and dv: "devs \<noteq> []"
  shows "read_logical_pool_mirror dev devs cs 0 l n = Ok b \<Longrightarrow> mapped cs l n"
proof (induction n arbitrary: l b rule: less_induct)
  case (less n)
  note ok = less.prems [unfolded read_logical_pool_mirror.simps [of dev devs cs 0 l n]]
  show ?case
  proof (cases "n = 0")
    case True
    then show ?thesis using unat_u64 [of l] by (simp add: mapped_def)
  next
    case False
    have rb: "rebuilt_from_parity cs 0 l = None" by (simp add: rebuilt_from_parity_def)
    define k where "k r = min (unat (mp_len r)) n" for r :: mapping
    obtain r where m: "map_mirror cs l 0 = Ok r" and k0: "0 < k r"
      and "\<exists>rest. read_logical_pool_mirror dev devs cs 0 (l + of_nat (k r)) (n - k r) = Ok rest"
      using ok False rb dv unfolding k_def by (auto simp: try_in_eq_Ok Let_def split: if_splits option.splits)
    then obtain rest where rest: "read_logical_pool_mirror dev devs cs 0 (l + of_nat (k r)) (n - k r) = Ok rest" by blast
    have tail: "mapped cs (l + of_nat (k r)) (n - k r)"
      using less.IH [OF _ rest] k0 False by simp
    obtain c where c: "c \<in> set cs" "covers c l" "chunk_map_mirror c l 0 = Ok r"
      using m by (auto simp: map_mirror_Ok [OF inv])
    have wf: "wf_chunk c" using inv c(1) by (simp add: cm_inv_def)
    have ic: "in_chunk c l (k r)"
      using mapping_run_inside [OF wf c(3)] c(2) by (simp add: in_chunk_def k_def)
    have kn: "k r \<le> n" by (simp add: k_def)
    have lt: "unat l + k r < 18446744073709551616"
      using ic wf_chunk_facts(3) [OF wf] by (simp add: in_chunk_def)
    have ul: "unat (l + of_nat (k r)) = unat l + k r"
      using lt by (simp add: unat_add_small unat_of_nat_u64)
    have "\<exists>c \<in> set cs. covers c (l + of_nat i)" if i: "i < n" for i
    proof (cases "i < k r")
      case True
      then show ?thesis using in_chunk_at(2) [OF wf ic] c(1) by blast
    next
      case False
      then have "\<exists>c \<in> set cs. covers c (l + of_nat (k r) + of_nat (i - k r))"
        using tail i unfolding mapped_def by (metis diff_less_mono linorder_not_less)
      moreover have "l + of_nat (k r) + of_nat (i - k r) = l + of_nat (k r + (i - k r))"
        by (simp only: of_nat_add add.assoc)
      moreover have "k r + (i - k r) = i" using False by simp
      ultimately show ?thesis by simp
    qed
    then show ?thesis using tail kn by (simp add: mapped_def ul)
  qed
qed

lemma served_mapped: "served fs disk img \<Longrightarrow> fs_read fs l n = Ok b \<Longrightarrow> mapped (fs_map fs) l n"
  using read_pool_mapped by (auto simp: served_def volume_ok_def fs_read_def read_logical_pool_def)

lemma slice_bytes_of: "i + k \<le> n \<Longrightarrow> slice i k (bytes_of img l n) = bytes_of img (l + of_nat i) k"
  by (rule nth_equalityI) (simp_all add: nth_slice bytes_of_def add.assoc)

section \<open>Verified data\<close>

lemma concat_chunks_exact: "0 < k \<Longrightarrow> k dvd length b \<Longrightarrow> concat (chunks_exact k b) = b"
proof -
  assume k: "0 < k" "k dvd length b"
  have each: "\<forall>w \<in> set (chunks_exact k b). length w = k"
  proof
    fix w
    assume "w \<in> set (chunks_exact k b)"
    then obtain i where i: "i < length b div k" "w = slice (i * k) k b" by (auto simp: chunks_exact_def)
    then have "Suc i * k \<le> length b div k * k" by (intro mult_le_mono1) simp
    also have "\<dots> \<le> length b" by simp
    finally show "length w = k" using i(2) by simp
  qed
  show ?thesis
  proof (rule nth_equalityI)
    show l: "length (concat (chunks_exact k b)) = length b"
      using length_concat_equal [OF each] k(2) by simp
    fix x
    assume "x < length (concat (chunks_exact k b))"
    then have x: "x < length b" by (simp add: l)
    have i: "x div k < length b div k" using x k by (auto simp: div_less_iff_less_mult elim!: dvdE)
    have "concat (chunks_exact k b) ! (x div k * k + x mod k) = chunks_exact k b ! (x div k) ! (x mod k)"
      using each i k(1) by (intro slice_concat_equal) auto
    also have "\<dots> = b ! x"
      using i k(1) x by (simp add: chunks_exact_def nth_slice)
    finally show "concat (chunks_exact k b) ! x = b ! x" by simp
  qed
qed

lemma chunks_exact_bytes_of:
  assumes "0 < k"
  shows "chunks_exact k (bytes_of img l n) = map (\<lambda>j. bytes_of img (l + of_nat (j * k)) k) [0 ..< n div k]"
proof -
  have "j * k + k \<le> n" if "j < n div k" for j
  proof -
    have "Suc j * k \<le> n div k * k" using that by (intro mult_le_mono1) simp
    also have "\<dots> \<le> n" by simp
    finally show ?thesis by simp
  qed
  then show ?thesis by (auto simp: chunks_exact_def slice_bytes_of)
qed

lemma verify_sectors_image:
  assumes "served fs disk img"
  shows "verify_sectors fs digests at (map (\<lambda>j. bytes_of img (at + of_nat (j * k)) k) [0 ..< m]) = Ok out \<longleftrightarrow>
    out = map (\<lambda>j. bytes_of img (at + of_nat (j * k)) k) [0 ..< m] \<and>
    (\<forall>j < m. \<forall>dg. digests (at + of_nat (j * k)) = Some dg \<longrightarrow> matches fs (bytes_of img (at + of_nat (j * k)) k) dg)"
proof (induction m arbitrary: at out)
  case 0
  then show ?case by auto
next
  case (Suc m)
  let ?s = "\<lambda>at j. bytes_of img (at + of_nat (j * k)) k"
  have shift: "?s (at + of_nat k) j = ?s at (Suc j)" for j
    by (simp add: add.assoc distrib_right)
  have up: "map (?s at) [0 ..< Suc m] = bytes_of img at k # map (?s (at + of_nat k)) [0 ..< m]"
    by (simp add: map_upt_Suc add.assoc distrib_right del: upt_Suc)
  have fix_up: "repair_sector fs dg at k tries = Ok w \<Longrightarrow> w = bytes_of img at k \<and> matches fs w dg" for dg tries w
    using repair_sector_Ok [of fs dg at k tries w] served_read_image(2) [OF assms] by blast
  have split: "(\<forall>j < Suc m. \<forall>dg. digests (at + of_nat (j * k)) = Some dg \<longrightarrow> matches fs (?s at j) dg) \<longleftrightarrow>
      (\<forall>dg. digests at = Some dg \<longrightarrow> matches fs (bytes_of img at k) dg) \<and>
      (\<forall>j < m. \<forall>dg. digests (at + of_nat k + of_nat (j * k)) = Some dg \<longrightarrow> matches fs (?s (at + of_nat k) j) dg)"
    unfolding shift All_less_Suc2 by (simp add: add.assoc distrib_right)
  have first: "(case digests at of
          None \<Rightarrow> Ok (bytes_of img at k)
        | Some expected \<Rightarrow>
            if matches fs (bytes_of img at k) expected then Ok (bytes_of img at k)
            else try_in (read_attempts_at (fs_map fs) at) (\<lambda>tries.
              repair_sector fs expected at (length (bytes_of img at k)) [1 ..< tries])) = Ok w \<longleftrightarrow>
      w = bytes_of img at k \<and> (\<forall>dg. digests at = Some dg \<longrightarrow> matches fs (bytes_of img at k) dg)" for w
    using fix_up by (auto simp: try_in_eq_Ok split: option.split)
  show ?case
    unfolding up split by (auto simp: try_in_eq_Ok first Suc.IH simp del: of_nat_mult)
qed

text \<open>The span of a part lies inside the span of the whole.\<close>

lemma sector_aligned_span_part:
  assumes w: "sector_aligned_span l n sector = Some (first, width)" and s: "0 < sector"
    and part: "unat l \<le> unat l'" "unat l' + unat n' \<le> unat l + unat n"
  shows "\<exists>first' width'. sector_aligned_span l' n' sector = Some (first', width') \<and>
    unat first \<le> unat first' \<and> unat first' + unat width' \<le> unat first + unat width"
proof -
  let ?s = "unat sector"
  note al = sector_aligned_span_Some [OF w s]
  have s0: "0 < ?s" using s by (simp add: word_less_nat_alt)
  define e where "e = l' + n'"
  have ue: "unat e = unat l' + unat n'"
    using part(2) al(3,5) by (simp add: e_def unat_add_small)
  have e: "checked_add l' n' = Some e"
    using part(2) al(3,5) by (simp add: checked_add_Some e_def)
  have up: "unat (div_ceil e sector) * ?s \<le> unat first + unat width"
  proof -
    have "?s dvd unat first" using al(1) by simp
    then obtain q where q: "unat first + unat width = q * ?s"
      using al(2) by (metis dvd_add dvd_def mult.commute)
    have "unat e + (?s - 1) < (q + 1) * ?s"
      using ue part(2) al(5) q s0 by simp
    then have "(unat e + (?s - 1)) div ?s < q + 1" using s0 by (simp add: div_less_iff_less_mult)
    then have "(unat e + (?s - 1)) div ?s * ?s \<le> q * ?s" by (intro mult_le_mono1) linarith
    then show ?thesis unfolding unat_div_ceil [OF s0] q .
  qed
  define final where "final = div_ceil e sector * sector"
  have uf: "unat final = unat (div_ceil e sector) * ?s"
    using up al(3) by (simp add: final_def unat_mult_small)
  have f: "checked_mul (div_ceil e sector) sector = Some final"
    using up al(3) by (simp add: checked_mul_Some final_def)
  define first' where "first' = l' - l' mod sector"
  have u1: "unat first' = unat l' div ?s * ?s"
  proof -
    have "unat first' = unat l' - unat l' mod ?s"
      unfolding first'_def by (subst unat_sub_le) (simp_all add: word_le_nat_alt unat_mod_word)
    then show ?thesis by (simp only: minus_mod_eq_div_mult)
  qed
  have le: "unat first' \<le> unat final"
  proof -
    have "unat l' div ?s \<le> (unat e + (?s - 1)) div ?s" using ue by (intro div_le_mono) simp
    then show ?thesis unfolding u1 uf unat_div_ceil [OF s0] by (rule mult_le_mono1)
  qed
  define width' where "width' = final - first'"
  have "sector_aligned_span l' n' sector = Some (first', width')"
    using le by (simp add: sector_aligned_span_def e f checked_sub_def word_le_nat_alt width'_def flip: first'_def)
  moreover have "unat first \<le> unat first'"
    using part(1) by (simp add: al(1) u1 div_le_mono)
  moreover have "unat first' + unat width' \<le> unat first + unat width"
    using up le by (simp add: width'_def unat_sub_le word_le_nat_alt uf)
  ultimately show ?thesis by blast
qed

text \<open>What stands behind a verified read that returns.\<close>

definition checked :: "filesystem \<Rightarrow> atree \<Rightarrow> (u64 \<Rightarrow> u8) \<Rightarrow> u64 \<Rightarrow> u64 \<Rightarrow> bool" where
  "checked fs t img first width \<longleftrightarrow>
     (\<forall>j < unat width div unat (sb_sectorsize (fs_sb fs)). \<forall>dg.
        (recorded_digest fs t |` in_range first (saturating_add first width))
          (first + of_nat (j * unat (sb_sectorsize (fs_sb fs)))) = Some dg \<longrightarrow>
        matches fs (bytes_of img (first + of_nat (j * unat (sb_sectorsize (fs_sb fs)))) (unat (sb_sectorsize (fs_sb fs)))) dg)"

lemma verified_read_image:
  assumes sv: "served fs disk img" and tree: "csum_tree_holds fs t"
    and ss: "0 < sb_sectorsize (fs_sb fs)" and n: "0 < n" "n < 2 ^ 64"
  shows "read_data_verified fs l n True = Ok data \<longleftrightarrow>
    (\<exists>first width. sector_aligned_span l (of_nat n) (ucast (sb_sectorsize (fs_sb fs))) = Some (first, width) \<and>
       mapped (fs_map fs) first (unat width) \<and> checked fs t img first width \<and> data = bytes_of img l n)"
proof -
  define sec where "sec = (ucast (sb_sectorsize (fs_sb fs)) :: u64)"
  define k where "k = unat (sb_sectorsize (fs_sb fs))"
  have k: "unat sec = k" by (simp add: sec_def k_def unat_ucast_32_64)
  have k0: "0 < k" using ss by (simp add: k_def word_less_nat_alt)
  then have sec0: "0 < sec" by (simp add: word_less_nat_alt k)
  then have secne: "sec \<noteq> 0" by auto
  have root: "fs_csum_root fs = Some (addr t)" using tree by (simp add: csum_tree_holds_def)
  have un: "unat (of_nat n :: u64) = n" using n(2) by (simp add: unat_of_nat)
  obtain lvl where st: "stored (read_uncached (pool_tree fs :: unit tree)) None lvl t"
    and h: "sorted_tree t" "exact_separators t" "csums_apart (digest_len (sb_csum_type (fs_sb fs))) sec (inorder t)"
    using tree by (auto simp: csum_tree_holds_def sec_def)
  have body: "try_in (fs_read fs first (unat width)) (\<lambda>whole.
      try_in (digests_for_range (pool_tree fs) (addr t) (digest_len (sb_csum_type (fs_sb fs))) sec first width) (\<lambda>digests.
      try_in (verify_sectors fs digests first (chunks_exact (unat sec) whole)) (\<lambda>sectors.
      Ok (slice (unat (l - first)) n (concat sectors))))) = Ok data \<longleftrightarrow>
      mapped (fs_map fs) first (unat width) \<and> checked fs t img first width \<and> data = bytes_of img l n"
    if sp: "sector_aligned_span l (of_nat n) sec = Some (first, width)" for first width
  proof -
    note al = sector_aligned_span_Some [OF sp sec0, unfolded un k]
    have w0: "0 < width" using al(4,5) n(1) by (simp add: word_less_nat_alt)
    have dig: "digests_for_range (pool_tree fs) (addr t) (digest_len (sb_csum_type (fs_sb fs))) sec first width =
        Ok (recorded_digest fs t |` in_range first (saturating_add first width))"
      using digests_of_tree [OF pool_tree_uncached st h w0 digest_len_pos sec0, of first]
      by (simp add: recorded_digest_def sec_def)
    have cut: "chunks_exact k (bytes_of img first (unat width)) =
        map (\<lambda>j. bytes_of img (first + of_nat (j * k)) k) [0 ..< unat width div k]"
      by (rule chunks_exact_bytes_of [OF k0])
    have whole: "concat (map (\<lambda>j. bytes_of img (first + of_nat (j * k)) k) [0 ..< unat width div k]) = bytes_of img first (unat width)"
      using concat_chunks_exact [OF k0, of "bytes_of img first (unat width)"] al(2) by (simp add: cut)
    have off: "unat (l - first) = unat l - unat first"
      using al(4) by (simp add: unat_sub_le word_le_nat_alt)
    have "first + of_nat (unat l - unat first) = l"
    proof -
      have e: "unat first + (unat l - unat first) = unat l" using al(4) by simp
      from arg_cong [OF e, of "of_nat :: nat \<Rightarrow> u64"] show ?thesis by simp
    qed
    then have sl: "slice (unat l - unat first) n (bytes_of img first (unat width)) = bytes_of img l n"
      using al(4,5) by (subst slice_bytes_of) auto
    show ?thesis
    proof (cases "mapped (fs_map fs) first (unat width)")
      case True
      then show ?thesis
        by (auto simp: served_read [OF sv] dig try_in_eq_Ok k cut verify_sectors_image [OF sv] whole off sl checked_def
            simp flip: k_def simp del: of_nat_mult)
    next
      case False
      then have "\<not> is_ok (fs_read fs first (unat width))" using served_mapped [OF sv] by (auto simp: is_ok_iff)
      then show ?thesis using False by (auto simp: try_in_eq_Ok)
    qed
  qed
  show ?thesis
    unfolding read_data_verified_def Let_def root sec_def [symmetric]
    using secne n(1) body by (auto simp: try_in_eq_Ok ok_or_eq_Ok)
qed

definition sums_known :: "filesystem \<Rightarrow> bool" where
  "sums_known fs \<longleftrightarrow> fs_csum_root fs = None \<or> (0 < sb_sectorsize (fs_sb fs) \<and> (\<exists>t. csum_tree_holds fs t))"

lemma unverified_read:
  assumes "n = 0 \<or> \<not> verify \<or> fs_csum_root fs = None"
  shows "read_data_verified fs l n verify = fs_read fs l n"
  using assms by (auto simp: read_data_verified_def Let_def split: option.split)

lemma read_data_part:
  assumes sv: "served fs disk img" and sums: "sums_known fs"
    and ok: "read_data_verified fs l n verify = Ok data" and part: "i + k \<le> n" and n: "n < 2 ^ 64"
  shows "read_data_verified fs (l + of_nat i) k verify = Ok (slice i k data)" and "length data = n"
proof -
  have "read_data_verified fs (l + of_nat i) k verify = Ok (slice i k data) \<and> length data = n"
  proof (cases "verify \<and> n \<noteq> 0 \<and> fs_csum_root fs \<noteq> None")
    case False
    then have r: "fs_read fs l n = Ok data" using ok by (auto simp: unverified_read)
    have d: "data = bytes_of img l n" by (rule served_read_image(1) [OF sv r])
    have "fs_read fs (l + of_nat i) k = Ok (slice i k data)"
      using served_read [OF sv mapped_part [OF served_mapped [OF sv r] part]] part by (simp add: d slice_bytes_of)
    then show ?thesis using False part d by (subst unverified_read) auto
  next
    case True
    then obtain t where t: "csum_tree_holds fs t" and ss: "0 < sb_sectorsize (fs_sb fs)"
      using sums by (auto simp: sums_known_def)
    define sec where "sec = (ucast (sb_sectorsize (fs_sb fs)) :: u64)"
    define m where "m = unat (sb_sectorsize (fs_sb fs))"
    have us: "unat sec = m" by (simp add: sec_def m_def unat_ucast_32_64)
    have m0: "0 < m" using ss by (simp add: m_def word_less_nat_alt)
    then have sec0: "0 < sec" by (simp add: word_less_nat_alt us)
    have un: "unat (of_nat n :: u64) = n" "unat (of_nat k :: u64) = k"
      using n part by (simp_all add: unat_of_nat)
    have n0: "0 < n" using True by simp
    obtain first width where sp: "sector_aligned_span l (of_nat n) sec = Some (first, width)"
      and mp: "mapped (fs_map fs) first (unat width)" and ck: "checked fs t img first width" and d: "data = bytes_of img l n"
      using verified_read_image [OF sv t ss n0 n, of l data] ok True by (auto simp: sec_def)
    note al = sector_aligned_span_Some [OF sp sec0, unfolded un us]
    have ul: "unat (l + of_nat i) = unat l + i"
    proof -
      have "unat l + i < 18446744073709551616" using al(3,5) part by simp
      then show ?thesis by (simp add: unat_add_small unat_of_nat_u64)
    qed
    show ?thesis
    proof (cases "k = 0")
      case True
      have "mapped (fs_map fs) (l + of_nat i) 0" using unat_u64 [of "l + of_nat i"] by (simp add: mapped_def)
      then have "fs_read fs (l + of_nat i) 0 = Ok []" using served_read [OF sv] by (simp add: bytes_of_def)
      then show ?thesis using True d by (subst unverified_read) (auto simp: slice_def)
    next
      case k0: False
      obtain first' width' where sp': "sector_aligned_span (l + of_nat i) (of_nat k) sec = Some (first', width')"
        and le: "unat first \<le> unat first'" "unat first' + unat width' \<le> unat first + unat width"
        using sector_aligned_span_part [OF sp sec0, of "l + of_nat i" "of_nat k"] part by (auto simp: ul un)
      note al' = sector_aligned_span_Some [OF sp' sec0, unfolded un us]
      define a where "a = unat first' - unat first"
      have fa: "first' = first + of_nat a"
      proof -
        have e: "unat first + a = unat first'" using le(1) by (simp add: a_def)
        from arg_cong [OF e, of "of_nat :: nat \<Rightarrow> u64"] show ?thesis by simp
      qed
      have "mapped (fs_map fs) first' (unat width')"
        unfolding fa by (rule mapped_part [OF mp]) (use le in \<open>simp add: a_def\<close>)
      moreover have "checked fs t img first' width'"
        unfolding checked_def m_def [symmetric]
      proof (intro allI impI)
        fix j dg
        assume j: "j < unat width' div m"
          and dg: "(recorded_digest fs t |` in_range first' (saturating_add first' width')) (first' + of_nat (j * m)) = Some dg"
        obtain b where b: "a = b * m"
        proof -
          have "m dvd unat first" "m dvd unat first'" using al(1) al'(1) by simp_all
          then have "m dvd a" by (simp add: a_def dvd_diff_nat)
          then show thesis using that by (metis dvd_def mult.commute)
        qed
        have at: "first' + of_nat (j * m) = first + of_nat ((b + j) * m)"
        proof -
          have e: "a + j * m = (b + j) * m" by (simp add: b distrib_right)
          from arg_cong [OF e, of "\<lambda>x. first + of_nat x"] show ?thesis by (simp only: fa of_nat_add add.assoc)
        qed
        have "Suc j * m \<le> unat width'"
        proof -
          have "Suc j * m \<le> unat width' div m * m" using j by (intro mult_le_mono1) simp
          then show ?thesis using div_times_less_eq_dividend [of "unat width'" m] by linarith
        qed
        then have inw: "(b + j) * m + m \<le> unat width"
          using le by (simp add: a_def b [symmetric] distrib_right)
        then have "(b + j) * m < unat width div m * m"
          using al(2) m0 by simp
        then have bj: "b + j < unat width div m" by simp
        have "(recorded_digest fs t |` in_range first (saturating_add first width)) (first + of_nat ((b + j) * m)) = Some dg"
        proof -
          have u: "unat (first + of_nat ((b + j) * m)) = unat first + (b + j) * m"
          proof -
            have "unat first + (b + j) * m < 18446744073709551616" using inw al(3) m0 by simp
            then show ?thesis by (simp add: unat_add_small unat_of_nat_u64 del: of_nat_mult of_nat_add)
          qed
          have "first + of_nat ((b + j) * m) \<in> in_range first (saturating_add first width)"
            using u inw al(3) m0
            by (simp add: in_range_def saturating_add_def unat_add_small word_le_nat_alt word_less_nat_alt del: of_nat_mult of_nat_add)
          then show ?thesis using dg by (simp add: at restrict_map_def del: of_nat_mult of_nat_add split: if_splits)
        qed
        then show "matches fs (bytes_of img (first' + of_nat (j * m)) m) dg"
          using ck bj unfolding checked_def m_def [symmetric] at by blast
      qed
      ultimately have "read_data_verified fs (l + of_nat i) k True = Ok (bytes_of img (l + of_nat i) k)"
        using verified_read_image [OF sv t ss, of k "l + of_nat i"] k0 part n sp' by (auto simp: sec_def)
      then show ?thesis using True part by (simp add: d slice_bytes_of)
    qed
  qed
  then show "read_data_verified fs (l + of_nat i) k verify = Ok (slice i k data)" "length data = n" by blast+
qed

section \<open>One piece\<close>

lemma refuse_window_Ok:
  "refuse_window_outside_extent fs disk off len = Ok () \<Longrightarrow> disk \<noteq> 0 \<Longrightarrow> checked_add disk off = Some l \<Longrightarrow>
   unat l + unat len < 2 ^ 64"
  by (auto simp: refuse_window_outside_extent_def try_in_eq_Ok ok_or_eq_Ok window_inside_extent_def checked_add_Some
      split: if_splits option.splits)

lemma decode_regular:
  "decode_extent C fs d = Ok (RegularPiece logical len) \<Longrightarrow> unat logical + unat len < 2 ^ 64"
  using refuse_window_Ok [of fs "le64 d 21" "le64 d 37" "le64 d 45" logical]
  by (auto simp: decode_extent_def Let_def try_in_eq_Ok ok_or_eq_Ok split: if_splits)

lemma piece_part:
  assumes sv: "served fs disk img" and sums: "sums_known fs"
    and piece: "decode_extent C fs d = Ok piece" "piece_len piece = Some plen"
    and ok: "piece_bytes C fs fsize verify at piece 0 n = Ok src" and n: "n \<le> unat plen" and part: "i + k \<le> n"
  shows "piece_bytes C fs fsize verify at piece i k = Ok (slice i k src)" and "length src = n"
proof -
  have nb: "n < 2 ^ 64" using n unat_u64 [of plen] by simp
  have "piece_bytes C fs fsize verify at piece i k = Ok (slice i k src) \<and> length src = n"
  proof (cases piece)
    case (Inline b)
    then show ?thesis using ok part by (auto simp: piece_bytes_def slice_slice split: if_splits)
  next
    case (RegularPiece logical len)
    then have r: "read_data_verified fs logical n verify = Ok src" and pl: "plen = len"
      using ok piece(2) by (auto simp: piece_bytes_def piece_len_def try_in_eq_Ok ok_or_eq_Ok checked_add_Some)
    have lt: "unat logical + unat len < 2 ^ 64" using decode_regular piece(1) RegularPiece by blast
    have "checked_add logical (of_nat i) = Some (logical + of_nat i)"
      using lt n part pl by (simp add: checked_add_Some unat_of_nat_u64)
    then show ?thesis
      using read_data_part [OF sv sums r part nb] RegularPiece by (simp add: piece_bytes_def)
  next
    case (CompressedPiece logical disk_len ram_len within len algo)
    then show ?thesis
      using ok part by (auto simp: piece_bytes_def try_in_eq_Ok Let_def slice_slice add.assoc split: if_splits)
  qed (use ok in \<open>auto simp: piece_bytes_def\<close>)
  then show "piece_bytes C fs fsize verify at piece i k = Ok (slice i k src)" "length src = n" by blast+
qed

section \<open>The loop over a file's extents\<close>

lemma extents_loop_stop:
  "in_run (in_ino inode) EXTENT_DATA_KEY (key, d) \<Longrightarrow> want_end \<le> key_offset key \<Longrightarrow>
   extents_loop C fs inode off want_end verify ((key, d) # items) buf = Ok buf"
  by (simp add: in_run_def Let_def)

lemma extents_loop_go:
  "in_run (in_ino inode) EXTENT_DATA_KEY (key, d) \<Longrightarrow> key_offset key < want_end \<Longrightarrow>
   extents_loop C fs inode off want_end verify ((key, d) # items) buf =
     try_in (decode_extent C fs d) (\<lambda>piece.
     case piece_len piece of
       None \<Rightarrow> extents_loop C fs inode off want_end verify items buf
     | Some extent_len \<Rightarrow>
         let start = max (key_offset key) off; finish = min (saturating_add (key_offset key) extent_len) want_end
         in if finish \<le> start then extents_loop C fs inode off want_end verify items buf
            else
              try_in (piece_bytes C fs (in_size inode) verify (key_offset key) piece
                        (unat (start - key_offset key)) (unat (finish - start))) (\<lambda>src.
              extents_loop C fs inode off want_end verify items (put_at (unat (start - off)) src buf)))"
  by (auto simp: in_run_def Let_def)

text \<open>Items that start at or after an address change nothing before it.\<close>

lemma extents_loop_untouched:
  assumes sv: "served fs disk img" and sums: "sums_known fs"
    and "extents_loop C fs inode 0 stop verify items buf = Ok out" and "length buf = unat stop"
    and "\<forall>kv \<in> set items. w \<le> key_offset (fst kv) \<and> in_run (in_ino inode) EXTENT_DATA_KEY kv"
  shows "length out = length buf \<and> (\<forall>x < unat w. x < length buf \<longrightarrow> out ! x = buf ! x)"
  using assms(3-)
proof (induction items arbitrary: buf)
  case Nil
  then show ?case by simp
next
  case (Cons kv items)
  obtain key d where kv: "kv = (key, d)" by fastforce
  let ?at = "key_offset key"
  have later: "\<forall>kv \<in> set items. w \<le> key_offset (fst kv) \<and> in_run (in_ino inode) EXTENT_DATA_KEY kv"
    and w: "w \<le> ?at" and run: "in_run (in_ino inode) EXTENT_DATA_KEY (key, d)"
    using Cons.prems(3) by (simp_all add: kv)
  note IH = Cons.IH [OF _ _ later]
  show ?case
  proof (cases "stop \<le> ?at")
    case True
    then show ?thesis using Cons.prems(1) extents_loop_stop [OF run] by (simp add: kv)
  next
    case False
    then obtain piece where piece: "decode_extent C fs d = Ok piece"
      and rest: "(case piece_len piece of
          None \<Rightarrow> extents_loop C fs inode 0 stop verify items buf
        | Some extent_len \<Rightarrow>
            let start = max ?at 0; finish = min (saturating_add ?at extent_len) stop
            in if finish \<le> start then extents_loop C fs inode 0 stop verify items buf
               else
                 try_in (piece_bytes C fs (in_size inode) verify ?at piece (unat (start - ?at)) (unat (finish - start))) (\<lambda>src.
                 extents_loop C fs inode 0 stop verify items (put_at (unat (start - 0)) src buf))) = Ok out"
      using Cons.prems(1) extents_loop_go [OF run, of stop] by (auto simp: kv try_in_eq_Ok not_le)
    show ?thesis
    proof (cases "piece_len piece")
      case None
      then show ?thesis using rest IH [of buf] Cons.prems(2) by simp
    next
      case (Some plen)
      define finish where "finish = min (saturating_add ?at plen) stop"
      show ?thesis
      proof (cases "finish \<le> ?at")
        case True
        then show ?thesis using rest IH [of buf] Cons.prems(2) Some by (simp add: Let_def flip: finish_def)
      next
        case False
        then obtain src where src: "piece_bytes C fs (in_size inode) verify ?at piece 0 (unat (finish - ?at)) = Ok src"
          and re: "extents_loop C fs inode 0 stop verify items (put_at (unat ?at) src buf) = Ok out"
          using rest Some by (auto simp: Let_def try_in_eq_Ok simp flip: finish_def)
        have le: "unat (finish - ?at) = unat finish - unat ?at" "unat ?at < unat finish" "unat finish \<le> unat stop"
          using False by (simp_all add: unat_sub_le word_le_nat_alt not_le finish_def unat_min)
        have "unat (finish - ?at) \<le> unat plen"
          unfolding le(1) by (simp add: finish_def unat_min unat_saturating_add)
        from piece_part(2) [OF sv sums piece Some src this, of 0 0]
        have ls: "length src = unat finish - unat ?at" by (simp add: le(1))
        have lp: "length (put_at (unat ?at) src buf) = length buf"
          using ls le Cons.prems(2) by (intro length_put_at) simp
        have "out ! x = buf ! x" if "x < unat w" "x < length buf" for x
        proof -
          have "out ! x = put_at (unat ?at) src buf ! x"
            using IH [OF re] lp Cons.prems(2) that by simp
          also have "\<dots> = buf ! x"
            using that w ls le Cons.prems(2) by (subst nth_put_at) (auto simp: word_le_nat_alt)
          finally show ?thesis .
        qed
        then show ?thesis using IH [OF re] lp Cons.prems(2) by simp
      qed
    qed
  qed
qed

lemma slice_put_at:
  assumes "at + length src \<le> length buf"
  shows "at + length src \<le> off \<or> off + n \<le> at \<Longrightarrow> slice off n (put_at at src buf) = slice off n buf"
    and "s = max at off \<Longrightarrow> e = min (at + length src) (off + n) \<Longrightarrow> s < e \<Longrightarrow> off + n \<le> length buf \<Longrightarrow>
      put_at (s - off) (slice (s - at) (e - s) src) (slice off n buf) = slice off n (put_at at src buf)"
proof -
  show "slice off n (put_at at src buf) = slice off n buf" if "at + length src \<le> off \<or> off + n \<le> at"
    using slice_put_disjoint [of off n at src buf] that assms by auto
  assume s: "s = max at off" and e: "e = min (at + length src) (off + n)" and se: "s < e" and n: "off + n \<le> length buf"
  have l: "length (slice (s - at) (e - s) src) = e - s" using s e se by auto
  show "put_at (s - off) (slice (s - at) (e - s) src) (slice off n buf) = slice off n (put_at at src buf)"
  proof (rule nth_equalityI)
    have f: "s - off + (e - s) \<le> length (slice off n buf)" using s e se n by auto
    show len: "length (put_at (s - off) (slice (s - at) (e - s) src) (slice off n buf)) = length (slice off n (put_at at src buf))"
      using f l assms by (subst length_put_at) auto
    fix x
    assume "x < length (put_at (s - off) (slice (s - at) (e - s) src) (slice off n buf))"
    then have x: "x < n" using f l n assms by (subst (asm) length_put_at) auto
    have get: "slice (s - at) (e - s) src ! (x - (s - off)) = src ! (s - at + (x - (s - off)))"
      if "s - off \<le> x" "x < s - off + (e - s)"
    proof (rule nth_slice)
      have b: "off \<le> s" "at \<le> s" "e \<le> at + length src" using s e by auto
      show "x - (s - off) < e - s" using that b se by linarith
      show "s - at + (x - (s - off)) < length src" using that b se by linarith
    qed
    have got: "slice off n buf ! x = buf ! (off + x)" using x n by (intro nth_slice) auto
    have "put_at (s - off) (slice (s - at) (e - s) src) (slice off n buf) ! x =
        (if s - off \<le> x \<and> x < s - off + (e - s) then src ! (s - at + (x - (s - off))) else buf ! (off + x))"
      using f l x n get got by (subst nth_put_at) auto
    also have "\<dots> = put_at at src buf ! (off + x)"
      using assms x n s e se by (subst nth_put_at) (auto intro: arg_cong [of _ _ "(!) src"])
    also have "\<dots> = slice off n (put_at at src buf) ! x"
      using x n assms by (subst nth_slice) auto
    finally show "put_at (s - off) (slice (s - at) (e - s) src) (slice off n buf) ! x = slice off n (put_at at src buf) ! x" .
  qed
qed

lemma extents_loop_part:
  assumes sv: "served fs disk img" and sums: "sums_known fs"
    and run: "\<forall>kv \<in> set items. in_run (in_ino inode) EXTENT_DATA_KEY kv"
    and srt: "sorted_wrt (\<lambda>a b. key_offset (fst a) < key_offset (fst b)) items"
    and whole: "extents_loop C fs inode 0 stop verify items buf = Ok out"
    and buf: "length buf = unat stop" and n: "0 < n" and w: "unat w = unat off + n" "w \<le> stop"
  shows "extents_loop C fs inode off w verify items (slice (unat off) n buf) = Ok (slice (unat off) n out)"
  using run srt whole buf
proof (induction items arbitrary: buf)
  case Nil
  then show ?case by simp
next
  case (Cons kv items)
  obtain key d where kv: "kv = (key, d)" by fastforce
  let ?at = "key_offset key"
  have r1: "in_run (in_ino inode) EXTENT_DATA_KEY (key, d)"
    and rs: "\<forall>kv \<in> set items. in_run (in_ino inode) EXTENT_DATA_KEY kv"
    and ss: "sorted_wrt (\<lambda>a b. key_offset (fst a) < key_offset (fst b)) items"
    and later: "\<forall>x \<in> set items. ?at < key_offset (fst x)"
    using Cons.prems(1,2) by (auto simp: kv)
  note IH = Cons.IH [OF rs ss]
  have ws: "unat w \<le> unat stop" using w(2) by (simp add: word_le_nat_alt)
  show ?case
  proof (cases "w \<le> ?at")
    case True
    have "\<forall>x \<in> set (kv # items). w \<le> key_offset (fst x) \<and> in_run (in_ino inode) EXTENT_DATA_KEY x"
      using True later rs r1 by (auto simp: kv intro: order_trans less_imp_le)
    from extents_loop_untouched [OF sv sums Cons.prems(3,4) this]
    have "slice (unat off) n out = slice (unat off) n buf"
      using w(1) ws Cons.prems(4) by (intro nth_equalityI) (auto simp: nth_slice)
    then show ?thesis using extents_loop_stop [OF r1 True] by (simp add: kv)
  next
    case False
    then have lt: "?at < w" "?at < stop" using w(2) by auto
    obtain piece where piece: "decode_extent C fs d = Ok piece"
      and rest: "(case piece_len piece of
          None \<Rightarrow> extents_loop C fs inode 0 stop verify items buf
        | Some extent_len \<Rightarrow>
            let start = max ?at 0; finish = min (saturating_add ?at extent_len) stop
            in if finish \<le> start then extents_loop C fs inode 0 stop verify items buf
               else
                 try_in (piece_bytes C fs (in_size inode) verify ?at piece (unat (start - ?at)) (unat (finish - start))) (\<lambda>src.
                 extents_loop C fs inode 0 stop verify items (put_at (unat (start - 0)) src buf))) = Ok out"
      using Cons.prems(3) extents_loop_go [OF r1 lt(2)] by (auto simp: kv try_in_eq_Ok)
    note go = extents_loop_go [OF r1 lt(1), of C fs off verify items "slice (unat off) n buf"]
    show ?thesis
    proof (cases "piece_len piece")
      case None
      then show ?thesis using rest IH [of buf] Cons.prems(4) go by (simp add: kv piece)
    next
      case (Some plen)
      define e where "e = saturating_add ?at plen"
      define f1 where "f1 = min e stop"
      define f2 where "f2 = min e w"
      define s2 where "s2 = max ?at off"
      have f21: "f2 \<le> f1" using w(2) by (auto simp: f1_def f2_def min.coboundedI2)
      have go2: "extents_loop C fs inode off w verify (kv # items) (slice (unat off) n buf) =
          (if f2 \<le> s2 then extents_loop C fs inode off w verify items (slice (unat off) n buf)
           else
             try_in (piece_bytes C fs (in_size inode) verify ?at piece (unat (s2 - ?at)) (unat (f2 - s2))) (\<lambda>src.
             extents_loop C fs inode off w verify items (put_at (unat (s2 - off)) src (slice (unat off) n buf))))"
        using go by (simp add: kv piece Some Let_def flip: e_def f2_def s2_def)
      show ?thesis
      proof (cases "f1 \<le> ?at")
        case True
        then have "f2 \<le> s2" using f21 by (auto simp: s2_def le_max_iff_disj)
        moreover have "extents_loop C fs inode 0 stop verify items buf = Ok out"
          using rest True Some by (simp add: Let_def flip: e_def f1_def)
        ultimately show ?thesis using IH [of buf] Cons.prems(4) go2 by simp
      next
        case False
        then obtain src where src: "piece_bytes C fs (in_size inode) verify ?at piece 0 (unat (f1 - ?at)) = Ok src"
          and re: "extents_loop C fs inode 0 stop verify items (put_at (unat ?at) src buf) = Ok out"
          using rest Some by (auto simp: Let_def try_in_eq_Ok simp flip: e_def f1_def)
        have u1: "unat (f1 - ?at) = unat f1 - unat ?at" "unat ?at < unat f1" "unat f1 \<le> unat stop"
          using False by (simp_all add: unat_sub_le word_le_nat_alt not_le f1_def unat_min)
        have pl: "unat (f1 - ?at) \<le> unat plen"
          unfolding u1(1) by (simp add: f1_def e_def unat_min unat_saturating_add)
        have ls: "length src = unat f1 - unat ?at"
          using piece_part(2) [OF sv sums piece Some src pl, of 0 0] by (simp add: u1(1))
        have fit: "unat ?at + length src \<le> length buf" using ls u1 Cons.prems(4) by simp
        have lp: "length (put_at (unat ?at) src buf) = unat stop" using fit Cons.prems(4) by simp
        note next_ok = IH [OF re lp]
        have uf2: "unat f2 = min (unat ?at + length src) (unat off + n)"
          using ls u1(2) ws by (simp add: f1_def f2_def unat_min w(1))
        have us2: "unat s2 = max (unat ?at) (unat off)"
          by (simp add: s2_def max_def word_le_nat_alt)
        have on: "unat off + n \<le> length buf" using w(1) ws Cons.prems(4) by simp
        show ?thesis
        proof (cases "f2 \<le> s2")
          case True
          have "unat ?at < unat off + n" using lt(1) w(1) by (simp add: word_less_nat_alt)
          moreover have "unat f2 \<le> unat s2" using True by (simp add: word_le_nat_alt)
          ultimately have "unat ?at + length src \<le> unat off \<or> unat off + n \<le> unat ?at"
            using uf2 us2 n ls u1(2) by (auto simp: min_def max_def split: if_splits)
          from slice_put_at(1) [OF fit this] next_ok show ?thesis using True go2 by simp
        next
          case inside: False
          have sf: "unat s2 < unat f2" using inside by (simp add: word_le_nat_alt not_le)
          have u2: "unat (s2 - ?at) = unat s2 - unat ?at" "unat (f2 - s2) = unat f2 - unat s2" "unat (s2 - off) = unat s2 - unat off"
            using sf by (auto simp: unat_sub_le word_le_nat_alt us2)
          have part: "unat (s2 - ?at) + unat (f2 - s2) \<le> unat (f1 - ?at)"
            unfolding u2 u1(1) using sf us2 f21 by (auto simp: word_le_nat_alt)
          have "piece_bytes C fs (in_size inode) verify ?at piece (unat (s2 - ?at)) (unat (f2 - s2)) =
              Ok (slice (unat s2 - unat ?at) (unat f2 - unat s2) src)"
            using piece_part(1) [OF sv sums piece Some src pl part] by (simp add: u2)
          moreover have "put_at (unat s2 - unat off) (slice (unat s2 - unat ?at) (unat f2 - unat s2) src) (slice (unat off) n buf) =
              slice (unat off) n (put_at (unat ?at) src buf)"
            by (rule slice_put_at(2) [OF fit us2 uf2 sf on])
          ultimately show ?thesis using inside go2 next_ok by (simp add: u2(3))
        qed
      qed
    qed
  qed
qed

section \<open>A file and its parts\<close>

text \<open>What the range of a file without fs-verity holds, in terms of the items of the tree.\<close>

definition extents_in :: "codecs \<Rightarrow> filesystem \<Rightarrow> leaf_item list \<Rightarrow> inode \<Rightarrow> u64 \<Rightarrow> nat \<Rightarrow> bytes result" where
  "extents_in C fs kvs inode start_at n =
     (if n = 0 then Ok []
      else extents_loop C fs inode start_at (min (saturating_add start_at (of_nat n)) (in_size inode))
        (in_flags inode AND (INODE_NODATASUM OR INODE_NODATACOW) = 0)
        (filter (in_run (in_ino inode) EXTENT_DATA_KEY) kvs) (replicate n 0))"

lemma yields_read_extents:
  assumes "fs_holds fs t"
  shows "yields fs (read_extents C fs inode start_at n) (extents_in C fs (inorder t) inode start_at n)"
proof (cases "n = 0")
  case False
  show ?thesis
    using yields_bind [OF yields_item_run [OF assms] yields_return] False
    by (simp add: read_extents_def extents_in_def Let_def)
qed (simp add: read_extents_def extents_in_def yields_return)

lemma yields_read_range_unsealed:
  assumes "fs_holds fs t" and "in_flags inode AND INODE_RO_VERITY = 0"
  shows "yields fs (read_range C L fs inode start_at n) (extents_in C fs (inorder t) inode start_at n)"
proof -
  have "read_range C L fs inode start_at n = read_extents C fs inode start_at n"
    using assms(2) by (simp add: read_range_def verity_of_def fs_bind_def fs_return_def fun_eq_iff)
  then show ?thesis by (simp add: yields_read_extents [OF assms(1)])
qed

lemma extents_in_part:
  assumes sv: "served fs disk img" and sums: "sums_known fs" and t: "sorted_tree t"
    and whole: "extents_in C fs (inorder t) inode 0 (unat (in_size inode)) = Ok all"
    and n: "unat off + n \<le> unat (in_size inode)"
  shows "extents_in C fs (inorder t) inode off n = Ok (slice (unat off) n all)"
    and "length all = unat (in_size inode)"
proof -
  let ?items = "filter (in_run (in_ino inode) EXTENT_DATA_KEY) (inorder t)"
  let ?verify = "in_flags inode AND (INODE_NODATASUM OR INODE_NODATACOW) = 0"
  have run: "\<forall>kv \<in> set ?items. in_run (in_ino inode) EXTENT_DATA_KEY kv" by simp
  have srt: "sorted_wrt (\<lambda>a b. key_offset (fst a) < key_offset (fst b)) ?items"
  proof -
    have "sorted_wrt (\<lambda>a b. fst a < fst b) ?items"
      using t by (auto simp: sorted_tree_def sorted_wrt_map intro: sorted_wrt_filter)
    then show ?thesis
      by (rule sorted_wrt_mono_rel [rotated]) (auto simp: in_run_def less_disk_key_def key_before_def split: if_splits)
  qed
  have "extents_in C fs (inorder t) inode off n = Ok (slice (unat off) n all) \<and> length all = unat (in_size inode)"
  proof (cases "in_size inode = 0")
    case True
    then show ?thesis using whole n by (auto simp: extents_in_def slice_def)
  next
    case False
    then have wl: "extents_loop C fs inode 0 (in_size inode) ?verify ?items (replicate (unat (in_size inode)) 0) = Ok all"
      using whole by (simp add: extents_in_def saturating_add_def unat_eq_0)
    have len: "length all = unat (in_size inode)"
      using extents_loop_untouched [OF sv sums wl, of 0] by simp
    show ?thesis
    proof (cases "n = 0")
      case True
      then show ?thesis using len by (simp add: extents_in_def slice_def)
    next
      case n0: False
      define w where "w = min (saturating_add off (of_nat n)) (in_size inode)"
      have nb: "n < 18446744073709551616" using n unat_u64 [of "in_size inode"] by simp
      have w: "unat w = unat off + n" "w \<le> in_size inode"
      proof -
        show "unat w = unat off + n" using n nb unat_u64 [of "in_size inode"]
          by (simp add: w_def unat_min unat_saturating_add unat_of_nat_u64)
        show "w \<le> in_size inode" by (simp add: w_def)
      qed
      have "slice (unat off) n (replicate (unat (in_size inode)) 0) = (replicate n 0 :: bytes)"
        using n by (simp add: slice_def)
      then show ?thesis
        using extents_loop_part [OF sv sums run srt wl _ _ w] n0 len by (simp add: extents_in_def flip: w_def)
    qed
  qed
  then show "extents_in C fs (inorder t) inode off n = Ok (slice (unat off) n all)"
    and "length all = unat (in_size inode)" by simp_all
qed

text \<open>What a whole file without fs-verity reads as.\<close>

definition file_in :: "codecs \<Rightarrow> filesystem \<Rightarrow> leaf_item list \<Rightarrow> inode \<Rightarrow> bytes result" where
  "file_in C fs kvs inode =
     (if \<not> is_regular_file inode \<and> \<not> is_symlink inode then Err NotAFile
      else if in_size inode > sb_total_bytes (fs_sb fs) then
        Err (BadSuperblock ''inode is larger than the filesystem'')
      else if in_size inode > MAX_WHOLE_FILE_READ then
        Err (UnsupportedFeature ''more than a whole-file read will hold in memory'')
      else extents_in C fs kvs inode 0 (unat (in_size inode)))"

lemma yields_whole_file:
  assumes "fs_holds fs t" and "inode_in (inorder t) ino = Ok inode" and "in_flags inode AND INODE_RO_VERITY = 0"
  shows "yields fs (read_file C L fs ino) (file_in C fs (inorder t) inode)"
proof -
  have "yields fs (read_file C L fs ino) (try_in (inode_in (inorder t) ino) (file_in C fs (inorder t)))"
    unfolding read_file_def file_in_def [abs_def] using assms(2,3)
    by (intro yields_bind yields_if yields_return yields_read_inode [OF assms(1)] yields_read_range_unsealed [OF assms(1)]) auto
  then show ?thesis by (simp add: assms(2))
qed

lemma yields_read_file:
  assumes t: "fs_holds fs t" and i: "inode_in (inorder t) ino = Ok inode" and v: "in_flags inode AND INODE_RO_VERITY = 0"
    and r: "yields fs (read_file C L fs ino) (Ok all)"
  shows "is_regular_file inode \<or> is_symlink inode"
    and "extents_in C fs (inorder t) inode 0 (unat (in_size inode)) = Ok all"
  using yields_unique [OF t yields_whole_file [OF t i v] r] by (auto simp: file_in_def split: if_splits)

lemma read_part:
  assumes sv: "served fs disk img" and sums: "sums_known fs" and t: "fs_holds fs t"
    and i: "inode_in (inorder t) ino = Ok inode" and v: "in_flags inode AND INODE_RO_VERITY = 0"
    and r: "yields fs (read_file C L fs ino) (Ok all)" and n: "n < 2 ^ 64"
  shows "yields fs (fs_read_at C L fs ino off n) (Ok (slice (unat off) n all))"
proof -
  note whole = yields_read_file [OF t i v r]
  have st: "sorted_tree t" using t by (simp add: fs_holds_def)
  have "yields fs (fs_read_at C L fs ino off n) (try_in (inode_in (inorder t) ino) (\<lambda>inode.
     if \<not> is_regular_file inode \<and> \<not> is_symlink inode then Err NotAFile
     else if off \<ge> in_size inode then Ok []
     else extents_in C fs (inorder t) inode off (min n (unat (in_size inode - off)))))"
    unfolding fs_read_at_def using i v
    by (intro yields_bind yields_if yields_return yields_read_inode [OF t] yields_read_range_unsealed [OF t]) auto
  moreover have "(if off \<ge> in_size inode then Ok []
     else extents_in C fs (inorder t) inode off (min n (unat (in_size inode - off)))) = Ok (slice (unat off) n all)"
  proof (cases "off \<ge> in_size inode")
    case True
    then show ?thesis using extents_in_part(2) [OF sv sums st whole(2), of 0 0] by (simp add: slice_def word_le_nat_alt)
  next
    case False
    then have u: "unat (in_size inode - off) = unat (in_size inode) - unat off" "unat off < unat (in_size inode)"
      by (simp_all add: unat_sub_le word_le_nat_alt)
    have "unat off + min n (unat (in_size inode - off)) \<le> unat (in_size inode)" using u by simp
    note part = extents_in_part [OF sv sums st whole(2) this]
    have "slice (unat off) (min n (unat (in_size inode - off))) all = slice (unat off) n all"
      using part(2) u by (simp add: slice_def min_def)
    then show ?thesis using False part(1) by simp
  qed
  ultimately show ?thesis using whole(1) by (auto simp: i)
qed

text \<open>
  C36. Reading a part of a file is cutting the part out of the whole: on a volume the devices serve,
  when reading a file without fs-verity at once succeeds, a read of any range of it succeeds with the
  bytes of that range, cut at the end of the file; whatever extents, holes and compressed pieces the
  range starts or ends inside of.
\<close>
theorem read_part_of_file:
  assumes "served fs disk img" and "sums_known fs" and "fs_holds fs t"
    and "inode_in (inorder t) ino = Ok inode" and "in_flags inode AND INODE_RO_VERITY = 0"
    and "yields fs (read_file C L fs ino) (Ok all)" and "n < 2 ^ 64"
  shows "yields fs (fs_read_at C L fs ino off n) (Ok (slice (unat off) n all))"
  by (rule read_part [OF assms])


section \<open>A volume with a file\<close>

text \<open>One device that holds the leaf where the tree root is, and zeros elsewhere.\<close>

definition leaf_disk :: "bytes \<Rightarrow> disk" where
  "leaf_disk block devid p = (if 1048576 \<le> p \<and> p < 1048576 + length block then block ! (p - 1048576) else 0)"

definition leaf_dev :: "bytes \<Rightarrow> block_read" where
  "leaf_dev block p n =
     (if unat p + n \<le> 2 ^ 32 then Ok (map (\<lambda>i. leaf_disk block 1 (unat p + i)) [0..<n]) else Err NotFound)"

definition served_fs :: "bytes \<Rightarrow> filesystem" where
  "served_fs block = (demo_fs block)\<lparr>fs_device := leaf_dev block, fs_devices := [(1, leaf_dev block)]\<rparr>"

lemma demo_map:
  assumes "chunk_map_mirror (demo_chunk 0 (Suc 0) 0) l m = Ok r"
  shows "mp_devid r = 1 \<and> mp_physical r = l"
proof -
  let ?c = "demo_chunk 0 (Suc 0) 0"
  have c: "ch_logical ?c = 1048576" "ch_stripe_len ?c = 65536" "get (ch_stripes ?c) 0 = Some \<lparr>st_devid = 1, st_offset = 1048576, st_dev_uuid = []\<rparr>"
    by (simp_all add: demo_simps)
  define q where "q = l - 1048576"
  have "q div 65536 * 65536 + q mod 65536 = q" by (rule div_mult_mod_eq)
  then have "1048576 + (q div 65536 * 65536 + q mod 65536) = l" by (simp add: q_def)
  moreover have "stripe_index ?c Single n k = Ok (0, n)" for n k by (simp add: stripe_index_def)
  ultimately show ?thesis
    using assms by (auto simp: chunk_map_mirror_def demo_single c Let_def place_physical_def checked_add_Some checked_mul_Some
        bind_eq_Some_conv try_in_eq_Ok ok_or_eq_Ok simp flip: q_def split: if_splits)
qed

lemma demo_maps_itself:
  assumes "map_mirror [demo_chunk 0 (Suc 0) 0] l m = Ok r"
  shows "mp_devid r = 1 \<and> mp_physical r = l"
proof -
  have inv: "cm_inv [demo_chunk 0 (Suc 0) 0]" using demo_single_wf by (simp add: cm_inv_def)
  show ?thesis using assms demo_map unfolding map_mirror_Ok [OF inv] by auto
qed

lemma demo_extent_bound:
  assumes "st \<in> set (ch_stripes (demo_chunk 0 (Suc 0) 0))"
  shows "unat (st_offset st) + span (demo_chunk 0 (Suc 0) 0) q \<le> 2 ^ 32"
proof -
  have "3 div w \<le> (3 :: nat)" for w by (rule div_le_dividend)
  then have "(3 div w + 1) * 65536 \<le> (262144 :: nat)" for w by (simp add: le_trans [of _ 3])
  then have "span (demo_chunk 0 (Suc 0) 0) q \<le> 262144" by (simp add: span_def clen_def slen_def demo_chunk_def)
  moreover have "unat (st_offset st) = 1048576" using assms by (simp add: demo_chunk_def)
  ultimately show ?thesis by simp
qed

lemma leaf_dev_reads: "reads_as (leaf_disk block 1) (leaf_dev block)"
  by (auto simp: reads_as_def leaf_dev_def split: if_splits)

lemma served_fs_served:
  "served (served_fs block) (leaf_disk block) (\<lambda>l. leaf_disk block 1 (unat l))"
proof -
  let ?c = "demo_chunk 0 (Suc 0) 0"
  have inv: "cm_inv [?c]" using demo_single_wf by (simp add: cm_inv_def)
  have "chunk_parity_read ?c l \<noteq> Ok pr" for l pr
    by (simp add: chunk_parity_read_def parity_count_def demo_single)
  then have "volume_ok (leaf_disk block) [?c] (\<lambda>l. leaf_disk block 1 (unat l))"
    using inv demo_maps_itself order_trans [OF demo_extent_bound]
    by (auto simp: volume_ok_def image_ok_def parity_ok_def chunk_fits_def demo_single leaf_disk_def)
  moreover have "answers [?c] devid (leaf_dev block)" for devid
    using demo_extent_bound by (auto simp: answers_def leaf_dev_def) (meson demo_extent_bound order_trans)
  moreover have "refuse_unreadable_without_missing [?c] {1} = Ok ()"
    by (simp add: demo_chunk_def upt_conv_Cons)
  moreover have "usable ?c" by (simp add: usable_def demo_single)
  ultimately show ?thesis
    using leaf_dev_reads
    by (auto simp: served_def served_fs_def demo_fs_def pool_reads_def pool_answers_def present_devices_def)
qed

lemma served_fs_read:
  assumes "length block = 4096"
  shows "fs_read (served_fs block) 1048576 4096 = Ok block"
proof -
  let ?c = "demo_chunk 0 (Suc 0) 0"
  have inv: "cm_inv [?c]" using demo_single_wf by (simp add: cm_inv_def)
  have "mapped [?c] 1048576 4096"
    by (rule in_chunk_mapped [OF inv, of ?c]) (simp_all add: in_chunk_def covers_def demo_chunk_def clen_def)
  then have "fs_read (served_fs block) 1048576 4096 = Ok (bytes_of (\<lambda>l. leaf_disk block 1 (unat l)) 1048576 4096)"
    using served_read [OF served_fs_served [of block]] by (simp add: served_fs_def demo_fs_def)
  also have "bytes_of (\<lambda>l. leaf_disk block 1 (unat l)) 1048576 4096 = block"
    by (rule nth_equalityI) (simp_all add: bytes_of_def assms leaf_disk_def unat_add_small unat_of_nat_u64)
  finally show ?thesis .
qed

definition file_inode :: bytes where
  "file_inode =
     new_inode \<lparr>ni_generation = 7, ni_size = 5, ni_mode = 0x81A4, ni_uid = 0, ni_gid = 0, ni_flags = 0, ni_now = (0, 0)\<rparr>"

definition file_inline :: bytes where
  "file_inline = [7, 0, 0, 0, 0, 0, 0, 0, 5, 0, 0, 0, 0, 0, 0, 0, 0, 0, 0, 0, 0, 1, 2, 3, 4, 5]"

definition file_items :: "leaf_item list" where
  "file_items = [(DiskKey 257 INODE_ITEM_KEY 0, file_inode), (DiskKey 257 EXTENT_DATA_KEY 0, file_inline)]"

lemma file_block:
  obtains block where "build_leaf zero_hash demo_super demo_at file_items = Ok block"
    and "strictly_sorted (map fst file_items)"
proof -
  have l: "length file_inode = 160" "length file_inline = 26"
    by (simp_all add: file_inode_def new_inode_reads file_inline_def)
  have s: "strictly_sorted (map fst file_items)"
    by (simp add: file_items_def less_disk_key_def key_before_def)
  then show thesis
    using that by (simp add: build_leaf_def windows_ordered_iff demo_at_def demo_ident_def demo_super_def
        space_needed_def item_space_def file_items_def l Let_def)
qed

lemma file_inode_in:
  "\<exists>i. inode_in file_items 257 = Ok i \<and> in_ino i = 257 \<and> in_size i = 5 \<and> in_mode i = 0x81A4 \<and> in_flags i = 0"
proof -
  obtain t where t: "\<And>at. at \<in> time_slots \<Longrightarrow> timestamp_parse file_inode at = Ok t"
    using new_inode_times by (auto simp: file_inode_def timestamp_parse_def Let_def)
  show ?thesis
    unfolding inode_in_def file_items_def
    by (simp add: inode_parse_def t time_slots_def) (simp add: file_inode_def new_inode_reads inode_core_reads)
qed

lemma file_inline_piece: "decode_extent C fs file_inline = Ok (Inline [1, 2, 3, 4, 5])"
proof -
  have "length file_inline = 26" "file_inline ! FE_TYPE = 0" "file_inline ! FE_COMPRESSION = 0"
    "file_inline ! FE_ENCRYPTION = 0" "le16 file_inline FE_OTHER_ENCODING = 0" "drop FE_INLINE_DATA file_inline = [1, 2, 3, 4, 5]"
    by (simp_all add: file_inline_def le16_def slice_def)
  then show ?thesis
    by (simp add: decode_extent_def compression_from_byte_def is_compressed_def Let_def)
qed

lemma file_content:
  assumes "inode_in file_items 257 = Ok i" and "in_ino i = 257" "in_size i = 5" "in_mode i = 0x81A4"
    and "sb_total_bytes (fs_sb fs) = sb_total_bytes demo_super"
  shows "file_in C fs file_items i = Ok [1, 2, 3, 4, 5]"
  using assms(2-)
  by (simp add: file_in_def is_regular_file_def inode_file_type_def file_type_from_mode_def extents_in_def saturating_add_def
      file_items_def in_run_def file_inline_piece piece_len_def piece_bytes_def Let_def slice_def put_at_def demo_super_def)

theorem read_part_of_file_witness:
  "\<exists>block. build_leaf zero_hash demo_super demo_at file_items = Ok block \<and>
     yields (served_fs block) (read_file demo_codecs demo_sha2 (served_fs block) 257) (Ok [1, 2, 3, 4, 5]) \<and>
     yields (served_fs block) (fs_read_at demo_codecs demo_sha2 (served_fs block) 257 1 3) (Ok [2, 3, 4])"
proof -
  obtain block where b: "build_leaf zero_hash demo_super demo_at file_items = Ok block"
    "strictly_sorted (map fst file_items)" by (rule file_block)
  let ?fs = "served_fs block"
  obtain i where i: "inode_in file_items 257 = Ok i" "in_ino i = 257" "in_size i = 5" "in_mode i = 0x81A4" "in_flags i = 0"
    using file_inode_in by blast
  have one: "one_leaf_fs ?fs block"
    unfolding one_leaf_fs_def using served_fs_read [OF demo_leaf_length [OF b(1)]]
    by (intro conjI) (simp_all add: served_fs_def demo_fs_def)
  have v: "in_flags i AND INODE_RO_VERITY = 0" unfolding i(5) by simp
  have t: "fs_holds ?fs (ALeaf 1048576 file_items)" by (rule one_leaf_stored [OF b one])
  have sums: "sums_known ?fs" by (simp add: sums_known_def served_fs_def demo_fs_def)
  have "sb_total_bytes (fs_sb ?fs) = sb_total_bytes demo_super" by (simp add: served_fs_def demo_fs_def demo_super_def)
  from file_content [OF i(1-4) this]
  have all: "yields ?fs (read_file demo_codecs demo_sha2 ?fs 257) (Ok [1, 2, 3, 4, 5])"
    using yields_whole_file [OF t _ v, of 257 demo_codecs demo_sha2] i(1) by simp
  have "yields ?fs (fs_read_at demo_codecs demo_sha2 ?fs 257 1 3) (Ok (slice (unat (1 :: u64)) 3 [1, 2, 3, 4, 5]))"
    by (rule read_part_of_file [OF served_fs_served sums t _ v all]) (simp_all add: i)
  then show ?thesis using b(1) all by (auto simp: slice_def)
qed

end
