(* ===== verification/Backref.thy ===== *)
theory Backref
  imports BlockGroup
begin

text \<open>
  Back references: the records of allocated tree blocks of \<open>src/src/extent_write.rs\<close> and the
  references an extent item carries inline, of \<open>src/src/backref.rs\<close>. An extent item is its bytes:
  a total, a generation, flags, for some tree blocks a key and a level, and then references, each a
  type byte and a payload of the length the type has. The operations read the references, change
  the list and write it back.

  The lemmas give the abstract view of an item, the total and a count for each reference identity,
  and show every operation to be the update of that view it stands for; that references are put in
  where the kernel's scan looks for them; and that dropping what was added gives the bytes back.
\<close>

section \<open>Recording tree blocks\<close>

abbreviation (input) EXTENT_FLAG_TREE_BLOCK :: u64 where "EXTENT_FLAG_TREE_BLOCK \<equiv> 2"
abbreviation (input) SKINNY_METADATA_ITEM_SIZE :: nat where "SKINNY_METADATA_ITEM_SIZE \<equiv> 33"

record tree_block_allocation =
  ta_bytenr :: u64
  ta_level :: u8
  ta_generation :: u64
  ta_owner :: u64

definition allocation_key :: "tree_block_allocation \<Rightarrow> disk_key" where
  "allocation_key a = DiskKey (ta_bytenr a) METADATA_ITEM (ucast (ta_level a))"

definition allocation_body :: "tree_block_allocation \<Rightarrow> bytes" where
  "allocation_body a =
     (let out = replicate SKINNY_METADATA_ITEM_SIZE 0;
          out = put_at 0 (u64_bytes 1) out;
          out = put_at 8 (u64_bytes (ta_generation a)) out;
          out = put_at 16 (u64_bytes EXTENT_FLAG_TREE_BLOCK) out;
          out = out[24 := 176]
      in put_at 25 (u64_bytes (ta_owner a)) out)"

definition record_tree_block :: "superblock \<Rightarrow> tree_block_allocation \<Rightarrow> (disk_key \<times> bytes) result" where
  "record_tree_block sb a =
     (if sb_incompat_flags sb AND INCOMPAT_SKINNY_METADATA = 0 then
        Err (UnsupportedFeature ''recording an allocation without SKINNY_METADATA is not implemented'')
      else Ok (allocation_key a, allocation_body a))"

definition used_after_allocating :: "block_group \<Rightarrow> u64 \<Rightarrow> u64 result" where
  "used_after_allocating g n =
     (if n > bg_free g then
        Err (UnsupportedFeature ''allocating in the block group would take it past its own length'')
      else Ok (bg_used g + n))"

text \<open>The CRC continuation without the inversions \<open>crc32c_append\<close> makes on the way in and out.\<close>

definition raw_crc :: "hash_lib \<Rightarrow> u32 \<Rightarrow> bytes \<Rightarrow> u32" where
  "raw_crc H seed b = NOT (crc32c_append H (NOT seed) b)"

definition data_ref_hash :: "hash_lib \<Rightarrow> u64 \<Rightarrow> u64 \<Rightarrow> u64 \<Rightarrow> u64" where
  "data_ref_hash H root oid offset =
     (let high = raw_crc H (- 1) (u64_bytes root);
          low = raw_crc H (raw_crc H (- 1) (u64_bytes oid)) (u64_bytes offset)
      in push_bit 31 (ucast high) XOR ucast low)"

section \<open>The references of an extent item\<close>

abbreviation (input) BLOCK_FLAG_FULL_BACKREF :: u64 where "BLOCK_FLAG_FULL_BACKREF \<equiv> 0x100"
abbreviation (input) EXTENT_OWNER_REF :: u8 where "EXTENT_OWNER_REF \<equiv> 172"
abbreviation (input) TREE_BLOCK_REF :: u8 where "TREE_BLOCK_REF \<equiv> 176"
abbreviation (input) EXTENT_DATA_REF :: u8 where "EXTENT_DATA_REF \<equiv> 178"
abbreviation (input) SHARED_BLOCK_REF :: u8 where "SHARED_BLOCK_REF \<equiv> 182"
abbreviation (input) SHARED_DATA_REF :: u8 where "SHARED_DATA_REF \<equiv> 184"

record inline_ref =
  ir_kind :: u8
  ir_payload :: bytes

definition ref_offset :: "inline_ref \<Rightarrow> u64" where
  "ref_offset r = le64 (ir_payload r) 0"

definition insert_position :: "inline_ref list \<Rightarrow> u8 \<Rightarrow> u64 \<Rightarrow> nat" where
  "insert_position refs kind offset =
     (case position (\<lambda>r. ir_kind r \<noteq> EXTENT_OWNER_REF \<and>
         (kind < ir_kind r \<or> kind = ir_kind r \<and> ref_offset r < offset)) refs of
        Some i \<Rightarrow> i
      | None \<Rightarrow> length refs)"

definition payload_len :: "u8 \<Rightarrow> nat option" where
  "payload_len kind =
     (if kind \<in> {EXTENT_OWNER_REF, TREE_BLOCK_REF, SHARED_BLOCK_REF} then Some 8
      else if kind = EXTENT_DATA_REF then Some 28
      else if kind = SHARED_DATA_REF then Some 12
      else None)"

definition item_flags :: "bytes \<Rightarrow> u64 option" where
  "item_flags body = (if 24 \<le> length body then Some (le64 body 16) else None)"

abbreviation (input) short_item :: error where
  "short_item \<equiv> UnsupportedFeature ''an extent item is shorter than its own fixed who''"

definition refs_start :: "u8 \<Rightarrow> bytes \<Rightarrow> nat result" where
  "refs_start item_type body =
     try_in (ok_or short_item (item_flags body)) (\<lambda>flags.
     Ok (if item_type = EXTENT_ITEM \<and> flags AND EXTENT_FLAG_TREE_BLOCK \<noteq> 0 then 42 else 24))"

text \<open>The loop, on the bytes it has not read yet.\<close>

fun refs_loop :: "bytes \<Rightarrow> inline_ref list result" where
  "refs_loop [] = Ok []"
| "refs_loop (kind # rest) =
     (case payload_len kind of
        None \<Rightarrow> Err (UnsupportedFeature ''an extent item carries an inline reference of unknown size'')
      | Some len \<Rightarrow>
          if length rest < len then Err (UnsupportedFeature ''an extent item ends inside an inline reference'')
          else try_in (refs_loop (drop len rest)) (\<lambda>refs.
               Ok (\<lparr>ir_kind = kind, ir_payload = take len rest\<rparr> # refs)))"

definition inline_refs :: "u8 \<Rightarrow> bytes \<Rightarrow> inline_ref list result" where
  "inline_refs item_type body =
     try_in (refs_start item_type body) (\<lambda>at.
     if at > length body then Err short_item else refs_loop (drop at body))"

datatype keyed =
    KeyedBlock u64
  | KeyedData u64 u64 u64

definition shared_count :: "inline_ref \<Rightarrow> u32" where
  "shared_count r = (if ir_kind r = SHARED_DATA_REF then le32 (ir_payload r) 8 else 1)"

definition ref_bytes :: "inline_ref \<Rightarrow> bytes" where
  "ref_bytes r = ir_kind r # ir_payload r"

definition rebuild_item :: "bytes \<Rightarrow> nat \<Rightarrow> inline_ref list \<Rightarrow> bytes" where
  "rebuild_item body start refs = take start body @ concat (map ref_bytes refs)"

text \<open>\<open>Vec::insert\<close> and \<open>Vec::remove\<close>.\<close>

definition vec_insert :: "nat \<Rightarrow> 'a \<Rightarrow> 'a list \<Rightarrow> 'a list" where
  "vec_insert i x xs = take i xs @ x # drop i xs"

definition vec_remove :: "nat \<Rightarrow> 'a list \<Rightarrow> 'a list" where
  "vec_remove i xs = take i xs @ drop (Suc i) xs"

definition take_inline_shared :: "u8 \<Rightarrow> bytes \<Rightarrow> u8 \<Rightarrow> u64 \<Rightarrow> (bytes \<times> u32) option result" where
  "take_inline_shared item_type body kind parent =
     try_in (refs_start item_type body) (\<lambda>start.
     try_in (inline_refs item_type body) (\<lambda>refs.
     case position (\<lambda>r. ir_kind r = kind \<and> ref_offset r = parent) refs of
       None \<Rightarrow> Ok None
     | Some at \<Rightarrow> Ok (Some (rebuild_item body start (vec_remove at refs), shared_count (refs ! at)))))"

definition data_fields :: "u64 \<Rightarrow> u64 \<Rightarrow> u64 \<Rightarrow> bytes" where
  "data_fields root oid offset = u64_bytes root @ u64_bytes oid @ u64_bytes offset"

definition names_data :: "bytes \<Rightarrow> inline_ref \<Rightarrow> bool" where
  "names_data who r \<longleftrightarrow> ir_kind r = EXTENT_DATA_REF \<and> take 24 (ir_payload r) = who"

definition set_data_count :: "u32 \<Rightarrow> inline_ref \<Rightarrow> inline_ref" where
  "set_data_count n r = r\<lparr>ir_payload := put_at 24 (u32_bytes n) (ir_payload r)\<rparr>"

definition add_inline_keyed :: "u8 \<Rightarrow> bytes \<Rightarrow> keyed \<Rightarrow> u32 \<Rightarrow> bytes result" where
  "add_inline_keyed item_type body keyed n =
     try_in (refs_start item_type body) (\<lambda>start.
     try_in (inline_refs item_type body) (\<lambda>refs.
     try_in
       (case keyed of
          KeyedBlock root \<Rightarrow>
            if \<exists>r \<in> set refs. ir_kind r = TREE_BLOCK_REF \<and> ref_offset r = root then
              Err (UnsupportedFeature ''the tree block already carries a reference from the tree'')
            else
              Ok (vec_insert (insert_position refs TREE_BLOCK_REF root)
                    \<lparr>ir_kind = TREE_BLOCK_REF, ir_payload = u64_bytes root\<rparr> refs)
        | KeyedData root oid offset \<Rightarrow>
            let who = data_fields root oid offset in
            case position (names_data who) refs of
              Some same \<Rightarrow>
                Ok (refs[same := set_data_count (le32 (ir_payload (refs ! same)) 24 + n) (refs ! same)])
            | None \<Rightarrow>
                if \<exists>r \<in> set refs. ir_kind r = EXTENT_DATA_REF then
                  Err (UnsupportedFeature ''the data extent already carries other keyed data references'')
                else
                  Ok (vec_insert (insert_position refs EXTENT_DATA_REF 0)
                        \<lparr>ir_kind = EXTENT_DATA_REF, ir_payload = who @ u32_bytes n\<rparr> refs)) (\<lambda>refs.
     Ok (rebuild_item body start refs))))"

definition drop_inline_data_ref :: "u8 \<Rightarrow> bytes \<Rightarrow> u64 \<Rightarrow> u64 \<Rightarrow> u64 \<Rightarrow> bytes option result" where
  "drop_inline_data_ref item_type body root oid offset =
     try_in (refs_start item_type body) (\<lambda>start.
     try_in (inline_refs item_type body) (\<lambda>refs.
     case position (names_data (data_fields root oid offset)) refs of
       None \<Rightarrow> Ok None
     | Some at \<Rightarrow>
         let tot = le64 body 0 in
         if tot \<le> 1 then Err (UnsupportedFeature ''the data reference is its extent's last'')
         else
           let n = le32 (ir_payload (refs ! at)) 24;
               refs = (if n > 1 then refs[at := set_data_count (n - 1) (refs ! at)] else vec_remove at refs);
               head = put_at 0 (u64_bytes (tot - 1)) (take start body)
           in Ok (Some (rebuild_item head start refs))))"

definition drop_keyed_data_ref :: "bytes \<Rightarrow> u64 \<Rightarrow> u64 \<Rightarrow> u64 \<Rightarrow> bytes option result" where
  "drop_keyed_data_ref item root oid offset =
     (if length item \<noteq> 28 \<or> take 24 item \<noteq> data_fields root oid offset then
        Err (UnsupportedFeature ''the keyed data reference names something else'')
      else
        let n = le32 item 24 in
        if n = 0 then Err (UnsupportedFeature ''the keyed data reference counts nothing'')
        else if n = 1 then Ok None
        else Ok (Some (put_at 24 (u32_bytes (n - 1)) item)))"

definition lower_total :: "u8 \<Rightarrow> bytes \<Rightarrow> bytes result" where
  "lower_total item_type body =
     try_in (refs_start item_type body) (\<lambda>_.
     let tot = le64 body 0 in
     if tot \<le> 1 then Err (UnsupportedFeature ''the reference is its extent's last'')
     else Ok (put_at 0 (u64_bytes (tot - 1)) body))"

definition reduce_total :: "u8 \<Rightarrow> bytes \<Rightarrow> u64 \<Rightarrow> bytes result" where
  "reduce_total item_type body n =
     try_in (refs_start item_type body) (\<lambda>_.
     try_in (ok_or (UnsupportedFeature ''the extent's record counts fewer references than were to come off'')
       (checked_sub (le64 body 0) n)) (\<lambda>left.
     Ok (put_at 0 (u64_bytes left) body)))"

definition holds_inline_data_ref :: "u8 \<Rightarrow> bytes \<Rightarrow> u64 \<Rightarrow> u64 \<Rightarrow> u64 \<Rightarrow> bool result" where
  "holds_inline_data_ref item_type body root oid offset =
     try_in (inline_refs item_type body) (\<lambda>refs.
     Ok (\<exists>r \<in> set refs. names_data (data_fields root oid offset) r))"

text \<open>
  The scan of \<open>add_inline_data_ref\<close>: the place of a new reference, or the reference that is there
  already. \<open>i\<close> is the index of the first of the references that are left.
\<close>

definition payload_hash :: "hash_lib \<Rightarrow> bytes \<Rightarrow> u64" where
  "payload_hash H p = data_ref_hash H (le64 p 0) (le64 p 8) (le64 p 16)"

fun data_ref_scan :: "hash_lib \<Rightarrow> bytes \<Rightarrow> u64 \<Rightarrow> nat \<Rightarrow> inline_ref list \<Rightarrow> nat + nat" where
  "data_ref_scan H who want i [] = Inl i"
| "data_ref_scan H who want i (r # refs) =
     (if ir_kind r > EXTENT_DATA_REF then Inl i
      else if ir_kind r < EXTENT_DATA_REF then data_ref_scan H who want (Suc i) refs
      else if take 24 (ir_payload r) = who then Inr i
      else if payload_hash H (ir_payload r) < want then Inl i
      else data_ref_scan H who want (Suc i) refs)"

definition add_inline_data_ref :: "hash_lib \<Rightarrow> u8 \<Rightarrow> bytes \<Rightarrow> u64 \<Rightarrow> u64 \<Rightarrow> u64 \<Rightarrow> bytes result" where
  "add_inline_data_ref H item_type body root oid offset =
     try_in (refs_start item_type body) (\<lambda>start.
     try_in (inline_refs item_type body) (\<lambda>refs.
     let who = data_fields root oid offset;
         want = data_ref_hash H root oid offset
     in
     try_in
       (case data_ref_scan H who want 0 refs of
          Inr i \<Rightarrow>
            try_in (ok_or (UnsupportedFeature ''the data reference already counts the most it can'')
              (checked_add (le32 (ir_payload (refs ! i)) 24) 1)) (\<lambda>n.
            Ok (refs[i := set_data_count n (refs ! i)]))
        | Inl at \<Rightarrow>
            Ok (vec_insert at \<lparr>ir_kind = EXTENT_DATA_REF, ir_payload = who @ u32_bytes 1\<rparr> refs)) (\<lambda>refs.
     try_in (ok_or (UnsupportedFeature ''the extent's reference count is at its limit'')
       (checked_add (le64 body 0) 1)) (\<lambda>tot.
     Ok (rebuild_item (put_at 0 (u64_bytes tot) (take start body)) start refs)))))"

definition raise_total :: "u8 \<Rightarrow> bytes \<Rightarrow> u64 \<Rightarrow> bytes result" where
  "raise_total item_type body n =
     try_in (refs_start item_type body) (\<lambda>_.
     try_in (ok_or (UnsupportedFeature ''the extent's reference count is at its limit'')
       (checked_add (le64 body 0) n)) (\<lambda>tot.
     Ok (put_at 0 (u64_bytes tot) body)))"

definition add_inline_tree_ref :: "u8 \<Rightarrow> bytes \<Rightarrow> u64 \<Rightarrow> bytes result" where
  "add_inline_tree_ref item_type body root =
     try_in (add_inline_keyed item_type body (KeyedBlock root) 1) (\<lambda>added. raise_total item_type added 1)"

definition keyed_data_ref_body :: "u64 \<Rightarrow> u64 \<Rightarrow> u64 \<Rightarrow> u32 \<Rightarrow> bytes" where
  "keyed_data_ref_body root oid offset n = data_fields root oid offset @ u32_bytes n"

definition add_inline_shared :: "u8 \<Rightarrow> bytes \<Rightarrow> u8 \<Rightarrow> u64 \<Rightarrow> u32 \<Rightarrow> bytes result" where
  "add_inline_shared item_type body kind parent n =
     try_in (refs_start item_type body) (\<lambda>start.
     try_in (inline_refs item_type body) (\<lambda>refs.
     try_in
       (case position (\<lambda>r. ir_kind r = kind \<and> ref_offset r = parent) refs of
          Some at \<Rightarrow>
            if kind = SHARED_DATA_REF then
              Ok (refs[at := (refs ! at)\<lparr>ir_payload :=
                    put_at 8 (u32_bytes (shared_count (refs ! at) + n)) (ir_payload (refs ! at))\<rparr>])
            else if kind = SHARED_BLOCK_REF then
              Err (UnsupportedFeature ''the tree block is already referred to by the block'')
            else Err (UnsupportedFeature ''not a reference copy-on-write adds'')
        | None \<Rightarrow>
            if kind = SHARED_DATA_REF then
              Ok (vec_insert (insert_position refs kind parent)
                    \<lparr>ir_kind = kind, ir_payload = u64_bytes parent @ u32_bytes n\<rparr> refs)
            else if kind = SHARED_BLOCK_REF \<and> n = 1 then
              Ok (vec_insert (insert_position refs kind parent)
                    \<lparr>ir_kind = kind, ir_payload = u64_bytes parent\<rparr> refs)
            else Err (UnsupportedFeature ''not a reference copy-on-write adds'')) (\<lambda>refs.
     Ok (rebuild_item (put_at 0 (u64_bytes (le64 body 0 + ucast n)) (take start body)) start refs))))"

definition drop_inline_tree_ref :: "u8 \<Rightarrow> bytes \<Rightarrow> u64 \<Rightarrow> bytes option result" where
  "drop_inline_tree_ref item_type body root =
     try_in (refs_start item_type body) (\<lambda>start.
     try_in (inline_refs item_type body) (\<lambda>refs.
     case position (\<lambda>r. ir_kind r = TREE_BLOCK_REF \<and> ref_offset r = root) refs of
       None \<Rightarrow> Ok None
     | Some at \<Rightarrow>
         let tot = le64 body 0 in
         if tot \<le> 1 then Err (UnsupportedFeature ''the reference is its tree block's last'')
         else
           Ok (Some (rebuild_item (put_at 0 (u64_bytes (tot - 1)) (take start body)) start (vec_remove at refs)))))"

definition with_flags :: "bytes \<Rightarrow> u64 \<Rightarrow> bytes result" where
  "with_flags body added =
     try_in (ok_or short_item (item_flags body)) (\<lambda>had. Ok (put_at 16 (u64_bytes (had OR added)) body))"

section \<open>Reading back what is written\<close>

lemma slice_take: "off + n \<le> m \<Longrightarrow> slice off n (take m xs) = slice off n xs"
  by (simp add: slice_def drop_take min_def)

definition wf_ref :: "inline_ref \<Rightarrow> bool" where
  "wf_ref r \<longleftrightarrow> payload_len (ir_kind r) = Some (length (ir_payload r))"

lemma payload_len_Some:
  "payload_len k = Some n \<longleftrightarrow>
     k = EXTENT_DATA_REF \<and> n = 28 \<or> k = SHARED_DATA_REF \<and> n = 12 \<or>
     k \<in> {EXTENT_OWNER_REF, TREE_BLOCK_REF, SHARED_BLOCK_REF} \<and> n = 8"
  by (auto simp: payload_len_def)

lemma refs_loop_wf: "\<forall>r \<in> set refs. wf_ref r \<Longrightarrow> refs_loop (concat (map ref_bytes refs)) = Ok refs"
  by (induction refs) (auto simp: ref_bytes_def wf_ref_def)

lemma refs_loop_Ok: "refs_loop b = Ok refs \<Longrightarrow> (\<forall>r \<in> set refs. wf_ref r) \<and> b = concat (map ref_bytes refs)"
proof (induction b arbitrary: refs rule: refs_loop.induct)
  case (2 kind rest)
  from "2.prems" obtain len rs where len: "payload_len kind = Some len" "\<not> length rest < len"
    and rs: "refs_loop (drop len rest) = Ok rs" "refs = \<lparr>ir_kind = kind, ir_payload = take len rest\<rparr> # rs"
    by (auto simp: try_in_eq_Ok split: option.splits if_splits)
  from "2.IH" [OF len rs(1)] len rs(2) show ?case
    by (auto simp: wf_ref_def ref_bytes_def min_def) (metis append_take_drop_id)
qed simp

text \<open>An item and its parts: where its references start and what they are.\<close>

definition item_parts :: "u8 \<Rightarrow> bytes \<Rightarrow> nat \<Rightarrow> inline_ref list \<Rightarrow> bool" where
  "item_parts ty body start refs \<longleftrightarrow> refs_start ty body = Ok start \<and> inline_refs ty body = Ok refs"

lemma refs_start_Ok: "refs_start ty body = Ok start \<Longrightarrow> 24 \<le> length body \<and> 24 \<le> start"
  by (auto simp: refs_start_def item_flags_def ok_or_eq_Ok try_in_eq_Ok split: if_splits)

lemma refs_start_same:
  assumes "slice 16 8 a = slice 16 8 b" and "24 \<le> length a" and "24 \<le> length b"
  shows "refs_start ty a = refs_start ty b"
  using assms by (simp add: refs_start_def item_flags_def le64_def)

lemma inline_refs_parts: "inline_refs ty body = Ok refs \<Longrightarrow> \<exists>start. item_parts ty body start refs"
  by (auto simp: item_parts_def inline_refs_def try_in_eq_Ok)

lemma item_parts_iff:
  "item_parts ty body start refs \<longleftrightarrow>
     refs_start ty body = Ok start \<and> start \<le> length body \<and> (\<forall>r \<in> set refs. wf_ref r) \<and>
     drop start body = concat (map ref_bytes refs)"
  using refs_loop_Ok [of "drop start body" refs] refs_loop_wf [of refs]
  by (auto simp: item_parts_def inline_refs_def split: if_splits)

lemma item_parts_wf: "item_parts ty body start refs \<Longrightarrow> r \<in> set refs \<Longrightarrow> wf_ref r"
  by (simp add: item_parts_iff)

lemma item_parts_body: "item_parts ty body start refs \<Longrightarrow> rebuild_item body start refs = body"
  using append_take_drop_id [of start body] by (simp add: item_parts_iff rebuild_item_def)

lemma rebuilt:
  assumes b: "item_parts ty body start refs" and h: "start \<le> length head" "slice 16 8 head = slice 16 8 body"
    and wf: "\<forall>r \<in> set refs'. wf_ref r"
  shows "item_parts ty (rebuild_item head start refs') start refs'"
    and "take start (rebuild_item head start refs') = take start head"
proof -
  have s: "refs_start ty body = Ok start" using b by (simp add: item_parts_def)
  note l = refs_start_Ok [OF s]
  show t: "take start (rebuild_item head start refs') = take start head" using h by (simp add: rebuild_item_def)
  have "slice 16 8 (rebuild_item head start refs') = slice 16 8 (take start head)"
    using l h(1) unfolding rebuild_item_def by (intro slice_append_left) simp
  also have "\<dots> = slice 16 8 body" using l h(2) by (simp add: slice_take)
  finally have "refs_start ty (rebuild_item head start refs') = Ok start"
    using refs_start_same [of "rebuild_item head start refs'" body ty] l h(1) s by (simp add: rebuild_item_def)
  then show "item_parts ty (rebuild_item head start refs') start refs'"
    using wf h(1) by (simp add: item_parts_iff rebuild_item_def)
qed

text \<open>The same with a new total.\<close>

lemma rebuilt_total:
  fixes tot :: u64
  assumes b: "item_parts ty body start refs" and wf: "\<forall>r \<in> set refs'. wf_ref r"
    and out: "out = rebuild_item (put_at 0 (u64_bytes tot) (take start body)) start refs'"
  shows "item_parts ty out start refs'" and "le64 out 0 = tot" and "slice 8 (start - 8) out = slice 8 (start - 8) body"
    and "take start out = put_at 0 (u64_bytes tot) (take start body)"
proof -
  let ?h = "put_at 0 (u64_bytes tot) (take start body)"
  have l: "24 \<le> start" "start \<le> length body" using b refs_start_Ok by (auto simp: item_parts_iff)
  have len: "length ?h = start" using l by simp
  have "slice 16 8 ?h = slice 16 8 (take start body)" using l by (simp add: slice_put_disjoint)
  also have "\<dots> = slice 16 8 body" using l by (simp add: slice_take)
  finally have f: "slice 16 8 ?h = slice 16 8 body" .
  show "item_parts ty out start refs'" and t: "take start out = ?h"
    using rebuilt [OF b _ f wf] len unfolding out by simp_all
  have lo: "start \<le> length out" using len by (simp add: out rebuild_item_def)
  have "le64 out 0 = le64 (take start out) 0" using l lo by (simp add: le64_def slice_def min_def)
  then show "le64 out 0 = tot" using l unfolding t by (simp add: le64_put_same)
  have "slice 8 (start - 8) out = slice 8 (start - 8) (take start out)" by (simp add: slice_def min_def drop_take)
  also have "\<dots> = slice 8 (start - 8) (take start body)" using l unfolding t by (simp add: slice_put_disjoint)
  also have "\<dots> = slice 8 (start - 8) body" by (simp add: slice_def min_def drop_take)
  finally show "slice 8 (start - 8) out = slice 8 (start - 8) body" .
qed

section \<open>The abstract view\<close>

text \<open>What a reference names, and how many times it counts.\<close>

definition ref_id :: "inline_ref \<Rightarrow> u8 \<times> bytes" where
  "ref_id r = (ir_kind r, take (if ir_kind r = EXTENT_DATA_REF then 24 else 8) (ir_payload r))"

definition ref_count :: "inline_ref \<Rightarrow> nat" where
  "ref_count r = unat (if ir_kind r = EXTENT_DATA_REF then le32 (ir_payload r) 24 else shared_count r)"

definition held :: "inline_ref list \<Rightarrow> u8 \<times> bytes \<Rightarrow> nat" where
  "held refs k = sum_list (map (\<lambda>r. if ref_id r = k then ref_count r else 0) refs)"

text \<open>The order the kernel scans them in.\<close>

definition id_before :: "hash_lib \<Rightarrow> u8 \<times> bytes \<Rightarrow> u8 \<times> bytes \<Rightarrow> bool" where
  "id_before H a b \<longleftrightarrow> fst a < fst b \<or> fst a = fst b \<and>
     (if fst a = EXTENT_DATA_REF then payload_hash H (snd b) \<le> payload_hash H (snd a)
      else fst a = EXTENT_OWNER_REF \<or> le64 (snd b) 0 \<le> le64 (snd a) 0)"

definition kernel_order :: "hash_lib \<Rightarrow> inline_ref list \<Rightarrow> bool" where
  "kernel_order H refs \<longleftrightarrow> sorted_wrt (id_before H) (map ref_id refs)"

lemma id_before_trans: "id_before H a b \<Longrightarrow> id_before H b c \<Longrightarrow> id_before H a c"
  by (auto simp: id_before_def split: if_splits)

lemma set_vec_insert: "set (vec_insert i x xs) = insert x (set xs)"
  unfolding vec_insert_def using append_take_drop_id [of i xs]
  by (metis Un_insert_right list.simps(15) set_append)

lemma set_vec_remove: "set (vec_remove i xs) \<subseteq> set xs"
  by (auto simp: vec_remove_def dest: in_set_takeD in_set_dropD)

lemma held_append: "held (a @ b) k = held a k + held b k"
  by (simp add: held_def)

lemma held_Cons: "held (r # refs) k = (if ref_id r = k then ref_count r else 0) + held refs k"
  by (simp add: held_def)

lemma held_split: "i < length refs \<Longrightarrow>
    held refs k = held (take i refs) k + (if ref_id (refs ! i) = k then ref_count (refs ! i) else 0) + held (drop (Suc i) refs) k"
  using held_append [of "take i refs" "refs ! i # drop (Suc i) refs" k] by (simp add: held_Cons id_take_nth_drop [symmetric])

lemma held_insert:
  "held (vec_insert i x refs) k = held refs k + (if ref_id x = k then ref_count x else 0)"
  using held_append [of "take i refs" "drop i refs" k] by (simp add: vec_insert_def held_append held_Cons)

lemma held_update:
  assumes "i < length refs" and "ref_id x = ref_id (refs ! i)"
  shows "held (refs[i := x]) k + (if ref_id (refs ! i) = k then ref_count (refs ! i) else 0) =
    held refs k + (if ref_id (refs ! i) = k then ref_count x else 0)"
  using held_split [OF assms(1), of k] assms by (simp add: upd_conv_take_nth_drop held_append held_Cons)

lemma held_remove:
  assumes "i < length refs"
  shows "held (vec_remove i refs) k + (if ref_id (refs ! i) = k then ref_count (refs ! i) else 0) = held refs k"
  using held_split [OF assms, of k] by (simp add: vec_remove_def held_append)

lemma held_at: "i < length refs \<Longrightarrow> ref_count (refs ! i) \<le> held refs (ref_id (refs ! i))"
  using held_remove [of i refs "ref_id (refs ! i)"] by simp

lemma kernel_order_remove:
  assumes o: "kernel_order H refs" and i: "i < length refs"
  shows "kernel_order H (vec_remove i refs)"
proof -
  have "sorted_wrt (id_before H) (map ref_id (take i refs @ refs ! i # drop (Suc i) refs))"
    using o i by (simp add: kernel_order_def id_take_nth_drop [symmetric])
  then show ?thesis by (auto simp: kernel_order_def vec_remove_def sorted_wrt_append)
qed

lemma kernel_order_update:
  assumes "ref_id x = ref_id (refs ! i)"
  shows "kernel_order H (refs[i := x]) = kernel_order H refs"
proof (cases "i < length refs")
  case True
  have "map ref_id (refs[i := x]) = map ref_id refs"
    using assms True by (metis list_update_id map_update nth_map)
  then show ?thesis by (simp add: kernel_order_def)
qed (simp add: list_update_beyond)

lemma kernel_order_insert:
  assumes o: "kernel_order H refs" and i: "i \<le> length refs"
    and "\<And>j. j < i \<Longrightarrow> id_before H (ref_id (refs ! j)) (ref_id x)"
    and nxt: "i < length refs \<Longrightarrow> id_before H (ref_id x) (ref_id (refs ! i))"
  shows "kernel_order H (vec_insert i x refs)"
proof -
  have srt: "sorted_wrt (id_before H) (map ref_id (take i refs @ drop i refs))" using o by (simp add: kernel_order_def)
  have lo: "\<forall>a \<in> set (take i refs). id_before H (ref_id a) (ref_id x)"
    using assms(3) i by (auto simp: in_set_conv_nth)
  have hi: "\<forall>a \<in> set (drop i refs). id_before H (ref_id x) (ref_id a)"
  proof (cases "i < length refs")
    case True
    then have d: "drop i refs = refs ! i # drop (Suc i) refs" by (simp add: Cons_nth_drop_Suc)
    show ?thesis
      using srt nxt [OF True] id_before_trans [of H "ref_id x" "ref_id (refs ! i)"]
      by (auto simp: d sorted_wrt_append)
  qed simp
  have "sorted_wrt (id_before H) (map ref_id (take i refs))" "sorted_wrt (id_before H) (map ref_id (drop i refs))"
    "\<forall>a \<in> set (take i refs). \<forall>b \<in> set (drop i refs). id_before H (ref_id a) (ref_id b)"
    using srt unfolding map_append sorted_wrt_append by auto
  then show ?thesis
    using lo hi by (auto simp: kernel_order_def vec_insert_def sorted_wrt_append)
qed

lemma id_offset: "ir_kind r \<noteq> EXTENT_DATA_REF \<Longrightarrow> le64 (snd (ref_id r)) 0 = ref_offset r"
  by (simp add: ref_id_def ref_offset_def le64_def slice_take)

lemma payload_hash_take: "payload_hash H (take 24 p) = payload_hash H p"
  by (simp add: payload_hash_def le64_def slice_take)

lemma insert_position_order:
  assumes o: "kernel_order H refs" and x: "EXTENT_OWNER_REF < ir_kind x"
    and d: "ir_kind x = EXTENT_DATA_REF \<Longrightarrow> \<forall>r \<in> set refs. ir_kind r \<noteq> EXTENT_DATA_REF"
    and off: "ir_kind x \<noteq> EXTENT_DATA_REF \<Longrightarrow> ref_offset x = offset"
  shows "kernel_order H (vec_insert (insert_position refs (ir_kind x) offset) x refs)"
proof -
  let ?P = "\<lambda>r. ir_kind r \<noteq> EXTENT_OWNER_REF \<and> (ir_kind x < ir_kind r \<or> ir_kind x = ir_kind r \<and> ref_offset r < offset)"
  define i where "i = insert_position refs (ir_kind x) offset"
  have i: "i \<le> length refs" "\<And>j. j < i \<Longrightarrow> \<not> ?P (refs ! j)" "i < length refs \<Longrightarrow> ?P (refs ! i)"
    unfolding i_def insert_position_def
    by (auto split: option.splits simp: position_Some position_None)
  have k: "fst (ref_id r) = ir_kind r" for r by (simp add: ref_id_def)
  show ?thesis
    unfolding i_def [symmetric]
  proof (rule kernel_order_insert [OF o i(1)])
    fix j
    assume j: "j < i"
    then have mem: "refs ! j \<in> set refs" using i(1) by simp
    show "id_before H (ref_id (refs ! j)) (ref_id x)"
      using i(2) [OF j] x d mem off id_offset [of x] id_offset [of "refs ! j"] by (auto simp: id_before_def k)
  next
    assume l: "i < length refs"
    then have mem: "refs ! i \<in> set refs" by simp
    show "id_before H (ref_id x) (ref_id (refs ! i))"
      using i(3) [OF l] d mem off id_offset [of x] id_offset [of "refs ! i"] by (auto simp: id_before_def k)
  qed
qed

lemma insert_position_le: "insert_position refs kind offset \<le> length refs"
  by (auto simp: insert_position_def position_Some split: option.splits)

definition scan_passes :: "hash_lib \<Rightarrow> bytes \<Rightarrow> u64 \<Rightarrow> inline_ref \<Rightarrow> bool" where
  "scan_passes H who want r \<longleftrightarrow> \<not> names_data who r \<and>
     (ir_kind r < EXTENT_DATA_REF \<or> ir_kind r = EXTENT_DATA_REF \<and> want \<le> payload_hash H (ir_payload r))"

lemma data_ref_scan_Inr:
  "data_ref_scan H who want k refs = Inr i \<Longrightarrow>
     \<exists>as r bs. refs = as @ r # bs \<and> i = k + length as \<and> names_data who r \<and> (\<forall>a \<in> set as. scan_passes H who want a)"
proof (induction refs arbitrary: k)
  case (Cons r refs)
  show ?case
  proof (cases "scan_passes H who want r")
    case True
    then have "data_ref_scan H who want (Suc k) refs = Inr i"
      using Cons.prems by (auto simp: scan_passes_def names_data_def split: if_splits)
    from Cons.IH [OF this] obtain as s bs where h: "refs = as @ s # bs" "i = Suc k + length as" "names_data who s"
      "\<forall>a \<in> set as. scan_passes H who want a" by blast
    show ?thesis using h True by (intro exI [of _ "r # as"] exI [of _ s] exI [of _ bs]) simp
  next
    case False
    then have "i = k \<and> names_data who r"
      using Cons.prems by (auto simp: scan_passes_def names_data_def not_less split: if_splits)
    then show ?thesis by (intro exI [of _ "[]"] exI [of _ r] exI [of _ refs]) simp
  qed
qed simp

lemma data_ref_scan_Inl:
  "data_ref_scan H who want k refs = Inl i \<Longrightarrow>
     \<exists>as bs. refs = as @ bs \<and> i = k + length as \<and> (\<forall>a \<in> set as. scan_passes H who want a) \<and>
       (bs = [] \<or> EXTENT_DATA_REF < ir_kind (hd bs) \<or>
        ir_kind (hd bs) = EXTENT_DATA_REF \<and> payload_hash H (ir_payload (hd bs)) < want)"
proof (induction refs arbitrary: k)
  case (Cons r refs)
  show ?case
  proof (cases "scan_passes H who want r")
    case True
    then have "data_ref_scan H who want (Suc k) refs = Inl i"
      using Cons.prems by (auto simp: scan_passes_def names_data_def split: if_splits)
    from Cons.IH [OF this] obtain as bs where h: "refs = as @ bs" "i = Suc k + length as"
      "\<forall>a \<in> set as. scan_passes H who want a"
      "bs = [] \<or> EXTENT_DATA_REF < ir_kind (hd bs) \<or>
        ir_kind (hd bs) = EXTENT_DATA_REF \<and> payload_hash H (ir_payload (hd bs)) < want" by blast
    show ?thesis using h True by (intro exI [of _ "r # as"] exI [of _ bs]) simp
  next
    case False
    then have "i = k \<and> (EXTENT_DATA_REF < ir_kind r \<or> ir_kind r = EXTENT_DATA_REF \<and> payload_hash H (ir_payload r) < want)"
      using Cons.prems by (auto simp: scan_passes_def names_data_def not_less not_le split: if_splits)
    then show ?thesis by (intro exI [of _ "[]"] exI [of _ "r # refs"]) simp
  qed
qed simp

section \<open>Every edit is the update of the view it stands for\<close>

datatype ref_edit =
    AddData u64 u64 u64
  | DropData u64 u64 u64
  | AddShared u8 u64 u32
  | AddTree u64
  | DropTree u64

fun run_edit :: "hash_lib \<Rightarrow> u8 \<Rightarrow> ref_edit \<Rightarrow> bytes \<Rightarrow> bytes option result" where
  "run_edit H ty (AddData root oid offset) body = map_sum id Some (add_inline_data_ref H ty body root oid offset)"
| "run_edit H ty (DropData root oid offset) body = drop_inline_data_ref ty body root oid offset"
| "run_edit H ty (AddShared kind parent n) body = map_sum id Some (add_inline_shared ty body kind parent n)"
| "run_edit H ty (AddTree root) body = map_sum id Some (add_inline_tree_ref ty body root)"
| "run_edit H ty (DropTree root) body = drop_inline_tree_ref ty body root"

fun edit_id :: "ref_edit \<Rightarrow> u8 \<times> bytes" where
  "edit_id (AddData root oid offset) = (EXTENT_DATA_REF, data_fields root oid offset)"
| "edit_id (DropData root oid offset) = (EXTENT_DATA_REF, data_fields root oid offset)"
| "edit_id (AddShared kind parent n) = (kind, u64_bytes parent)"
| "edit_id (AddTree root) = (TREE_BLOCK_REF, u64_bytes root)"
| "edit_id (DropTree root) = (TREE_BLOCK_REF, u64_bytes root)"

fun edit_change :: "ref_edit \<Rightarrow> int" where
  "edit_change (AddData root oid offset) = 1"
| "edit_change (DropData root oid offset) = - 1"
| "edit_change (AddShared kind parent n) = int (unat n)"
| "edit_change (AddTree root) = 1"
| "edit_change (DropTree root) = - 1"

text \<open>The shared references a block gets are counted without a check for overflow.\<close>

fun edit_fits :: "ref_edit \<Rightarrow> bytes \<Rightarrow> inline_ref list \<Rightarrow> bool" where
  "edit_fits (AddShared kind parent n) body refs \<longleftrightarrow>
     0 < n \<and> held refs (kind, u64_bytes parent) + unat n < 2 ^ 32 \<and> unat (le64 body 0) + unat n < 2 ^ 64"
| "edit_fits _ body refs \<longleftrightarrow> True"

text \<open>No reference counts nothing.\<close>

definition counted :: "inline_ref list \<Rightarrow> bool" where
  "counted refs \<longleftrightarrow> (\<forall>r \<in> set refs. 0 < ref_count r)"

definition refs_changed :: "hash_lib \<Rightarrow> inline_ref list \<Rightarrow> inline_ref list \<Rightarrow> u8 \<times> bytes \<Rightarrow> int \<Rightarrow> bool" where
  "refs_changed H refs refs' k d \<longleftrightarrow>
     (\<forall>r \<in> set refs'. wf_ref r) \<and> counted refs' \<and> (kernel_order H refs \<longrightarrow> kernel_order H refs') \<and>
     (\<forall>i. int (held refs' i) = int (held refs i) + (if i = k then d else 0))"

lemma refs_changed_insert:
  assumes "\<forall>r \<in> set refs. wf_ref r" and "counted refs" and "wf_ref x" and "ref_id x = k" and "ref_count x = n" and "0 < n"
    and "kernel_order H refs \<Longrightarrow> kernel_order H (vec_insert i x refs)"
  shows "refs_changed H refs (vec_insert i x refs) k (int n)"
  using assms by (auto simp: refs_changed_def set_vec_insert counted_def held_insert)

lemma refs_changed_update:
  assumes "\<forall>r \<in> set refs. wf_ref r" and "counted refs" and i: "i < length refs" and "wf_ref x"
    and x: "ref_id x = ref_id (refs ! i)" and "k = ref_id (refs ! i)"
    and n: "int (ref_count x) = int (ref_count (refs ! i)) + d" and "0 < ref_count x"
  shows "refs_changed H refs (refs[i := x]) k d"
proof -
  have "int (held (refs[i := x]) j) = int (held refs j) + (if j = k then d else 0)" for j
    using held_update [OF i x, of j] n assms(6) by (auto split: if_splits)
  then show ?thesis
    using assms by (auto simp: refs_changed_def counted_def kernel_order_update dest!: set_update_subset_insert [THEN subsetD])
qed

lemma refs_changed_remove:
  assumes "\<forall>r \<in> set refs. wf_ref r" and "counted refs" and i: "i < length refs"
    and "k = ref_id (refs ! i)" and "ref_count (refs ! i) = n"
  shows "refs_changed H refs (vec_remove i refs) k (- int n)"
proof -
  have "int (held (vec_remove i refs) j) = int (held refs j) + (if j = k then - int n else 0)" for j
    using held_remove [OF i, of j] assms(4,5) by (auto split: if_splits)
  then show ?thesis
    using assms kernel_order_remove [OF _ i] set_vec_remove [of i refs] by (auto simp: refs_changed_def counted_def)
qed

lemma names_data_id: "names_data who r \<Longrightarrow> ref_id r = (EXTENT_DATA_REF, who)"
  by (simp add: names_data_def ref_id_def)

lemma length_data_fields [simp]: "length (data_fields root oid offset) = 24"
  by (simp add: data_fields_def)

lemma set_data_count_props:
  assumes "wf_ref r" and "ir_kind r = EXTENT_DATA_REF"
  shows "wf_ref (set_data_count n r)" and "ref_id (set_data_count n r) = ref_id r"
    and "ref_count (set_data_count n r) = unat n" and "ref_count r = unat (le32 (ir_payload r) 24)"
proof -
  have l: "length (ir_payload r) = 28" using assms by (simp add: wf_ref_def payload_len_def)
  show "wf_ref (set_data_count n r)" using assms l by (simp add: wf_ref_def set_data_count_def)
  show "ref_id (set_data_count n r) = ref_id r" using assms(2) l by (simp add: ref_id_def set_data_count_def put_at_def)
  show "ref_count (set_data_count n r) = unat n" using assms(2) l
    by (simp add: ref_count_def set_data_count_def le32_put_same)
  show "ref_count r = unat (le32 (ir_payload r) 24)" using assms(2) by (simp add: ref_count_def)
qed

lemma offset_names:
  assumes "wf_ref r" and "ir_kind r = k" and "k \<noteq> EXTENT_DATA_REF" and "ref_offset r = p"
  shows "ref_id r = (k, u64_bytes p)"
proof -
  have "8 \<le> length (ir_payload r)" using assms(1) by (auto simp: wf_ref_def payload_len_Some)
  then show ?thesis
    using assms u64_bytes_le64 [of 0 "ir_payload r"] by (auto simp: ref_id_def ref_offset_def slice_def)
qed

lemma new_ref_props:
  "wf_ref \<lparr>ir_kind = EXTENT_DATA_REF, ir_payload = data_fields a b c @ u32_bytes n\<rparr>"
  "ref_id \<lparr>ir_kind = EXTENT_DATA_REF, ir_payload = data_fields a b c @ u32_bytes n\<rparr> = (EXTENT_DATA_REF, data_fields a b c)"
  "ref_count \<lparr>ir_kind = EXTENT_DATA_REF, ir_payload = data_fields a b c @ u32_bytes n\<rparr> = unat n"
  "wf_ref \<lparr>ir_kind = SHARED_DATA_REF, ir_payload = u64_bytes p @ u32_bytes n\<rparr>"
  "ref_id \<lparr>ir_kind = SHARED_DATA_REF, ir_payload = u64_bytes p @ u32_bytes n\<rparr> = (SHARED_DATA_REF, u64_bytes p)"
  "ref_count \<lparr>ir_kind = SHARED_DATA_REF, ir_payload = u64_bytes p @ u32_bytes n\<rparr> = unat n"
  "k \<in> {TREE_BLOCK_REF, SHARED_BLOCK_REF} \<Longrightarrow> wf_ref \<lparr>ir_kind = k, ir_payload = u64_bytes p\<rparr>"
  "k \<in> {TREE_BLOCK_REF, SHARED_BLOCK_REF} \<Longrightarrow> ref_id \<lparr>ir_kind = k, ir_payload = u64_bytes p\<rparr> = (k, u64_bytes p)"
  "k \<in> {TREE_BLOCK_REF, SHARED_BLOCK_REF} \<Longrightarrow> ref_count \<lparr>ir_kind = k, ir_payload = u64_bytes p\<rparr> = 1"
  by (auto simp: wf_ref_def payload_len_def ref_id_def ref_count_def shared_count_def le32_def slice_append_right slice_0_full byte_simps)

lemma data_payload_hash: "payload_hash H (data_fields root oid offset @ rest) = data_ref_hash H root oid offset"
  by (simp add: payload_hash_def data_fields_def le64_def slice_append_right slice_append_left slice_0_full byte_simps)

lemma u64_payload_offset: "ref_offset \<lparr>ir_kind = k, ir_payload = u64_bytes p @ rest\<rparr> = p"
  by (simp add: ref_offset_def le64_def slice_append_left slice_0_full byte_simps)

definition edited :: "hash_lib \<Rightarrow> u8 \<Rightarrow> bytes \<Rightarrow> nat \<Rightarrow> inline_ref list \<Rightarrow> bytes \<Rightarrow> u8 \<times> bytes \<Rightarrow> int \<Rightarrow> bool" where
  "edited H ty body start refs out k d \<longleftrightarrow>
     (\<exists>refs'. item_parts ty out start refs' \<and> refs_changed H refs refs' k d) \<and>
     slice 8 (start - 8) out = slice 8 (start - 8) body \<and>
     int (unat (le64 out 0)) = int (unat (le64 body 0)) + d"

lemma editedI:
  fixes tot :: u64
  assumes b: "item_parts ty body start refs" and c: "refs_changed H refs refs' k d"
    and t: "int (unat tot) = int (unat (le64 body 0)) + d"
    and out: "out = rebuild_item (put_at 0 (u64_bytes tot) (take start body)) start refs'"
  shows "edited H ty body start refs out k d"
proof -
  have wf: "\<forall>r \<in> set refs'. wf_ref r" using c by (simp add: refs_changed_def)
  show ?thesis using rebuilt_total [OF b wf out] c t by (auto simp: edited_def)
qed

lemma add_data_edited:
  assumes b: "item_parts ty body start refs" and cnt: "counted refs"
    and ok: "add_inline_data_ref H ty body root oid offset = Ok out"
  shows "edited H ty body start refs out (EXTENT_DATA_REF, data_fields root oid offset) 1"
proof -
  let ?who = "data_fields root oid offset" and ?want = "data_ref_hash H root oid offset"
  let ?new = "\<lparr>ir_kind = EXTENT_DATA_REF, ir_payload = ?who @ u32_bytes 1\<rparr>"
  have wf: "\<forall>r \<in> set refs. wf_ref r" using b by (simp add: item_parts_iff)
  obtain refs' tot where r: "(case data_ref_scan H ?who ?want 0 refs of
          Inr i \<Rightarrow>
            try_in (ok_or (UnsupportedFeature ''the data reference already counts the most it can'')
              (checked_add (le32 (ir_payload (refs ! i)) 24) 1)) (\<lambda>n.
            Ok (refs[i := set_data_count n (refs ! i)]))
        | Inl at \<Rightarrow> Ok (vec_insert at ?new refs)) = Ok refs'"
    and t: "checked_add (le64 body 0) 1 = Some tot"
    and out: "out = rebuild_item (put_at 0 (u64_bytes tot) (take start body)) start refs'"
    using ok b by (auto simp: add_inline_data_ref_def item_parts_def Let_def try_in_eq_Ok ok_or_eq_Ok)
  have "refs_changed H refs refs' (EXTENT_DATA_REF, ?who) 1"
  proof (cases "data_ref_scan H ?who ?want 0 refs")
    case (Inr i)
    from data_ref_scan_Inr [OF Inr] have i: "i < length refs" "names_data ?who (refs ! i)" by auto
    obtain n where n: "checked_add (le32 (ir_payload (refs ! i)) 24) 1 = Some n"
      and rs: "refs' = refs[i := set_data_count n (refs ! i)]"
      using r Inr by (auto simp: try_in_eq_Ok ok_or_eq_Ok)
    have w: "wf_ref (refs ! i)" "ir_kind (refs ! i) = EXTENT_DATA_REF" using wf i by (auto simp: names_data_def)
    note p = set_data_count_props [OF w]
    have "unat n = ref_count (refs ! i) + 1" using n by (auto simp: p(4) checked_add_Some unat_add_small)
    then show ?thesis
      unfolding rs using p names_data_id [OF i(2)] by (intro refs_changed_update [OF wf cnt i(1)]) simp_all
  next
    case (Inl i)
    from data_ref_scan_Inl [OF Inl] obtain as bs where ab: "refs = as @ bs" "i = length as"
      and pass: "\<forall>a \<in> set as. scan_passes H ?who ?want a"
      and nxt: "bs = [] \<or> EXTENT_DATA_REF < ir_kind (hd bs) \<or>
        ir_kind (hd bs) = EXTENT_DATA_REF \<and> payload_hash H (ir_payload (hd bs)) < ?want" by auto
    have id: "id_before H a b \<longleftrightarrow> fst a < fst b \<or> fst a = fst b \<and> payload_hash H (snd b) \<le> payload_hash H (snd a)"
      if "fst a = EXTENT_DATA_REF \<or> fst b = EXTENT_DATA_REF" for a b
      using that by (auto simp: id_before_def)
    have hash: "snd (ref_id r) = take 24 (ir_payload r)" if "ir_kind r = EXTENT_DATA_REF" for r
      using that by (simp add: ref_id_def)
    have kd: "fst (ref_id r) = ir_kind r" for r by (simp add: ref_id_def)
    have new: "ref_id ?new = (EXTENT_DATA_REF, ?who)" by (simp add: new_ref_props)
    have h: "payload_hash H ?who = ?want" using data_payload_hash [of H root oid offset "[]"] by simp
    have o: "kernel_order H (vec_insert i ?new refs)" if "kernel_order H refs"
    proof (rule kernel_order_insert [OF that])
      show "i \<le> length refs" by (simp add: ab)
    next
      fix j
      assume "j < i"
      then have "refs ! j \<in> set as" by (simp add: ab nth_append)
      then show "id_before H (ref_id (refs ! j)) (ref_id ?new)"
        using pass by (auto simp: id new kd hash h payload_hash_take scan_passes_def)
    next
      assume "i < length refs"
      then have "bs \<noteq> []" "refs ! i = hd bs" by (auto simp: ab nth_append hd_conv_nth)
      then show "id_before H (ref_id ?new) (ref_id (refs ! i))"
        using nxt by (auto simp: id new kd hash h payload_hash_take)
    qed
    show ?thesis
      using refs_changed_insert [OF wf cnt new_ref_props(1,2,3) _ o] r Inl by simp
  qed
  then show ?thesis using t by (intro editedI [OF b _ _ out]) (auto simp: checked_add_Some unat_add_small)
qed

lemma drop_data_edited:
  assumes b: "item_parts ty body start refs" and cnt: "counted refs"
    and ok: "drop_inline_data_ref ty body root oid offset = Ok (Some out)"
  shows "edited H ty body start refs out (EXTENT_DATA_REF, data_fields root oid offset) (- 1)"
proof -
  let ?who = "data_fields root oid offset"
  have wf: "\<forall>r \<in> set refs. wf_ref r" using b by (simp add: item_parts_iff)
  obtain i where pos: "position (names_data ?who) refs = Some i"
    and t: "1 < le64 body 0"
    and out: "out = rebuild_item (put_at 0 (u64_bytes (le64 body 0 - 1)) (take start body)) start
      (if le32 (ir_payload (refs ! i)) 24 > 1 then refs[i := set_data_count (le32 (ir_payload (refs ! i)) 24 - 1) (refs ! i)]
       else vec_remove i refs)"
    using ok b by (auto simp: drop_inline_data_ref_def item_parts_def Let_def not_le split: option.splits if_splits)
  have i: "i < length refs" "names_data ?who (refs ! i)" using pos by (auto simp: position_Some)
  have w: "wf_ref (refs ! i)" "ir_kind (refs ! i) = EXTENT_DATA_REF" using wf i by (auto simp: names_data_def)
  note p = set_data_count_props [OF w]
  have pos0: "0 < ref_count (refs ! i)" using cnt i by (simp add: counted_def)
  have "refs_changed H refs
      (if le32 (ir_payload (refs ! i)) 24 > 1 then refs[i := set_data_count (le32 (ir_payload (refs ! i)) 24 - 1) (refs ! i)]
       else vec_remove i refs) (EXTENT_DATA_REF, ?who) (- 1)"
  proof (cases "le32 (ir_payload (refs ! i)) 24 > 1")
    case True
    then have "unat (le32 (ir_payload (refs ! i)) 24 - 1) = ref_count (refs ! i) - 1" "1 < ref_count (refs ! i)"
      by (simp_all add: p(4) unat_sub_le word_less_nat_alt word_le_nat_alt)
    then show ?thesis
      using True p names_data_id [OF i(2)] by (simp, intro refs_changed_update [OF wf cnt i(1)]) simp_all
  next
    case False
    then have "ref_count (refs ! i) = 1" using pos0 by (simp add: p(4) word_less_nat_alt)
    then show ?thesis
      using False refs_changed_remove [OF wf cnt i(1)] names_data_id [OF i(2)] by fastforce
  qed
  moreover have "int (unat (le64 body 0 - 1)) = int (unat (le64 body 0)) + - 1"
    using t by (simp add: unat_sub_le word_less_nat_alt word_le_nat_alt)
  ultimately show ?thesis by (intro editedI [OF b _ _ out])
qed

lemma drop_tree_edited:
  assumes b: "item_parts ty body start refs" and cnt: "counted refs"
    and ok: "drop_inline_tree_ref ty body root = Ok (Some out)"
  shows "edited H ty body start refs out (TREE_BLOCK_REF, u64_bytes root) (- 1)"
proof -
  have wf: "\<forall>r \<in> set refs. wf_ref r" using b by (simp add: item_parts_iff)
  obtain i where pos: "position (\<lambda>r. ir_kind r = TREE_BLOCK_REF \<and> ref_offset r = root) refs = Some i"
    and t: "1 < le64 body 0"
    and out: "out = rebuild_item (put_at 0 (u64_bytes (le64 body 0 - 1)) (take start body)) start (vec_remove i refs)"
    using ok b by (auto simp: drop_inline_tree_ref_def item_parts_def Let_def not_le split: option.splits if_splits)
  have i: "i < length refs" "ir_kind (refs ! i) = TREE_BLOCK_REF" "ref_offset (refs ! i) = root"
    using pos by (auto simp: position_Some)
  have "ref_id (refs ! i) = (TREE_BLOCK_REF, u64_bytes root)" using wf i by (intro offset_names) simp_all
  moreover have "ref_count (refs ! i) = 1" using i by (simp add: ref_count_def shared_count_def)
  ultimately have "refs_changed H refs (vec_remove i refs) (TREE_BLOCK_REF, u64_bytes root) (- 1)"
    using refs_changed_remove [OF wf cnt i(1), of _ 1] by simp
  moreover have "int (unat (le64 body 0 - 1)) = int (unat (le64 body 0)) + - 1"
    using t by (simp add: unat_sub_le word_less_nat_alt word_le_nat_alt)
  ultimately show ?thesis by (intro editedI [OF b _ _ out])
qed

lemma shared_update_props:
  fixes n :: u32
  assumes "wf_ref r" and "ir_kind r = SHARED_DATA_REF"
  defines "s \<equiv> r\<lparr>ir_payload := put_at 8 (u32_bytes n) (ir_payload r)\<rparr>"
  shows "wf_ref s" and "ref_id s = ref_id r" and "ref_count s = unat n"
proof -
  have l: "length (ir_payload r) = 12" using assms by (simp add: wf_ref_def payload_len_def)
  show "wf_ref s" using assms l by (simp add: wf_ref_def)
  show "ref_id s = ref_id r" using assms(2) l by (simp add: ref_id_def s_def put_at_def)
  show "ref_count s = unat n" using assms(2) l by (simp add: ref_count_def shared_count_def s_def le32_put_same)
qed

lemma add_shared_edited:
  assumes b: "item_parts ty body start refs" and cnt: "counted refs"
    and ok: "add_inline_shared ty body kind parent n = Ok out" and fits: "edit_fits (AddShared kind parent n) body refs"
  shows "edited H ty body start refs out (kind, u64_bytes parent) (int (unat n))"
proof -
  have wf: "\<forall>r \<in> set refs. wf_ref r" using b by (simp add: item_parts_iff)
  have n0: "0 < unat n" using fits by (simp add: word_less_nat_alt)
  let ?p = "position (\<lambda>r. ir_kind r = kind \<and> ref_offset r = parent) refs"
  obtain refs' where r: "(case ?p of
          Some at \<Rightarrow>
            if kind = SHARED_DATA_REF then
              Ok (refs[at := (refs ! at)\<lparr>ir_payload :=
                    put_at 8 (u32_bytes (shared_count (refs ! at) + n)) (ir_payload (refs ! at))\<rparr>])
            else if kind = SHARED_BLOCK_REF then
              Err (UnsupportedFeature ''the tree block is already referred to by the block'')
            else Err (UnsupportedFeature ''not a reference copy-on-write adds'')
        | None \<Rightarrow>
            if kind = SHARED_DATA_REF then
              Ok (vec_insert (insert_position refs kind parent)
                    \<lparr>ir_kind = kind, ir_payload = u64_bytes parent @ u32_bytes n\<rparr> refs)
            else if kind = SHARED_BLOCK_REF \<and> n = 1 then
              Ok (vec_insert (insert_position refs kind parent)
                    \<lparr>ir_kind = kind, ir_payload = u64_bytes parent\<rparr> refs)
            else Err (UnsupportedFeature ''not a reference copy-on-write adds'')) = Ok refs'"
    and out: "out = rebuild_item (put_at 0 (u64_bytes (le64 body 0 + ucast n)) (take start body)) start refs'"
    using ok b by (auto simp: add_inline_shared_def item_parts_def try_in_eq_Ok)
  have "refs_changed H refs refs' (kind, u64_bytes parent) (int (unat n))"
  proof (cases ?p)
    case (Some i)
    have kd: "kind = SHARED_DATA_REF"
      and rs: "refs' = refs[i := (refs ! i)\<lparr>ir_payload :=
                    put_at 8 (u32_bytes (shared_count (refs ! i) + n)) (ir_payload (refs ! i))\<rparr>]"
      using r unfolding Some by (auto split: if_splits)
    have i: "i < length refs" "ir_kind (refs ! i) = SHARED_DATA_REF" "ref_offset (refs ! i) = parent"
      using Some kd by (auto simp: position_Some)
    have w: "wf_ref (refs ! i)" using wf i by simp
    note p = shared_update_props [OF w i(2), of "shared_count (refs ! i) + n"]
    have p4: "ref_count (refs ! i) = unat (shared_count (refs ! i))" using i(2) by (simp add: ref_count_def)
    have id: "ref_id (refs ! i) = (kind, u64_bytes parent)" using w i kd by (intro offset_names) simp_all
    have "ref_count (refs ! i) + unat n < 2 ^ 32" using held_at [OF i(1)] fits by (simp add: id)
    then have "unat (shared_count (refs ! i) + n) = ref_count (refs ! i) + unat n" by (simp add: p4 unat_add_small)
    then show ?thesis
      unfolding rs using p id n0 by (intro refs_changed_update [OF wf cnt i(1)]) simp_all
  next
    case None
    have o: "kernel_order H refs \<Longrightarrow> ir_kind x = kind \<Longrightarrow> ref_offset x = parent \<Longrightarrow> kind \<in> {SHARED_DATA_REF, SHARED_BLOCK_REF} \<Longrightarrow>
        kernel_order H (vec_insert (insert_position refs kind parent) x refs)" for x
      using insert_position_order [of H refs x parent] by auto
    show ?thesis
    proof (cases "kind = SHARED_DATA_REF")
      case True
      have "kernel_order H (vec_insert (insert_position refs kind parent)
          \<lparr>ir_kind = SHARED_DATA_REF, ir_payload = u64_bytes parent @ u32_bytes n\<rparr> refs)" if "kernel_order H refs"
        using o [OF that] True u64_payload_offset [of kind parent "u32_bytes n"] by simp
      from refs_changed_insert [OF wf cnt new_ref_props(4,5,6) n0 this] show ?thesis
        using r None by (simp add: True)
    next
      case False
      then have k: "kind = SHARED_BLOCK_REF" "n = 1" using r None by (auto split: if_splits)
      then show ?thesis
        using r None o u64_payload_offset [of kind parent "[]"] refs_changed_insert [OF wf cnt new_ref_props(7,8,9)]
        by auto
    qed
  qed
  moreover have "int (unat (le64 body 0 + ucast n)) = int (unat (le64 body 0)) + int (unat n)"
    using fits by (simp add: unat_add_small unat_ucast_32_64)
  ultimately show ?thesis by (intro editedI [OF b _ _ out])
qed

text \<open>\<open>add_inline_keyed\<close> changes the references and leaves the total to its caller.\<close>

lemma add_tree_edited:
  assumes b: "item_parts ty body start refs" and cnt: "counted refs"
    and ok: "add_inline_tree_ref ty body root = Ok out"
  shows "edited H ty body start refs out (TREE_BLOCK_REF, u64_bytes root) 1"
proof -
  have wf: "\<forall>r \<in> set refs. wf_ref r" using b by (simp add: item_parts_iff)
  let ?new = "\<lparr>ir_kind = TREE_BLOCK_REF, ir_payload = u64_bytes root\<rparr>"
  let ?refs = "vec_insert (insert_position refs TREE_BLOCK_REF root) ?new refs"
  let ?mid = "rebuild_item body start ?refs"
  obtain tot where t: "checked_add (le64 ?mid 0) 1 = Some tot" and out: "out = put_at 0 (u64_bytes tot) ?mid"
    using ok b by (auto simp: add_inline_tree_ref_def add_inline_keyed_def raise_total_def item_parts_def try_in_eq_Ok
        ok_or_eq_Ok split: if_splits)
  have o: "kernel_order H ?refs" if "kernel_order H refs"
    using insert_position_order [OF that, of ?new root] u64_payload_offset [of TREE_BLOCK_REF root "[]"] by simp
  have c: "refs_changed H refs ?refs (TREE_BLOCK_REF, u64_bytes root) 1"
    using refs_changed_insert [OF wf cnt new_ref_props(7,8,9) _ o] by simp
  have l: "24 \<le> start" "start \<le> length body" using b refs_start_Ok by (auto simp: item_parts_iff)
  have mid: "le64 ?mid 0 = le64 body 0"
    using l by (simp add: le64_def rebuild_item_def slice_append_left slice_take)
  have "put_at 0 (u64_bytes tot) (take start body @ x) = put_at 0 (u64_bytes tot) (take start body) @ x" for x
    using l by (simp add: put_at_def)
  then have out': "out = rebuild_item (put_at 0 (u64_bytes tot) (take start body)) start ?refs"
    using l by (simp add: out rebuild_item_def)
  show ?thesis
    using t by (intro editedI [OF b c _ out']) (auto simp: mid checked_add_Some unat_add_small)
qed

lemma run_edit_edited:
  assumes b: "item_parts ty body start refs" and cnt: "counted refs"
    and ok: "run_edit H ty e body = Ok (Some out)" and fits: "edit_fits e body refs"
  shows "edited H ty body start refs out (edit_id e) (edit_change e)"
  using ok fits add_data_edited [OF b cnt] drop_data_edited [OF b cnt] add_shared_edited [OF b cnt]
    add_tree_edited [OF b cnt] drop_tree_edited [OF b cnt]
  by (cases e) (auto simp: map_sum_def split: sum.splits)

lemma vec_remove_insert: "i \<le> length xs \<Longrightarrow> vec_remove i (vec_insert i x xs) = xs"
  by (simp add: vec_remove_def vec_insert_def)

lemma nth_vec_insert: "i \<le> length xs \<Longrightarrow> vec_insert i x xs ! i = x" "j < i \<Longrightarrow> i \<le> length xs \<Longrightarrow> vec_insert i x xs ! j = xs ! j"
  "i \<le> length xs \<Longrightarrow> length (vec_insert i x xs) = Suc (length xs)"
  by (simp_all add: vec_insert_def nth_append)

lemma u32_bytes_le32:
  assumes "off + 4 \<le> length b"
  shows "u32_bytes (le32 b off) = slice off 4 b"
proof -
  have l: "length (slice off 4 b) = 4" using assms by simp
  have "le_nat (slice off 4 b) < 2 ^ 32" using le_nat_bound [of "slice off 4 b"] unfolding l by simp
  then show ?thesis
    using to_le_le_nat [OF l] by (simp add: u32_bytes_def le32_def unat_of_nat_u32)
qed

lemma set_data_count_back:
  assumes "wf_ref r" and "ir_kind r = EXTENT_DATA_REF"
  shows "set_data_count (le32 (ir_payload r) 24) (set_data_count n r) = r"
    and "le32 (ir_payload (set_data_count n r)) 24 = n"
proof -
  have l: "length (ir_payload r) = 28" using assms by (simp add: wf_ref_def payload_len_def)
  have "take 24 (ir_payload r) @ drop 24 (ir_payload r) = ir_payload r" by simp
  moreover have "u32_bytes (le32 (ir_payload r) 24) = drop 24 (ir_payload r)"
    using l u32_bytes_le32 [of 24 "ir_payload r"] by (simp add: slice_def)
  ultimately show "set_data_count (le32 (ir_payload r) 24) (set_data_count n r) = r"
    using l by (simp add: set_data_count_def put_at_def)
  show "le32 (ir_payload (set_data_count n r)) 24 = n"
    using l by (simp add: set_data_count_def le32_put_same)
qed

text \<open>An item rewritten with a new total and references, and rewritten back.\<close>

lemma rewritten_back:
  fixes tot :: u64
  assumes b: "item_parts ty body start refs"
    and mid: "take start mid = put_at 0 (u64_bytes tot) (take start body)"
  shows "rebuild_item (put_at 0 (u64_bytes (le64 body 0)) (take start mid)) start refs = body"
proof -
  have l: "24 \<le> start" "start \<le> length body" using b refs_start_Ok by (auto simp: item_parts_iff)
  have "u64_bytes (le64 body 0) = take 8 (take start body)" using l u64_bytes_le64 [of 0 body] by (simp add: slice_def min_def)
  then have "put_at 0 (u64_bytes (le64 body 0)) (take start mid) = take 8 (take start body) @ drop 8 (take start body)"
    using l unfolding mid by (simp add: put_at_def)
  then have "put_at 0 (u64_bytes (le64 body 0)) (take start mid) = take start body"
    by (simp only: append_take_drop_id)
  then show ?thesis using item_parts_body [OF b] l by (simp add: rebuild_item_def)
qed

lemma add_then_drop:
  assumes refs: "inline_refs ty body = Ok refs" and cnt: "counted refs" and t: "1 \<le> le64 body 0"
    and ok: "add_inline_data_ref H ty body root oid offset = Ok out"
  shows "drop_inline_data_ref ty out root oid offset = Ok (Some body)"
proof -
  let ?who = "data_fields root oid offset" and ?want = "data_ref_hash H root oid offset"
  let ?new = "\<lparr>ir_kind = EXTENT_DATA_REF, ir_payload = ?who @ u32_bytes 1\<rparr>"
  obtain start where b: "item_parts ty body start refs" using inline_refs_parts [OF refs] by blast
  have wf: "\<forall>r \<in> set refs. wf_ref r" using b by (simp add: item_parts_iff)
  obtain refs' tot where r: "(case data_ref_scan H ?who ?want 0 refs of
          Inr i \<Rightarrow>
            try_in (ok_or (UnsupportedFeature ''the data reference already counts the most it can'')
              (checked_add (le32 (ir_payload (refs ! i)) 24) 1)) (\<lambda>n.
            Ok (refs[i := set_data_count n (refs ! i)]))
        | Inl at \<Rightarrow> Ok (vec_insert at ?new refs)) = Ok refs'"
    and tot: "checked_add (le64 body 0) 1 = Some tot"
    and out: "out = rebuild_item (put_at 0 (u64_bytes tot) (take start body)) start refs'"
    using ok b by (auto simp: add_inline_data_ref_def item_parts_def Let_def try_in_eq_Ok ok_or_eq_Ok)
  have tb: "tot - 1 = le64 body 0" "1 < tot"
    using tot t by (auto simp: checked_add_Some word_less_nat_alt word_le_nat_alt unat_add_small)
  have "\<exists>i. position (names_data ?who) refs' = Some i \<and> (\<forall>r \<in> set refs'. wf_ref r) \<and>
      (if le32 (ir_payload (refs' ! i)) 24 > 1 then refs'[i := set_data_count (le32 (ir_payload (refs' ! i)) 24 - 1) (refs' ! i)]
       else vec_remove i refs') = refs"
  proof (cases "data_ref_scan H ?who ?want 0 refs")
    case (Inr i)
    from data_ref_scan_Inr [OF Inr] have i: "i < length refs" "names_data ?who (refs ! i)"
      and early: "\<forall>j < i. \<not> names_data ?who (refs ! j)"
      by (auto simp: nth_append scan_passes_def)
    obtain n where n: "checked_add (le32 (ir_payload (refs ! i)) 24) 1 = Some n"
      and rs: "refs' = refs[i := set_data_count n (refs ! i)]"
      using r Inr by (auto simp: try_in_eq_Ok ok_or_eq_Ok)
    have w: "wf_ref (refs ! i)" "ir_kind (refs ! i) = EXTENT_DATA_REF" using wf i by (auto simp: names_data_def)
    note p = set_data_count_props [OF w] set_data_count_back [OF w]
    have "0 < unat (le32 (ir_payload (refs ! i)) 24)" using cnt i by (simp add: counted_def flip: p(4))
    then have n1: "n - 1 = le32 (ir_payload (refs ! i)) 24" "1 < n"
      using n by (auto simp: checked_add_Some word_less_nat_alt unat_add_small)
    have "names_data ?who (set_data_count n (refs ! i))"
      using p(2) [of n] names_data_id [OF i(2)] w(2) by (simp add: names_data_def ref_id_def set_data_count_def)
    then have "position (names_data ?who) refs' = Some i"
      using i early by (simp add: rs position_Some)
    then show ?thesis
      using i(1) p(1,5,6) n1 wf
      by (intro exI [of _ i]) (auto simp: rs dest!: set_update_subset_insert [THEN subsetD])
  next
    case (Inl i)
    from data_ref_scan_Inl [OF Inl] have i: "i \<le> length refs" "\<forall>j < i. \<not> names_data ?who (refs ! j)"
      by (auto simp: nth_append scan_passes_def)
    have rs: "refs' = vec_insert i ?new refs" using r Inl by simp
    have "names_data ?who ?new" by (simp add: names_data_def)
    then have "position (names_data ?who) refs' = Some i"
      using i by (simp add: rs position_Some nth_vec_insert)
    moreover have "\<forall>r \<in> set refs'. wf_ref r" using wf new_ref_props(1) by (simp add: rs set_vec_insert)
    moreover have "le32 (ir_payload ?new) 24 = 1"
      by (simp add: le32_def slice_append_right slice_0_full byte_simps)
    ultimately show ?thesis
      using i(1) by (intro exI [of _ i]) (simp add: rs nth_vec_insert vec_remove_insert)
  qed
  then obtain i where i: "position (names_data ?who) refs' = Some i" "\<forall>r \<in> set refs'. wf_ref r"
    "(if le32 (ir_payload (refs' ! i)) 24 > 1 then refs'[i := set_data_count (le32 (ir_payload (refs' ! i)) 24 - 1) (refs' ! i)]
       else vec_remove i refs') = refs" by blast
  note o = rebuilt_total [OF b i(2) out]
  show ?thesis
    using o(1,2) i(1) tb rewritten_back [OF b o(4)] i(3)
    by (simp add: drop_inline_data_ref_def item_parts_def Let_def)
qed

section \<open>A shared reference becomes a keyed one\<close>

fun keyed_id :: "keyed \<Rightarrow> u8 \<times> bytes" where
  "keyed_id (KeyedBlock root) = (TREE_BLOCK_REF, u64_bytes root)"
| "keyed_id (KeyedData root oid offset) = (EXTENT_DATA_REF, data_fields root oid offset)"

lemma add_keyed_changed:
  assumes b: "item_parts ty body start refs" and cnt: "counted refs" and ok: "add_inline_keyed ty body keyed n = Ok out"
    and n0: "0 < unat n" and room: "held refs (keyed_id keyed) + unat n < 2 ^ 32"
    and one: "\<forall>root. keyed = KeyedBlock root \<longrightarrow> n = 1"
  shows "\<exists>refs'. item_parts ty out start refs' \<and> take start out = take start body \<and> refs_changed H refs refs' (keyed_id keyed) (int (unat n))"
proof -
  have wf: "\<forall>r \<in> set refs. wf_ref r" using b by (simp add: item_parts_iff)
  have l: "start \<le> length body" using b by (simp add: item_parts_iff)
  have "\<exists>refs'. refs_changed H refs refs' (keyed_id keyed) (int (unat n)) \<and> out = rebuild_item body start refs'"
  proof (cases keyed)
    case (KeyedBlock root)
    let ?x = "\<lparr>ir_kind = TREE_BLOCK_REF, ir_payload = u64_bytes root\<rparr>"
    have o: "kernel_order H (vec_insert (insert_position refs TREE_BLOCK_REF root) ?x refs)" if "kernel_order H refs"
      using insert_position_order [OF that, of ?x root] u64_payload_offset [of TREE_BLOCK_REF root "[]"] by simp
    show ?thesis
      using ok b one refs_changed_insert [OF wf cnt new_ref_props(7,8,9) _ o]
      by (auto simp: KeyedBlock add_inline_keyed_def item_parts_def split: if_splits)
  next
    case (KeyedData root oid offset)
    let ?who = "data_fields root oid offset"
    let ?x = "\<lparr>ir_kind = EXTENT_DATA_REF, ir_payload = ?who @ u32_bytes n\<rparr>"
    show ?thesis
    proof (cases "position (names_data ?who) refs")
      case (Some i)
      have i: "i < length refs" "names_data ?who (refs ! i)" using Some by (auto simp: position_Some)
      have w: "wf_ref (refs ! i)" "ir_kind (refs ! i) = EXTENT_DATA_REF" using wf i by (auto simp: names_data_def)
      note p = set_data_count_props [OF w]
      note id = names_data_id [OF i(2)]
      have "ref_count (refs ! i) + unat n < 2 ^ 32" using held_at [OF i(1)] room by (simp add: id KeyedData)
      then have u: "unat (le32 (ir_payload (refs ! i)) 24 + n) = ref_count (refs ! i) + unat n" by (simp add: p(4) unat_add_small)
      have "refs_changed H refs (refs[i := set_data_count (le32 (ir_payload (refs ! i)) 24 + n) (refs ! i)]) (keyed_id keyed) (int (unat n))"
        using p u id n0 by (intro refs_changed_update [OF wf cnt i(1)]) (simp_all add: KeyedData)
      then show ?thesis using ok b Some by (auto simp: KeyedData add_inline_keyed_def item_parts_def Let_def)
    next
      case None
      then have none: "\<forall>r \<in> set refs. ir_kind r \<noteq> EXTENT_DATA_REF"
        and out: "out = rebuild_item body start (vec_insert (insert_position refs EXTENT_DATA_REF 0) ?x refs)"
        using ok b by (auto simp: KeyedData add_inline_keyed_def item_parts_def Let_def split: if_splits)
      have "kernel_order H (vec_insert (insert_position refs EXTENT_DATA_REF 0) ?x refs)" if "kernel_order H refs"
        using insert_position_order [OF that, of ?x 0] none by simp
      from refs_changed_insert [OF wf cnt new_ref_props(1,2,3) n0 this] show ?thesis
        using out by (auto simp: KeyedData)
    qed
  qed
  then obtain refs' where c: "refs_changed H refs refs' (keyed_id keyed) (int (unat n))" and out: "out = rebuild_item body start refs'"
    by blast
  have "\<forall>r \<in> set refs'. wf_ref r" using c by (simp add: refs_changed_def)
  from rebuilt [OF b l refl this] show ?thesis using c out by auto
qed

lemma shared_converted:
  assumes b: "item_parts ty body start refs" and cnt: "counted refs"
    and took: "take_inline_shared ty body kind parent = Ok (Some (mid, n))"
    and ok: "add_inline_keyed ty mid keyed n = Ok out"
    and kinds: "kind = SHARED_BLOCK_REF \<and> (\<exists>root. keyed = KeyedBlock root) \<or> kind = SHARED_DATA_REF \<and> (\<exists>root oid offset. keyed = KeyedData root oid offset)"
    and room: "held refs (keyed_id keyed) + unat n < 2 ^ 32"
  shows "\<exists>refs'. item_parts ty out start refs' \<and> take start out = take start body \<and> counted refs' \<and>
    (kernel_order H refs \<longrightarrow> kernel_order H refs') \<and>
    (\<forall>k. int (held refs' k) = int (held refs k) + (if k = keyed_id keyed then int (unat n) else if k = (kind, u64_bytes parent) then - int (unat n) else 0))"
proof -
  have wf: "\<forall>r \<in> set refs. wf_ref r" and l: "start \<le> length body" using b by (simp_all add: item_parts_iff)
  obtain i where pos: "position (\<lambda>r. ir_kind r = kind \<and> ref_offset r = parent) refs = Some i"
    and mid: "mid = rebuild_item body start (vec_remove i refs)" and n: "n = shared_count (refs ! i)"
    using took b by (auto simp: take_inline_shared_def item_parts_def split: option.splits)
  have i: "i < length refs" "ir_kind (refs ! i) = kind" "ref_offset (refs ! i) = parent"
    using pos by (auto simp: position_Some)
  have kd: "kind \<noteq> EXTENT_DATA_REF" using kinds by auto
  have id: "ref_id (refs ! i) = (kind, u64_bytes parent)" using wf i kd by (intro offset_names) simp_all
  have c: "ref_count (refs ! i) = unat n" using i kd by (simp add: ref_count_def n)
  have n0: "0 < unat n" using cnt i(1) by (simp add: counted_def flip: c)
  have r: "refs_changed H refs (vec_remove i refs) (kind, u64_bytes parent) (- int (unat n))"
    by (rule refs_changed_remove [OF wf cnt i(1) id [symmetric] c])
  have wf': "\<forall>r \<in> set (vec_remove i refs). wf_ref r" and cnt': "counted (vec_remove i refs)" using r by (simp_all add: refs_changed_def)
  note m = rebuilt [OF b l refl wf', folded mid]
  have ne: "keyed_id keyed \<noteq> (kind, u64_bytes parent)" using kinds by auto
  have "\<forall>k. int (held (vec_remove i refs) k) = int (held refs k) + (if k = (kind, u64_bytes parent) then - int (unat n) else 0)"
    using r unfolding refs_changed_def by blast
  from spec [OF this, of "keyed_id keyed"] have "held (vec_remove i refs) (keyed_id keyed) = held refs (keyed_id keyed)"
    using ne by simp
  then have room': "held (vec_remove i refs) (keyed_id keyed) + unat n < 2 ^ 32" using room by simp
  have one: "\<forall>root. keyed = KeyedBlock root \<longrightarrow> n = 1"
    using kinds i by (auto simp: n shared_count_def)
  obtain refs' where f: "item_parts ty out start refs'" "take start out = take start mid"
    "refs_changed H (vec_remove i refs) refs' (keyed_id keyed) (int (unat n))"
    using add_keyed_changed [OF m(1) cnt' ok n0 room' one, of H] by blast
  have "\<forall>k. int (held refs' k) = int (held refs k) + (if k = keyed_id keyed then int (unat n) else if k = (kind, u64_bytes parent) then - int (unat n) else 0)"
  proof
    fix k
    have "int (held refs' k) = int (held (vec_remove i refs) k) + (if k = keyed_id keyed then int (unat n) else 0)"
      "int (held (vec_remove i refs) k) = int (held refs k) + (if k = (kind, u64_bytes parent) then - int (unat n) else 0)"
      using f(3) r unfolding refs_changed_def by blast+
    then show "int (held refs' k) = int (held refs k) + (if k = keyed_id keyed then int (unat n) else if k = (kind, u64_bytes parent) then - int (unat n) else 0)"
      using ne by (cases "k = keyed_id keyed"; cases "k = (kind, u64_bytes parent)") simp_all
  qed
  moreover have "counted refs'" "kernel_order H refs \<longrightarrow> kernel_order H refs'"
    using f(3) r unfolding refs_changed_def by blast+
  ultimately show ?thesis using f(1,2) m(2) by (intro exI [of _ refs'] conjI) simp_all
qed

text \<open>
  C39. Converting a shared reference into a keyed one loses no reference and invents none: when the
  shared references of a moved block are taken out of an extent item and the same number put in as
  the reference its tree keeps, the counts of exactly these two identities change, by that number
  down and up; the total and the other fixed fields keep their bytes, and the kernel's order holds if
  it held.
\<close>
theorem shared_ref_converted:
  assumes "inline_refs ty body = Ok refs" and "counted refs"
    and "take_inline_shared ty body kind parent = Ok (Some (mid, n))" and "add_inline_keyed ty mid keyed n = Ok out"
    and "kind = SHARED_BLOCK_REF \<and> (\<exists>root. keyed = KeyedBlock root) \<or>
      kind = SHARED_DATA_REF \<and> (\<exists>root oid offset. keyed = KeyedData root oid offset)"
    and "held refs (keyed_id keyed) + unat n < 2 ^ 32"
  shows "\<exists>refs' start. refs_start ty body = Ok start \<and> inline_refs ty out = Ok refs' \<and> take start out = take start body \<and>
    (kernel_order H refs \<longrightarrow> kernel_order H refs') \<and>
    (\<forall>k. int (held refs' k) = int (held refs k) +
       (if k = keyed_id keyed then int (unat n) else if k = (kind, u64_bytes parent) then - int (unat n) else 0))"
proof -
  obtain start where b: "item_parts ty body start refs" using inline_refs_parts [OF assms(1)] by blast
  from shared_converted [OF b assms(2-6)] show ?thesis
    using b unfolding item_parts_def by blast
qed

text \<open>
  C38. Dropping a data reference right after adding it gives back the very bytes of the extent item:
  whether the reference was put in among others or counted up, on every item whose references parse,
  count something each and whose total is not zero.
\<close>
theorem data_ref_add_drop:
  assumes "inline_refs ty body = Ok refs" and "counted refs" and "1 \<le> le64 body 0"
    and "add_inline_data_ref H ty body root oid offset = Ok out"
  shows "drop_inline_data_ref ty out root oid offset = Ok (Some body)"
  by (rule add_then_drop [OF assms])

text \<open>
  C37. Editing the inline references of an extent item refines editing a total and a count for every
  reference identity. Whichever of the edits succeeds on an item, adding or dropping a data reference,
  a tree reference or shared references, the item it returns parses; the count of the reference it
  names has changed by what it says and no other count has; the total has changed by the same; the
  generation, the flags and the block's key and level are what they were; and references that stood
  where the kernel's scan expects them still do.
\<close>
theorem ref_edits_refine:
  assumes "inline_refs ty body = Ok refs" and "counted refs"
    and "run_edit H ty e body = Ok (Some out)" and "edit_fits e body refs"
  shows "\<exists>refs' start. inline_refs ty out = Ok refs' \<and> counted refs' \<and>
     (\<forall>k. int (held refs' k) = int (held refs k) + (if k = edit_id e then edit_change e else 0)) \<and>
     int (unat (le64 out 0)) = int (unat (le64 body 0)) + edit_change e \<and>
     refs_start ty body = Ok start \<and> refs_start ty out = Ok start \<and>
     slice 8 (start - 8) out = slice 8 (start - 8) body \<and>
     (kernel_order H refs \<longrightarrow> kernel_order H refs')"
proof -
  obtain start where b: "item_parts ty body start refs" using inline_refs_parts [OF assms(1)] by blast
  from run_edit_edited [OF b assms(2-4)] show ?thesis
    using b unfolding edited_def refs_changed_def item_parts_def by blast
qed


section \<open>A data extent with one reference\<close>

definition demo_data_ref :: inline_ref where
  "demo_data_ref = \<lparr>ir_kind = EXTENT_DATA_REF, ir_payload = data_fields 5 257 0 @ u32_bytes 1\<rparr>"

definition demo_extent_item :: bytes where
  "demo_extent_item = rebuild_item (u64_bytes 1 @ u64_bytes 7 @ u64_bytes 1) 24 [demo_data_ref]"

lemma demo_extent_parts:
  "item_parts EXTENT_ITEM demo_extent_item 24 [demo_data_ref]" "le64 demo_extent_item 0 = 1" "counted [demo_data_ref]"
proof -
  have l: "length demo_extent_item = 53" by (simp add: demo_extent_item_def rebuild_item_def ref_bytes_def demo_data_ref_def)
  have b: "demo_extent_item = (u64_bytes 1 @ u64_bytes 7 @ u64_bytes 1) @ ref_bytes demo_data_ref"
    by (simp add: demo_extent_item_def rebuild_item_def)
  have f: "le64 demo_extent_item 16 = 1"
    unfolding b by (simp add: le64_def slice_append_left slice_append_right slice_0_full byte_simps)
  then show "item_parts EXTENT_ITEM demo_extent_item 24 [demo_data_ref]"
    unfolding item_parts_iff refs_start_def item_flags_def
    using l new_ref_props(1) [of 5 257 0 1] by (simp add: b demo_data_ref_def)
  show "le64 demo_extent_item 0 = 1"
    unfolding b by (simp add: le64_def slice_append_left slice_0_full byte_simps)
  show "counted [demo_data_ref]"
    using new_ref_props(3) [of 5 257 0 1] by (simp add: counted_def demo_data_ref_def)
qed

lemma demo_extent_add: "\<exists>out. add_inline_data_ref zero_hash EXTENT_ITEM demo_extent_item 5 258 0 = Ok out"
proof -
  have h: "data_ref_hash zero_hash a b c = data_ref_hash zero_hash 0 0 0" for a b c
    by (simp add: data_ref_hash_def raw_crc_def zero_hash_def)
  then have hh: "\<not> data_ref_hash zero_hash a b c < data_ref_hash zero_hash d e f" for a b c d e f
    by (metis less_irrefl)
  have "data_fields 5 257 0 \<noteq> data_fields 5 258 0"
  proof
    assume "data_fields 5 257 0 = data_fields 5 258 0"
    then have "le64 (data_fields 5 257 0) 8 = le64 (data_fields 5 258 0) 8" by simp
    then show False by (simp add: le64_def data_fields_def slice_append_left slice_append_right slice_0_full byte_simps)
  qed
  then have "data_ref_scan zero_hash (data_fields 5 258 0) (data_ref_hash zero_hash 5 258 0) 0 [demo_data_ref] = Inl 1"
    using hh by (simp add: demo_data_ref_def payload_hash_def)
  then show ?thesis
    using demo_extent_parts by (simp add: add_inline_data_ref_def item_parts_def Let_def checked_add_def)
qed

theorem data_ref_add_drop_witness:
  "\<exists>out. add_inline_data_ref zero_hash EXTENT_ITEM demo_extent_item 5 258 0 = Ok out \<and>
     drop_inline_data_ref EXTENT_ITEM out 5 258 0 = Ok (Some demo_extent_item)"
  using demo_extent_add data_ref_add_drop [OF _ demo_extent_parts(3)] demo_extent_parts
  by (fastforce simp: item_parts_def)

theorem ref_edits_refine_witness:
  "\<exists>out refs'. run_edit zero_hash EXTENT_ITEM (AddData 5 258 0) demo_extent_item = Ok (Some out) \<and>
     inline_refs EXTENT_ITEM out = Ok refs' \<and> int (unat (le64 out 0)) = 2 \<and>
     int (held refs' (EXTENT_DATA_REF, data_fields 5 258 0)) =
       int (held [demo_data_ref] (EXTENT_DATA_REF, data_fields 5 258 0)) + 1"
proof -
  obtain out where out: "run_edit zero_hash EXTENT_ITEM (AddData 5 258 0) demo_extent_item = Ok (Some out)"
    using demo_extent_add by auto
  have r: "inline_refs EXTENT_ITEM demo_extent_item = Ok [demo_data_ref]"
    using demo_extent_parts(1) by (simp add: item_parts_def)
  from ref_edits_refine [OF r demo_extent_parts(3) out] show ?thesis
    using out demo_extent_parts(2) by auto
qed


definition demo_shared_ref :: inline_ref where
  "demo_shared_ref = \<lparr>ir_kind = SHARED_DATA_REF, ir_payload = u64_bytes 4096 @ u32_bytes 3\<rparr>"

definition demo_shared_item :: bytes where
  "demo_shared_item = rebuild_item (u64_bytes 3 @ u64_bytes 7 @ u64_bytes 1) 24 [demo_shared_ref]"

lemma demo_shared_parts: "item_parts EXTENT_ITEM demo_shared_item 24 [demo_shared_ref]" "counted [demo_shared_ref]"
  "ref_id demo_shared_ref = (SHARED_DATA_REF, u64_bytes 4096)"
proof -
  have l: "length demo_shared_item = 37" by (simp add: demo_shared_item_def rebuild_item_def ref_bytes_def demo_shared_ref_def)
  have b: "demo_shared_item = (u64_bytes 3 @ u64_bytes 7 @ u64_bytes 1) @ ref_bytes demo_shared_ref"
    by (simp add: demo_shared_item_def rebuild_item_def)
  have "le64 demo_shared_item 16 = 1"
    unfolding b by (simp add: le64_def slice_append_left slice_append_right slice_0_full byte_simps)
  then show "item_parts EXTENT_ITEM demo_shared_item 24 [demo_shared_ref]"
    unfolding item_parts_iff refs_start_def item_flags_def
    using l new_ref_props(4) [of 4096 3] by (simp add: b demo_shared_ref_def)
  show "counted [demo_shared_ref]"
    using new_ref_props(6) [of 4096 3] by (simp add: counted_def demo_shared_ref_def)
  show "ref_id demo_shared_ref = (SHARED_DATA_REF, u64_bytes 4096)"
    unfolding demo_shared_ref_def by (rule new_ref_props(5))
qed

theorem shared_ref_converted_witness:
  "\<exists>mid out refs'. take_inline_shared EXTENT_ITEM demo_shared_item SHARED_DATA_REF 4096 = Ok (Some (mid, 3)) \<and>
     add_inline_keyed EXTENT_ITEM mid (KeyedData 5 257 0) 3 = Ok out \<and> inline_refs EXTENT_ITEM out = Ok refs' \<and>
     take 24 out = take 24 demo_shared_item \<and> held refs' (EXTENT_DATA_REF, data_fields 5 257 0) = 3 \<and>
     held refs' (SHARED_DATA_REF, u64_bytes 4096) = 0"
proof -
  note b = demo_shared_parts(1)
  have st: "refs_start EXTENT_ITEM demo_shared_item = Ok 24" "inline_refs EXTENT_ITEM demo_shared_item = Ok [demo_shared_ref]"
    using b by (simp_all add: item_parts_def)
  have off: "ref_offset demo_shared_ref = 4096" "ir_kind demo_shared_ref = SHARED_DATA_REF"
    using u64_payload_offset [of SHARED_DATA_REF 4096 "u32_bytes 3"] by (simp_all add: demo_shared_ref_def)
  have c: "shared_count demo_shared_ref = 3" "ref_count demo_shared_ref = 3"
    using new_ref_props(6) [of 4096 3]
    by (simp_all add: demo_shared_ref_def shared_count_def le32_def slice_append_right slice_0_full byte_simps)
  have h: "held [demo_shared_ref] (SHARED_DATA_REF, u64_bytes 4096) = 3" "held [demo_shared_ref] (EXTENT_DATA_REF, x) = 0" for x
    by (simp_all add: held_Cons held_def demo_shared_parts(3) c)
  let ?mid = "rebuild_item demo_shared_item 24 []"
  have t: "take_inline_shared EXTENT_ITEM demo_shared_item SHARED_DATA_REF 4096 = Ok (Some (?mid, 3))"
    by (simp add: take_inline_shared_def st position_def upt_conv_Cons off c vec_remove_def)
  have "24 \<le> length demo_shared_item" using b by (simp add: item_parts_iff)
  from rebuilt(1) [OF b this refl, of "[]"] have m: "refs_start EXTENT_ITEM ?mid = Ok 24" "inline_refs EXTENT_ITEM ?mid = Ok []"
    by (simp_all add: item_parts_def)
  then obtain out where k: "add_inline_keyed EXTENT_ITEM ?mid (KeyedData 5 257 0) 3 = Ok out"
    by (simp add: add_inline_keyed_def position_def)
  have u: "unat (3 :: u32) = 3" by simp
  have "\<exists>refs' start. refs_start EXTENT_ITEM demo_shared_item = Ok start \<and> inline_refs EXTENT_ITEM out = Ok refs' \<and>
      take start out = take start demo_shared_item \<and> (kernel_order zero_hash [demo_shared_ref] \<longrightarrow> kernel_order zero_hash refs') \<and>
      (\<forall>k. int (held refs' k) = int (held [demo_shared_ref] k) +
        (if k = keyed_id (KeyedData 5 257 0) then int (unat (3 :: u32)) else if k = (SHARED_DATA_REF, u64_bytes 4096) then - int (unat (3 :: u32)) else 0))"
    by (rule shared_ref_converted [OF st(2) demo_shared_parts(2) t k]) (simp_all add: h)
  then obtain refs' where r: "inline_refs EXTENT_ITEM out = Ok refs'" "take 24 out = take 24 demo_shared_item"
    and all: "\<forall>k. int (held refs' k) = int (held [demo_shared_ref] k) +
       (if k = (EXTENT_DATA_REF, data_fields 5 257 0) then 3 else if k = (SHARED_DATA_REF, u64_bytes 4096) then - 3 else 0)"
    unfolding u st(1) keyed_id.simps sum.inject by auto
  have "held refs' (EXTENT_DATA_REF, data_fields 5 257 0) = 3" "held refs' (SHARED_DATA_REF, u64_bytes 4096) = 0"
    using spec [OF all, of "(EXTENT_DATA_REF, data_fields 5 257 0)"] spec [OF all, of "(SHARED_DATA_REF, u64_bytes 4096)"] h by simp_all
  then show ?thesis using t k r by blast
qed

end
