(* ===== verification/InPlace.thy ===== *)
theory InPlace
  imports FileRange
begin

text \<open>
  Writing a file in place: \<open>src/src/write.rs\<close>. Only files without copy-on-write and without checksums
  are written this way, only where blocks are allocated already, and only extents nothing else refers
  to. A write first plans the windows it will touch, then finds every device and place of every
  window, and only then writes.

  The lemmas say that every byte of a plan is where the file has it, inside an extent the extent tree
  records with one reference and from after the last snapshot, and that a write which succeeds leaves
  a consistent volume that differs from the one before in those bytes only.
\<close>

section \<open>Is the handle one that writes\<close>

definition refuse_stale :: "Superblock.block_read \<Rightarrow> filesystem \<Rightarrow> unit result" where
  "refuse_stale dev fs =
     try_in (read_superblock (fs_hash fs) dev) (\<lambda>(on_disk, _).
     if sb_generation on_disk > sb_generation (fs_sb fs) then
       Err (Stale (sb_generation (fs_sb fs)) (sb_generation on_disk))
     else Ok ())"

definition require_writable :: "Superblock.block_read \<Rightarrow> filesystem \<Rightarrow> 'd write_pool \<Rightarrow> unit result" where
  "require_writable dev fs w = (if wp_single w = None then Err ReadOnly else refuse_stale dev fs)"

text \<open>
  The writable devices, each by the number \<open>write_device\<close> finds it under: a volume mounted without a
  pool has one device, found under every number.
\<close>

definition write_devices :: "'d write_pool \<Rightarrow> u64 list" where
  "write_devices w =
     (if wp_pool w = [] then (case wp_single w of None \<Rightarrow> [] | Some _ \<Rightarrow> [0]) else map fst (wp_pool w))"

fun flush_devices :: "'d block_lib \<Rightarrow> u64 list \<Rightarrow> 'd write_pool \<Rightarrow> unit result \<times> 'd write_pool" where
  "flush_devices B [] w = (Ok (), w)"
| "flush_devices B (devid # rest) w =
     (case write_device w devid of
        Inl e \<Rightarrow> (Err e, w)
      | Inr d \<Rightarrow>
          (case bl_flush B d of
             Inl e \<Rightarrow> (Err e, w)
           | Inr d' \<Rightarrow> flush_devices B rest (set_device w devid d')))"

definition flush_writable :: "'d block_lib \<Rightarrow> 'd write_pool \<Rightarrow> unit result \<times> 'd write_pool" where
  "flush_writable B w = flush_devices B (write_devices w) w"

lemma write_device_set: "write_device (set_device w devid d') x =
    (if wp_pool w = [] \<or> x = devid then Ok d' else write_device w x)"
  by (auto simp: write_device_def set_device_def update_conv)

lemma flush_devices_disk:
  assumes lib: "wf_block_lib B cont"
  shows "pool_disk cont gone (snd (flush_devices B ids w)) = pool_disk cont gone w"
proof (induction ids arbitrary: w)
  case (Cons devid ids)
  show ?case
  proof (cases "\<exists>d d'. write_device w devid = Ok d \<and> bl_flush B d = Ok d'")
    case True
    then obtain d d' where d: "write_device w devid = Ok d" "bl_flush B d = Ok d'" by blast
    have c: "cont d' = cont d" using lib d(2) by (simp add: wf_block_lib_def)
    have s: "wp_pool w = [] \<Longrightarrow> write_device w x = Ok d" for x
      using d(1) by (simp add: write_device_def)
    have "pool_disk cont gone (set_device w devid d') = pool_disk cont gone w"
      using c d(1) s by (auto simp: pool_disk_def write_device_set fun_eq_iff)
    then show ?thesis using Cons d by simp
  qed (auto split: sum.splits)
qed simp

lemma flush_writable_disk:
  "wf_block_lib B cont \<Longrightarrow> flush_writable B w = (r, w') \<Longrightarrow> pool_disk cont gone w' = pool_disk cont gone w"
  using flush_devices_disk [of B cont gone "write_devices w" w] by (simp add: flush_writable_def)

section \<open>The plan\<close>

abbreviation (input) ROOT_ITEM_LAST_SNAPSHOT :: nat where "ROOT_ITEM_LAST_SNAPSHOT \<equiv> 200"

definition last_snapshot_visit :: "u64 \<Rightarrow> u64 option visitor" where
  "last_snapshot_visit root key data found =
     (if key_type key = ROOT_ITEM_KEY \<and> ROOT_ITEM_BYTENR + 8 \<le> length data \<and> le64 data ROOT_ITEM_BYTENR = root then
        (Ok False, if ROOT_ITEM_LAST_SNAPSHOT + 8 \<le> length data then Some (le64 data ROOT_ITEM_LAST_SNAPSHOT) else None)
      else (Ok True, found))"

definition fs_tree_last_snapshot :: "filesystem \<Rightarrow> u64 result" where
  "fs_tree_last_snapshot fs =
     try_in (scan (pool_tree fs) (sb_root (fs_sb fs)) (last_snapshot_visit (fs_tree_root fs)) None)
       (ok_or (UnsupportedFeature ''the root tree holds no readable ROOT_ITEM for this subvolume''))"

definition covers_pos :: "u64 \<Rightarrow> file_extent \<Rightarrow> bool" where
  "covers_pos pos p \<longleftrightarrow> fx_start p \<le> pos \<and> pos < fx_start p + fx_len p"

lemma covers_pos_unat:
  assumes c: "covers_pos pos p"
  shows "unat (pos - fx_start p) = unat pos - unat (fx_start p)" and "unat (fx_start p) \<le> unat pos"
    and "unat pos < unat (fx_start p) + unat (fx_len p)" and "unat (fx_start p) + unat (fx_len p) < 2 ^ 64"
    and "unat (fx_len p - (pos - fx_start p)) = unat (fx_start p) + unat (fx_len p) - unat pos"
proof -
  have le: "unat (fx_start p) \<le> unat pos" "unat pos < unat (fx_start p + fx_len p)"
    using c by (simp_all add: covers_pos_def word_le_nat_alt word_less_nat_alt)
  have s: "unat (fx_start p + fx_len p) \<le> unat (fx_start p) + unat (fx_len p)" by (simp add: unat_word_ariths)
  show "unat (fx_start p) + unat (fx_len p) < 2 ^ 64"
  proof (rule ccontr)
    assume "\<not> unat (fx_start p) + unat (fx_len p) < 2 ^ 64"
    then have "unat (fx_start p + fx_len p) = unat (fx_start p) + unat (fx_len p) - 2 ^ 64"
      using unat_u64 [of "fx_start p"] unat_u64 [of "fx_len p"] by (simp add: unat_word_ariths mod_if)
    then show False using le unat_u64 [of "fx_len p"] by simp
  qed
  show w: "unat (pos - fx_start p) = unat pos - unat (fx_start p)"
    using le by (simp add: unat_sub_le word_le_nat_alt)
  show "unat (fx_len p - (pos - fx_start p)) = unat (fx_start p) + unat (fx_len p) - unat pos"
    using le s w by (simp add: unat_sub_le word_le_nat_alt)
  show "unat (fx_start p) \<le> unat pos" "unat pos < unat (fx_start p) + unat (fx_len p)" using le s by simp_all
qed

text \<open>The loop: \<open>at\<close> is what it calls \<open>done\<close>.\<close>

function plan_loop :: "filesystem \<Rightarrow> file_extent list \<Rightarrow> u64 \<Rightarrow> u64 \<Rightarrow> nat \<Rightarrow> nat \<Rightarrow> (u64 \<times> nat) list result" where
  "plan_loop fs pieces last_snapshot offset len at =
     (if at < len then
        let pos = offset + of_nat at in
        case find (covers_pos pos) pieces of
          None \<Rightarrow> Err (UnsupportedFeature ''the offset is a hole, and filling it would allocate'')
        | Some piece \<Rightarrow>
            if fx_compressed piece then Err (UnsupportedFeature ''the offset is in a compressed extent'')
            else case fx_logical piece of
              None \<Rightarrow> Err (UnsupportedFeature ''the offset is inline or preallocated'')
            | Some logical \<Rightarrow>
                try_in (extent_item fs (fx_extent_start piece)) (\<lambda>(refs, extent_len, generation).
                if \<not> window_inside_extent logical (fx_len piece) (fx_extent_start piece) extent_len then
                  Err (UnsupportedFeature ''the offset maps outside the extent the extent tree records'')
                else if refs \<noteq> 1 then Err (UnsupportedFeature ''the extent has other references'')
                else if generation \<le> last_snapshot then
                  Err (UnsupportedFeature ''a snapshot may still be reading the extent'')
                else
                  try_in (plan_loop fs pieces last_snapshot offset len
                      (at + min (unat (fx_len piece - (pos - fx_start piece))) (len - at))) (\<lambda>rest.
                  Ok ((logical + (pos - fx_start piece), min (unat (fx_len piece - (pos - fx_start piece))) (len - at)) # rest)))
      else Ok [])"
  by pat_completeness auto

termination
proof (relation "measure (\<lambda>(fs, pieces, last_snapshot, offset, len, at). len - at)", goal_cases)
  case (2 fs pieces last_snapshot offset len at pos piece)
  then have "covers_pos pos piece" by (auto simp: find_Some_iff)
  from covers_pos_unat [OF this] have "0 < unat (fx_len piece - (pos - fx_start piece))"
    by simp
  then show ?case using 2(1) by auto
qed simp

declare plan_loop.simps [simp del]

definition plan_nodatacow_write :: "codecs \<Rightarrow> filesystem \<Rightarrow> u64 \<Rightarrow> u64 \<Rightarrow> nat \<Rightarrow> (u64 \<times> nat) list fs_op" where
  "plan_nodatacow_write C fs ino offset len =
     fs_bind (file_extents C fs ino) (\<lambda>pieces.
     fs_bind (fs_return (fs_tree_last_snapshot fs)) (\<lambda>last_snapshot.
     fs_return (plan_loop fs pieces last_snapshot offset len 0)))"

definition plan_write_at :: "codecs \<Rightarrow> filesystem \<Rightarrow> u64 \<Rightarrow> u64 \<Rightarrow> nat \<Rightarrow> (u64 \<times> nat) list fs_op" where
  "plan_write_at C fs ino offset len =
     fs_bind (read_inode fs ino) (\<lambda>inode.
     if \<not> is_regular_file inode then fs_return (Err NotAFile)
     else
       fs_bind (fs_return (refuse_mutation (in_flags inode))) (\<lambda>_.
       if in_flags inode AND INODE_NODATACOW = 0 then fs_return (Err (UnsupportedFeature ''inode is copy-on-write''))
       else if in_flags inode AND INODE_NODATASUM = 0 then
         fs_return (Err (UnsupportedFeature ''inode is nodatacow but still checksummed''))
       else
         fs_bind (fs_return (ok_or (UnsupportedFeature ''write range overflows'') (checked_add offset (of_nat len)))) (\<lambda>end_at.
         if end_at > in_size inode then fs_return (Err (UnsupportedFeature ''writing would grow the file''))
         else plan_nodatacow_write C fs ino offset len)))"

section \<open>The write\<close>

text \<open>Both loops over the plan: finding every place, and writing.\<close>

fun find_places :: "'d block_lib \<Rightarrow> 'd write_pool \<Rightarrow> chunk_table \<Rightarrow> (u64 \<times> nat) list \<Rightarrow> unit result" where
  "find_places B w cs [] = Ok ()"
| "find_places B w cs ((logical, len) # plan) =
     try_in (mirror_spans B w cs logical len) (\<lambda>_. find_places B w cs plan)"

fun write_plan ::
  "'d block_lib \<Rightarrow> chunk_table \<Rightarrow> bytes \<Rightarrow> (u64 \<times> nat) list \<Rightarrow> 'd write_pool \<Rightarrow> unit result \<times> 'd write_pool" where
  "write_plan B cs data [] w = (Ok (), w)"
| "write_plan B cs data ((logical, len) # plan) w =
     (case write_logical_all_mirrors B cs logical (take len data) w of
        (Inl e, w) \<Rightarrow> (Err e, w)
      | (Inr _, w) \<Rightarrow> write_plan B cs (drop len data) plan w)"

definition fs_write_at ::
  "'d block_lib \<Rightarrow> codecs \<Rightarrow> Superblock.block_read \<Rightarrow> filesystem \<Rightarrow> u64 \<Rightarrow> u64 \<Rightarrow> bytes \<Rightarrow>
    node_cache \<Rightarrow> 'd write_pool \<Rightarrow> nat result \<times> node_cache \<times> 'd write_pool" where
  "fs_write_at B C dev fs ino offset data c w =
     (case require_writable dev fs w of
        Inl e \<Rightarrow> (Err e, c, w)
      | Inr _ \<Rightarrow>
          if data = [] then (Ok 0, c, w)
          else
            case plan_write_at C fs ino offset (length data) c of
              (Inl e, c) \<Rightarrow> (Err e, c, w)
            | (Inr plan, c) \<Rightarrow>
                (case find_places B w (fs_map fs) plan of
                   Inl e \<Rightarrow> (Err e, c, w)
                 | Inr _ \<Rightarrow>
                     (case write_plan B (fs_map fs) data plan w of
                        (Inl e, w) \<Rightarrow> (Err e, c, w)
                      | (Inr _, w) \<Rightarrow>
                          (case flush_writable B w of
                             (Inl e, w) \<Rightarrow> (Err e, c, w)
                           | (Inr _, w) \<Rightarrow> (Ok (sum_list (map snd plan)), c, w)))))"

text \<open>The same question asked of a whole file, without an offset.\<close>

fun all_rewritable :: "filesystem \<Rightarrow> u64 \<Rightarrow> file_extent list \<Rightarrow> bool result" where
  "all_rewritable fs last_snapshot [] = Ok True"
| "all_rewritable fs last_snapshot (piece # pieces) =
     (case fx_logical piece of
        None \<Rightarrow> Ok False
      | Some logical \<Rightarrow>
          if fx_compressed piece then Ok False
          else
            try_in (extent_item fs (fx_extent_start piece)) (\<lambda>(refs, extent_len, generation).
            if refs \<noteq> 1 \<or> generation \<le> last_snapshot \<or>
              \<not> window_inside_extent logical (fx_len piece) (fx_extent_start piece) extent_len
            then Ok False else all_rewritable fs last_snapshot pieces))"

definition can_write_in_place :: "codecs \<Rightarrow> filesystem \<Rightarrow> u64 \<Rightarrow> bool fs_op" where
  "can_write_in_place C fs ino =
     fs_bind (read_inode fs ino) (\<lambda>inode.
     if \<not> is_regular_file inode \<or> in_flags inode AND INODE_RO_VERITY \<noteq> 0 then fs_return (Ok False)
     else if in_flags inode AND (INODE_NODATACOW OR INODE_NODATASUM) \<noteq> INODE_NODATACOW OR INODE_NODATASUM then
       fs_return (Ok False)
     else
       fs_bind (fs_return (fs_tree_last_snapshot fs)) (\<lambda>last_snapshot.
       \<lambda>c. case file_extents C fs ino c of
             (Inr pieces, c) \<Rightarrow> (all_rewritable fs last_snapshot pieces, c)
           | (Inl (BadSuperblock _), c) \<Rightarrow> (Ok False, c)
           | (Inl e, c) \<Rightarrow> (Err e, c)))"

section \<open>What a plan holds\<close>

text \<open>The address the \<open>i\<close>-th byte of the write goes to.\<close>

fun plan_addr :: "(u64 \<times> nat) list \<Rightarrow> nat \<Rightarrow> u64" where
  "plan_addr [] i = 0"
| "plan_addr ((logical, len) # plan) i = (if i < len then logical + of_nat i else plan_addr plan (i - len))"

text \<open>
  A place that is the file's own at a position: where a piece over the position has it, inside an
  extent with one reference that no snapshot can read.
\<close>

definition owned :: "filesystem \<Rightarrow> file_extent list \<Rightarrow> u64 \<Rightarrow> u64 \<Rightarrow> u64 \<Rightarrow> bool" where
  "owned fs pieces last_snapshot pos place \<longleftrightarrow>
     (\<exists>piece \<in> set pieces. \<exists>logical extent_len generation.
        covers_pos pos piece \<and> \<not> fx_compressed piece \<and> fx_logical piece = Some logical \<and>
        place = logical + (pos - fx_start piece) \<and>
        extent_item fs (fx_extent_start piece) = Ok (1, extent_len, generation) \<and> last_snapshot < generation \<and>
        unat (fx_extent_start piece) \<le> unat place \<and> unat place < unat (fx_extent_start piece) + unat extent_len)"

text \<open>A window of the plan lies in one extent.\<close>

definition in_extent :: "filesystem \<Rightarrow> u64 \<times> nat \<Rightarrow> bool" where
  "in_extent fs x \<longleftrightarrow>
     (\<exists>start refs extent_len generation. extent_item fs start = Ok (refs, extent_len, generation) \<and> 0 < snd x \<and>
        unat start \<le> unat (fst x) \<and> unat (fst x) + snd x \<le> unat start + unat extent_len \<and>
        unat start + unat extent_len < 2 ^ 64)"

lemma window_inside:
  "window_inside_extent logical len start extent_len \<longleftrightarrow>
     unat logical + unat len < 2 ^ 64 \<and> unat start + unat extent_len < 2 ^ 64 \<and> unat start \<le> unat logical \<and>
     unat logical + unat len \<le> unat start + unat extent_len"
  by (auto simp: window_inside_extent_def checked_add_def unat_add_small word_le_nat_alt split: option.splits)

lemma window_insideD:
  assumes "window_inside_extent logical len start extent_len"
  shows "unat logical + unat len < 2 ^ 64" and "unat start + unat extent_len < 2 ^ 64" and "unat start \<le> unat logical"
    and "unat logical + unat len \<le> unat start + unat extent_len"
  using assms by (simp_all add: window_inside)

lemma owned_in_piece:
  assumes p: "piece \<in> set pieces" "\<not> fx_compressed piece" "fx_logical piece = Some logical"
    and e: "extent_item fs (fx_extent_start piece) = Ok (1, extent_len, generation)" "last_snapshot < generation"
    and w: "window_inside_extent logical (fx_len piece) (fx_extent_start piece) extent_len"
    and c: "covers_pos pos piece" and i: "i < unat (fx_len piece - (pos - fx_start piece))"
  shows "owned fs pieces last_snapshot (pos + of_nat i) (logical + (pos - fx_start piece) + of_nat i)"
proof -
  note u = covers_pos_unat [OF c]
  have ib: "i < 18446744073709551616" using i unat_u64 [of "fx_len piece - (pos - fx_start piece)"] by linarith
  then have ui: "unat (of_nat i :: u64) = i" by (simp add: unat_of_nat_u64)
  have pi: "unat (pos + of_nat i) = unat pos + i"
  proof -
    have "unat pos + unat (of_nat i :: u64) < 2 ^ LENGTH(64)" unfolding ui using u i by simp
    from unat_add_small [OF this] show ?thesis unfolding ui .
  qed
  have st: "unat (fx_start piece + fx_len piece) = unat (fx_start piece) + unat (fx_len piece)"
    using u by (simp add: unat_add_small)
  have cp: "covers_pos (pos + of_nat i) piece"
    using u i by (simp add: covers_pos_def word_le_nat_alt word_less_nat_alt pi st)
  note u' = covers_pos_unat [OF cp]
  have pl: "unat (logical + (pos + of_nat i - fx_start piece)) = unat logical + (unat pos + i - unat (fx_start piece))"
    using u u' i window_insideD(1) [OF w] by (simp add: unat_add_small pi)
  have eq: "logical + (pos - fx_start piece) + of_nat i = logical + (pos + of_nat i - fx_start piece)" by (simp add: algebra_simps)
  have "unat (fx_extent_start piece) \<le> unat (logical + (pos + of_nat i - fx_start piece))"
    "unat (logical + (pos + of_nat i - fx_start piece)) < unat (fx_extent_start piece) + unat extent_len"
    unfolding pl using u i window_insideD [OF w] by linarith+
  then show ?thesis unfolding owned_def eq using p e cp by blast
qed

lemma plan_loop_owned:
  "plan_loop fs pieces last_snapshot offset len at = Ok plan \<Longrightarrow> at \<le> len \<Longrightarrow>
     sum_list (map snd plan) = len - at \<and> (\<forall>x \<in> set plan. in_extent fs x) \<and>
     (\<forall>i < len - at. owned fs pieces last_snapshot (offset + of_nat (at + i)) (plan_addr plan i))"
proof (induction fs pieces last_snapshot offset len at arbitrary: plan rule: plan_loop.induct)
  case (1 fs pieces last_snapshot offset len at)
  show ?case
  proof (cases "at < len")
    case False
    have "plan = []" using "1.prems"(1) False unfolding plan_loop.simps [of fs pieces last_snapshot offset len at] by simp
    then show ?thesis using False "1.prems"(2) by simp
  next
    case lt: True
    define pos where "pos = offset + of_nat at"
    note ok = "1.prems"(1) [unfolded plan_loop.simps [of fs pieces last_snapshot offset len at] Let_def, folded pos_def]
    from ok lt obtain piece where f: "find (covers_pos pos) pieces = Some piece" by (auto split: option.splits)
    from ok lt f obtain logical where nc: "\<not> fx_compressed piece" and lg: "fx_logical piece = Some logical"
      by (auto split: if_splits option.splits)
    define within where "within = pos - fx_start piece"
    define k where "k = min (unat (fx_len piece - within)) (len - at)"
    from ok lt f nc lg obtain extent_len generation rest where
      e: "extent_item fs (fx_extent_start piece) = Ok (1, extent_len, generation)" "last_snapshot < generation"
      and w: "window_inside_extent logical (fx_len piece) (fx_extent_start piece) extent_len"
      and rest: "plan_loop fs pieces last_snapshot offset len (at + k) = Ok rest"
      and plan: "plan = (logical + within, k) # rest"
      by (auto simp: try_in_eq_Ok within_def k_def not_le split: if_splits)
    have c: "covers_pos pos piece" and mem: "piece \<in> set pieces" using f by (auto simp: find_Some_iff)
    note u = covers_pos_unat [OF c, folded within_def]
    have k0: "0 < k" "k \<le> len - at" "k \<le> unat (fx_len piece - within)" using u lt by (auto simp: k_def)
    have IH: "sum_list (map snd rest) = len - (at + k) \<and> (\<forall>x \<in> set rest. in_extent fs x) \<and>
      (\<forall>i < len - (at + k). owned fs pieces last_snapshot (offset + of_nat (at + k + i)) (plan_addr rest i))"
      using "1.IH" [OF lt pos_def f nc lg e(1) refl refl] w e(2) rest k0 lt
      by (simp add: not_le within_def k_def)
    have here: "unat (logical + within) = unat logical + unat within"
      using u window_insideD(1) [OF w] by (simp add: unat_add_small)
    have "in_extent fs (logical + within, k)"
      unfolding in_extent_def using e(1) k0 window_insideD [OF w] u here
      by (intro exI [of _ "fx_extent_start piece"] exI [of _ 1] exI [of _ extent_len] exI [of _ generation]) auto
    moreover have "owned fs pieces last_snapshot (offset + of_nat (at + i)) (plan_addr plan i)" if "i < len - at" for i
    proof (cases "i < k")
      case True
      then have "owned fs pieces last_snapshot (pos + of_nat i) (plan_addr plan i)"
        using owned_in_piece [OF mem nc lg e w c, of i] k0(3) by (simp add: plan within_def)
      moreover have "offset + of_nat (at + i) = pos + of_nat i" by (simp add: pos_def add.assoc)
      ultimately show ?thesis by (simp only:)
    next
      case False
      then have "i - k < len - (at + k)" "at + k + (i - k) = at + i" using that by auto
      then show ?thesis using IH False by (metis plan plan_addr.simps(2))
    qed
    ultimately show ?thesis using IH k0 by (simp add: plan)
  qed
qed

section \<open>What a write leaves\<close>

text \<open>The image after the windows of a plan are written in turn.\<close>

fun plan_image :: "(u64 \<Rightarrow> u8) \<Rightarrow> (u64 \<times> nat) list \<Rightarrow> bytes \<Rightarrow> u64 \<Rightarrow> u8" where
  "plan_image img [] data = img"
| "plan_image img ((logical, len) # plan) data = plan_image (put_image img logical (take len data)) plan (drop len data)"

definition extents_in_chunks :: "filesystem \<Rightarrow> bool" where
  "extents_in_chunks fs \<longleftrightarrow>
     (\<forall>start refs extent_len generation. extent_item fs start = Ok (refs, extent_len, generation) \<longrightarrow> 0 < extent_len \<longrightarrow>
        (\<exists>c \<in> set (fs_map fs). in_chunk c start (unat extent_len)))"

lemma in_extent_in_chunk:
  assumes "extents_in_chunks fs" and "in_extent fs (l, n)"
  shows "\<exists>c \<in> set (fs_map fs). in_chunk c l n"
proof -
  obtain start refs el gen where e: "extent_item fs start = Ok (refs, el, gen)" "0 < n" "unat start \<le> unat l"
    "unat l + n \<le> unat start + unat el"
    using assms(2) by (auto simp: in_extent_def)
  then have "0 < el" by (auto simp: word_less_nat_alt)
  then obtain c where c: "c \<in> set (fs_map fs)" "in_chunk c start (unat el)"
    using assms(1) e(1) unfolding extents_in_chunks_def by blast
  then show ?thesis using e by (intro bexI [of _ c]) (auto simp: in_chunk_def covers_def)
qed

lemma in_extent_fits: "in_extent fs (l, n) \<Longrightarrow> unat l + n < 2 ^ 64"
  by (auto simp: in_extent_def)

lemma plan_image_other:
  assumes "\<forall>x \<in> set plan. unat (fst x) + snd x < 2 ^ 64" and "sum_list (map snd plan) = length data"
    and "\<And>i. i < length data \<Longrightarrow> plan_addr plan i \<noteq> l"
  shows "plan_image img plan data l = img l"
  using assms
proof (induction plan arbitrary: img data)
  case (Cons x plan)
  obtain a n where x: "x = (a, n)" by fastforce
  have n: "n \<le> length data" "unat a + n < 2 ^ 64" using Cons.prems(1,2) by (simp_all add: x)
  have "put_image img a (take n data) l = img l"
  proof (rule ccontr)
    assume "put_image img a (take n data) l \<noteq> img l"
    then have i: "unat a \<le> unat l" "unat l < unat a + n" using n by (auto simp: put_image_def split: if_splits)
    then have "plan_addr (x # plan) (unat l - unat a) = l"
    proof -
      define k where "k = unat l - unat a"
      have k: "unat a + k = unat l" "k < n" using i by (auto simp: k_def)
      from arg_cong [OF k(1), of "of_nat :: nat \<Rightarrow> u64"] have "a + of_nat k = l" by simp
      then show ?thesis using k(2) by (simp add: x flip: k_def)
    qed
    then show False using Cons.prems(3) [of "unat l - unat a"] i n by simp
  qed
  moreover have "plan_image (put_image img a (take n data)) plan (drop n data) l = put_image img a (take n data) l"
  proof (rule Cons.IH)
    show "sum_list (map snd plan) = length (drop n data)" using Cons.prems(2) by (simp add: x)
  next
    fix i
    assume "i < length (drop n data)"
    then show "plan_addr plan i \<noteq> l" using Cons.prems(3) [of "n + i"] by (simp add: x)
  qed (use Cons.prems(1) in simp)
  ultimately show ?case by (simp add: x)
qed simp

lemma plan_image_byte:
  assumes "\<forall>x \<in> set plan. unat (fst x) + snd x < 2 ^ 64" and "sum_list (map snd plan) = length data"
    and "inj_on (plan_addr plan) {..<length data}" and "i < length data"
  shows "plan_image img plan data (plan_addr plan i) = data ! i"
  using assms
proof (induction plan arbitrary: img data i)
  case (Cons x plan)
  obtain a n where x: "x = (a, n)" by fastforce
  have n: "n \<le> length data" "unat a + n < 2 ^ 64" using Cons.prems(1,2) by (simp_all add: x)
  have rest: "\<forall>x \<in> set plan. unat (fst x) + snd x < 2 ^ 64" "sum_list (map snd plan) = length (drop n data)"
    using Cons.prems(1,2) by (simp_all add: x)
  have tl: "plan_addr plan j = plan_addr (x # plan) (n + j)" for j by (simp add: x)
  show ?case
  proof (cases "i < n")
    case True
    have "plan_addr plan j \<noteq> plan_addr (x # plan) i" if "j < length (drop n data)" for j
    proof
      assume e: "plan_addr plan j = plan_addr (x # plan) i"
      have "n + j < length data" using that by simp
      then have "n + j = i" using inj_onD [OF Cons.prems(3), of "n + j" i] e Cons.prems(4) by (simp add: tl)
      then show False using True by simp
    qed
    then have "plan_image (put_image img a (take n data)) plan (drop n data) (plan_addr (x # plan) i) =
        put_image img a (take n data) (plan_addr (x # plan) i)"
      by (intro plan_image_other rest) auto
    moreover have "unat (a + of_nat i) = unat a + i"
    proof -
      have ui: "unat (of_nat i :: u64) = i" using True n by (intro unat_of_nat_u64) simp
      have "unat a + unat (of_nat i :: u64) < 2 ^ LENGTH(64)" unfolding ui using True n by simp
      from unat_add_small [OF this] show ?thesis unfolding ui .
    qed
    ultimately show ?thesis using True n by (simp add: x put_image_def)
  next
    case False
    have "inj_on (plan_addr plan) {..<length (drop n data)}"
    proof (rule inj_onI)
      fix j k
      assume "j \<in> {..<length (drop n data)}" "k \<in> {..<length (drop n data)}" "plan_addr plan j = plan_addr plan k"
      then show "j = k" using inj_onD [OF Cons.prems(3), of "n + j" "n + k"] by (simp add: tl)
    qed
    from Cons.IH [OF rest this, of "i - n"] show ?thesis using False Cons.prems(4) by (simp add: x)
  qed
qed simp

text \<open>Writing replaces devices of the pool by themselves with other contents.\<close>

lemma write_at_pool: "write_at B w devid p b = (r, w') \<Longrightarrow> wp_pool w' = [] \<longleftrightarrow> wp_pool w = []"
  by (auto simp: write_at_def set_device_def AList.update_nonempty split: sum.splits if_splits)

lemma write_spans_pool: "write_spans B buf spans w = (r, w') \<Longrightarrow> wp_pool w' = [] \<longleftrightarrow> wp_pool w = []"
  by (induction B buf spans w rule: write_spans.induct) (auto split: prod.splits sum.splits dest: write_at_pool)

lemma write_elements_pool: "write_elements B ws w = (r, w') \<Longrightarrow> wp_pool w' = [] \<longleftrightarrow> wp_pool w = []"
  by (induction B ws w rule: write_elements.induct) (auto split: prod.splits sum.splits dest: write_at_pool)

lemma write_stripes_pool: "write_stripes B c full logical buf finish at w = (r, w') \<Longrightarrow> wp_pool w' = [] \<longleftrightarrow> wp_pool w = []"
proof (induction B c full logical buf finish at w rule: write_stripes.induct)
  case (1 B c full logical buf finish at w)
  show ?case
    using "1.IH" "1.prems" [unfolded write_stripes.simps [of B c full logical buf finish at w] Let_def]
    by (auto split: if_splits sum.splits prod.splits dest!: write_elements_pool)
qed

lemma write_mirrors_pool: "write_logical_all_mirrors B cs l buf w = (r, w') \<Longrightarrow> wp_pool w' = [] \<longleftrightarrow> wp_pool w = []"
  by (auto simp: write_logical_all_mirrors_def write_parity_def split: option.splits sum.splits if_splits
      dest: write_spans_pool write_stripes_pool)

lemma write_plan_image:
  assumes lib: "wf_block_lib B cont" and lay: "layout_ok (fs_map fs)" and inch: "extents_in_chunks fs"
  shows "volume_ok (pool_disk cont gone w) (fs_map fs) img \<Longrightarrow> devices_known w (map_devices (fs_map fs)) \<Longrightarrow>
    \<forall>x \<in> set plan. in_extent fs x \<Longrightarrow> sum_list (map snd plan) = length data \<Longrightarrow>
    write_plan B (fs_map fs) data plan w = (Ok (), w') \<Longrightarrow>
    volume_ok (pool_disk cont gone w') (fs_map fs) (plan_image img plan data)"
proof (induction plan arbitrary: w img data)
  case (Cons x plan)
  obtain l n where x: "x = (l, n)" by fastforce
  have ln: "length (take n data) = n" using Cons.prems(4) by (simp add: x)
  obtain c where c: "c \<in> set (fs_map fs)" "in_chunk c l (length (take n data))"
    using in_extent_in_chunk [OF inch, of l n] Cons.prems(3) unfolding ln by (auto simp: x)
  obtain w1 where w1: "write_logical_all_mirrors B (fs_map fs) l (take n data) w = (Ok (), w1)"
    and rest: "write_plan B (fs_map fs) (drop n data) plan w1 = (Ok (), w')"
    using Cons.prems(5) by (auto simp: x split: prod.splits sum.splits)
  have v: "volume_ok (pool_disk cont gone w1) (fs_map fs) (put_image img l (take n data))"
    by (rule write_image [OF lib Cons.prems(1) lay c Cons.prems(2) w1])
  have dk: "devices_known w1 (map_devices (fs_map fs))"
    using Cons.prems(2) write_mirrors_pool [OF w1] by (simp add: devices_known_def)
  show ?case
    using Cons.IH [OF v dk _ _ rest] Cons.prems(3,4) by (simp add: x)
qed simp

text \<open>The plan in terms of the items of the tree.\<close>

definition plan_in :: "codecs \<Rightarrow> filesystem \<Rightarrow> leaf_item list \<Rightarrow> u64 \<Rightarrow> u64 \<Rightarrow> nat \<Rightarrow> (u64 \<times> nat) list result" where
  "plan_in C fs kvs ino offset len =
     try_in (inode_in kvs ino) (\<lambda>inode.
     if \<not> is_regular_file inode then Err NotAFile
     else
       try_in (refuse_mutation (in_flags inode)) (\<lambda>_.
       if in_flags inode AND INODE_NODATACOW = 0 then Err (UnsupportedFeature ''inode is copy-on-write'')
       else if in_flags inode AND INODE_NODATASUM = 0 then
         Err (UnsupportedFeature ''inode is nodatacow but still checksummed'')
       else
         try_in (ok_or (UnsupportedFeature ''write range overflows'') (checked_add offset (of_nat len))) (\<lambda>end_at.
         if end_at > in_size inode then Err (UnsupportedFeature ''writing would grow the file'')
         else
           try_in (file_extents_loop C fs ino (filter (in_run ino EXTENT_DATA_KEY) kvs)) (\<lambda>pieces.
           try_in (fs_tree_last_snapshot fs) (\<lambda>last_snapshot.
           plan_loop fs pieces last_snapshot offset len 0)))))"

lemma yields_plan_write_at:
  assumes t: "fs_holds fs t"
  shows "yields fs (plan_write_at C fs ino offset len) (plan_in C fs (inorder t) ino offset len)"
proof -
  have "yields fs (file_extents C fs ino) (file_extents_loop C fs ino (filter (in_run ino EXTENT_DATA_KEY) (inorder t)))"
    using yields_bind [OF yields_item_run [OF t] yields_return, of ino EXTENT_DATA_KEY] by (simp add: file_extents_def)
  then show ?thesis
    unfolding plan_write_at_def plan_nodatacow_write_def plan_in_def
    by (intro yields_bind yields_if yields_return yields_read_inode [OF t])
qed

lemma plan_write_at_Ok:
  assumes t: "fs_holds fs t" and c: "fs_cache_ok fs c" and ok: "plan_write_at C fs ino offset len c = (Ok plan, c')"
    and len: "len < 2 ^ 64"
  shows "\<exists>inode pieces last_snapshot.
    inode_in (inorder t) ino = Ok inode \<and> in_flags inode AND INODE_NODATACOW \<noteq> 0 \<and> in_flags inode AND INODE_NODATASUM \<noteq> 0 \<and>
    unat offset + len \<le> unat (in_size inode) \<and>
    file_extents_loop C fs ino (filter (in_run ino EXTENT_DATA_KEY) (inorder t)) = Ok pieces \<and>
    fs_tree_last_snapshot fs = Ok last_snapshot \<and> plan_loop fs pieces last_snapshot offset len 0 = Ok plan"
proof -
  have pure: "plan_in C fs (inorder t) ino offset len = Ok plan"
    using yields_plan_write_at [OF t, of C ino offset len] c ok by (auto simp: yields_def)
  have u: "unat (of_nat len :: u64) = len" using len by (simp add: unat_of_nat_u64)
  show ?thesis
    using pure unfolding plan_in_def
    by (auto simp: try_in_eq_Ok ok_or_eq_Ok checked_add_Some unat_add_small u word_le_nat_alt not_le not_less
        simp del: unsigned_of_nat split: if_splits)
qed

lemma fs_write_at_Ok:
  assumes "fs_write_at B C dev fs ino offset data c w = (Ok n, c', w')" and "data \<noteq> []"
  shows "\<exists>plan v. plan_write_at C fs ino offset (length data) c = (Ok plan, c') \<and>
    write_plan B (fs_map fs) data plan w = (Ok (), v) \<and> flush_writable B v = (Ok (), w') \<and> n = sum_list (map snd plan)"
  using assms by (auto simp: fs_write_at_def split: sum.splits prod.splits)

text \<open>
  C40. A write in place lands on the file's own bytes and on no others. When a write to a file succeeds,
  the file is one without copy-on-write and without checksums and does not grow; every byte goes to
  the address where the file's extents have its position, inside an extent that the extent tree records
  with a single reference and from a generation after the last snapshot; the volume stays consistent,
  every copy and parity included, and shows the new bytes at those addresses and what it showed before
  everywhere else.
\<close>
theorem in_place_write_lands:
  assumes "wf_block_lib B cont" and "volume_ok (pool_disk cont gone w) (fs_map fs) img" and "layout_ok (fs_map fs)"
    and "devices_known w (map_devices (fs_map fs))" and "extents_in_chunks fs"
    and "fs_holds fs t" and "fs_cache_ok fs c" and "data \<noteq> []" and "length data < 2 ^ 64"
    and "fs_write_at B C dev fs ino offset data c w = (Ok n, c', w')"
  shows "n = length data \<and> (\<exists>inode pieces last_snapshot place img'.
    inode_in (inorder t) ino = Ok inode \<and> in_flags inode AND INODE_NODATACOW \<noteq> 0 \<and> in_flags inode AND INODE_NODATASUM \<noteq> 0 \<and>
    unat offset + length data \<le> unat (in_size inode) \<and>
    file_extents_loop C fs ino (filter (in_run ino EXTENT_DATA_KEY) (inorder t)) = Ok pieces \<and>
    fs_tree_last_snapshot fs = Ok last_snapshot \<and>
    (\<forall>i < length data. owned fs pieces last_snapshot (offset + of_nat i) (place i)) \<and>
    volume_ok (pool_disk cont gone w') (fs_map fs) img' \<and>
    (\<forall>l. l \<notin> place ` {..<length data} \<longrightarrow> img' l = img l) \<and>
    (inj_on place {..<length data} \<longrightarrow> (\<forall>i < length data. img' (place i) = data ! i)))"
proof -
  obtain plan v where plan: "plan_write_at C fs ino offset (length data) c = (Ok plan, c')"
    and wr: "write_plan B (fs_map fs) data plan w = (Ok (), v)" and fl: "flush_writable B v = (Ok (), w')" and n: "n = sum_list (map snd plan)"
    using fs_write_at_Ok [OF assms(10,8)] by blast
  obtain inode pieces last_snapshot where i: "inode_in (inorder t) ino = Ok inode" "in_flags inode AND INODE_NODATACOW \<noteq> 0"
    "in_flags inode AND INODE_NODATASUM \<noteq> 0" "unat offset + length data \<le> unat (in_size inode)"
    "file_extents_loop C fs ino (filter (in_run ino EXTENT_DATA_KEY) (inorder t)) = Ok pieces"
    "fs_tree_last_snapshot fs = Ok last_snapshot" "plan_loop fs pieces last_snapshot offset (length data) 0 = Ok plan"
    using plan_write_at_Ok [OF assms(6,7) plan assms(9)] by blast
  have o: "sum_list (map snd plan) = length data" "\<forall>x \<in> set plan. in_extent fs x"
    "\<forall>i < length data. owned fs pieces last_snapshot (offset + of_nat i) (plan_addr plan i)"
    using plan_loop_owned [OF i(7)] by simp_all
  have fit: "\<forall>x \<in> set plan. unat (fst x) + snd x < 2 ^ 64"
    using o(2) in_extent_fits [of fs] by (metis prod.collapse)
  have v: "volume_ok (pool_disk cont gone w') (fs_map fs) (plan_image img plan data)"
    unfolding flush_writable_disk [OF assms(1) fl] by (rule write_plan_image [OF assms(1,3,5,2,4) o(2,1) wr])
  have "plan_image img plan data l = img l" if "l \<notin> plan_addr plan ` {..<length data}" for l
    using that by (intro plan_image_other [OF fit o(1)]) auto
  then show ?thesis
    using i(1-6) o v n plan_image_byte [OF fit o(1)]
    by (intro conjI exI [of _ inode] exI [of _ pieces] exI [of _ last_snapshot] exI [of _ "plan_addr plan"]
        exI [of _ "plan_image img plan data"]) auto
qed

section \<open>A file that is written in place\<close>

definition rw_root_item :: bytes where
  "rw_root_item = replicate 176 0 @ u64_bytes 1048576 @ replicate 24 0"

definition rw_inode :: bytes where
  "rw_inode =
     new_inode \<lparr>ni_generation = 7, ni_size = 4096, ni_mode = 0x81A4, ni_uid = 0, ni_gid = 0, ni_flags = 3, ni_now = (0, 0)\<rparr>"

definition rw_extent :: bytes where
  "rw_extent = u64_bytes 7 @ u64_bytes 4096 @ [0, 0, 0, 0, 1] @ u64_bytes 1052672 @ u64_bytes 4096 @ u64_bytes 0 @ u64_bytes 4096"

definition rw_extent_item :: bytes where
  "rw_extent_item = u64_bytes 1 @ u64_bytes 7 @ u64_bytes 1"

definition rw_items :: "leaf_item list" where
  "rw_items =
     [(DiskKey 2 ROOT_ITEM_KEY 0, rw_root_item), (DiskKey 257 INODE_ITEM_KEY 0, rw_inode),
      (DiskKey 257 EXTENT_DATA_KEY 0, rw_extent), (DiskKey 1052672 EXTENT_ITEM 4096, rw_extent_item)]"

lemma rw_lengths: "length rw_root_item = 208" "length rw_inode = 160" "length rw_extent = 53" "length rw_extent_item = 24"
  by (simp_all add: rw_root_item_def rw_inode_def new_inode_reads rw_extent_def rw_extent_item_def)

lemma rw_block:
  obtains block where "build_leaf zero_hash demo_super demo_at rw_items = Ok block"
    and "strictly_sorted (map fst rw_items)"
proof -
  have s: "strictly_sorted (map fst rw_items)"
    by (simp add: rw_items_def less_disk_key_def key_before_def)
  then show thesis
    using that by (simp add: build_leaf_def windows_ordered_iff demo_at_def demo_ident_def demo_super_def
        space_needed_def item_space_def rw_items_def rw_lengths Let_def)
qed

lemma rw_inode_in:
  "\<exists>i. inode_in rw_items 257 = Ok i \<and> in_ino i = 257 \<and> in_size i = 4096 \<and> in_mode i = 0x81A4 \<and> in_flags i = 3"
proof -
  obtain t where t: "\<And>at. at \<in> time_slots \<Longrightarrow> timestamp_parse rw_inode at = Ok t"
    using new_inode_times by (auto simp: rw_inode_def timestamp_parse_def Let_def)
  show ?thesis
    unfolding inode_in_def rw_items_def
    by (simp add: inode_parse_def t time_slots_def) (simp add: rw_inode_def new_inode_reads inode_core_reads)
qed

lemma rw_reads:
  "le64 rw_root_item 176 = 1048576" "le64 rw_root_item 200 = 0" "le64 rw_extent_item 0 = 1" "le64 rw_extent_item 8 = 7"
  "rw_extent ! FE_TYPE = 1" "rw_extent ! FE_COMPRESSION = 0" "rw_extent ! FE_ENCRYPTION = 0" "le16 rw_extent FE_OTHER_ENCODING = 0"
  "le64 rw_extent FE_RAM_BYTES = 4096" "le64 rw_extent FE_DISK_BYTENR = 1052672" "le64 rw_extent FE_DISK_NUM_BYTES = 4096"
  "le64 rw_extent FE_OFFSET = 0" "le64 rw_extent FE_NUM_BYTES = 4096"
  by (simp_all add: rw_root_item_def rw_extent_item_def rw_extent_def le64_def le16_def slice_append_left slice_append_right
      slice_0_full byte_simps nth_append) (simp_all add: slice_def byte_simps numeral_eq_Suc)

lemma rw_fs:
  "sb_root (fs_sb (demo_fs block)) = 1048576" "fs_tree_root (demo_fs block) = 1048576" "fs_map (demo_fs block) = [single_chunk]"
  "sb_sectorsize (fs_sb (demo_fs block)) = 4096" "fs_hash (demo_fs block) = zero_hash" "sb_generation (fs_sb (demo_fs block)) = 7"
  by (simp_all add: demo_fs_def demo_super_def)

lemma pool_find_all:
  assumes "stored (read_uncached (pool_tree fs :: unit tree)) None lvl t" and "sorted_tree t"
  shows "fst (find_all (pool_tree fs :: unit tree) (addr t) oid kt ()) = Ok (filter (in_run oid kt) (inorder t))"
  using uncached.find_all_stored [of "pool_tree fs :: unit tree", folded pool_tree_uncached, OF assms, where c = "()" and oid = oid and kt = kt] by force

lemma rw_scan:
  assumes "build_leaf zero_hash demo_super demo_at rw_items = Ok block" and "strictly_sorted (map fst rw_items)"
  shows "scan (pool_tree (demo_fs block)) 1048576 visit v = (let (r, v') = visit_list visit rw_items v in try_in r (\<lambda>_. Ok v'))"
  using scan_stored [OF demo_fs_stored(2) [OF assms], of visit v] assms(2) by (simp add: sorted_tree_def)

lemma rw_extent_item_at:
  assumes b: "build_leaf zero_hash demo_super demo_at rw_items = Ok block" "strictly_sorted (map fst rw_items)"
  shows "extent_item (demo_fs block) l =
    (if l = 1052672 then Ok (1, 4096, 7) else Err (UnsupportedFeature ''the extent tree holds no item for the extent''))"
proof -
  have r: "tree_root (demo_fs block) EXTENT_TREE = Ok 1048576"
    by (simp add: tree_root_def required_root_item_target_def root_item_target_def rw_fs rw_scan [OF b] visit_root_item Let_def)
      (simp add: rw_items_def rw_reads rw_lengths)
  have f: "fst (find_all (pool_tree (demo_fs block) :: unit tree) 1048576 l EXTENT_ITEM ()) = Ok (filter (in_run l EXTENT_ITEM) rw_items)"
    using pool_find_all [OF demo_fs_stored(2) [OF b]] b(2) by (simp add: sorted_tree_def)
  show ?thesis
    unfolding extent_item_def extent_tree_root_def r f try_in_Ok by (simp add: rw_items_def in_run_def rw_reads rw_lengths)
qed

lemma rw_last_snapshot:
  assumes b: "build_leaf zero_hash demo_super demo_at rw_items = Ok block" "strictly_sorted (map fst rw_items)"
  shows "fs_tree_last_snapshot (demo_fs block) = Ok 0"
  by (simp add: fs_tree_last_snapshot_def rw_fs rw_scan [OF b])
    (simp add: rw_items_def last_snapshot_visit_def rw_reads rw_lengths)

lemma rw_decode:
  assumes b: "build_leaf zero_hash demo_super demo_at rw_items = Ok block" "strictly_sorted (map fst rw_items)"
  shows "decode_extent C (demo_fs block) rw_extent = Ok (RegularPiece 1052672 4096)"
proof -
  have "refuse_window_outside_extent (demo_fs block) 1052672 0 4096 = Ok ()"
    by (simp add: refuse_window_outside_extent_def rw_extent_item_at [OF b] window_inside_extent_def checked_add_def)
  then show ?thesis
    by (simp add: decode_extent_def rw_lengths rw_reads rw_fs compression_from_byte_def is_compressed_def Let_def checked_add_def)
qed

lemma rw_plan:
  assumes b: "build_leaf zero_hash demo_super demo_at rw_items = Ok block" "strictly_sorted (map fst rw_items)"
  shows "plan_in C (demo_fs block) rw_items 257 100 3 = Ok [(1052772, 3)]"
proof -
  let ?fs = "demo_fs block"
  let ?p = "\<lparr>fx_start = 0, fx_len = 4096, fx_logical = Some 1052672, fx_extent_start = 1052672, fx_compressed = False,
      fx_ref_offset = 0, fx_inline = False\<rparr>"
  obtain i where i: "inode_in rw_items 257 = Ok i" "in_size i = 4096" "in_mode i = 0x81A4" "in_flags i = 3"
    using rw_inode_in by blast
  have reg: "is_regular_file i" using i(3) by (simp add: is_regular_file_def inode_file_type_def file_type_from_mode_def)
  have fx: "file_extents_loop C ?fs 257 (filter (in_run 257 EXTENT_DATA_KEY) rw_items) = Ok [?p]"
    by (simp add: rw_items_def in_run_def rw_decode [OF b] piece_extent_def rw_reads)
  have fin: "plan_loop ?fs [?p] 0 100 3 3 = Ok []" by (simp add: plan_loop.simps [of _ _ _ _ 3 3])
  have "plan_loop ?fs [?p] 0 100 3 0 = Ok [(1052772, 3)]"
    unfolding plan_loop.simps [of ?fs "[?p]" 0 100 3 0]
    by (simp add: covers_pos_def rw_extent_item_at [OF b] window_inside_extent_def checked_add_def fin)
  then show ?thesis
    by (simp add: plan_in_def i reg fx rw_last_snapshot [OF b] refuse_mutation_def checked_add_def)
qed

lemma rw_chunks:
  assumes b: "build_leaf zero_hash demo_super demo_at rw_items = Ok block" "strictly_sorted (map fst rw_items)"
  shows "extents_in_chunks (demo_fs block)"
  by (auto simp: extents_in_chunks_def rw_extent_item_at [OF b] rw_fs in_chunk_def single_map clen_def split: if_splits)
    (simp add: demo_chunk_def)

definition rw_pool :: "(nat \<Rightarrow> u8) write_pool" where
  "rw_pool = \<lparr>wp_single = Some (\<lambda>_. 0), wp_pool = []\<rparr>"

lemma rw_places:
  "mirror_spans demo_lib rw_pool [single_chunk] 1052772 3 = Ok [(1, 1052772, 0, 3)]"
proof -
  have ch: "chunk_for [single_chunk] 1052772 = Some single_chunk" by (rule single_for) simp
  have "chunk_map_mirror single_chunk 1052772 0 = Ok \<lparr>mp_devid = 1, mp_physical = 1052772, mp_len = 257948\<rparr>"
    by (simp add: chunk_map_mirror_def demo_single num_mirrors_def)
      (simp add: demo_simps logical_end_def saturating_add_def stripe_index_def is_striped_def place_physical_def
        checked_mul_def checked_add_def)
  then have m: "map_mirror [single_chunk] 1052772 0 = Ok \<lparr>mp_devid = 1, mp_physical = 1052772, mp_len = 257948\<rparr>"
    by (simp add: map_mirror_def ch)
  have "mirror_run demo_lib rw_pool [single_chunk] 1052772 0 3 3 = Ok []" by (simp add: mirror_run.simps)
  then have "mirror_run demo_lib rw_pool [single_chunk] 1052772 0 3 0 = Ok [(1, 1052772, 0, 3)]"
    by (subst mirror_run.simps) (simp add: m write_device_def rw_pool_def writable_span_def checked_add_def demo_lib_def)
  then show ?thesis
    by (simp add: mirror_spans_def mirrors_at_def ch num_mirrors_def demo_single upt_conv_Cons)
qed

theorem in_place_write_lands_witness:
  "\<exists>block c' w' img'. build_leaf zero_hash demo_super demo_at rw_items = Ok block \<and>
     fs_write_at demo_lib demo_codecs (two_copies 5 7) (demo_fs block) 257 100 [7, 8, 9] (node_cache_new 8) rw_pool =
       (Ok 3, c', w') \<and>
     volume_ok (pool_disk (\<lambda>d. d) (\<lambda>_ _. 0) w') [single_chunk] img'"
proof -
  obtain block where b: "build_leaf zero_hash demo_super demo_at rw_items = Ok block"
    "strictly_sorted (map fst rw_items)" by (rule rw_block)
  let ?fs = "demo_fs block"
  have t: "fs_holds ?fs (ALeaf 1048576 rw_items)" by (rule demo_fs_stored(1) [OF b])
  have c: "fs_cache_ok ?fs (node_cache_new 8)" by (rule fresh_cache_ok [OF t])
  have len: "length [7 :: u8, 8, 9] = 3" by simp
  obtain c' where plan: "plan_write_at demo_codecs ?fs 257 100 (length [7 :: u8, 8, 9]) (node_cache_new 8) = (Ok [(1052772, 3)], c')"
    using yields_plan_write_at [OF t, of demo_codecs 257 100 3] c rw_plan [OF b] unfolding len by (auto simp: yields_def)
  have ch: "chunk_for [single_chunk] 1052772 = Some single_chunk" by (rule single_for) simp
  have "write_logical_all_mirrors demo_lib [single_chunk] 1052772 [7, 8, 9] rw_pool = write_spans demo_lib [7, 8, 9] [(1, 1052772, 0, 3)] rw_pool"
    unfolding write_logical_all_mirrors_def ch len rw_places by (simp add: parity_count_def demo_single)
  then have "\<exists>w'. write_plan demo_lib [single_chunk] [7, 8, 9] [(1052772, 3)] rw_pool = (Ok (), w') \<and> wp_pool w' = []"
    by (simp add: write_at_def write_device_def demo_lib_def set_device_def rw_pool_def)
  then obtain w' where w': "write_plan demo_lib [single_chunk] [7, 8, 9] [(1052772, 3)] rw_pool = (Ok (), w')" "wp_pool w' = []"
    by blast
  have live: "require_writable (two_copies 5 7) ?fs rw_pool = Ok ()"
    using two_copies_reads [of 5 7] by (auto simp: require_writable_def rw_pool_def refuse_stale_def rw_fs)
  obtain w'' where fl: "flush_writable demo_lib w' = (Ok (), w'')"
    by (cases "wp_single w'") (auto simp: flush_writable_def write_devices_def w'(2) demo_lib_def write_device_def)
  have ok: "fs_write_at demo_lib demo_codecs (two_copies 5 7) ?fs 257 100 [7, 8, 9] (node_cache_new 8) rw_pool = (Ok 3, c', w'')"
    using plan w'(1) fl live rw_places by (simp add: fs_write_at_def rw_fs)
  have z: "pool_disk (\<lambda>d. d) (\<lambda>_ _. 0) rw_pool = (\<lambda>_ _. 0)"
    by (simp add: pool_disk_def write_device_def rw_pool_def fun_eq_iff)
  have fits: "chunk_fits single_chunk"
    using order_trans [OF demo_extent_bound] by (auto simp: chunk_fits_def demo_single)
  have v: "volume_ok (pool_disk (\<lambda>d. d) (\<lambda>_ _. 0) rw_pool) (fs_map ?fs) (\<lambda>_. 0)"
    unfolding z rw_fs using zero_volume [OF single_map(1)] fits by simp
  have lay: "layout_ok (fs_map ?fs)" by (simp add: rw_fs layout_ok_def demo_single stripes_apart_def nstripes_def) (simp add: demo_chunk_def)
  have dev: "devices_known rw_pool (map_devices (fs_map ?fs))"
    by (simp add: devices_known_def map_devices_def rw_fs) (simp add: demo_chunk_def)
  have "(3 :: nat) = length [7 :: u8, 8, 9] \<and> (\<exists>img'. volume_ok (pool_disk (\<lambda>d. d) (\<lambda>_ _. 0) w'') (fs_map ?fs) img')"
    using in_place_write_lands [OF demo_lib_wf v lay dev rw_chunks [OF b] t c _ _ ok] by auto
  then show ?thesis using b(1) ok rw_fs(3) by auto
qed

end
