(* ===== verification/SuperWrite.thy ===== *)
theory SuperWrite
  imports TreeWrite PoolWrite
begin

text \<open>
  \<open>src/src/super_write.rs\<close>: what a commit and a new label do to the bytes of a superblock, the ring of
  backup roots, and the checksum.

  A superblock is 4096 bytes of which the driver reads some fields. \<open>super_fields\<close> is that reading with
  the checks of the parser taken out. Every edit of the bytes is the update of the fields it names,
  and a stamped superblock parses when the fields after the edit pass the parser's checks.
\<close>

section \<open>The backup ring\<close>

abbreviation (input) O_ROOT_BACKUPS :: nat where "O_ROOT_BACKUPS \<equiv> 0xb2b"
abbreviation (input) ROOT_BACKUP_SIZE :: nat where "ROOT_BACKUP_SIZE \<equiv> 168"
abbreviation (input) ROOT_BACKUP_SLOTS :: u64 where "ROOT_BACKUP_SLOTS \<equiv> 4"

abbreviation (input) BK_TREE_ROOT :: nat where "BK_TREE_ROOT \<equiv> 0"
abbreviation (input) BK_TREE_ROOT_GEN :: nat where "BK_TREE_ROOT_GEN \<equiv> 8"
abbreviation (input) BK_CHUNK_ROOT :: nat where "BK_CHUNK_ROOT \<equiv> 16"
abbreviation (input) BK_CHUNK_ROOT_GEN :: nat where "BK_CHUNK_ROOT_GEN \<equiv> 24"
abbreviation (input) BK_EXTENT_ROOT :: nat where "BK_EXTENT_ROOT \<equiv> 32"
abbreviation (input) BK_EXTENT_ROOT_GEN :: nat where "BK_EXTENT_ROOT_GEN \<equiv> 40"
abbreviation (input) BK_FS_ROOT :: nat where "BK_FS_ROOT \<equiv> 48"
abbreviation (input) BK_FS_ROOT_GEN :: nat where "BK_FS_ROOT_GEN \<equiv> 56"
abbreviation (input) BK_DEV_ROOT :: nat where "BK_DEV_ROOT \<equiv> 64"
abbreviation (input) BK_DEV_ROOT_GEN :: nat where "BK_DEV_ROOT_GEN \<equiv> 72"
abbreviation (input) BK_CSUM_ROOT :: nat where "BK_CSUM_ROOT \<equiv> 80"
abbreviation (input) BK_CSUM_ROOT_GEN :: nat where "BK_CSUM_ROOT_GEN \<equiv> 88"
abbreviation (input) BK_TOTAL_BYTES :: nat where "BK_TOTAL_BYTES \<equiv> 96"
abbreviation (input) BK_BYTES_USED :: nat where "BK_BYTES_USED \<equiv> 104"
abbreviation (input) BK_NUM_DEVICES :: nat where "BK_NUM_DEVICES \<equiv> 112"
abbreviation (input) BK_TREE_ROOT_LEVEL :: nat where "BK_TREE_ROOT_LEVEL \<equiv> 152"
abbreviation (input) BK_CHUNK_ROOT_LEVEL :: nat where "BK_CHUNK_ROOT_LEVEL \<equiv> 153"
abbreviation (input) BK_EXTENT_ROOT_LEVEL :: nat where "BK_EXTENT_ROOT_LEVEL \<equiv> 154"
abbreviation (input) BK_FS_ROOT_LEVEL :: nat where "BK_FS_ROOT_LEVEL \<equiv> 155"
abbreviation (input) BK_DEV_ROOT_LEVEL :: nat where "BK_DEV_ROOT_LEVEL \<equiv> 156"
abbreviation (input) BK_CSUM_ROOT_LEVEL :: nat where "BK_CSUM_ROOT_LEVEL \<equiv> 157"

record backup_root =
  br_bytenr :: u64
  br_generation :: u64
  br_level :: u8

definition no_root :: backup_root where
  "no_root = \<lparr>br_bytenr = 0, br_generation = 0, br_level = 0\<rparr>"

record backup_roots =
  bk_tree :: backup_root
  bk_chunk :: backup_root
  bk_extent :: backup_root
  bk_fs :: backup_root
  bk_dev :: backup_root
  bk_csum :: backup_root
  bk_total_bytes :: u64
  bk_bytes_used :: u64
  bk_num_devices :: u64

definition backup_slot :: "u64 \<Rightarrow> nat" where
  "backup_slot generation = unat ((generation - 1) mod ROOT_BACKUP_SLOTS)"

definition backup_slot_offset :: "u64 \<Rightarrow> nat" where
  "backup_slot_offset generation = O_ROOT_BACKUPS + backup_slot generation * ROOT_BACKUP_SIZE"

text \<open>The slot \<open>write_backup\<close> fills, from zeros, and its place in the superblock.\<close>

definition backup_bytes :: "backup_roots \<Rightarrow> bytes" where
  "backup_bytes r =
     fold (\<lambda>(root, at) slot. put_at at [br_level root] slot)
       [(bk_tree r, BK_TREE_ROOT_LEVEL), (bk_chunk r, BK_CHUNK_ROOT_LEVEL), (bk_extent r, BK_EXTENT_ROOT_LEVEL),
        (bk_fs r, BK_FS_ROOT_LEVEL), (bk_dev r, BK_DEV_ROOT_LEVEL), (bk_csum r, BK_CSUM_ROOT_LEVEL)]
     (put64 (put64 (put64
       (fold (\<lambda>(root, bytenr, gen) slot. put64 (put64 slot bytenr (br_bytenr root)) gen (br_generation root))
         [(bk_tree r, BK_TREE_ROOT, BK_TREE_ROOT_GEN), (bk_chunk r, BK_CHUNK_ROOT, BK_CHUNK_ROOT_GEN),
          (bk_extent r, BK_EXTENT_ROOT, BK_EXTENT_ROOT_GEN), (bk_fs r, BK_FS_ROOT, BK_FS_ROOT_GEN),
          (bk_dev r, BK_DEV_ROOT, BK_DEV_ROOT_GEN), (bk_csum r, BK_CSUM_ROOT, BK_CSUM_ROOT_GEN)]
         (replicate ROOT_BACKUP_SIZE 0))
       BK_TOTAL_BYTES (bk_total_bytes r)) BK_BYTES_USED (bk_bytes_used r)) BK_NUM_DEVICES (bk_num_devices r))"

definition write_backup :: "bytes \<Rightarrow> u64 \<Rightarrow> backup_roots \<Rightarrow> bytes" where
  "write_backup raw generation roots = put_at (backup_slot_offset generation) (backup_bytes roots) raw"

section \<open>The commit\<close>

text \<open>\<open>struct Commit\<close>.\<close>

record commit =
  co_generation :: u64
  co_root :: u64
  co_root_level :: "u8 option"
  co_bytes_used :: "u64 option"
  co_chunk_root :: "u64 option"
  co_chunk_root_generation :: "u64 option"
  co_invalidate_free_space_tree :: bool

definition set_bytenr :: "bytes \<Rightarrow> u64 \<Rightarrow> bytes" where
  "set_bytenr raw offset = put64 raw O_BYTENR offset"

definition stamp_super :: "hash_lib \<Rightarrow> checksum_type \<Rightarrow> bytes \<Rightarrow> bytes" where
  "stamp_super H t raw = put_at 0 (digest H t (slice CSUM_SIZE (SUPER_INFO_SIZE - CSUM_SIZE) raw)) raw"

definition put_some :: "(bytes \<Rightarrow> 'a \<Rightarrow> bytes) \<Rightarrow> 'a option \<Rightarrow> bytes \<Rightarrow> bytes" where
  "put_some put x raw = (case x of None \<Rightarrow> raw | Some v \<Rightarrow> put raw v)"

text \<open>The fields \<open>apply\<close> writes before it stamps the checksum.\<close>

definition commit_bytes :: "commit \<Rightarrow> bytes \<Rightarrow> bytes" where
  "commit_bytes c raw =
     (let raw = put64 raw O_GENERATION (co_generation c);
          raw = put64 raw O_ROOT (co_root c);
          raw = put64 raw O_UUID_TREE_GENERATION (co_generation c);
          raw = put_some (\<lambda>raw level. put_at O_ROOT_LEVEL [level] raw) (co_root_level c) raw;
          raw = put_some (\<lambda>raw used. put64 raw O_BYTES_USED used) (co_bytes_used c) raw;
          raw = put_some (\<lambda>raw root. put64 raw O_CHUNK_ROOT root) (co_chunk_root c) raw;
          raw = put_some (\<lambda>raw gen. put64 raw O_CHUNK_ROOT_GENERATION gen) (co_chunk_root_generation c) raw
      in if co_invalidate_free_space_tree c then
           put64 raw O_COMPAT_RO_FLAGS (le64 raw O_COMPAT_RO_FLAGS AND NOT COMPAT_RO_FREE_SPACE_TREE_VALID)
         else raw)"

definition apply_commit :: "hash_lib \<Rightarrow> checksum_type \<Rightarrow> commit \<Rightarrow> bytes \<Rightarrow> bytes result" where
  "apply_commit H t c raw =
     (if length raw < SUPER_INFO_SIZE then Err (UnsupportedFeature ''a superblock is 4096 bytes'')
      else Ok (stamp_super H t (commit_bytes c raw)))"

section \<open>The label\<close>

abbreviation (input) MAX_LABEL_BYTES :: nat where "MAX_LABEL_BYTES \<equiv> 255"

text \<open>The copies of this filesystem, and the bytes at them.\<close>

fun label_copies :: "hash_lib \<Rightarrow> 'd block_lib \<Rightarrow> 'd \<Rightarrow> bytes \<Rightarrow> u64 list \<Rightarrow> (u64 \<times> bytes) list result" where
  "label_copies H B d fsid [] = Ok []"
| "label_copies H B d fsid (at # rest) =
     (if at + of_nat SUPER_INFO_SIZE > bl_size B d then label_copies H B d fsid rest
      else
        try_in (bl_read B d at SUPER_INFO_SIZE) (\<lambda>raw.
        try_in (label_copies H B d fsid rest) (\<lambda>found.
        Ok ((case superblock_parse H raw of
               Inr copy \<Rightarrow> (if sb_fsid copy = fsid then [(at, raw)] else [])
             | Inl _ \<Rightarrow> []) @ found))))"

definition label_bytes :: "bytes \<Rightarrow> bytes \<Rightarrow> bytes" where
  "label_bytes label raw = put_at O_LABEL label (put_at O_LABEL (replicate LABEL_SIZE 0) raw)"

fun write_label :: "hash_lib \<Rightarrow> 'd block_lib \<Rightarrow> checksum_type \<Rightarrow> bytes \<Rightarrow> (u64 \<times> bytes) list \<Rightarrow> 'd \<Rightarrow> unit result \<times> 'd" where
  "write_label H B t label [] d = (Ok (), d)"
| "write_label H B t label ((at, raw) # rest) d =
     (case bl_write B d at (stamp_super H t (label_bytes label raw)) of
        Inl e \<Rightarrow> (Err e, d)
      | Inr d \<Rightarrow>
          (case bl_flush B d of
             Inl e \<Rightarrow> (Err e, d)
           | Inr d \<Rightarrow> write_label H B t label rest d))"

definition set_label :: "hash_lib \<Rightarrow> 'd block_lib \<Rightarrow> bytes \<Rightarrow> 'd \<Rightarrow> unit result \<times> 'd" where
  "set_label H B label d =
     (if MAX_LABEL_BYTES < length label \<or> 0 \<in> set label then
        (Err (UnsupportedFeature ''a label is at most 255 bytes, with no NUL''), d)
      else
        case try_in (bl_read B d SUPER_INFO_OFFSET SUPER_INFO_SIZE) (\<lambda>primary.
             try_in (superblock_parse_at H primary SUPER_INFO_OFFSET) (\<lambda>sb.
             if sb_num_devices sb > 1 then Err (UnsupportedFeature ''this filesystem spans several devices'')
             else try_in (label_copies H B d (sb_fsid sb) SUPER_OFFSETS) (\<lambda>found. Ok (sb, found)))) of
          Inl e \<Rightarrow> (Err e, d)
        | Inr (sb, found) \<Rightarrow> write_label H B (sb_csum_type sb) label (rev found) d)"

section \<open>The fields of a superblock\<close>

definition dev_fields :: "bytes \<Rightarrow> dev_item" where
  "dev_fields buf =
     \<lparr>di_devid = le64 buf (O_DEV_ITEM + DEV_O_DEVID),
      di_total_bytes = le64 buf (O_DEV_ITEM + DEV_O_TOTAL_BYTES),
      di_bytes_used = le64 buf (O_DEV_ITEM + DEV_O_BYTES_USED),
      di_io_align = le32 buf (O_DEV_ITEM + DEV_O_IO_ALIGN),
      di_io_width = le32 buf (O_DEV_ITEM + DEV_O_IO_WIDTH),
      di_sector_size = le32 buf (O_DEV_ITEM + DEV_O_SECTOR_SIZE),
      di_dev_type = le64 buf (O_DEV_ITEM + DEV_O_TYPE),
      di_generation = le64 buf (O_DEV_ITEM + DEV_O_GENERATION),
      di_start_offset = le64 buf (O_DEV_ITEM + DEV_O_START_OFFSET),
      di_dev_group = le32 buf (O_DEV_ITEM + DEV_O_DEV_GROUP),
      di_seek_speed = buf ! (O_DEV_ITEM + DEV_O_SEEK_SPEED),
      di_bandwidth = buf ! (O_DEV_ITEM + DEV_O_BANDWIDTH),
      di_uuid = uuid_at buf (O_DEV_ITEM + DEV_O_UUID),
      di_fsid = uuid_at buf (O_DEV_ITEM + DEV_O_FSID)\<rparr>"

lemma dev_item_fields: "length buf = 4096 \<Longrightarrow> dev_item_parse (slice O_DEV_ITEM DEV_ITEM_SIZE buf) = Ok (dev_fields buf)"
  by (simp add: dev_item_parse_def dev_fields_def le_slice uuid_at_def slice_slice nth_slice)

definition super_fields :: "checksum_type \<Rightarrow> bytes \<Rightarrow> superblock" where
  "super_fields t buf =
     \<lparr>sb_csum = slice O_CSUM CSUM_SIZE buf,
      sb_fsid = uuid_at buf O_FSID,
      sb_bytenr = le64 buf O_BYTENR,
      sb_flags = le64 buf O_FLAGS,
      sb_generation = le64 buf O_GENERATION,
      sb_root = le64 buf O_ROOT,
      sb_chunk_root = le64 buf O_CHUNK_ROOT,
      sb_log_root = le64 buf O_LOG_ROOT,
      sb_log_root_transid = le64 buf O_LOG_ROOT_TRANSID,
      sb_total_bytes = le64 buf O_TOTAL_BYTES,
      sb_bytes_used = le64 buf O_BYTES_USED,
      sb_root_dir_objectid = le64 buf O_ROOT_DIR_OBJECTID,
      sb_num_devices = le64 buf O_NUM_DEVICES,
      sb_sectorsize = le32 buf O_SECTORSIZE,
      sb_nodesize = le32 buf O_NODESIZE,
      sb_leafsize = le32 buf O_LEAFSIZE,
      sb_stripesize = le32 buf O_STRIPESIZE,
      sb_sys_chunk_array_size = le32 buf O_SYS_CHUNK_ARRAY_SIZE,
      sb_chunk_root_generation = le64 buf O_CHUNK_ROOT_GENERATION,
      sb_compat_flags = le64 buf O_COMPAT_FLAGS,
      sb_compat_ro_flags = le64 buf O_COMPAT_RO_FLAGS,
      sb_incompat_flags = le64 buf O_INCOMPAT_FLAGS,
      sb_csum_type = t,
      sb_root_level = buf ! O_ROOT_LEVEL,
      sb_chunk_root_level = buf ! O_CHUNK_ROOT_LEVEL,
      sb_log_root_level = buf ! O_LOG_ROOT_LEVEL,
      sb_dev_item = dev_fields buf,
      sb_label = takeWhile (\<lambda>b. b \<noteq> 0) (slice O_LABEL LABEL_SIZE buf),
      sb_cache_generation = le64 buf O_CACHE_GENERATION,
      sb_uuid_tree_generation = le64 buf O_UUID_TREE_GENERATION,
      sb_metadata_uuid =
        (if le64 buf O_INCOMPAT_FLAGS AND INCOMPAT_METADATA_UUID \<noteq> 0 then uuid_at buf O_METADATA_UUID else uuid_at buf O_FSID),
      sb_nr_global_roots = le64 buf O_NR_GLOBAL_ROOTS,
      sb_sys_chunk_array = slice O_SYS_CHUNK_ARRAY (unat (le32 buf O_SYS_CHUNK_ARRAY_SIZE)) buf\<rparr>"

text \<open>What the parser asks of the bytes beside their fields and their checksum.\<close>

definition super_marked :: "checksum_type \<Rightarrow> bytes \<Rightarrow> bool" where
  "super_marked t buf \<longleftrightarrow> length buf = 4096 \<and> slice O_MAGIC 8 buf = BTRFS_MAGIC \<and> checksum_from_raw (le16 buf O_CSUM_TYPE) = Ok t \<and>
     unat (le32 buf O_SYS_CHUNK_ARRAY_SIZE) \<le> 2048"

lemma superblock_parse_Ok:
  assumes l: "length buf = 4096"
  shows "superblock_parse H buf = Ok sb \<longleftrightarrow>
    super_marked (sb_csum_type sb) buf \<and> sb = super_fields (sb_csum_type sb) buf \<and>
    checksum_verify H (sb_csum_type sb) (slice 32 4064 buf) (sb_csum sb) \<and>
    refuse_unreadable_incompat (sb_incompat_flags sb) = Ok () \<and> superblock_validate sb = Ok ()"
proof
  assume ok: "superblock_parse H buf = Ok sb"
  obtain t where t: "checksum_from_raw (le16 buf O_CSUM_TYPE) = Ok t" "slice O_MAGIC 8 buf = BTRFS_MAGIC"
    using ok l by (auto simp: superblock_parse_def try_in_eq_Ok split: if_splits)
  have "sb = super_fields t buf \<and> unat (le32 buf O_SYS_CHUNK_ARRAY_SIZE) \<le> 2048"
    using ok l t by (auto simp: superblock_parse_def Let_def try_in_eq_Ok super_fields_def dev_item_fields split: if_splits)
  then show "super_marked (sb_csum_type sb) buf \<and> sb = super_fields (sb_csum_type sb) buf \<and>
    checksum_verify H (sb_csum_type sb) (slice 32 4064 buf) (sb_csum sb) \<and>
    refuse_unreadable_incompat (sb_incompat_flags sb) = Ok () \<and> superblock_validate sb = Ok ()"
    using superblock_parse_fields [OF ok] t l by (simp add: super_marked_def super_fields_def)
next
  let ?t = "sb_csum_type sb"
  assume a: "super_marked ?t buf \<and> sb = super_fields ?t buf \<and>
    checksum_verify H ?t (slice 32 4064 buf) (sb_csum sb) \<and>
    refuse_unreadable_incompat (sb_incompat_flags sb) = Ok () \<and> superblock_validate sb = Ok ()"
  define t where "t = ?t"
  have m: "sb = super_fields t buf" using a by (simp add: t_def)
  have f: "sb_csum (super_fields t buf) = slice 0 32 buf" "sb_incompat_flags (super_fields t buf) = le64 buf O_INCOMPAT_FLAGS"
    "sb_csum_type (super_fields t buf) = t" by (simp_all add: super_fields_def)
  have n: "slice O_MAGIC 8 buf = BTRFS_MAGIC" "checksum_from_raw (le16 buf O_CSUM_TYPE) = Ok t"
    "unat (le32 buf O_SYS_CHUNK_ARRAY_SIZE) \<le> 2048"
    "superblock_validate (super_fields t buf) = Ok ()" "refuse_unreadable_incompat (le64 buf O_INCOMPAT_FLAGS) = Ok ()"
    "checksum_verify H t (slice 32 4064 buf) (slice 0 32 buf)"
    using a unfolding t_def [symmetric] super_marked_def m f by simp_all
  show "superblock_parse H buf = Ok sb"
    using l n unfolding m by (simp add: superblock_parse_def Let_def dev_item_fields super_fields_def not_less)
qed

section \<open>Edits are updates of fields\<close>

lemma super_marked_put:
  assumes "super_marked t raw" and "off + length ys \<le> 4096"
    and "off + length ys \<le> O_MAGIC \<or> O_MAGIC + 8 \<le> off" and "off + length ys \<le> O_CSUM_TYPE \<or> O_CSUM_TYPE + 2 \<le> off"
    and "off + length ys \<le> O_SYS_CHUNK_ARRAY_SIZE \<or> O_SYS_CHUNK_ARRAY_SIZE + 4 \<le> off"
  shows "super_marked t (put_at off ys raw)"
  using assms by (auto simp: super_marked_def byte_simps)

lemma super_marked_length: "super_marked t raw \<Longrightarrow> length raw = 4096"
  by (simp add: super_marked_def)

lemma super_marked_slice:
  "super_marked t raw \<Longrightarrow> off + length ys \<le> 811 \<or> 2859 \<le> off \<Longrightarrow> off + length ys \<le> 4096 \<Longrightarrow>
   slice 811 (unat (le32 raw 160)) (put_at off ys raw) = slice 811 (unat (le32 raw 160)) raw"
  by (rule slice_put_disjoint) (auto simp: super_marked_def)

lemma fields_put64:
  assumes m: "super_marked t raw"
  shows "super_fields t (put64 raw O_BYTENR v) = super_fields t raw\<lparr>sb_bytenr := v\<rparr>"
    "super_fields t (put64 raw O_GENERATION v) = super_fields t raw\<lparr>sb_generation := v\<rparr>"
    "super_fields t (put64 raw O_ROOT v) = super_fields t raw\<lparr>sb_root := v\<rparr>"
    "super_fields t (put64 raw O_UUID_TREE_GENERATION v) = super_fields t raw\<lparr>sb_uuid_tree_generation := v\<rparr>"
    "super_fields t (put64 raw O_BYTES_USED v) = super_fields t raw\<lparr>sb_bytes_used := v\<rparr>"
    "super_fields t (put64 raw O_CHUNK_ROOT v) = super_fields t raw\<lparr>sb_chunk_root := v\<rparr>"
    "super_fields t (put64 raw O_CHUNK_ROOT_GENERATION v) = super_fields t raw\<lparr>sb_chunk_root_generation := v\<rparr>"
    "super_fields t (put64 raw O_COMPAT_RO_FLAGS v) = super_fields t raw\<lparr>sb_compat_ro_flags := v\<rparr>"
    "super_fields t (put64 raw O_LOG_ROOT v) = super_fields t raw\<lparr>sb_log_root := v\<rparr>"
    "super_fields t (put64 raw O_LOG_ROOT_TRANSID v) = super_fields t raw\<lparr>sb_log_root_transid := v\<rparr>"
    "super_fields t (put64 raw O_TOTAL_BYTES v) = super_fields t raw\<lparr>sb_total_bytes := v\<rparr>"
    "super_fields t (put64 raw O_NUM_DEVICES v) = super_fields t raw\<lparr>sb_num_devices := v\<rparr>"
    "super_fields t (put64 raw (O_DEV_ITEM + DEV_O_TOTAL_BYTES) v) =
       super_fields t raw\<lparr>sb_dev_item := dev_fields raw\<lparr>di_total_bytes := v\<rparr>\<rparr>"
    "super_fields t (put64 raw (O_DEV_ITEM + DEV_O_BYTES_USED) v) =
       super_fields t raw\<lparr>sb_dev_item := dev_fields raw\<lparr>di_bytes_used := v\<rparr>\<rparr>"
    "super_fields t (put64 raw O_INCOMPAT_FLAGS v) = super_fields t raw\<lparr>sb_incompat_flags := v,
       sb_metadata_uuid := (if v AND INCOMPAT_METADATA_UUID \<noteq> 0 then uuid_at raw O_METADATA_UUID else uuid_at raw O_FSID)\<rparr>"
  by (simp_all add: super_fields_def dev_fields_def put64_def byte_simps super_marked_length [OF m]
      super_marked_slice [OF m, of _ "u64_bytes v", simplified])

lemma fields_put_bytes:
  assumes m: "super_marked t raw"
  shows "super_fields t (put_at O_ROOT_LEVEL [b] raw) = super_fields t raw\<lparr>sb_root_level := b\<rparr>"
    "super_fields t (put_at O_LOG_ROOT_LEVEL [b] raw) = super_fields t raw\<lparr>sb_log_root_level := b\<rparr>"
    "length item = 98 \<Longrightarrow> super_fields t (put_at O_DEV_ITEM item raw) =
       super_fields t raw\<lparr>sb_dev_item := dev_fields (put_at O_DEV_ITEM item raw)\<rparr>"
    "length ys = 168 \<Longrightarrow> off + 168 \<le> 4096 \<Longrightarrow> 2859 \<le> off \<Longrightarrow> super_fields t (put_at off ys raw) = super_fields t raw"
    "length cs = 32 \<Longrightarrow> super_fields t (put_at 0 cs raw) = super_fields t raw\<lparr>sb_csum := cs\<rparr>"
  by (simp_all add: super_fields_def dev_fields_def byte_simps super_marked_length [OF m] super_marked_slice [OF m])

lemma marked_put64:
  assumes m: "super_marked t raw" and "off + 8 \<le> 64 \<or> 72 \<le> off" "off + 8 \<le> 196 \<or> 198 \<le> off" "off + 8 \<le> 160 \<or> 164 \<le> off"
    and "off + 8 \<le> 4096"
  shows "super_marked t (put64 raw off v)"
  unfolding put64_def using assms by (intro super_marked_put) auto

text \<open>What a commit does to the fields.\<close>

definition or_keep :: "'a option \<Rightarrow> 'a \<Rightarrow> 'a" where
  "or_keep x old = (case x of None \<Rightarrow> old | Some v \<Rightarrow> v)"

definition committed :: "commit \<Rightarrow> superblock \<Rightarrow> superblock" where
  "committed c sb =
     (let new = sb\<lparr>
        sb_generation := co_generation c,
        sb_root := co_root c,
        sb_uuid_tree_generation := co_generation c,
        sb_root_level := or_keep (co_root_level c) (sb_root_level sb),
        sb_bytes_used := or_keep (co_bytes_used c) (sb_bytes_used sb),
        sb_chunk_root := or_keep (co_chunk_root c) (sb_chunk_root sb),
        sb_chunk_root_generation := or_keep (co_chunk_root_generation c) (sb_chunk_root_generation sb)\<rparr>
      in if co_invalidate_free_space_tree c then
           new\<lparr>sb_compat_ro_flags := sb_compat_ro_flags sb AND NOT COMPAT_RO_FREE_SPACE_TREE_VALID\<rparr>
         else new)"

lemma put_some_fields:
  assumes "super_marked t raw"
    and "\<And>v. super_marked t (put raw v)" and "\<And>v. super_fields t (put raw v) = upd (\<lambda>_. v) (super_fields t raw)"
    and "\<And>sb. upd (\<lambda>_. fld sb) sb = sb"
  shows "super_marked t (put_some put x raw)"
    and "super_fields t (put_some put x raw) = upd (\<lambda>_. or_keep x (fld (super_fields t raw))) (super_fields t raw)"
  using assms by (auto simp: put_some_def or_keep_def split: option.splits)

lemma commit_fields:
  assumes m: "super_marked t raw"
  shows "super_marked t (commit_bytes c raw)"
    and "super_fields t (commit_bytes c raw) = committed c (super_fields t raw)"
proof -
  define r1 where "r1 = put64 (put64 (put64 raw O_GENERATION (co_generation c)) O_ROOT (co_root c)) O_UUID_TREE_GENERATION (co_generation c)"
  have m1: "super_marked t r1" unfolding r1_def by (intro marked_put64 m) simp_all
  have f1: "super_fields t r1 = super_fields t raw\<lparr>sb_generation := co_generation c, sb_root := co_root c,
      sb_uuid_tree_generation := co_generation c\<rparr>"
    unfolding r1_def by (simp add: fields_put64 marked_put64 m)
  define r2 where "r2 = put_some (\<lambda>raw level. put_at O_ROOT_LEVEL [level] raw) (co_root_level c) r1"
  note p2 = put_some_fields [OF m1, of "\<lambda>raw level. put_at O_ROOT_LEVEL [level] raw" sb_root_level_update sb_root_level "co_root_level c", folded r2_def]
  have m2: "super_marked t r2" and f2: "super_fields t r2 = super_fields t r1\<lparr>sb_root_level := or_keep (co_root_level c) (sb_root_level (super_fields t r1))\<rparr>"
    using p2 by (simp_all add: super_marked_put m1 fields_put_bytes)
  define r3 where "r3 = put_some (\<lambda>raw used. put64 raw O_BYTES_USED used) (co_bytes_used c) r2"
  note p3 = put_some_fields [OF m2, of "\<lambda>raw used. put64 raw O_BYTES_USED used" sb_bytes_used_update sb_bytes_used "co_bytes_used c", folded r3_def]
  have m3: "super_marked t r3" and f3: "super_fields t r3 = super_fields t r2\<lparr>sb_bytes_used := or_keep (co_bytes_used c) (sb_bytes_used (super_fields t r2))\<rparr>"
    using p3 by (simp_all add: marked_put64 m2 fields_put64)
  define r4 where "r4 = put_some (\<lambda>raw root. put64 raw O_CHUNK_ROOT root) (co_chunk_root c) r3"
  note p4 = put_some_fields [OF m3, of "\<lambda>raw root. put64 raw O_CHUNK_ROOT root" sb_chunk_root_update sb_chunk_root "co_chunk_root c", folded r4_def]
  have m4: "super_marked t r4" and f4: "super_fields t r4 = super_fields t r3\<lparr>sb_chunk_root := or_keep (co_chunk_root c) (sb_chunk_root (super_fields t r3))\<rparr>"
    using p4 by (simp_all add: marked_put64 m3 fields_put64)
  define r5 where "r5 = put_some (\<lambda>raw gen. put64 raw O_CHUNK_ROOT_GENERATION gen) (co_chunk_root_generation c) r4"
  note p5 = put_some_fields [OF m4, of "\<lambda>raw gen. put64 raw O_CHUNK_ROOT_GENERATION gen" sb_chunk_root_generation_update
      sb_chunk_root_generation "co_chunk_root_generation c", folded r5_def]
  have m5: "super_marked t r5" and f5: "super_fields t r5 =
      super_fields t r4\<lparr>sb_chunk_root_generation := or_keep (co_chunk_root_generation c) (sb_chunk_root_generation (super_fields t r4))\<rparr>"
    using p5 by (simp_all add: marked_put64 m4 fields_put64)
  have e: "commit_bytes c raw =
      (if co_invalidate_free_space_tree c then put64 r5 O_COMPAT_RO_FLAGS (le64 r5 O_COMPAT_RO_FLAGS AND NOT COMPAT_RO_FREE_SPACE_TREE_VALID)
       else r5)"
    by (simp add: commit_bytes_def r1_def r2_def r3_def r4_def r5_def Let_def)
  show "super_marked t (commit_bytes c raw)" unfolding e using m5 by (simp add: marked_put64)
  define sb where "sb = super_fields t raw"
  have g2: "super_fields t r2 = sb\<lparr>sb_generation := co_generation c, sb_root := co_root c,
      sb_uuid_tree_generation := co_generation c, sb_root_level := or_keep (co_root_level c) (sb_root_level sb)\<rparr>"
    unfolding f2 f1 sb_def [symmetric] by simp
  have g3: "super_fields t r3 = super_fields t r2\<lparr>sb_bytes_used := or_keep (co_bytes_used c) (sb_bytes_used sb)\<rparr>"
    unfolding f3 g2 by simp
  have g4: "super_fields t r4 = super_fields t r3\<lparr>sb_chunk_root := or_keep (co_chunk_root c) (sb_chunk_root sb)\<rparr>"
    unfolding f4 g3 g2 by simp
  have g5: "super_fields t r5 = super_fields t r4\<lparr>sb_chunk_root_generation := or_keep (co_chunk_root_generation c) (sb_chunk_root_generation sb)\<rparr>"
    unfolding f5 g4 g3 g2 by simp
  have cr: "le64 r5 O_COMPAT_RO_FLAGS = sb_compat_ro_flags sb"
  proof -
    have "le64 r5 O_COMPAT_RO_FLAGS = sb_compat_ro_flags (super_fields t r5)" by (simp add: super_fields_def)
    then show ?thesis unfolding g5 g4 g3 g2 by simp
  qed
  show "super_fields t (commit_bytes c raw) = committed c (super_fields t raw)"
    unfolding e committed_def sb_def [symmetric] Let_def
    by (simp add: fields_put64(8) [OF m5] cr g5 g4 g3 g2)
qed

lemma length_put_in:
  "length raw = n \<Longrightarrow> at + 8 \<le> n \<Longrightarrow> length (put64 raw at v) = n"
  "length raw = n \<Longrightarrow> at + 1 \<le> n \<Longrightarrow> length (put_at at [b] raw) = n"
  by simp_all

lemma length_backup_bytes [simp]: "length (backup_bytes r) = 168"
  unfolding backup_bytes_def fold_simps prod.case by (intro length_put_in length_replicate) simp_all

lemma backup_slot_range: "2859 \<le> backup_slot_offset g" "backup_slot_offset g + 168 \<le> 3531"
proof -
  have "backup_slot g < 4" by (simp add: backup_slot_def unat_mod_word)
  then show "2859 \<le> backup_slot_offset g" "backup_slot_offset g + 168 \<le> 3531"
    unfolding backup_slot_offset_def by linarith+
qed

lemma backup_fields:
  assumes m: "super_marked t raw"
  shows "super_marked t (write_backup raw g r)" and "super_fields t (write_backup raw g r) = super_fields t raw"
  using backup_slot_range [of g] unfolding write_backup_def
  by (auto intro!: super_marked_put m fields_put_bytes(4) [OF m])

lemma stamp_fields:
  assumes m: "super_marked t raw" and H: "wf_hash_lib H"
  shows "super_marked t (stamp_super H t raw)"
    and "\<exists>cs. super_fields t (stamp_super H t raw) = super_fields t raw\<lparr>sb_csum := cs\<rparr>"
  unfolding stamp_super_def using fields_put_bytes(5) [OF m] length_digest [OF H]
  by (auto intro!: super_marked_put m)

lemma stamp_verifies:
  assumes m: "super_marked t raw" and H: "wf_hash_lib H"
  shows "checksum_verify H t (slice 32 4064 (stamp_super H t raw)) (slice 0 32 (stamp_super H t raw))"
proof -
  let ?d = "digest H t (slice 32 4064 raw)"
  have s: "stamp_super H t raw = put_at 0 ?d raw" by (simp add: stamp_super_def)
  have "slice 32 4064 (put_at 0 ?d raw) = slice 32 4064 raw"
    using length_digest [OF H] super_marked_length [OF m] by (intro slice_put_disjoint) auto
  moreover have "slice 0 32 (put_at 0 ?d raw) = ?d"
    using length_digest [OF H] by (intro slice_put_same) auto
  ultimately show ?thesis unfolding s by (simp add: checksum_verify_digest [OF H])
qed

text \<open>The checks do not look at the checksum or the label.\<close>

lemma validate_unread:
  "superblock_validate (sb\<lparr>sb_csum := cs\<rparr>) = superblock_validate sb"
  "superblock_validate (sb\<lparr>sb_label := cs\<rparr>) = superblock_validate sb"
proof -
  have g: "validate_geometry (sb\<lparr>sb_csum := cs\<rparr>) = validate_geometry sb" "validate_geometry (sb\<lparr>sb_label := cs\<rparr>) = validate_geometry sb"
    by (simp_all add: validate_geometry_def cong: if_cong)
  have t: "validate_tree_roots (sb\<lparr>sb_csum := cs\<rparr>) = validate_tree_roots sb"
    "validate_tree_roots (sb\<lparr>sb_label := cs\<rparr>) = validate_tree_roots sb"
    by (simp_all add: validate_tree_roots_def)
  have s: "validate_sys_chunk_array (sb\<lparr>sb_csum := cs\<rparr>) = validate_sys_chunk_array sb"
    "validate_sys_chunk_array (sb\<lparr>sb_label := cs\<rparr>) = validate_sys_chunk_array sb"
    by (simp_all add: validate_sys_chunk_array_def)
  have d: "validate_device_identity (sb\<lparr>sb_csum := cs\<rparr>) = validate_device_identity sb"
    "validate_device_identity (sb\<lparr>sb_label := cs\<rparr>) = validate_device_identity sb"
    by (simp_all add: validate_device_identity_def node_uuid_def)
  show "superblock_validate (sb\<lparr>sb_csum := cs\<rparr>) = superblock_validate sb"
    "superblock_validate (sb\<lparr>sb_label := cs\<rparr>) = superblock_validate sb"
    by (simp_all only: superblock_validate_def g t s d)
qed

lemma stamped_parses:
  assumes m: "super_marked t raw" and H: "wf_hash_lib H"
    and "refuse_unreadable_incompat (sb_incompat_flags (super_fields t raw)) = Ok ()"
    and "superblock_validate (super_fields t raw) = Ok ()"
  shows "\<exists>cs. superblock_parse H (stamp_super H t raw) = Ok (super_fields t raw\<lparr>sb_csum := cs\<rparr>)"
proof -
  let ?b = "stamp_super H t raw"
  obtain cs where f: "super_fields t ?b = super_fields t raw\<lparr>sb_csum := cs\<rparr>" using stamp_fields(2) [OF m H] by blast
  have t: "sb_csum_type (super_fields t raw) = t" by (simp add: super_fields_def)
  have c: "slice 0 32 ?b = cs" using arg_cong [OF f, of sb_csum] by (simp add: super_fields_def)
  have l: "length ?b = 4096" using super_marked_length [OF stamp_fields(1) [OF m H]] .
  show ?thesis
    using stamp_fields(1) [OF m H] stamp_verifies [OF m H] assms(3,4) f
    by (intro exI [of _ cs]) (simp add: superblock_parse_Ok [OF l] t validate_unread c)
qed

section \<open>The ring\<close>

text \<open>Every edit but \<open>write_backup\<close> leaves what follows the fields, the ring first, as it is.\<close>

definition ring_is :: "bytes \<Rightarrow> bytes \<Rightarrow> bool" where
  "ring_is ring raw \<longleftrightarrow> length raw = 4096 \<and> drop O_ROOT_BACKUPS raw = ring"

lemma ring_put_at: "ring_is ring raw \<Longrightarrow> off + length ys \<le> O_ROOT_BACKUPS \<Longrightarrow> ring_is ring (put_at off ys raw)"
  by (auto simp: ring_is_def put_at_def)

lemma ring_put64: "ring_is ring raw \<Longrightarrow> off + 8 \<le> O_ROOT_BACKUPS \<Longrightarrow> ring_is ring (put64 raw off v)"
  unfolding put64_def by (rule ring_put_at) simp_all

lemma ring_put_some: "ring_is ring raw \<Longrightarrow> (\<And>v. ring_is ring (put raw v)) \<Longrightarrow> ring_is ring (put_some put x raw)"
  by (simp add: put_some_def split: option.split)

lemma ring_commit_bytes: "ring_is ring raw \<Longrightarrow> ring_is ring (commit_bytes c raw)"
  unfolding commit_bytes_def Let_def
  by (simp only: if_split) (intro conjI impI ring_put64 ring_put_some ring_put_at; simp)

lemma ring_stamp: "wf_hash_lib H \<Longrightarrow> ring_is ring raw \<Longrightarrow> ring_is ring (stamp_super H t raw)"
  unfolding stamp_super_def by (rule ring_put_at) (simp_all add: length_digest)

lemma ring_slice: "ring_is ring raw \<Longrightarrow> slice (O_ROOT_BACKUPS + k) n raw = slice k n ring"
  by (auto simp: ring_is_def slice_drop)

lemma ring_exists: "length raw = 4096 \<Longrightarrow> ring_is (drop O_ROOT_BACKUPS raw) raw"
  by (simp add: ring_is_def)

section \<open>A committed superblock\<close>

text \<open>The bytes a commit writes to the copy at \<open>off\<close>, and what they parse to.\<close>

definition committed_copy :: "hash_lib \<Rightarrow> checksum_type \<Rightarrow> bytes \<Rightarrow> u64 \<Rightarrow> bytes" where
  "committed_copy H t img off = stamp_super H t (set_bytenr img off)"

lemma committed_copy_parses:
  assumes H: "wf_hash_lib H" and m: "super_marked t img"
    and ref: "refuse_unreadable_incompat (sb_incompat_flags (super_fields t img)) = Ok ()"
    and val: "superblock_validate (super_fields t img\<lparr>sb_bytenr := off\<rparr>) = Ok ()"
  shows "\<exists>cs. superblock_parse_at H (committed_copy H t img off) off = Ok (super_fields t img\<lparr>sb_bytenr := off, sb_csum := cs\<rparr>)"
proof -
  have m': "super_marked t (set_bytenr img off)" unfolding set_bytenr_def by (intro marked_put64 m) simp_all
  have f: "super_fields t (set_bytenr img off) = super_fields t img\<lparr>sb_bytenr := off\<rparr>"
    unfolding set_bytenr_def by (rule fields_put64(1) [OF m])
  obtain cs where "superblock_parse H (committed_copy H t img off) = Ok (super_fields t img\<lparr>sb_bytenr := off, sb_csum := cs\<rparr>)"
    using stamped_parses [OF m' H] ref val unfolding f committed_copy_def by auto
  then show ?thesis by (auto simp: superblock_parse_at_def)
qed

text \<open>
  C0. A committed superblock is the old one with the commit in it. Applying a commit to the bytes of a
  superblock that parses, filling its backup slot and stamping the result for the place of a copy gives
  bytes that parse at that place, to the old superblock with exactly the fields of the commit changed,
  whenever these fields are ones the parser accepts. The slot of the ring that belongs to the
  generation holds the roots it was given and the three others are those of before.
\<close>

theorem commit_superblock_parses:
  assumes H: "wf_hash_lib H" and l: "length raw = 4096" and sb: "superblock_parse H raw = Ok sb"
    and ok: "apply_commit H (sb_csum_type sb) c raw = Ok img"
    and val: "superblock_validate (committed c sb\<lparr>sb_bytenr := off\<rparr>) = Ok ()"
  shows "\<exists>copy cs. copy = committed_copy H (sb_csum_type sb) (write_backup img (co_generation c) roots) off \<and>
    superblock_parse_at H copy off = Ok (committed c sb\<lparr>sb_bytenr := off, sb_csum := cs\<rparr>) \<and>
    slice (backup_slot_offset (co_generation c)) 168 copy = backup_bytes roots \<and>
    (\<forall>g. backup_slot g \<noteq> backup_slot (co_generation c) \<longrightarrow>
       slice (backup_slot_offset g) 168 copy = slice (backup_slot_offset g) 168 raw)"
proof -
  define t where "t = sb_csum_type sb"
  let ?g = "co_generation c" and ?s = "backup_slot_offset (co_generation c)"
  have p: "super_marked t raw" "sb = super_fields t raw" "refuse_unreadable_incompat (sb_incompat_flags sb) = Ok ()"
    using sb unfolding superblock_parse_Ok [OF l] t_def by blast+
  note cf = commit_fields [OF p(1), of c]
  have img: "img = stamp_super H t (commit_bytes c raw)" using ok by (auto simp: apply_commit_def t_def split: if_splits)
  obtain cs1 where i: "super_marked t img" "super_fields t img = committed c sb\<lparr>sb_csum := cs1\<rparr>"
    using stamp_fields [OF cf(1) H] unfolding img cf(2) p(2) by blast
  let ?w = "write_backup img ?g roots"
  have w: "super_marked t ?w" "super_fields t ?w = committed c sb\<lparr>sb_csum := cs1\<rparr>"
    using backup_fields [OF i(1)] i(2) by simp_all
  have comm: "committed c sb\<lparr>sb_csum := cs1, sb_bytenr := off\<rparr> = committed c sb\<lparr>sb_bytenr := off, sb_csum := cs1\<rparr>" by simp
  have "sb_incompat_flags (committed c sb) = sb_incompat_flags sb" by (simp add: committed_def Let_def)
  then have ref: "refuse_unreadable_incompat (sb_incompat_flags (super_fields t ?w)) = Ok ()" using p(3) by (simp add: w(2))
  have "superblock_validate (super_fields t ?w\<lparr>sb_bytenr := off\<rparr>) = Ok ()" unfolding w(2) comm validate_unread by (rule val)
  note committed_copy_parses [OF H w(1) ref this]
  then obtain cs where parse: "superblock_parse_at H (committed_copy H t ?w off) off = Ok (committed c sb\<lparr>sb_bytenr := off, sb_csum := cs\<rparr>)"
    unfolding w(2) by auto
  obtain ring where r: "ring_is ring raw" using ring_exists [OF l] by blast
  have ri: "ring_is ring img" unfolding img by (intro ring_stamp [OF H] ring_commit_bytes r)
  have len: "length img = 4096" "?s + 168 \<le> 4096" using super_marked_length [OF i(1)] backup_slot_range [of ?g] by simp_all
  obtain ring' where r': "ring_is ring' ?w" using ring_exists super_marked_length [OF w(1)] by blast
  then have rc: "ring_is ring' (committed_copy H t ?w off)"
    unfolding committed_copy_def set_bytenr_def by (intro ring_stamp [OF H] ring_put64) simp_all
  have to_w: "slice (backup_slot_offset g) 168 (committed_copy H t ?w off) = slice (backup_slot_offset g) 168 ?w" for g
    unfolding backup_slot_offset_def ring_slice [OF rc] ring_slice [OF r'] ..
  have here: "slice ?s 168 ?w = backup_bytes roots"
    unfolding write_backup_def using len by (intro slice_put_same) simp_all
  have others: "slice (backup_slot_offset g) 168 ?w = slice (backup_slot_offset g) 168 raw" if "backup_slot g \<noteq> backup_slot ?g" for g
  proof -
    have "backup_slot_offset g + 168 \<le> ?s \<or> ?s + 168 \<le> backup_slot_offset g"
      using that by (simp add: backup_slot_offset_def) linarith
    then have "slice (backup_slot_offset g) 168 ?w = slice (backup_slot_offset g) 168 img"
      unfolding write_backup_def using len by (intro slice_put_disjoint) simp_all
    then show ?thesis unfolding backup_slot_offset_def ring_slice [OF ri] ring_slice [OF r] .
  qed
  have rest: "\<forall>g. backup_slot g \<noteq> backup_slot ?g \<longrightarrow>
      slice (backup_slot_offset g) 168 (committed_copy H t ?w off) = slice (backup_slot_offset g) 168 raw"
    unfolding to_w using others by blast
  show ?thesis
    unfolding t_def [symmetric]
    by (rule exI [of _ "committed_copy H t ?w off"], intro exI [of _ cs] conjI refl parse rest) (simp only: to_w here)
qed

section \<open>A label that is set\<close>

lemma takeWhile_label: "0 \<notin> set label \<Longrightarrow> takeWhile (\<lambda>b. b \<noteq> 0) (label @ replicate n 0) = (label :: bytes)"
  by (induction label) (auto simp: takeWhile_eq_Nil_iff)

lemma label_fields:
  assumes m: "super_marked t raw" and lab: "length label \<le> 255" "0 \<notin> set label"
  shows "super_marked t (label_bytes label raw)" and "super_fields t (label_bytes label raw) = super_fields t raw\<lparr>sb_label := label\<rparr>"
proof -
  have l: "length raw = 4096" using super_marked_length [OF m] .
  define field where "field = label @ replicate (256 - length label) 0"
  have len: "length field = 256" using lab(1) by (simp add: field_def)
  have e: "label_bytes label raw = put_at O_LABEL field raw"
    using lab(1) l by (simp add: label_bytes_def put_at_def field_def drop_replicate take_replicate min_def)
  show "super_marked t (label_bytes label raw)" unfolding e using len by (intro super_marked_put m) simp_all
  have t: "takeWhile (\<lambda>b. b \<noteq> 0) field = label" unfolding field_def by (rule takeWhile_label [OF lab(2)])
  show "super_fields t (label_bytes label raw) = super_fields t raw\<lparr>sb_label := label\<rparr>"
    unfolding e using super_marked_slice [OF m, of O_LABEL field] len
    by (simp add: super_fields_def dev_fields_def byte_simps l t)
qed

lemma write_label_append:
  "write_label H B t label (xs @ [x]) d =
     (case write_label H B t label xs d of (Inl e, d) \<Rightarrow> (Err e, d) | (Inr _, d) \<Rightarrow> write_label H B t label [x] d)"
  by (induction xs arbitrary: d) (auto split: sum.split)

definition super_at :: "('d \<Rightarrow> nat \<Rightarrow> u8) \<Rightarrow> 'd \<Rightarrow> u64 \<Rightarrow> bytes" where
  "super_at cont d off = map (\<lambda>i. cont d (unat off + i)) [0..<SUPER_INFO_SIZE]"

lemma super_at_overwrite: "cont d' = overwrite (unat off) raw f \<Longrightarrow> length raw = 4096 \<Longrightarrow> super_at cont d' off = raw"
  by (rule nth_equalityI) (simp_all add: super_at_def overwrite_def)

text \<open>The label that was set is the label of the primary copy, of which nothing else changes.\<close>

lemma set_label_primary:
  assumes lib: "wf_block_lib B cont" and H: "wf_hash_lib H" and big: "0x11000 \<le> bl_size B d"
    and ok: "set_label H B label d = (Ok (), d')"
  shows "\<exists>sb cs. superblock_parse_at H (super_at cont d SUPER_INFO_OFFSET) SUPER_INFO_OFFSET = Ok sb \<and>
    superblock_parse_at H (super_at cont d' SUPER_INFO_OFFSET) SUPER_INFO_OFFSET = Ok (sb\<lparr>sb_label := label, sb_csum := cs\<rparr>)"
proof -
  have rd: "bl_read B d off 4096 = Ok b \<Longrightarrow> b = super_at cont d off" for off b
    using lib by (simp add: wf_block_lib_def super_at_def)
  let ?raw = "super_at cont d SUPER_INFO_OFFSET"
  have lab: "length label \<le> 255" "0 \<notin> set label" using ok by (auto simp: set_label_def split: if_splits)
  have bad: "\<not> (255 < length label \<or> 0 \<in> set label)" using lab by simp
  obtain raw sb found where r0: "bl_read B d SUPER_INFO_OFFSET 4096 = Ok raw"
    and sb0: "superblock_parse_at H raw SUPER_INFO_OFFSET = Ok sb"
    and found: "label_copies H B d (sb_fsid sb) SUPER_OFFSETS = Ok found"
    and w: "write_label H B (sb_csum_type sb) label (rev found) d = (Ok (), d')"
    using ok unfolding set_label_def if_not_P [OF bad] by (auto simp: try_in_eq_Ok split: if_splits sum.splits)
  note r = r0 [unfolded rd [OF r0]] and sb = sb0 [unfolded rd [OF r0]]
  have parse: "superblock_parse H ?raw = Ok sb" "sb_bytenr sb = SUPER_INFO_OFFSET"
    using sb by (auto simp: superblock_parse_at_def try_in_eq_Ok split: if_splits)
  have off: "SUPER_OFFSETS = SUPER_INFO_OFFSET # [0x4000000, 0x4000000000]" by (simp add: SUPER_OFFSETS_def)
  have fits: "\<not> bl_size B d < 69632" using big by (simp add: not_less)
  obtain rest where "found = (SUPER_INFO_OFFSET, ?raw) # rest"
    using found fits r parse unfolding off label_copies.simps(2) [of H B d "sb_fsid sb" SUPER_INFO_OFFSET]
    by (auto simp: try_in_eq_Ok)
  then obtain d1 where w1: "write_label H B (sb_csum_type sb) label [(SUPER_INFO_OFFSET, ?raw)] d1 = (Ok (), d')"
    using w by (auto simp: write_label_append split: sum.splits prod.splits)
  let ?new = "stamp_super H (sb_csum_type sb) (label_bytes label ?raw)"
  obtain d2 where d2: "bl_write B d1 SUPER_INFO_OFFSET ?new = Ok d2" "bl_flush B d2 = Ok d'"
    using w1 by (auto split: sum.splits)
  have l: "length ?raw = 4096" by (simp add: super_at_def)
  have p: "super_marked (sb_csum_type sb) ?raw" "sb = super_fields (sb_csum_type sb) ?raw"
    "refuse_unreadable_incompat (sb_incompat_flags sb) = Ok ()" "superblock_validate sb = Ok ()"
    using parse(1) unfolding superblock_parse_Ok [OF l] by blast+
  note lf = label_fields [OF p(1) lab, unfolded p(2) [symmetric]]
  have "superblock_validate (sb\<lparr>sb_label := label\<rparr>) = Ok ()"
    using p(4) by (simp only: validate_unread)
  then obtain cs where new: "superblock_parse H ?new = Ok (sb\<lparr>sb_label := label, sb_csum := cs\<rparr>)"
    using stamped_parses [OF lf(1) H] p(3) unfolding lf(2) by auto
  have "super_at cont d' SUPER_INFO_OFFSET = ?new"
    using lib d2 super_marked_length [OF stamp_fields(1) [OF lf(1) H]]
    by (intro super_at_overwrite [of cont d' SUPER_INFO_OFFSET ?new "cont d1"]) (auto simp: wf_block_lib_def)
  then show ?thesis using sb new parse(2) by (auto simp: superblock_parse_at_def)
qed

section \<open>A superblock that is committed to\<close>

definition demo_commit :: commit where
  "demo_commit = \<lparr>co_generation = 8, co_root = 12582912, co_root_level = None, co_bytes_used = Some 16384, co_chunk_root = None,
     co_chunk_root_generation = None, co_invalidate_free_space_tree = True\<rparr>"

definition demo_roots :: backup_roots where
  "demo_roots = \<lparr>bk_tree = \<lparr>br_bytenr = 12582912, br_generation = 8, br_level = 0\<rparr>, bk_chunk = no_root, bk_extent = no_root,
     bk_fs = no_root, bk_dev = no_root, bk_csum = no_root, bk_total_bytes = 134217728, bk_bytes_used = 16384, bk_num_devices = 1\<rparr>"

lemma demo_committed_valid:
  assumes sb: "superblock_parse zero_hash (mini_super 0x10000 7) = Ok sb"
  shows "superblock_validate (committed demo_commit sb\<lparr>sb_bytenr := 0x4000000\<rparr>) = Ok ()"
proof -
  let ?b = "mini_super 0x10000 7"
  have l: "length ?b = 4096" by simp
  have p: "sb = super_fields (sb_csum_type sb) ?b" "superblock_validate sb = Ok ()"
    using sb unfolding superblock_parse_Ok [OF l] by blast+
  have b: "le32 ?b O_SECTORSIZE = 4096" "le32 ?b O_NODESIZE = 16384" "le32 ?b O_STRIPESIZE = 4096"
    "le64 ?b O_NUM_DEVICES = 1" "le64 ?b O_TOTAL_BYTES = 134217728" "le64 ?b O_CHUNK_ROOT = 4194304"
    "le64 ?b O_LOG_ROOT = 0" "le32 ?b O_SYS_CHUNK_ARRAY_SIZE = 97" "?b ! O_ROOT_LEVEL = 0" "?b ! O_CHUNK_ROOT_LEVEL = 0" "?b ! O_LOG_ROOT_LEVEL = 0"
    by (simp_all add: mini_super_def byte_simps)
  have r: "sb_sectorsize sb = 4096" "sb_nodesize sb = 16384" "sb_stripesize sb = 4096" "sb_num_devices sb = 1"
    "sb_total_bytes sb = 134217728" "sb_chunk_root sb = 4194304" "sb_log_root sb = 0" "sb_sys_chunk_array_size sb = 97"
    "sb_root_level sb = 0" "sb_chunk_root_level sb = 0" "sb_log_root_level sb = 0"
    by (subst p(1), simp add: super_fields_def b)+
  have "validate_device_identity sb = Ok ()" using p(2) by (simp add: superblock_validate_def try_in_eq_Ok)
  then have "validate_device_identity (committed demo_commit sb\<lparr>sb_bytenr := 0x4000000\<rparr>) = Ok ()"
    by (auto simp: validate_device_identity_def node_uuid_def committed_def demo_commit_def split: if_splits)
  then show ?thesis
    by (simp add: superblock_validate_def validate_geometry_def validate_tree_roots_def validate_sys_chunk_array_def
        committed_def demo_commit_def or_keep_def SUPER_OFFSETS_def is_multiple_of_def is_power_of_two_4096 r)
qed

theorem commit_superblock_parses_witness:
  "\<exists>sb img copy. superblock_parse zero_hash (mini_super 0x10000 7) = Ok sb \<and>
     apply_commit zero_hash (sb_csum_type sb) demo_commit (mini_super 0x10000 7) = Ok img \<and>
     copy = committed_copy zero_hash (sb_csum_type sb) (write_backup img 8 demo_roots) 0x4000000 \<and>
     is_ok (superblock_parse_at zero_hash copy 0x4000000) \<and>
     slice (backup_slot_offset 8) 168 copy = backup_bytes demo_roots"
proof -
  obtain sb where sb: "superblock_parse zero_hash (mini_super 0x10000 7) = Ok sb"
    using mini_super_parse [of "0x10000" 7] by (auto simp: SUPER_OFFSETS_def)
  obtain img where img: "apply_commit zero_hash (sb_csum_type sb) demo_commit (mini_super 0x10000 7) = Ok img"
    by (simp add: apply_commit_def)
  have g: "co_generation demo_commit = 8" by (simp add: demo_commit_def)
  show ?thesis
    using commit_superblock_parses [OF zero_hash_wf _ sb img demo_committed_valid [OF sb], of demo_roots] sb img
    unfolding g by auto
qed

end
