(* ===== verification/Spec2Isabelle.thy ===== *)
theory Spec2Isabelle
  imports Filesystem StripeWrite DirItems BlockGroup Compression Verity Csum FileRead FileRange Backref InPlace SuperWrite
begin

text \<open>
  Verification library for the btrfs driver in \<open>src/src\<close>.

  The driver reads the superblock, bootstraps the logical-to-physical chunk map from the array
  in it, and then reads trees through that map; everything else (directories, files, extents,
  writing) is built on the trees.
\<close>

end
